(* ===== verification/Prelude.thy ===== *)
theory Prelude
  imports Main "HOL-Library.Multiset"
begin

text \<open>
  Shared ground of the development: the part of the Rust language and of its standard
  library that the modelled modules use. It holds
  \<^item> unsigned 64-bit arithmetic (\<open>u64\<close>, and \<open>usize\<close> on the supported 64-bit targets) on
    \<open>nat\<close> with the overflow behaviour written out: checked, saturating and wrapping;
  \<^item> \<open>Result\<close> as a sum type with the error on the left, and the \<open>?\<close> operator as \<open>and_then\<close>;
  \<^item> byte strings: a Rust \<open>str\<close> is its list of UTF-8 bytes, \<open>is_char_boundary\<close> and
    \<open>chars\<close> are computed from the bytes as the standard library does;
  \<^item> decimal printing and \<open>str::parse\<close> of unsigned integers, with their round trip;
  \<^item> process environment variables, as \<open>std::env::var\<close> reports them;
  \<^item> eviction from the front of a queue, and invariants of step functions, as locales.
\<close>

section \<open>Collections of rules\<close>

named_theorems rust_arith \<open>definitions of the integer operations\<close>
named_theorems rust_result \<open>rewrite rules for results and early returns\<close>

section \<open>Unsigned 64-bit arithmetic\<close>

type_synonym u64 = nat
type_synonym usize = nat

definition u64_max :: nat where
  "u64_max = 18446744073709551615"

definition checked_add :: "u64 \<Rightarrow> u64 \<Rightarrow> u64 option" where
  "checked_add a b = (if a + b \<le> u64_max then Some (a + b) else None)"

definition saturating_add :: "u64 \<Rightarrow> u64 \<Rightarrow> u64" where
  "saturating_add a b = min (a + b) u64_max"

definition saturating_sub :: "u64 \<Rightarrow> u64 \<Rightarrow> u64" where
  "saturating_sub a b = a - b"

text \<open>The operators \<open>+\<close> and \<open>-\<close> of the release profile, which has no overflow checks: they wrap.\<close>

definition wrapping_add :: "u64 \<Rightarrow> u64 \<Rightarrow> u64" where
  "wrapping_add a b = (a + b) mod (u64_max + 1)"

definition wrapping_sub :: "u64 \<Rightarrow> u64 \<Rightarrow> u64" where
  "wrapping_sub a b = (if b \<le> a then a - b else u64_max + 1 + a - b)"

lemma u64_max_pos [simp]: "0 < u64_max"
  by (simp add: u64_max_def)

lemma checked_add_Some_iff [rust_arith]:
  "checked_add a b = Some c \<longleftrightarrow> a + b \<le> u64_max \<and> c = a + b"
  by (auto simp: checked_add_def)

lemma checked_add_None_iff [rust_arith]: "checked_add a b = None \<longleftrightarrow> u64_max < a + b"
  by (auto simp: checked_add_def)

lemma wrapping_sub_exact [simp]: "b \<le> a \<Longrightarrow> wrapping_sub a b = a - b"
  by (simp add: wrapping_sub_def)

lemma wrapping_add_exact [simp]: "a + b \<le> u64_max \<Longrightarrow> wrapping_add a b = a + b"
  by (simp add: wrapping_add_def)

lemma saturating_add_exact: "a + b \<le> u64_max \<Longrightarrow> saturating_add a b = a + b"
  by (simp add: saturating_add_def)

lemma saturating_add_le: "saturating_add a b \<le> a + b"
  by (simp add: saturating_add_def)

lemma saturating_add_le_max: "saturating_add a b \<le> u64_max"
  by (simp add: saturating_add_def)

text \<open>Rust's \<open>fold(0, saturating_add)\<close> over sizes: the true sum, clamped.\<close>

definition saturating_sum :: "('a \<Rightarrow> nat) \<Rightarrow> 'a list \<Rightarrow> nat" where
  "saturating_sum f xs = foldl (\<lambda>total x. saturating_add total (f x)) 0 xs"

lemma saturating_foldl:
  "a \<le> u64_max \<Longrightarrow>
   foldl (\<lambda>total x. saturating_add total (f x)) a xs = min (a + sum_list (map f xs)) u64_max"
  by (induction xs arbitrary: a) (auto simp: saturating_add_def min_def)

lemma saturating_sum_eq: "saturating_sum f xs = min (sum_list (map f xs)) u64_max"
  by (simp add: saturating_sum_def saturating_foldl)

section \<open>Results and early returns\<close>

type_synonym ('e, 'a) result = "'e + 'a"

fun and_then :: "('e, 'a) result \<Rightarrow> ('a \<Rightarrow> ('e, 'b) result) \<Rightarrow> ('e, 'b) result" where
  "and_then (Inl e) k = Inl e"
| "and_then (Inr a) k = k a"

definition ensure :: "bool \<Rightarrow> 'e \<Rightarrow> ('e, unit) result" where
  "ensure b e = (if b then Inr () else Inl e)"

definition is_ok :: "('e, 'a) result \<Rightarrow> bool" where
  "is_ok r = (case r of Inl _ \<Rightarrow> False | Inr _ \<Rightarrow> True)"

text \<open>A \<open>for\<close> loop whose body may return early with an error.\<close>

fun try_each :: "('a \<Rightarrow> ('e, unit) result) \<Rightarrow> 'a list \<Rightarrow> ('e, unit) result" where
  "try_each f [] = Inr ()"
| "try_each f (x # xs) = and_then (f x) (\<lambda>_. try_each f xs)"

lemma and_then_Inr_iff [rust_result]:
  "and_then r k = Inr b \<longleftrightarrow> (\<exists>a. r = Inr a \<and> k a = Inr b)"
  by (cases r) auto

lemma and_then_Inl_iff [rust_result]:
  "and_then r k = Inl e \<longleftrightarrow> r = Inl e \<or> (\<exists>a. r = Inr a \<and> k a = Inl e)"
  by (cases r) auto

lemma ensure_Inr_iff [rust_result]: "ensure b e = Inr u \<longleftrightarrow> b"
  by (simp add: ensure_def)

lemma ensure_Inl_iff [rust_result]: "ensure b e = Inl e' \<longleftrightarrow> \<not> b \<and> e = e'"
  by (auto simp: ensure_def)

lemma is_ok_simps [simp]: "is_ok (Inr a)" "\<not> is_ok (Inl e)"
  by (simp_all add: is_ok_def)

lemma is_ok_iff: "is_ok r \<longleftrightarrow> (\<exists>a. r = Inr a)"
  by (cases r) auto

lemma try_each_Inr_iff [rust_result]:
  "try_each f xs = Inr u \<longleftrightarrow> (\<forall>x \<in> set xs. f x = Inr ())"
  by (induction xs) (auto simp: and_then_Inr_iff)

lemma try_each_Inl_D:
  "try_each f xs = Inl e \<Longrightarrow> \<exists>x \<in> set xs. f x = Inl e"
  by (induction xs) (auto simp: and_then_Inl_iff)

section \<open>Errors\<close>

text \<open>
  \<open>IronCrewError\<close> of \<open>utils/error.rs\<close>, with the variants the modelled modules raise or
  inspect. Messages are kept; a wrapped third-party error is its rendered text. A Lua
  error carries the chain of parents that \<open>allows_task_retry\<close> walks.
\<close>

datatype budget_error =
    Configuration | Exhausted | Unsupported | BoundViolated | CountingFailed

datatype iron_error =
    TokenBudget budget_error
  | ValidationIncomplete string
  | Provider string
  | EmptyProviderResponse
  | ProviderRequestTooLarge string nat nat
  | ToolExecution string string
  | LuaError "lua_error list"
  | TaskError string string
  | Validation string
  | Conflict string
  | OwnerDraining string
  | Io string
  | Http string
  | Mcp string string
and lua_error =
    LuaBudget budget_error
  | LuaWrapped iron_error
  | LuaOther string

text \<open>
  The loop over \<open>error.parent()\<close> is a recursion over the chain; the recursive call on a
  wrapped \<open>IronCrewError\<close> is the \<open>downcast_ref\<close> test.
\<close>

fun allows_task_retry :: "iron_error \<Rightarrow> bool"
and lua_allows_task_retry :: "lua_error \<Rightarrow> bool"
where
  "allows_task_retry (LuaError chain) = list_all lua_allows_task_retry chain"
| "allows_task_retry EmptyProviderResponse = False"
| "allows_task_retry (TokenBudget e) = False"
| "allows_task_retry _ = True"
| "lua_allows_task_retry (LuaBudget e) = False"
| "lua_allows_task_retry (LuaWrapped e) = allows_task_retry e"
| "lua_allows_task_retry (LuaOther s) = True"

section \<open>Byte strings\<close>

text \<open>
  A Rust \<open>str\<close> is the list of its UTF-8 bytes. A byte of the form \<open>10xxxxxx\<close> continues a
  character; the standard library decides \<open>is_char_boundary\<close> by that test, and \<open>chars\<close> walks
  from one leading byte to the next. A character is the list of its bytes.
\<close>

definition byte :: "char \<Rightarrow> nat" where
  "byte c = of_char c"

definition is_cont :: "char \<Rightarrow> bool" where
  "is_cont c = (128 \<le> byte c \<and> byte c < 192)"

function chars_of :: "string \<Rightarrow> string list" where
  "chars_of [] = []"
| "chars_of (c # cs) = (c # takeWhile is_cont cs) # chars_of (dropWhile is_cont cs)"
  by pat_completeness auto
termination
  by (relation "measure length") (auto simp: le_imp_less_Suc length_dropWhile_le)

definition char_count :: "string \<Rightarrow> nat" where
  "char_count s = length (chars_of s)"

definition is_char_boundary :: "string \<Rightarrow> nat \<Rightarrow> bool" where
  "is_char_boundary s i =
     (if i = 0 then True else if length s \<le> i then i = length s else \<not> is_cont (s ! i))"

text \<open>The loop \<open>while boundary > 0 && !is_char_boundary(boundary) { boundary -= 1 }\<close>.\<close>

fun char_floor :: "string \<Rightarrow> nat \<Rightarrow> nat" where
  "char_floor s 0 = 0"
| "char_floor s (Suc n) = (if is_char_boundary s (Suc n) then Suc n else char_floor s n)"

lemma concat_chars_of [simp]: "concat (chars_of s) = s"
  by (induction s rule: chars_of.induct) auto

lemma chars_of_Nil_iff [simp]: "chars_of s = [] \<longleftrightarrow> s = []"
  by (cases s) auto

lemma chars_of_nonempty: "x \<in> set (chars_of s) \<Longrightarrow> x \<noteq> []"
  by (induction s rule: chars_of.induct) auto

lemma char_floor_le: "char_floor s n \<le> n"
  by (induction n) auto

lemma char_floor_boundary: "is_char_boundary s (char_floor s n)"
  by (induction n) (auto simp: is_char_boundary_def)

text \<open>
  Well-formed UTF-8 by the shape of each character: the leading byte determines how many
  continuation bytes follow.
\<close>

definition utf8_char :: "string \<Rightarrow> bool" where
  "utf8_char x = (case x of [] \<Rightarrow> False | c # cs \<Rightarrow>
     list_all is_cont cs \<and>
     (byte c < 128 \<and> cs = [] \<or>
      194 \<le> byte c \<and> byte c < 224 \<and> length cs = 1 \<or>
      224 \<le> byte c \<and> byte c < 240 \<and> length cs = 2 \<or>
      240 \<le> byte c \<and> byte c < 245 \<and> length cs = 3))"

definition utf8 :: "string \<Rightarrow> bool" where
  "utf8 s = list_all utf8_char (chars_of s)"

lemma skip_none_take:
  "(r \<noteq> [] \<Longrightarrow> \<not> P (hd r)) \<Longrightarrow>
   takeWhile P (take j r) = [] \<and> dropWhile P (take j r) = take j r"
  by (cases r; cases j) auto

lemma chars_of_take_boundary:
  "is_char_boundary s i \<Longrightarrow> \<exists>n. chars_of (take i s) = take n (chars_of s)"
proof (induction s arbitrary: i rule: chars_of.induct)
  case 1
  then show ?case by simp
next
  case (2 c cs)
  let ?k = "length (takeWhile is_cont cs)"
  show ?case
  proof (cases "i \<le> ?k")
    case True
    have "i = 0"
    proof (rule ccontr)
      assume "i \<noteq> 0"
      then obtain j where j: "i = Suc j" by (cases i) auto
      with True have lt: "j < ?k" by simp
      then have "is_cont (takeWhile is_cont cs ! j)"
        by (meson nth_mem set_takeWhileD)
      with lt have "is_cont (cs ! j)" by (simp add: takeWhile_nth)
      moreover have "j < length cs"
        using lt length_takeWhile_le [of is_cont cs] by linarith
      ultimately show False
        using "2.prems" j by (simp add: is_char_boundary_def)
    qed
    then show ?thesis by (intro exI [of _ 0]) simp
  next
    case False
    define j where "j = i - Suc ?k"
    have i: "i = Suc (?k + j)" using False by (simp add: j_def)
    have split: "cs = takeWhile is_cont cs @ dropWhile is_cont cs" by simp
    have tk: "take i (c # cs) = c # takeWhile is_cont cs @ take j (dropWhile is_cont cs)"
      by (subst split) (simp add: i del: takeWhile_dropWhile_id)
    have bd: "is_char_boundary (dropWhile is_cont cs) j"
    proof -
      have len: "length cs = ?k + length (dropWhile is_cont cs)"
        by (metis length_append takeWhile_dropWhile_id)
      have nth: "cs ! (?k + j) = dropWhile is_cont cs ! j"
        by (metis nth_append_length_plus takeWhile_dropWhile_id)
      show ?thesis using "2.prems" by (auto simp: is_char_boundary_def i len nth split: if_splits)
    qed
    then obtain n where n: "chars_of (take j (dropWhile is_cont cs)) =
        take n (chars_of (dropWhile is_cont cs))"
      using "2.IH" by blast
    have hd: "takeWhile is_cont (take j (dropWhile is_cont cs)) = []"
      and hd': "dropWhile is_cont (take j (dropWhile is_cont cs)) = take j (dropWhile is_cont cs)"
      using hd_dropWhile [of is_cont cs] by (metis (no_types) skip_none_take)+
    have all: "\<forall>x \<in> set (takeWhile is_cont cs). is_cont x"
      by (auto dest: set_takeWhileD)
    have "chars_of (take i (c # cs)) =
        (c # takeWhile is_cont cs) # chars_of (take j (dropWhile is_cont cs))"
      unfolding tk using all hd hd' by (simp add: takeWhile_append2 dropWhile_append2)
    then show ?thesis by (intro exI [of _ "Suc n"]) (simp add: n)
  qed
qed

lemma utf8_take_boundary: "utf8 s \<Longrightarrow> is_char_boundary s i \<Longrightarrow> utf8 (take i s)"
  unfolding utf8_def list_all_iff
  by (metis chars_of_take_boundary in_set_takeD)

section \<open>Decimal numerals\<close>

definition digit :: "nat \<Rightarrow> char" where
  "digit d = char_of (48 + d)"

definition is_ascii_digit :: "char \<Rightarrow> bool" where
  "is_ascii_digit c = (48 \<le> byte c \<and> byte c \<le> 57)"

text \<open>\<open>to_string\<close> of an unsigned integer.\<close>

fun dec :: "nat \<Rightarrow> string" where
  "dec n = (if n < 10 then [digit n] else dec (n div 10) @ [digit (n mod 10)])"

declare dec.simps [simp del]

definition dec_val :: "string \<Rightarrow> nat" where
  "dec_val s = foldl (\<lambda>a c. a * 10 + (byte c - 48)) 0 s"

text \<open>
  \<open>str::parse\<close> at an unsigned integer type with the given maximum: one optional plus sign,
  then at least one digit, and no overflow.
\<close>

definition parse_uint :: "nat \<Rightarrow> string \<Rightarrow> nat option" where
  "parse_uint limit s =
     (let ds = (case s of [] \<Rightarrow> [] | c # cs \<Rightarrow> if c = CHR ''+'' then cs else c # cs)
      in if ds \<noteq> [] \<and> list_all is_ascii_digit ds \<and> dec_val ds \<le> limit then Some (dec_val ds) else None)"

lemma byte_digit [simp]: "d < 10 \<Longrightarrow> byte (digit d) = 48 + d"
  by (simp add: byte_def digit_def)

lemma digit_byte: "is_ascii_digit c \<Longrightarrow> digit (byte c - 48) = c"
  by (simp add: byte_def digit_def is_ascii_digit_def)

lemma is_ascii_digit_digit [simp]: "d < 10 \<Longrightarrow> is_ascii_digit (digit d)"
  by (simp add: is_ascii_digit_def)

lemma dec_val_snoc [simp]: "dec_val (s @ [c]) = dec_val s * 10 + (byte c - 48)"
  by (simp add: dec_val_def)

lemma dec_nonempty [simp]: "dec n \<noteq> []"
  by (subst dec.simps) simp

lemma dec_digits: "list_all is_ascii_digit (dec n)"
proof (induction n rule: dec.induct)
  case (1 n)
  then show ?case by (subst dec.simps) auto
qed

lemma dec_val_dec [simp]: "dec_val (dec n) = n"
proof (induction n rule: dec.induct)
  case (1 n)
  show ?case
  proof (cases "n < 10")
    case True
    then show ?thesis by (subst dec.simps) (simp add: dec_val_def)
  next
    case False
    with "1" show ?thesis by (subst dec.simps) simp
  qed
qed

lemma dec_hd_zero: "hd (dec n) = CHR ''0'' \<longleftrightarrow> n = 0"
proof (induction n rule: dec.induct)
  case (1 n)
  have zero: "CHR ''0'' = digit 0"
    using digit_byte [of "CHR ''0''"] by (simp add: is_ascii_digit_def byte_def)
  show ?case
  proof (cases "n < 10")
    case True
    then have "hd (dec n) = digit n" by (subst dec.simps) simp
    moreover have "digit n = digit 0 \<longleftrightarrow> n = 0"
      using byte_digit [of n] byte_digit [of 0] True by (metis add_left_cancel zero_less_numeral)
    ultimately show ?thesis by (simp add: zero)
  next
    case False
    then have "hd (dec n) = hd (dec (n div 10))"
      using dec.simps [of n] by (simp add: hd_append)
    with "1" False show ?thesis by simp
  qed
qed

lemma dec_single: "length (dec n) = 1 \<longleftrightarrow> n < 10"
proof -
  have "length (dec n) = (if n < 10 then 1 else Suc (length (dec (n div 10))))"
    by (subst dec.simps) simp
  moreover have "length (dec (n div 10)) \<noteq> 0" by simp
  ultimately show ?thesis by auto
qed

lemma parse_uint_dec: "n \<le> limit \<Longrightarrow> parse_uint limit (dec n) = Some n"
proof -
  assume le: "n \<le> limit"
  obtain c cs where d: "dec n = c # cs" by (cases "dec n") auto
  with dec_digits [of n] have "c \<noteq> CHR ''+''" by (auto simp: is_ascii_digit_def byte_def)
  with le d dec_digits [of n] dec_val_dec [of n] show ?thesis
    by (simp add: parse_uint_def)
qed

text \<open>A digit string without a superfluous leading zero is the numeral of its value.\<close>

lemma dec_dec_val:
  "s \<noteq> [] \<Longrightarrow> list_all is_ascii_digit s \<Longrightarrow> (1 < length s \<Longrightarrow> hd s \<noteq> CHR ''0'') \<Longrightarrow>
   dec (dec_val s) = s"
proof (induction s rule: rev_induct)
  case Nil
  then show ?case by simp
next
  case (snoc c s)
  have c: "is_ascii_digit c" using snoc.prems by simp
  then have lt: "byte c - 48 < 10" by (auto simp: is_ascii_digit_def)
  show ?case
  proof (cases "s = []")
    case True
    with c lt show ?thesis
      by (subst dec.simps) (simp add: dec_val_def digit_byte)
  next
    case False
    have IH: "dec (dec_val s) = s"
      using snoc False by (cases s) auto
    have "hd s \<noteq> CHR ''0''"
      using snoc.prems(3) False by (cases s) auto
    with IH have "dec_val s \<noteq> 0" using dec_hd_zero [of "dec_val s"] by auto
    moreover have "dec_val (s @ [c]) div 10 = dec_val s"
      and "dec_val (s @ [c]) mod 10 = byte c - 48"
      using lt by simp_all
    ultimately show ?thesis
      using c by (subst dec.simps) (simp add: IH digit_byte)
  qed
qed

section \<open>Splitting, trimming and comparing strings\<close>

text \<open>\<open>str::split\<close> at one ASCII character: one piece more than there are separators.\<close>

fun split_on :: "char \<Rightarrow> string \<Rightarrow> string list" where
  "split_on d [] = [[]]"
| "split_on d (c # cs) =
     (if c = d then [] # split_on d cs
      else (case split_on d cs of [] \<Rightarrow> [[c]] | p # ps \<Rightarrow> (c # p) # ps))"

text \<open>\<open>str::splitn\<close>: at most \<open>n\<close> pieces, the last one is the unsplit rest.\<close>

fun splitn_on :: "nat \<Rightarrow> char \<Rightarrow> string \<Rightarrow> string list" where
  "splitn_on 0 d s = []"
| "splitn_on (Suc 0) d s = [s]"
| "splitn_on (Suc (Suc n)) d s =
     (case dropWhile (\<lambda>c. c \<noteq> d) s of
        [] \<Rightarrow> [s]
      | _ # rest \<Rightarrow> takeWhile (\<lambda>c. c \<noteq> d) s # splitn_on (Suc n) d rest)"

text \<open>\<open>char::is_whitespace\<close> (the Unicode property) on the UTF-8 bytes of one character.\<close>

definition is_whitespace :: "string \<Rightarrow> bool" where
  "is_whitespace x =
     (case map byte x of
        [a] \<Rightarrow> 9 \<le> a \<and> a \<le> 13 \<or> a = 32
      | [a, b] \<Rightarrow> a = 194 \<and> (b = 133 \<or> b = 160)
      | [a, b, c] \<Rightarrow>
          a = 225 \<and> b = 154 \<and> c = 128 \<or>
          a = 226 \<and> b = 128 \<and> (128 \<le> c \<and> c \<le> 138 \<or> c = 168 \<or> c = 169 \<or> c = 175) \<or>
          a = 226 \<and> b = 129 \<and> c = 159 \<or>
          a = 227 \<and> b = 128 \<and> c = 128
      | _ \<Rightarrow> False)"

text \<open>\<open>char::is_control\<close>: the category Cc.\<close>

definition is_control :: "string \<Rightarrow> bool" where
  "is_control x =
     (case map byte x of
        [a] \<Rightarrow> a < 32 \<or> a = 127
      | [a, b] \<Rightarrow> a = 194 \<and> 128 \<le> b \<and> b < 160
      | _ \<Rightarrow> False)"

definition strip :: "('a \<Rightarrow> bool) \<Rightarrow> 'a list \<Rightarrow> 'a list" where
  "strip p xs = rev (dropWhile p (rev (dropWhile p xs)))"

definition trim :: "string \<Rightarrow> string" where
  "trim s = concat (strip is_whitespace (chars_of s))"

definition trim_matches :: "char \<Rightarrow> string \<Rightarrow> string" where
  "trim_matches d s = strip (\<lambda>c. c = d) s"

definition to_ascii_lowercase :: "char \<Rightarrow> char" where
  "to_ascii_lowercase c = (if 65 \<le> byte c \<and> byte c \<le> 90 then char_of (byte c + 32) else c)"

definition eq_ignore_ascii_case :: "string \<Rightarrow> string \<Rightarrow> bool" where
  "eq_ignore_ascii_case a b = (map to_ascii_lowercase a = map to_ascii_lowercase b)"

definition is_ascii_alphanumeric :: "char \<Rightarrow> bool" where
  "is_ascii_alphanumeric c =
     (is_ascii_digit c \<or> 65 \<le> byte c \<and> byte c \<le> 90 \<or> 97 \<le> byte c \<and> byte c \<le> 122)"

text \<open>A piece of a message between single quotes.\<close>

definition quoted :: "string \<Rightarrow> string" where
  "quoted s = [CHR 0x27] @ s @ [CHR 0x27]"

definition join_with :: "string \<Rightarrow> string list \<Rightarrow> string" where
  "join_with sep xs = (case xs of [] \<Rightarrow> [] | x # rest \<Rightarrow> x @ concat (map (\<lambda>y. sep @ y) rest))"

lemma split_on_nonempty [simp]: "split_on d s \<noteq> []"
  by (induction s) (auto split: list.splits)

lemma split_on_no_sep: "x \<in> set (split_on d s) \<Longrightarrow> d \<notin> set x"
proof (induction s arbitrary: x)
  case (Cons c cs)
  then show ?case by (cases "split_on d cs") (auto split: if_splits)
qed simp

text \<open>Joining the pieces with the separator restores the string.\<close>

lemma join_split_on: "join_with [d] (split_on d s) = s"
proof (induction s)
  case (Cons c cs)
  then show ?case
    by (cases "split_on d cs") (auto simp: join_with_def split: list.splits)
qed (simp add: join_with_def)

section \<open>JSON values\<close>

text \<open>
  \<open>serde_json::Value\<close>. An object is the association list of its entries (keys are distinct);
  the representation of non-integer numbers is left to the parameter type of the source text.
\<close>

datatype json =
    JNull
  | JBool bool
  | JUint nat
  | JNegInt int
  | JFloat string
  | JString string
  | JArray "json list"
  | JObject "(string \<times> json) list"

definition is_object :: "json \<Rightarrow> bool" where
  "is_object v = (case v of JObject _ \<Rightarrow> True | _ \<Rightarrow> False)"

definition as_u64 :: "json \<Rightarrow> nat option" where
  "as_u64 v = (case v of JUint n \<Rightarrow> if n \<le> u64_max then Some n else None | _ \<Rightarrow> None)"

definition json_get :: "json \<Rightarrow> string \<Rightarrow> json option" where
  "json_get v key = (case v of JObject m \<Rightarrow> map_of m key | _ \<Rightarrow> None)"

text \<open>\<open>Iterator::flatten\<close> over options.\<close>

definition somes :: "'a option list \<Rightarrow> 'a list" where
  "somes xs = List.map_filter (\<lambda>x. x) xs"

lemma somes_simps [simp]:
  "somes [] = []" "somes (None # xs) = somes xs" "somes (Some x # xs) = x # somes xs"
  by (simp_all add: somes_def List.map_filter_simps)

section \<open>Process environment\<close>

datatype env_var = NotPresent | NotUnicode | Present string

type_synonym env = "string \<Rightarrow> env_var"

text \<open>\<open>std::env::var(name).ok()\<close>\<close>

definition env_ok :: "env \<Rightarrow> string \<Rightarrow> string option" where
  "env_ok env name = (case env name of Present s \<Rightarrow> Some s | _ \<Rightarrow> None)"

text \<open>
  The tolerant limit reader that several modules repeat: a positive integer, clamped to
  a hard maximum; anything else falls back to the default.
\<close>

definition positive_limit :: "env \<Rightarrow> string \<Rightarrow> nat \<Rightarrow> nat \<Rightarrow> nat" where
  "positive_limit env name dflt hard_max =
     (case Option.bind (env_ok env name) (parse_uint u64_max) of
        Some v \<Rightarrow> if 0 < v then min v hard_max else dflt
      | None \<Rightarrow> dflt)"

lemma positive_limit_pos: "0 < dflt \<Longrightarrow> 0 < hard_max \<Longrightarrow> 0 < positive_limit env name dflt hard_max"
  by (simp add: positive_limit_def split: option.splits)

lemma positive_limit_le:
  "dflt \<le> hard_max \<Longrightarrow> positive_limit env name dflt hard_max \<le> hard_max"
  by (simp add: positive_limit_def split: option.splits)

text \<open>
  The strict reader: an integer in the given range, the default when the variable is
  absent, an error otherwise.
\<close>

definition bounded_env :: "env \<Rightarrow> string \<Rightarrow> nat \<Rightarrow> nat \<Rightarrow> nat \<Rightarrow> (iron_error, nat) result" where
  "bounded_env env name dflt lo hi =
     (case env name of
        NotUnicode \<Rightarrow> Inl (Validation (name @ '' must contain valid UTF-8''))
      | NotPresent \<Rightarrow>
          (if lo \<le> dflt \<and> dflt \<le> hi then Inr dflt
           else Inl (Validation (name @ '' must be between '' @ dec lo @ '' and '' @ dec hi)))
      | Present s \<Rightarrow>
          (case parse_uint u64_max s of
             None \<Rightarrow> Inl (Validation (name @ '' must be an integer between '' @ dec lo @ '' and '' @ dec hi))
           | Some v \<Rightarrow>
               if lo \<le> v \<and> v \<le> hi then Inr v
               else Inl (Validation (name @ '' must be between '' @ dec lo @ '' and '' @ dec hi))))"

lemma bounded_env_range: "bounded_env env name dflt lo hi = Inr v \<Longrightarrow> lo \<le> v \<and> v \<le> hi"
  by (auto simp: bounded_env_def split: env_var.splits option.splits if_splits)

section \<open>Eviction from the front of a queue\<close>

text \<open>
  The shape \<open>while over(queue) { queue.pop_front(); }\<close>, shared by the message bus and the
  event replay buffer. On the empty queue the loop ends because no budget is exceeded
  there; the locale asks for exactly that.
\<close>

fun evict_front :: "('a list \<Rightarrow> bool) \<Rightarrow> 'a list \<Rightarrow> 'a list" where
  "evict_front over [] = []"
| "evict_front over (x # xs) = (if over (x # xs) then evict_front over xs else x # xs)"

locale front_eviction =
  fixes over :: "'a list \<Rightarrow> bool"
  assumes over_Nil: "\<not> over []"
begin

lemma within: "\<not> over (evict_front over xs)"
  by (induction xs) (auto simp: over_Nil)

lemma unchanged: "\<not> over xs \<Longrightarrow> evict_front over xs = xs"
  by (cases xs) auto

lemma suffix: "\<exists>dropped. xs = dropped @ evict_front over xs"
proof (induction xs)
  case (Cons x xs)
  then obtain d where "xs = d @ evict_front over xs" by blast
  then show ?case by (cases "over (x # xs)") (auto intro: exI [of _ "x # d"])
qed simp

text \<open>No more is dropped than the budget requires.\<close>

lemma longest:
  "xs = dropped @ kept \<Longrightarrow> length (evict_front over xs) < length kept \<Longrightarrow> over kept"
proof (induction xs arbitrary: dropped)
  case (Cons x xs)
  show ?case
  proof (cases dropped)
    case Nil
    with Cons.prems show ?thesis by (auto split: if_splits)
  next
    case (Cons d ds)
    with Cons.prems show ?thesis
      using Cons.IH [of ds] by (auto split: if_splits)
  qed
qed simp

lemma set_subset: "set (evict_front over xs) \<subseteq> set xs"
  using suffix [of xs] by (metis set_append sup_ge2)

end

section \<open>Invariants of step functions\<close>

text \<open>
  A component is a state and a step function on requests. A predicate kept by one step is
  kept by every sequence of steps.
\<close>

locale step_invariant =
  fixes step :: "'s \<Rightarrow> 'e \<Rightarrow> 's"
    and inv :: "'s \<Rightarrow> bool"
  assumes inv_step: "inv s \<Longrightarrow> inv (step s e)"
begin

lemma inv_run: "inv s \<Longrightarrow> inv (foldl step s es)"
  by (induction es arbitrary: s) (auto simp: inv_step)

end

text \<open>Steps that only move upwards in an order move upwards over every run.\<close>

locale step_monotone =
  fixes step :: "'s \<Rightarrow> 'e \<Rightarrow> 's"
    and below :: "'s \<Rightarrow> 's \<Rightarrow> bool"
  assumes below_refl: "below s s"
    and below_trans: "below s t \<Longrightarrow> below t u \<Longrightarrow> below s u"
    and below_step: "below s (step s e)"
begin

lemma below_run: "below s (foldl step s es)"
proof (induction es arbitrary: s)
  case (Cons e es)
  then show ?case using below_trans [OF below_step [of s e]] by simp
qed (simp add: below_refl)

end

end
