(* ===== verification/Task_Graph.thy ===== *)
theory Task_Graph
  imports Complex_Main Prelude "HOL-Library.AList"
begin

text \<open>
  \<open>src/src/engine/task.rs\<close>: the task definition, the validation of its limits, the
  validation of the dependency graph (Kahn's algorithm) and the grouping of tasks into
  execution phases.

  A \<open>HashMap\<close> is an association list with distinct keys. Its iteration order is not
  specified by Rust, so the functions that iterate take it as a parameter \<open>ord\<close>, a
  rearrangement of the key list (\<open>hash_order\<close>); every theorem holds for all of them.
  A panic (\<open>unwrap\<close> of a missing key, subtraction below zero) is \<open>None\<close>; the theorems
  show that it does not happen.
\<close>

section \<open>Floating-point limits\<close>

text \<open>
  Finite \<open>f64\<close> values are rationals, and the code only compares them. Parsing and
  printing of floating-point numbers are parameters.
\<close>

datatype f64 = Finite rat | PosInf | NegInf | NotANumber

fun f64_le :: "f64 \<Rightarrow> f64 \<Rightarrow> bool" where
  "f64_le NotANumber y = False"
| "f64_le x NotANumber = False"
| "f64_le NegInf y = True"
| "f64_le x PosInf = True"
| "f64_le (Finite a) (Finite b) = (a \<le> b)"
| "f64_le x y = False"

definition f64_lt :: "f64 \<Rightarrow> f64 \<Rightarrow> bool" where
  "f64_lt x y = (f64_le x y \<and> x \<noteq> y)"

definition is_finite :: "f64 \<Rightarrow> bool" where
  "is_finite x = (case x of Finite _ \<Rightarrow> True | _ \<Rightarrow> False)"

record float_lib =
  parse_f64 :: "string \<Rightarrow> f64 option"
  show_f64 :: "f64 \<Rightarrow> string"

section \<open>Tasks\<close>

record task =
  t_name :: string
  t_description :: string
  t_agent :: "string option"
  t_expected_output :: "string option"
  t_context :: "string option"
  t_depends_on :: "string list"
  t_max_retries :: "nat option"
  t_retry_backoff_secs :: "f64 option"
  t_timeout_secs :: "nat option"
  t_condition :: "string option"
  t_on_error :: "string option"
  t_task_type :: "string option"
  t_collaborative_agents :: "string list"
  t_max_turns :: "nat option"
  t_foreach_source :: "string option"
  t_foreach_as :: "string option"
  t_foreach_parallel :: bool
  t_stream :: bool
  t_model :: "string option"

definition default_task :: "string \<Rightarrow> string list \<Rightarrow> task" where
  "default_task n ds =
     \<lparr>t_name = n, t_description = [], t_agent = None, t_expected_output = None,
      t_context = None, t_depends_on = ds, t_max_retries = None, t_retry_backoff_secs = None,
      t_timeout_secs = None, t_condition = None, t_on_error = None, t_task_type = None,
      t_collaborative_agents = [], t_max_turns = None, t_foreach_source = None,
      t_foreach_as = None, t_foreach_parallel = False, t_stream = False, t_model = None\<rparr>"

definition u32_max :: nat where
  "u32_max = 4294967295"

text \<open>\<open>env_limit\<close> is generic in the number type: the parser and the order come as arguments.\<close>

definition env_limit ::
  "(string \<Rightarrow> 'n option) \<Rightarrow> ('n \<Rightarrow> 'n \<Rightarrow> bool) \<Rightarrow> env \<Rightarrow> string \<Rightarrow> 'n \<Rightarrow> 'n \<Rightarrow> 'n \<Rightarrow> 'n" where
  "env_limit parse le env name dflt lo hi =
     (case Option.bind (env_ok env name) parse of
        Some v \<Rightarrow> if le lo v \<and> le v hi then v else dflt
      | None \<Rightarrow> dflt)"

definition validate_task_runtime_limits :: "float_lib \<Rightarrow> env \<Rightarrow> task \<Rightarrow> (iron_error, unit) result" where
  "validate_task_runtime_limits lib env task =
    (let max_retries = env_limit (parse_uint u32_max) (\<le>) env ''IRONCREW_MAX_TASK_RETRIES'' 10 0 100 in
     and_then
      (ensure (case t_max_retries task of None \<Rightarrow> True | Some v \<Rightarrow> v \<le> max_retries)
        (Validation (''Task '' @ quoted (t_name task) @ '' max_retries exceeds IRONCREW_MAX_TASK_RETRIES ('' @ dec max_retries @ '')''))) (\<lambda>_.
     and_then
      (case t_retry_backoff_secs task of None \<Rightarrow> Inr ()
       | Some backoff \<Rightarrow>
          (let max_backoff = env_limit (parse_f64 lib) f64_le env ''IRONCREW_MAX_RETRY_BACKOFF_SECS''
                               (Finite 300) (Finite (1 / 2 ^ 52)) (Finite 3600)
           in ensure (\<not> (\<not> is_finite backoff \<or> f64_le backoff (Finite 0) \<or> f64_lt max_backoff backoff))
               (Validation (''Task '' @ quoted (t_name task) @ '' retry_backoff_secs must be finite, greater than 0, and at most ''
                  @ show_f64 lib max_backoff @ '' seconds'')))) (\<lambda>_.
     and_then
      (case t_timeout_secs task of None \<Rightarrow> Inr ()
       | Some timeout \<Rightarrow>
          (let max_timeout = env_limit (parse_uint u64_max) (\<le>) env ''IRONCREW_MAX_TASK_TIMEOUT_SECS'' 86400 1 86400
           in ensure (\<not> (timeout = 0 \<or> max_timeout < timeout))
               (Validation (''Task '' @ quoted (t_name task) @ '' timeout_secs must be between 1 and '' @ dec max_timeout)))) (\<lambda>_.
      (case t_max_turns task of None \<Rightarrow> Inr ()
       | Some turns \<Rightarrow>
          (let turn_limit = env_limit (parse_uint u64_max) (\<le>) env ''IRONCREW_MAX_COLLABORATIVE_TURNS'' 100 1 1000
           in ensure (\<not> (turns = 0 \<or> turn_limit < turns))
               (Validation (''Task '' @ quoted (t_name task) @ '' max_turns must be between 1 and '' @ dec turn_limit))))))))"

text \<open>\<open>validate_unique_task_names\<close>: the \<open>HashSet\<close> of names seen so far is an argument.\<close>

fun unique_names_from :: "string set \<Rightarrow> task list \<Rightarrow> (iron_error, unit) result" where
  "unique_names_from seen [] = Inr ()"
| "unique_names_from seen (t # ts) =
     (if t_name t \<in> seen then Inl (Validation (''Duplicate task name: '' @ t_name t))
      else unique_names_from (insert (t_name t) seen) ts)"

definition validate_unique_task_names :: "task list \<Rightarrow> (iron_error, unit) result" where
  "validate_unique_task_names ts = unique_names_from {} ts"

section \<open>The dependency graph\<close>

type_synonym degrees = "(string \<times> nat) list"
type_synonym adjacency = "(string \<times> string list) list"

definition entry_or_insert :: "'k \<Rightarrow> 'v \<Rightarrow> ('k \<times> 'v) list \<Rightarrow> ('k \<times> 'v) list" where
  "entry_or_insert k v m = (case map_of m k of None \<Rightarrow> AList.update k v m | Some _ \<Rightarrow> m)"

definition adj_of :: "adjacency \<Rightarrow> string \<Rightarrow> string list" where
  "adj_of adj x = (case map_of adj x of None \<Rightarrow> [] | Some l \<Rightarrow> l)"

definition deg_of :: "degrees \<Rightarrow> string \<Rightarrow> nat" where
  "deg_of deg x = (case map_of deg x of None \<Rightarrow> 0 | Some d \<Rightarrow> d)"

definition add_dep :: "string \<Rightarrow> degrees \<times> adjacency \<Rightarrow> string \<Rightarrow> degrees \<times> adjacency" where
  "add_dep name = (\<lambda>(deg, adj) dep.
     (AList.update name (deg_of deg name + 1) deg,
      AList.update dep (adj_of adj dep @ [name]) adj))"

definition add_task_edges :: "degrees \<times> adjacency \<Rightarrow> task \<Rightarrow> degrees \<times> adjacency" where
  "add_task_edges = (\<lambda>(deg, adj) t.
     foldl (add_dep (t_name t))
       (entry_or_insert (t_name t) 0 deg, entry_or_insert (t_name t) [] adj) (t_depends_on t))"

definition build_graph :: "task list \<Rightarrow> degrees \<times> adjacency" where
  "build_graph ts = foldl add_task_edges ([], []) ts"

text \<open>The keys of in-degree zero, in the order in which the \<open>HashMap\<close> yields them.\<close>

definition ready_nodes :: "(string list \<Rightarrow> string list) \<Rightarrow> degrees \<Rightarrow> string list" where
  "ready_nodes ord deg = filter (\<lambda>k. map_of deg k = Some 0) (ord (map fst deg))"

definition hash_order :: "(string list \<Rightarrow> string list) \<Rightarrow> bool" where
  "hash_order ord = (\<forall>ks. mset (ord ks) = mset ks)"

text \<open>
  One popped node of Kahn's queue: every neighbour's degree drops by one, and a
  neighbour that reaches zero joins the queue.
\<close>

fun relax :: "degrees \<Rightarrow> string list \<Rightarrow> string list \<Rightarrow> (degrees \<times> string list) option" where
  "relax deg queue [] = Some (deg, queue)"
| "relax deg queue (n # ns) =
     (case map_of deg n of
        None \<Rightarrow> None
      | Some 0 \<Rightarrow> None
      | Some (Suc d) \<Rightarrow> relax (AList.update n d deg) (if d = 0 then queue @ [n] else queue) ns)"

definition degree_sum :: "degrees \<Rightarrow> nat" where
  "degree_sum deg = sum_list (map snd deg)"

lemma degree_sum_update: "map_of deg n = Some (Suc d) \<Longrightarrow> degree_sum deg = Suc (degree_sum (AList.update n d deg))"
  by (induction deg) (auto simp: degree_sum_def split: if_splits)

lemma relax_measure:
  "relax deg queue ns = Some (deg', queue') \<Longrightarrow>
   degree_sum deg' + length queue' \<le> degree_sum deg + length queue"
proof (induction ns arbitrary: deg queue)
  case (Cons n ns)
  then obtain d where d: "map_of deg n = Some (Suc d)"
    by (auto split: option.splits nat.splits)
  let ?q = "if d = 0 then queue @ [n] else queue"
  from Cons.prems d have "relax (AList.update n d deg) ?q ns = Some (deg', queue')" by simp
  from Cons.IH [OF this] degree_sum_update [OF d] show ?case by (auto split: if_splits)
qed simp

text \<open>The \<open>while let Some(node) = queue.pop_front()\<close> loop: final degrees and the nodes visited.\<close>

function kahn_loop ::
  "adjacency \<Rightarrow> degrees \<Rightarrow> string list \<Rightarrow> string list \<Rightarrow> (degrees \<times> string list) option" where
  "kahn_loop adj deg [] visited = Some (deg, visited)"
| "kahn_loop adj deg (node # queue) visited =
     (case relax deg queue (adj_of adj node) of
        None \<Rightarrow> None
      | Some (deg', queue') \<Rightarrow> kahn_loop adj deg' queue' (visited @ [node]))"
  by pat_completeness auto
termination
  by (relation "measure (\<lambda>(adj, deg, queue, visited). degree_sum deg + length queue)")
     (auto dest!: relax_measure)

definition check_references :: "task list \<Rightarrow> (iron_error, unit) result" where
  "check_references ts =
     try_each (\<lambda>t. try_each (\<lambda>dep. ensure (dep \<in> t_name ` set ts)
        (Validation (''Task '' @ quoted (t_name t) @ '' depends on '' @ quoted dep @ '', which does not exist'')))
        (t_depends_on t)) ts"

text \<open>\<open>None\<close> is a panic; \<open>Some (Inl e)\<close> a rejected graph.\<close>

definition validate_dependency_graph ::
  "float_lib \<Rightarrow> env \<Rightarrow> (string list \<Rightarrow> string list) \<Rightarrow> task list \<Rightarrow> (iron_error, unit) result option" where
  "validate_dependency_graph lib env ord ts =
     (case and_then (validate_unique_task_names ts) (\<lambda>_.
             and_then (try_each (validate_task_runtime_limits lib env) ts) (\<lambda>_. check_references ts)) of
        Inl e \<Rightarrow> Some (Inl e)
      | Inr _ \<Rightarrow>
          (let (deg, adj) = build_graph ts in
           case kahn_loop adj deg (ready_nodes ord deg) [] of
             None \<Rightarrow> None
           | Some (deg', visited) \<Rightarrow>
               if length visited \<noteq> length ts then
                 Some (Inl (Validation (''Circular dependency detected involving tasks: '' @
                   join_with '', '' (filter (\<lambda>k. 0 < deg_of deg' k) (ord (map fst deg'))))))
               else Some (Inr ())))"

definition task_map :: "task list \<Rightarrow> (string \<times> task) list" where
  "task_map ts = map (\<lambda>t. (t_name t, t)) ts"

definition topological_sort :: "(string list \<Rightarrow> string list) \<Rightarrow> task list \<Rightarrow> task list option" where
  "topological_sort ord ts =
     (case validate_unique_task_names ts of
        Inl _ \<Rightarrow> Some []
      | Inr _ \<Rightarrow>
          (let (deg, adj) = build_graph ts in
           case kahn_loop adj deg (ready_nodes ord deg) [] of
             None \<Rightarrow> None
           | Some (_, visited) \<Rightarrow> Some (map (\<lambda>n. the (map_of (task_map ts) n)) visited)))"

section \<open>Execution phases\<close>

text \<open>
  Removing one ready node: its neighbours that are still in the map lose one degree
  (\<open>*deg -= 1\<close>), then the node leaves the map.
\<close>

definition remove_node :: "adjacency \<Rightarrow> degrees \<Rightarrow> string \<Rightarrow> degrees" where
  "remove_node adj deg name =
     AList.delete name
       (foldl (\<lambda>d nb. AList.map_entry nb (\<lambda>v. wrapping_sub v 1) d) deg (adj_of adj name))"

lemma length_map_entry [simp]: "length (AList.map_entry k f m) = length m"
  by (induction m) auto

lemma length_foldl_map_entry [simp]:
  "length (foldl (\<lambda>d nb. AList.map_entry nb f d) deg ns) = length deg"
  by (induction ns arbitrary: deg) auto

lemma fst_map_entry [simp]: "map fst (AList.map_entry k f m) = map fst m"
  by (induction m) auto

lemma fst_foldl_map_entry [simp]:
  "map fst (foldl (\<lambda>d nb. AList.map_entry nb f d) deg ns) = map fst deg"
  by (induction ns arbitrary: deg) auto

lemma length_delete: "length (AList.delete k m) \<le> length m"
  by (simp add: AList.delete_eq)

lemma length_delete_less: "k \<in> fst ` set m \<Longrightarrow> length (AList.delete k m) < length m"
proof (induction m)
  case (Cons p m)
  then show ?case
    by (cases "fst p = k") (auto simp: AList.delete_eq le_imp_less_Suc)
qed simp

lemma remove_node_le: "length (remove_node adj deg n) \<le> length deg"
  using length_delete by (metis length_foldl_map_entry remove_node_def)

lemma remove_nodes_le: "length (foldl (remove_node adj) deg ns) \<le> length deg"
proof (induction ns arbitrary: deg)
  case (Cons n ns)
  show ?case using Cons [of "remove_node adj deg n"] remove_node_le [of adj deg n] by simp
qed simp

lemma remove_node_less:
  assumes "n \<in> fst ` set deg"
  shows "length (remove_node adj deg n) < length deg"
proof -
  let ?d = "foldl (\<lambda>d nb. AList.map_entry nb (\<lambda>v. wrapping_sub v 1) d) deg (adj_of adj n)"
  have "fst ` set ?d = fst ` set deg"
    by (metis fst_foldl_map_entry set_map)
  with assms have "length (AList.delete n ?d) < length ?d" by (intro length_delete_less) simp
  then show ?thesis by (simp add: remove_node_def)
qed

lemma remove_nodes_less:
  assumes "ready_nodes ord deg \<noteq> []"
  shows "length (foldl (remove_node adj) deg (ready_nodes ord deg)) < length deg"
proof -
  obtain r rs where rs: "ready_nodes ord deg = r # rs"
    using assms by (cases "ready_nodes ord deg") auto
  then have "r \<in> set (ready_nodes ord deg)" by simp
  then have "map_of deg r = Some 0" by (simp add: ready_nodes_def)
  then have "r \<in> fst ` set deg" by (force dest: map_of_SomeD)
  then have "length (remove_node adj deg r) < length deg" by (rule remove_node_less)
  with remove_nodes_le [of adj "remove_node adj deg r" rs] show ?thesis
    by (simp add: rs)
qed

function phases_loop ::
  "(string list \<Rightarrow> string list) \<Rightarrow> (string \<times> task) list \<Rightarrow> adjacency \<Rightarrow> degrees \<Rightarrow> task list list" where
  "phases_loop ord tm adj deg =
     (let ready = ready_nodes ord deg in
      if ready = [] then []
      else List.map_filter (map_of tm) ready
             # phases_loop ord tm adj (foldl (remove_node adj) deg ready))"
  by pat_completeness auto
termination
proof (relation "measure (\<lambda>(ord, tm, adj, deg). length deg)", goal_cases)
  case (2 ord tm adj deg x)
  then show ?case using remove_nodes_less by simp
qed simp

declare phases_loop.simps [simp del]

definition topological_phases :: "(string list \<Rightarrow> string list) \<Rightarrow> task list \<Rightarrow> task list list" where
  "topological_phases ord ts =
     (case validate_unique_task_names ts of
        Inl _ \<Rightarrow> []
      | Inr _ \<Rightarrow> (let (deg, adj) = build_graph ts in phases_loop ord (task_map ts) adj deg))"

section \<open>The graph that the loops build\<close>

definition deps_of :: "task list \<Rightarrow> string \<Rightarrow> string list" where
  "deps_of ts n = (case map_of (task_map ts) n of None \<Rightarrow> [] | Some t \<Rightarrow> t_depends_on t)"

definition names_of :: "task list \<Rightarrow> string set" where
  "names_of ts = t_name ` set ts"

definition dep_edges :: "task list \<Rightarrow> (string \<times> string) set" where
  "dep_edges ts = {(d, n). n \<in> names_of ts \<and> d \<in> set (deps_of ts n)}"

lemma unique_names_from_iff:
  "unique_names_from seen ts = Inr u \<longleftrightarrow> distinct (map t_name ts) \<and> seen \<inter> t_name ` set ts = {}"
  by (induction ts arbitrary: seen) auto

lemma validate_unique_iff: "validate_unique_task_names ts = Inr u \<longleftrightarrow> distinct (map t_name ts)"
  by (simp add: validate_unique_task_names_def unique_names_from_iff)

lemma finite_names [simp]: "finite (names_of ts)"
  by (simp add: names_of_def)

lemma dom_task_map: "dom (map_of (task_map ts)) = names_of ts"
  by (simp add: dom_map_of_conv_image_fst task_map_def names_of_def image_image)

lemma map_of_task_map:
  "distinct (map t_name ts) \<Longrightarrow> map_of (task_map ts) n = Some t \<longleftrightarrow> t \<in> set ts \<and> t_name t = n"
  by (auto simp: task_map_def map_of_eq_Some_iff comp_def)

lemma deps_of_task: "distinct (map t_name ts) \<Longrightarrow> t \<in> set ts \<Longrightarrow> deps_of ts (t_name t) = t_depends_on t"
  using map_of_task_map [of ts "t_name t" t] by (simp add: deps_of_def)

lemma deps_of_unnamed: "n \<notin> names_of ts \<Longrightarrow> deps_of ts n = []"
  using dom_task_map [of ts] by (auto simp: deps_of_def split: option.splits)

lemma finite_dep_edges: "finite (dep_edges ts)"
proof -
  have "dep_edges ts = (\<Union>n \<in> names_of ts. (\<lambda>d. (d, n)) ` set (deps_of ts n))"
    by (auto simp: dep_edges_def)
  then show ?thesis by simp
qed

lemma map_of_update [simp]: "map_of (AList.update k v m) = (map_of m)(k \<mapsto> v)"
  by (rule update_conv')

lemma deg_of_update [simp]: "deg_of (AList.update k v deg) n = (if n = k then v else deg_of deg n)"
  by (simp add: deg_of_def)

lemma adj_of_update [simp]: "adj_of (AList.update k v adj) n = (if n = k then v else adj_of adj n)"
  by (simp add: adj_of_def)

lemma add_deps_spec:
  assumes "foldl (add_dep n) (deg, adj) ds = (deg', adj')" and "map_of deg n = Some d"
  shows "map_of deg' = (map_of deg)(n \<mapsto> d + length ds)
    \<and> (\<forall>x. adj_of adj' x = adj_of adj x @ replicate (count_list ds x) n)"
  using assms
proof (induction ds arbitrary: deg adj d)
  case Nil
  then show ?case by auto
next
  case (Cons e ds)
  let ?deg = "AList.update n (d + 1) deg"
  let ?adj = "AList.update e (adj_of adj e @ [n]) adj"
  have "foldl (add_dep n) (?deg, ?adj) ds = (deg', adj')"
    using Cons.prems by (simp add: add_dep_def deg_of_def)
  from Cons.IH [OF this] show ?case
    by (auto simp: fun_eq_iff)
qed

text \<open>What the two maps hold for a list of tasks with distinct names.\<close>

definition graph_of :: "task list \<Rightarrow> degrees \<Rightarrow> adjacency \<Rightarrow> bool" where
  "graph_of ts deg adj \<longleftrightarrow>
     (\<forall>n. map_of deg n = map_option (\<lambda>t. length (t_depends_on t)) (map_of (task_map ts) n)) \<and>
     (\<forall>x n. count_list (adj_of adj x) n = count_list (deps_of ts n) x)"

lemma count_list_replicate: "count_list (replicate k a) b = (if a = b then k else 0)"
  by (induction k) auto

lemma count_list_app: "count_list (xs @ ys) a = count_list xs a + count_list ys a"
  by (induction xs) auto

lemma entry_or_insert_fresh: "map_of m k = None \<Longrightarrow> map_of (entry_or_insert k v m) = (map_of m)(k \<mapsto> v)"
  by (simp add: entry_or_insert_def)

lemma entry_or_insert_Nil: "adj_of (entry_or_insert k [] adj) x = adj_of adj x"
  by (auto simp: entry_or_insert_def adj_of_def split: option.splits)

lemma build_graph_of:
  "distinct (map t_name ts) \<Longrightarrow> case build_graph ts of (deg, adj) \<Rightarrow> graph_of ts deg adj"
proof (induction ts rule: rev_induct)
  case Nil
  then show ?case by (simp add: build_graph_def graph_of_def task_map_def adj_of_def deps_of_def)
next
  case (snoc t ts)
  obtain deg adj where b: "build_graph ts = (deg, adj)" by (cases "build_graph ts")
  with snoc have g: "graph_of ts deg adj" by simp
  let ?n = "t_name t"
  have fresh: "?n \<notin> names_of ts" using snoc.prems by (simp add: names_of_def)
  then have none: "map_of (task_map ts) ?n = None" using dom_task_map [of ts] by blast
  then have dn: "map_of deg ?n = None" using g by (simp add: graph_of_def)
  obtain deg' adj' where f: "foldl (add_dep ?n) (entry_or_insert ?n 0 deg, entry_or_insert ?n [] adj)
      (t_depends_on t) = (deg', adj')"
    by (cases "foldl (add_dep ?n) (entry_or_insert ?n 0 deg, entry_or_insert ?n [] adj) (t_depends_on t)")
  have spec: "map_of deg' = (map_of deg)(?n \<mapsto> length (t_depends_on t))"
    "\<And>x. adj_of adj' x = adj_of adj x @ replicate (count_list (t_depends_on t) x) ?n"
    using add_deps_spec [OF f, of 0] dn
    by (auto simp: entry_or_insert_fresh entry_or_insert_Nil)
  have tm: "map_of (task_map (ts @ [t])) = (map_of (task_map ts))(?n \<mapsto> t)"
    using none by (auto simp: task_map_def map_add_def fun_eq_iff split: option.splits)
  have cnt: "count_list (adj_of adj x) ?n = 0" for x
    using g deps_of_unnamed [OF fresh] by (simp add: graph_of_def)
  have "graph_of (ts @ [t]) deg' adj'"
    using g unfolding graph_of_def spec deps_of_def tm
    by (auto simp: count_list_app count_list_replicate cnt none)
  with b f show ?case by (simp add: build_graph_def add_task_edges_def)
qed

lemma graph_of_dom: "graph_of ts deg adj \<Longrightarrow> dom (map_of deg) = names_of ts"
  using dom_task_map [of ts] by (auto simp: graph_of_def dom_def)

lemma graph_of_deg: "graph_of ts deg adj \<Longrightarrow> deg_of deg n = length (deps_of ts n)"
  by (auto simp: graph_of_def deg_of_def deps_of_def split: option.splits)

lemma graph_of_ready:
  assumes "graph_of ts deg adj"
  shows "map_of deg n = Some 0 \<longleftrightarrow> n \<in> names_of ts \<and> deps_of ts n = []"
proof -
  have "map_of deg n = map_option (\<lambda>t. length (t_depends_on t)) (map_of (task_map ts) n)"
    using assms by (simp add: graph_of_def)
  moreover have "n \<in> names_of ts \<longleftrightarrow> map_of (task_map ts) n \<noteq> None"
    using dom_task_map [of ts] by blast
  ultimately show ?thesis by (cases "map_of (task_map ts) n") (auto simp: deps_of_def)
qed

lemma graph_of_adj_named: "graph_of ts deg adj \<Longrightarrow> n \<in> set (adj_of adj x) \<Longrightarrow> n \<in> names_of ts"
proof (rule ccontr)
  assume g: "graph_of ts deg adj" and n: "n \<in> set (adj_of adj x)" and "n \<notin> names_of ts"
  then have "count_list (adj_of adj x) n = 0"
    by (simp add: graph_of_def deps_of_unnamed)
  with n show False by (simp add: count_list_0_iff)
qed

lemma distinct_keys_update: "distinct (map fst m) \<Longrightarrow> distinct (map fst (AList.update k v m))"
  by (simp add: distinct_update)

lemma distinct_keys_add_deps:
  "distinct (map fst deg) \<Longrightarrow> distinct (map fst (fst (foldl (add_dep n) (deg, adj) ds)))"
  by (induction ds arbitrary: deg adj) (auto simp: add_dep_def distinct_keys_update)

lemma build_graph_distinct: "distinct (map fst (fst (build_graph ts)))"
proof (induction ts rule: rev_induct)
  case (snoc t ts)
  then have "distinct (map fst (entry_or_insert (t_name t) 0 (fst (build_graph ts))))"
    by (simp add: entry_or_insert_def distinct_keys_update split: option.splits)
  then show ?case
    by (simp add: build_graph_def add_task_edges_def split_def distinct_keys_add_deps)
qed (simp add: build_graph_def)

section \<open>Kahn's algorithm\<close>

definition dep_ordered :: "task list \<Rightarrow> string list \<Rightarrow> bool" where
  "dep_ordered ts vs \<longleftrightarrow> (\<forall>i < length vs. set (deps_of ts (vs ! i)) \<subseteq> set (take i vs))"

definition kahn_inv :: "task list \<Rightarrow> degrees \<Rightarrow> string list \<Rightarrow> string list \<Rightarrow> bool" where
  "kahn_inv ts deg queue visited \<longleftrightarrow>
     distinct (queue @ visited) \<and> set (queue @ visited) \<subseteq> names_of ts \<and>
     dom (map_of deg) = names_of ts \<and>
     (\<forall>n. deg_of deg n = length (filter (\<lambda>d. d \<notin> set visited) (deps_of ts n))) \<and>
     (\<forall>n \<in> names_of ts. deg_of deg n = 0 \<longleftrightarrow> n \<in> set (queue @ visited)) \<and>
     dep_ordered ts visited"

lemma count_list_pos_iff: "0 < count_list xs x \<longleftrightarrow> x \<in> set xs"
  by (induction xs) auto

lemma filter_insert_count:
  "x \<notin> V \<Longrightarrow> length (filter (\<lambda>d. d \<notin> V) ds) = count_list ds x + length (filter (\<lambda>d. d \<notin> insert x V) ds)"
  by (induction ds) auto

lemma relax_spec:
  assumes "set ns \<subseteq> dom (map_of deg)" and "\<And>n. count_list ns n \<le> deg_of deg n"
  shows "\<exists>deg' added. relax deg q ns = Some (deg', q @ added) \<and>
     (\<forall>n. deg_of deg' n = deg_of deg n - count_list ns n) \<and>
     dom (map_of deg') = dom (map_of deg) \<and> distinct added \<and>
     set added = {n \<in> set ns. deg_of deg n = count_list ns n}"
  using assms
proof (induction ns arbitrary: deg q)
  case Nil
  then show ?case by simp
next
  case (Cons n ns)
  have "n \<in> dom (map_of deg)" using Cons.prems(1) by simp
  then obtain v where v: "map_of deg n = Some v" by blast
  have "0 < v" using Cons.prems(2) [of n] v by (simp add: deg_of_def)
  then obtain d where d: "map_of deg n = Some (Suc d)" using v by (cases v) auto
  then have dn: "deg_of deg n = Suc d" by (simp add: deg_of_def)
  let ?deg = "AList.update n d deg"
  have sub: "set ns \<subseteq> dom (map_of ?deg)" using Cons.prems(1) by auto
  have le: "count_list ns m \<le> deg_of ?deg m" for m
    using Cons.prems(2) [of m] dn by (auto split: if_splits)
  obtain deg' added where r: "relax ?deg (if d = 0 then q @ [n] else q) ns =
        Some (deg', (if d = 0 then q @ [n] else q) @ added)"
    and deg': "\<And>m. deg_of deg' m = deg_of ?deg m - count_list ns m"
    and dom': "dom (map_of deg') = dom (map_of ?deg)" and dist: "distinct added"
    and set': "set added = {m \<in> set ns. deg_of ?deg m = count_list ns m}"
    using Cons.IH [OF sub le, of "if d = 0 then q @ [n] else q"] by blast
  have degs: "deg_of deg' m = deg_of deg m - count_list (n # ns) m" for m
    using deg' [of m] dn by auto
  have doms: "dom (map_of deg') = dom (map_of deg)" using dom' d by auto
  show ?case
  proof (cases "d = 0")
    case True
    then have nn: "n \<notin> set ns" using le [of n] count_list_pos_iff [of ns n] by simp
    then have "set added = {m \<in> set ns. deg_of deg m = count_list (n # ns) m}"
      unfolding set' by (intro Collect_cong) auto
    moreover have "deg_of deg n = count_list (n # ns) n" using nn dn True by simp
    ultimately have "set (n # added) = {m \<in> set (n # ns). deg_of deg m = count_list (n # ns) m}"
      by auto
    moreover have "distinct (n # added)" using dist set' nn by simp
    ultimately show ?thesis
      using r degs doms d True by (intro exI [of _ deg'] exI [of _ "n # added"]) simp
  next
    case False
    have mem: "n \<in> set ns" if "d = count_list ns n"
      using that False count_list_pos_iff [of ns n] by simp
    have "m \<in> set added \<longleftrightarrow> m \<in> set (n # ns) \<and> deg_of deg m = count_list (n # ns) m" for m
    proof (cases "m = n")
      case True
      with dn have "m \<in> set added \<longleftrightarrow> n \<in> set ns \<and> d = count_list ns n" by (simp add: set')
      with mem True dn show ?thesis by simp blast
    qed (simp add: set')
    then have "set added = {m \<in> set (n # ns). deg_of deg m = count_list (n # ns) m}"
      by blast
    then show ?thesis
      using r degs doms d dist False by (intro exI [of _ deg'] exI [of _ added]) simp
  qed
qed

lemma dep_ordered_snoc:
  "dep_ordered ts vs \<Longrightarrow> set (deps_of ts n) \<subseteq> set vs \<Longrightarrow> dep_ordered ts (vs @ [n])"
  by (auto simp: dep_ordered_def nth_append less_Suc_eq)

lemma kahn_step:
  assumes g: "\<And>x n. count_list (adj_of adj x) n = count_list (deps_of ts n) x"
    and inv: "kahn_inv ts deg (node # queue) visited"
  shows "\<exists>deg' queue'. relax deg queue (adj_of adj node) = Some (deg', queue') \<and>
     kahn_inv ts deg' queue' (visited @ [node])"
proof -
  have node: "node \<in> names_of ts" "node \<notin> set visited" "node \<notin> set queue"
    and dist: "distinct queue" "distinct visited" "set queue \<inter> set visited = {}"
    and dom: "dom (map_of deg) = names_of ts"
    and degs: "\<And>n. deg_of deg n = length (filter (\<lambda>d. d \<notin> set visited) (deps_of ts n))"
    and zero: "\<And>n. n \<in> names_of ts \<Longrightarrow> deg_of deg n = 0 \<longleftrightarrow> n \<in> set (node # queue @ visited)"
    and sub: "set queue \<subseteq> names_of ts" "set visited \<subseteq> names_of ts" and ord: "dep_ordered ts visited"
    using inv by (auto simp: kahn_inv_def)
  note split = filter_insert_count [OF node(2)]
  have le: "count_list (adj_of adj node) n \<le> deg_of deg n" for n
    using split [of "deps_of ts n"] by (simp add: g degs)
  have named: "set (adj_of adj node) \<subseteq> names_of ts"
    using g [of node] deps_of_unnamed by (metis count_list_0_iff empty_iff list.set(1) subsetI)
  obtain deg' added where r: "relax deg queue (adj_of adj node) = Some (deg', queue @ added)"
    and d': "\<And>n. deg_of deg' n = deg_of deg n - count_list (adj_of adj node) n"
    and dom': "dom (map_of deg') = names_of ts" and da: "distinct added"
    and sa: "set added = {n \<in> set (adj_of adj node). deg_of deg n = count_list (adj_of adj node) n}"
    using relax_spec [of "adj_of adj node" deg queue] named le dom by auto
  have degs': "deg_of deg' n = length (filter (\<lambda>d. d \<notin> set (visited @ [node])) (deps_of ts n))" for n
    using split [of "deps_of ts n"] by (simp add: d' degs g Un_insert_right [symmetric])
  have pos: "0 < deg_of deg n" if "n \<in> set added" for n
    using that count_list_pos_iff [of "adj_of adj node" n] by (auto simp: sa)
  have disj: "set added \<inter> set (node # queue @ visited) = {}"
    using pos zero named by (fastforce simp: sa)
  have "deg_of deg' n = 0 \<longleftrightarrow> n \<in> set ((queue @ added) @ visited @ [node])" if "n \<in> names_of ts" for n
  proof -
    have "deg_of deg' n = 0 \<longleftrightarrow> deg_of deg n = count_list (adj_of adj node) n"
      using d' [of n] le [of n] by simp
    moreover have "n \<in> set added \<longleftrightarrow> deg_of deg n = count_list (adj_of adj node) n \<and> deg_of deg n \<noteq> 0"
      using count_list_pos_iff [of "adj_of adj node" n] by (auto simp: sa)
    moreover have "deg_of deg n = 0 \<Longrightarrow> deg_of deg n = count_list (adj_of adj node) n"
      using le [of n] by simp
    ultimately show ?thesis using zero [OF that] by auto
  qed
  moreover have "distinct ((queue @ added) @ visited @ [node])"
    using node dist da disj by auto
  moreover have "set ((queue @ added) @ visited @ [node]) \<subseteq> names_of ts"
    using node sub named by (auto simp: sa)
  moreover have "set (deps_of ts node) \<subseteq> set visited"
    using zero [OF node(1)] degs [of node] by (auto simp: filter_empty_conv)
  ultimately have "kahn_inv ts deg' (queue @ added) (visited @ [node])"
    using degs' dom' dep_ordered_snoc [OF ord] unfolding kahn_inv_def by blast
  with r show ?thesis by blast
qed

lemma kahn_loop_inv:
  assumes "\<And>x n. count_list (adj_of adj x) n = count_list (deps_of ts n) x"
    and "kahn_inv ts deg queue visited"
  shows "\<exists>deg' vs. kahn_loop adj deg queue visited = Some (deg', vs) \<and> kahn_inv ts deg' [] vs"
  using assms
proof (induction adj deg queue visited rule: kahn_loop.induct)
  case (1 adj deg visited)
  then show ?case by simp
next
  case (2 adj deg node queue visited)
  obtain deg' queue' where r: "relax deg queue (adj_of adj node) = Some (deg', queue')"
    and inv: "kahn_inv ts deg' queue' (visited @ [node])"
    using kahn_step [OF "2.prems"] by blast
  show ?case using "2.IH" [OF r refl "2.prems"(1) inv] r by simp
qed

lemma kahn_inv_start:
  assumes dist: "distinct (map t_name ts)" and ord: "hash_order ord"
    and b: "build_graph ts = (deg, adj)"
  shows "kahn_inv ts deg (ready_nodes ord deg) []"
proof -
  have g: "graph_of ts deg adj" using build_graph_of [OF dist] b by simp
  have keys: "distinct (map fst deg)" using build_graph_distinct [of ts] b by simp
  have m: "mset (ord (map fst deg)) = mset (map fst deg)"
    using ord by (simp add: hash_order_def)
  then have "distinct (ord (map fst deg))" and sk: "set (ord (map fst deg)) = set (map fst deg)"
    using keys mset_eq_imp_distinct_iff by (blast, metis set_mset_mset)
  moreover have dom: "dom (map_of deg) = set (map fst deg)"
    by (simp add: dom_map_of_conv_image_fst)
  moreover have "set (ready_nodes ord deg) = {n \<in> names_of ts. deps_of ts n = []}"
    using graph_of_dom [OF g] dom sk by (auto simp: ready_nodes_def graph_of_ready [OF g])
  moreover have "distinct (ready_nodes ord deg)"
    using calculation by (simp add: ready_nodes_def)
  ultimately show ?thesis
    using graph_of_dom [OF g] graph_of_deg [OF g]
    by (auto simp: kahn_inv_def dep_ordered_def)
qed

lemma kahn_run:
  assumes "distinct (map t_name ts)" and "hash_order ord" and "build_graph ts = (deg, adj)"
  shows "\<exists>deg' vs. kahn_loop adj deg (ready_nodes ord deg) [] = Some (deg', vs) \<and> kahn_inv ts deg' [] vs"
proof (rule kahn_loop_inv)
  show "count_list (adj_of adj x) n = count_list (deps_of ts n) x" for x n
    using build_graph_of [OF assms(1)] assms(3) by (simp add: graph_of_def)
qed (rule kahn_inv_start [OF assms])

lemma dep_ordered_acyclic:
  assumes ord: "dep_ordered ts vs" and all: "set vs = names_of ts"
  shows "acyclic (dep_edges ts)"
proof -
  define idx where "idx x = length (takeWhile (\<lambda>y. y \<noteq> x) vs)" for x
  have before: "idx x < i" if "x \<in> set (take i vs)" for x i
  proof -
    from that have "x \<in> set (take i vs)" .
    then have "takeWhile (\<lambda>y. y \<noteq> x) vs = takeWhile (\<lambda>y. y \<noteq> x) (take i vs)"
      by (metis (mono_tags, lifting) append_take_drop_id takeWhile_append1)
    moreover have "length (takeWhile (\<lambda>y. y \<noteq> x) (take i vs)) < length (take i vs)"
      using that by (metis (mono_tags, lifting) length_takeWhile_le le_neq_implies_less
          set_takeWhileD takeWhile_eq_take take_all_iff)
    ultimately show ?thesis by (simp add: idx_def)
  qed
  have at: "vs ! idx x = x \<and> idx x < length vs" if "x \<in> set vs" for x
  proof -
    have lt: "idx x < length vs" using before [of x "length vs"] that by simp
    then have "\<not> vs ! idx x \<noteq> x"
      using nth_length_takeWhile [of "\<lambda>y. y \<noteq> x" vs] by (simp add: idx_def)
    with lt show ?thesis by simp
  qed
  have "dep_edges ts \<subseteq> measure idx"
  proof clarify
    fix d n assume "(d, n) \<in> dep_edges ts"
    then have n: "n \<in> set vs" and d: "d \<in> set (deps_of ts n)" by (auto simp: dep_edges_def all)
    have "set (deps_of ts (vs ! idx n)) \<subseteq> set (take (idx n) vs)"
      using ord at [OF n] unfolding dep_ordered_def by blast
    with d at [OF n] have "d \<in> set (take (idx n) vs)" by auto
    then show "(d, n) \<in> measure idx" using before by simp
  qed
  then show ?thesis using wf_acyclic wf_measure wf_subset by blast
qed

text \<open>Under acyclicity, a set of names in which every task has a dependency inside the set is empty.\<close>

lemma acyclic_no_core:
  assumes ac: "acyclic (dep_edges ts)" and sub: "R \<subseteq> names_of ts"
    and core: "\<And>n. n \<in> R \<Longrightarrow> \<exists>d \<in> R. d \<in> set (deps_of ts n)"
  shows "R = {}"
proof (rule ccontr)
  assume ne: "R \<noteq> {}"
  have "wf (dep_edges ts)" by (rule finite_acyclic_wf [OF finite_dep_edges ac])
  then obtain n where n: "n \<in> R" and min: "\<And>d. (d, n) \<in> dep_edges ts \<Longrightarrow> d \<notin> R"
    using ne wfE_min by (metis ex_in_conv)
  from core [OF n] obtain d where "d \<in> R" "d \<in> set (deps_of ts n)" by blast
  moreover with n sub have "(d, n) \<in> dep_edges ts" by (auto simp: dep_edges_def)
  ultimately show False using min by blast
qed

lemma kahn_visits_all:
  assumes inv: "kahn_inv ts deg' [] vs" and refs: "\<And>n. set (deps_of ts n) \<subseteq> names_of ts"
    and ac: "acyclic (dep_edges ts)"
  shows "set vs = names_of ts"
proof -
  let ?R = "names_of ts - set vs"
  have "?R = {}"
  proof (rule acyclic_no_core [OF ac])
    fix n assume n: "n \<in> ?R"
    then have "deg_of deg' n \<noteq> 0" using inv by (auto simp: kahn_inv_def)
    then have "filter (\<lambda>d. d \<notin> set vs) (deps_of ts n) \<noteq> []" using inv by (auto simp: kahn_inv_def)
    then show "\<exists>d \<in> ?R. d \<in> set (deps_of ts n)" using refs [of n] by (auto simp: filter_empty_conv)
  qed simp
  moreover have "set vs \<subseteq> names_of ts" using inv by (simp add: kahn_inv_def)
  ultimately show ?thesis by blast
qed

lemma card_names: "distinct (map t_name ts) \<Longrightarrow> card (names_of ts) = length ts"
  by (metis distinct_card length_map names_of_def set_map)

lemma kahn_count_iff:
  assumes dist: "distinct (map t_name ts)" and inv: "kahn_inv ts deg' [] vs"
    and refs: "\<And>n. set (deps_of ts n) \<subseteq> names_of ts"
  shows "length vs = length ts \<longleftrightarrow> acyclic (dep_edges ts)"
proof
  assume "length vs = length ts"
  then have "card (set vs) = card (names_of ts)"
    using inv card_names [OF dist] by (simp add: kahn_inv_def distinct_card)
  moreover have "set vs \<subseteq> names_of ts" using inv by (simp add: kahn_inv_def)
  ultimately have "set vs = names_of ts" by (simp add: card_subset_eq)
  moreover have "dep_ordered ts vs" using inv by (simp add: kahn_inv_def)
  ultimately show "acyclic (dep_edges ts)" by (intro dep_ordered_acyclic)
next
  assume "acyclic (dep_edges ts)"
  then have "set vs = names_of ts" by (rule kahn_visits_all [OF inv refs])
  then show "length vs = length ts"
    using inv card_names [OF dist] by (metis append_Nil distinct_card kahn_inv_def)
qed

lemma deps_named_iff:
  "distinct (map t_name ts) \<Longrightarrow>
   (\<forall>n. set (deps_of ts n) \<subseteq> names_of ts) \<longleftrightarrow> (\<forall>t \<in> set ts. set (t_depends_on t) \<subseteq> t_name ` set ts)"
proof -
  assume dist: "distinct (map t_name ts)"
  have "(\<forall>n \<in> names_of ts. set (deps_of ts n) \<subseteq> names_of ts) \<longleftrightarrow>
      (\<forall>t \<in> set ts. set (t_depends_on t) \<subseteq> t_name ` set ts)"
    using deps_of_task [OF dist] by (simp add: names_of_def)
  then show ?thesis using deps_of_unnamed [of _ ts] by (metis empty_subsetI list.set(1))
qed

lemma dep_edges_eq:
  "distinct (map t_name ts) \<Longrightarrow>
   dep_edges ts = {(d, t_name t) |d t. t \<in> set ts \<and> d \<in> set (t_depends_on t)}"
  using deps_of_task [of ts] by (auto simp: dep_edges_def names_of_def)

lemma check_references_iff:
  "distinct (map t_name ts) \<Longrightarrow>
   check_references ts = Inr () \<longleftrightarrow> (\<forall>n. set (deps_of ts n) \<subseteq> names_of ts)"
  unfolding deps_named_iff by (auto simp: check_references_def rust_result)

section \<open>Phases are layers\<close>

text \<open>
  The specification: a layer is the set of tasks not yet done whose dependencies are all
  done, and a phase finishes exactly one layer.
\<close>

definition layer :: "task list \<Rightarrow> string set \<Rightarrow> string set" where
  "layer ts R = {n \<in> names_of ts - R. set (deps_of ts n) \<subseteq> R}"

primrec done_after :: "task list \<Rightarrow> string set \<Rightarrow> nat \<Rightarrow> string set" where
  "done_after ts R 0 = R"
| "done_after ts R (Suc k) = done_after ts (R \<union> layer ts R) k"

definition phases_inv :: "task list \<Rightarrow> degrees \<Rightarrow> string set \<Rightarrow> bool" where
  "phases_inv ts deg R \<longleftrightarrow> distinct (map fst deg) \<and>
     (\<forall>n. map_of deg n = (if n \<in> names_of ts - R
        then Some (length (filter (\<lambda>d. d \<notin> R) (deps_of ts n))) else None))"

lemma map_of_foldl_map_entry:
  "map_of (foldl (\<lambda>d nb. AList.map_entry nb f d) deg ns) n =
   map_option (f ^^ count_list ns n) (map_of deg n)"
proof (induction ns arbitrary: deg)
  case (Cons x ns)
  have "map_of (AList.map_entry x f deg) n =
      (if n = x then map_option f (map_of deg n) else map_of deg n)"
    by (simp add: map_of_map_entry split: option.splits)
  then show ?case using Cons
    by (auto simp: option.map_comp comp_def funpow_swap1 split: option.splits)
qed (simp add: option.map_id)

lemma wrapping_sub_iter: "k \<le> v \<Longrightarrow> ((\<lambda>v. wrapping_sub v (Suc 0)) ^^ k) v = v - k"
  by (induction k) auto

lemma remove_node_inv:
  assumes g: "\<And>x n. count_list (adj_of adj x) n = count_list (deps_of ts n) x"
    and inv: "phases_inv ts deg R" and x: "x \<in> names_of ts - R"
  shows "phases_inv ts (remove_node adj deg x) (insert x R)"
proof -
  have m: "map_of (remove_node adj deg x) n =
      (if n = x then None
       else map_option ((\<lambda>v. wrapping_sub v 1) ^^ count_list (deps_of ts n) x) (map_of deg n))" for n
    by (simp add: remove_node_def delete_conv' map_of_foldl_map_entry g)
  have split: "length (filter (\<lambda>d. d \<notin> R) (deps_of ts n)) =
      count_list (deps_of ts n) x + length (filter (\<lambda>d. d \<notin> insert x R) (deps_of ts n))" for n
    using x by (intro filter_insert_count) simp
  have "map_of (remove_node adj deg x) n = (if n \<in> names_of ts - insert x R
      then Some (length (filter (\<lambda>d. d \<notin> insert x R) (deps_of ts n))) else None)" for n
    using inv split [of n] by (auto simp: m phases_inv_def wrapping_sub_iter)
  moreover have "distinct (map fst (remove_node adj deg x))"
    using inv by (simp add: remove_node_def phases_inv_def distinct_delete)
  ultimately show ?thesis by (simp add: phases_inv_def)
qed

lemma remove_nodes_inv:
  assumes "\<And>x n. count_list (adj_of adj x) n = count_list (deps_of ts n) x"
  shows "phases_inv ts deg R \<Longrightarrow> distinct xs \<Longrightarrow> set xs \<subseteq> names_of ts - R \<Longrightarrow>
    phases_inv ts (foldl (remove_node adj) deg xs) (R \<union> set xs)"
proof (induction xs arbitrary: deg R)
  case (Cons x xs)
  have "phases_inv ts (remove_node adj deg x) (insert x R)"
    using Cons.prems by (intro remove_node_inv [OF assms]) auto
  from Cons.IH [OF this] Cons.prems show ?case by (auto simp: insert_commute)
qed simp

lemma ready_nodes_layer:
  assumes inv: "phases_inv ts deg R" and ord: "hash_order ord"
  shows "distinct (ready_nodes ord deg)" and "set (ready_nodes ord deg) = layer ts R"
proof -
  have m: "mset (ord (map fst deg)) = mset (map fst deg)"
    using ord by (simp add: hash_order_def)
  show "distinct (ready_nodes ord deg)"
    using inv mset_eq_imp_distinct_iff [OF m] by (simp add: ready_nodes_def phases_inv_def)
  have "set (ord (map fst deg)) = dom (map_of deg)"
    using m by (metis dom_map_of_conv_image_fst set_map set_mset_mset)
  moreover have "map_of deg n = Some 0 \<longleftrightarrow> n \<in> layer ts R" for n
    using inv by (auto simp: layer_def phases_inv_def filter_empty_conv)
  ultimately show "set (ready_nodes ord deg) = layer ts R"
    by (auto simp: ready_nodes_def)
qed

lemma phase_tasks:
  assumes dist: "distinct (map t_name ts)" and sub: "set ns \<subseteq> names_of ts"
  shows "map t_name (List.map_filter (map_of (task_map ts)) ns) = ns
    \<and> set (List.map_filter (map_of (task_map ts)) ns) \<subseteq> set ts"
  using sub
proof (induction ns)
  case (Cons n ns)
  then have "n \<in> dom (map_of (task_map ts))" by (simp add: dom_task_map)
  then obtain t where t: "map_of (task_map ts) n = Some t" by blast
  then have "t_name t = n" "t \<in> set ts" by (simp_all add: map_of_task_map [OF dist])
  with t Cons show ?case by (simp add: List.map_filter_simps)
qed (simp add: List.map_filter_simps)

definition layered :: "task list \<Rightarrow> string set \<Rightarrow> task list list \<Rightarrow> bool" where
  "layered ts R ps \<longleftrightarrow>
     (\<forall>i < length ps. distinct (map t_name (ps ! i)) \<and> set (ps ! i) \<subseteq> set ts \<and> ps ! i \<noteq> [] \<and>
        t_name ` set (ps ! i) = layer ts (done_after ts R i)) \<and>
     layer ts (done_after ts R (length ps)) = {}"

lemma layered_Nil: "layered ts R [] \<longleftrightarrow> layer ts R = {}"
  by (simp add: layered_def)

lemma layered_Cons:
  "layered ts R (p # ps) \<longleftrightarrow>
     distinct (map t_name p) \<and> set p \<subseteq> set ts \<and> p \<noteq> [] \<and> t_name ` set p = layer ts R \<and>
     layered ts (R \<union> layer ts R) ps"
  by (auto simp: layered_def All_less_Suc2)

lemma phases_loop_layered:
  assumes "distinct (map t_name ts)" and "hash_order ord"
    and "\<And>x n. count_list (adj_of adj x) n = count_list (deps_of ts n) x"
    and "phases_inv ts deg R"
  shows "layered ts R (phases_loop ord (task_map ts) adj deg)"
  using assms
proof (induction ord "task_map ts" adj deg arbitrary: R rule: phases_loop.induct)
  case (1 ord adj deg)
  note r = ready_nodes_layer [OF "1.prems"(4,2)]
  show ?case
  proof (cases "ready_nodes ord deg = []")
    case True
    then show ?thesis using r by (subst phases_loop.simps) (simp add: layered_Nil)
  next
    case False
    have sub: "set (ready_nodes ord deg) \<subseteq> names_of ts - R" using r by (auto simp: layer_def)
    let ?p = "List.map_filter (map_of (task_map ts)) (ready_nodes ord deg)"
    have "phases_inv ts (foldl (remove_node adj) deg (ready_nodes ord deg)) (R \<union> layer ts R)"
      using remove_nodes_inv [OF "1.prems"(3,4) r(1) sub] r(2) by simp
    from "1.hyps" [OF refl False "1.prems"(1-3) this]
    have "layered ts (R \<union> layer ts R)
      (phases_loop ord (task_map ts) adj (foldl (remove_node adj) deg (ready_nodes ord deg)))" .
    moreover have p: "map t_name ?p = ready_nodes ord deg" "set ?p \<subseteq> set ts"
      using phase_tasks [OF "1.prems"(1), of "ready_nodes ord deg"] sub by auto
    moreover have "t_name ` set ?p = layer ts R" using p(1) r(2) by (metis set_map)
    moreover have "?p \<noteq> []" using p(1) False by auto
    ultimately show ?thesis
      using False r(1) by (subst phases_loop.simps) (simp add: layered_Cons Let_def)
  qed
qed

lemma topological_phases_layered:
  assumes dist: "distinct (map t_name ts)" and ord: "hash_order ord"
  shows "layered ts {} (topological_phases ord ts)"
proof -
  obtain deg adj where b: "build_graph ts = (deg, adj)" by (cases "build_graph ts")
  then have g: "graph_of ts deg adj" using build_graph_of [OF dist] by simp
  have "map_of deg n = (if n \<in> names_of ts then Some (length (deps_of ts n)) else None)" for n
    using g dom_task_map [of ts] by (auto simp: graph_of_def deps_of_def split: option.splits)
  then have "phases_inv ts deg {}"
    using build_graph_distinct [of ts] b by (simp add: phases_inv_def)
  moreover have "count_list (adj_of adj x) n = count_list (deps_of ts n) x" for x n
    using g by (simp add: graph_of_def)
  ultimately show ?thesis
    using phases_loop_layered [OF dist ord] b dist
    by (simp add: topological_phases_def validate_unique_iff [of ts "()", THEN iffD2])
qed

lemma done_after_snoc: "done_after ts R (Suc k) = done_after ts R k \<union> layer ts (done_after ts R k)"
  by (induction k arbitrary: R) auto

lemma done_after_phases:
  assumes "layered ts {} ps"
  shows "i \<le> length ps \<Longrightarrow> done_after ts {} i = (\<Union>j < i. t_name ` set (ps ! j))"
proof (induction i)
  case (Suc i)
  then have "t_name ` set (ps ! i) = layer ts (done_after ts {} i)"
    using assms by (simp add: layered_def)
  with Suc show ?case by (auto simp: done_after_snoc lessThan_Suc simp del: done_after.simps)
qed simp

lemma done_after_named: "R \<subseteq> names_of ts \<Longrightarrow> done_after ts R k \<subseteq> names_of ts"
  by (induction k arbitrary: R) (auto simp: layer_def)

lemma layered_deps_earlier:
  assumes l: "layered ts {} ps" and i: "i < length ps" and t: "t \<in> set (ps ! i)"
    and d: "d \<in> set (deps_of ts (t_name t))"
  shows "\<exists>j < i. d \<in> t_name ` set (ps ! j)"
proof -
  have "t_name t \<in> layer ts (done_after ts {} i)" using l i t by (auto simp: layered_def)
  with d have "d \<in> done_after ts {} i" by (auto simp: layer_def)
  with done_after_phases [OF l, of i] i show ?thesis by auto
qed

lemma layered_earliest:
  assumes l: "layered ts {} ps" and i: "Suc i < length ps" and t: "t \<in> set (ps ! Suc i)"
  shows "\<exists>d \<in> set (deps_of ts (t_name t)). d \<in> t_name ` set (ps ! i)"
proof -
  have p: "t_name ` set (ps ! i) = layer ts (done_after ts {} i)"
    and "t_name t \<in> layer ts (done_after ts {} (Suc i))"
    using l i t by (auto simp: layered_def simp del: done_after.simps)
  then have n: "t_name t \<in> names_of ts" "t_name t \<notin> done_after ts {} i"
    "t_name t \<notin> layer ts (done_after ts {} i)"
    and sub: "set (deps_of ts (t_name t)) \<subseteq> done_after ts {} i \<union> layer ts (done_after ts {} i)"
    by (auto simp: layer_def done_after_snoc simp del: done_after.simps)
  then have "\<not> set (deps_of ts (t_name t)) \<subseteq> done_after ts {} i" by (auto simp: layer_def)
  with sub p show ?thesis by auto
qed

lemma layered_concat:
  assumes l: "layered ts {} ps"
  shows "distinct (map t_name (concat ps)) \<and> t_name ` set (concat ps) = done_after ts {} (length ps)"
proof -
  have "k \<le> length ps \<Longrightarrow> distinct (map t_name (concat (take k ps)))
      \<and> t_name ` set (concat (take k ps)) = done_after ts {} k" for k
  proof (induction k)
    case (Suc k)
    then have "distinct (map t_name (ps ! k))"
      and "t_name ` set (ps ! k) = layer ts (done_after ts {} k)"
      using l by (auto simp: layered_def)
    moreover have "layer ts R \<inter> R = {}" for R by (auto simp: layer_def)
    ultimately show ?case
      using Suc by (simp add: take_Suc_conv_app_nth done_after_snoc image_Un inf_commute
          del: done_after.simps)
  qed simp
  from this [of "length ps"] show ?thesis by simp
qed

lemma layered_complete:
  assumes l: "layered ts {} ps" and refs: "\<And>n. set (deps_of ts n) \<subseteq> names_of ts"
    and ac: "acyclic (dep_edges ts)"
  shows "t_name ` set (concat ps) = names_of ts"
proof -
  let ?D = "done_after ts {} (length ps)"
  have "names_of ts - ?D = {}"
  proof (rule acyclic_no_core [OF ac])
    fix n assume n: "n \<in> names_of ts - ?D"
    moreover have "n \<notin> layer ts ?D" using l by (simp add: layered_def)
    ultimately have "\<not> set (deps_of ts n) \<subseteq> ?D" by (auto simp: layer_def)
    with refs [of n] show "\<exists>d \<in> names_of ts - ?D. d \<in> set (deps_of ts n)" by blast
  qed simp
  moreover have "?D \<subseteq> names_of ts" by (rule done_after_named) simp
  moreover have "t_name ` set (concat ps) = ?D"
    using layered_concat [OF l] by blast
  ultimately show ?thesis by blast
qed

lemma same_names_same_tasks:
  assumes dist: "distinct (map t_name ts)" and sub: "set xs \<subseteq> set ts"
    and d: "distinct (map t_name xs)" and eq: "t_name ` set xs = names_of ts"
  shows "mset xs = mset ts"
proof -
  have inj: "inj_on t_name (set ts)" using dist by (simp add: distinct_map)
  have "set xs = set ts"
    using inj_on_image_eq_iff [OF inj sub subset_refl] eq by (simp add: names_of_def)
  moreover have "distinct xs" "distinct ts" using d dist by (simp_all add: distinct_map)
  ultimately show ?thesis by (simp add: set_eq_iff_mset_eq_distinct)
qed

lemma validate_dependency_graph_cases:
  assumes ord: "hash_order ord"
  shows "\<exists>r. validate_dependency_graph lib env ord ts = Some r \<and>
    (r = Inr () \<longleftrightarrow> distinct (map t_name ts) \<and>
       (\<forall>t \<in> set ts. validate_task_runtime_limits lib env t = Inr ()) \<and>
       (\<forall>n. set (deps_of ts n) \<subseteq> names_of ts) \<and> acyclic (dep_edges ts))"
proof (cases "and_then (validate_unique_task_names ts) (\<lambda>_.
    and_then (try_each (validate_task_runtime_limits lib env) ts) (\<lambda>_. check_references ts))")
  case (Inl e)
  then have "\<not> (distinct (map t_name ts) \<and>
      (\<forall>t \<in> set ts. validate_task_runtime_limits lib env t = Inr ()) \<and>
      (\<forall>n. set (deps_of ts n) \<subseteq> names_of ts))"
    using check_references_iff [of ts] validate_unique_iff [of ts "()"]
    by (auto simp: rust_result dest!: try_each_Inl_D)
  with Inl show ?thesis by (auto simp: validate_dependency_graph_def)
next
  case (Inr u)
  then have dist: "distinct (map t_name ts)"
    and lim: "\<forall>t \<in> set ts. validate_task_runtime_limits lib env t = Inr ()"
    and refs: "\<And>n. set (deps_of ts n) \<subseteq> names_of ts"
    using check_references_iff [of ts] by (auto simp: rust_result validate_unique_iff)
  obtain deg adj where b: "build_graph ts = (deg, adj)" by (cases "build_graph ts")
  obtain deg' vs where k: "kahn_loop adj deg (ready_nodes ord deg) [] = Some (deg', vs)"
    and inv: "kahn_inv ts deg' [] vs"
    using kahn_run [OF dist ord b] by blast
  have "length vs = length ts \<longleftrightarrow> acyclic (dep_edges ts)"
    by (rule kahn_count_iff [OF dist inv refs])
  then show ?thesis using Inr b k dist lim refs by (auto simp: validate_dependency_graph_def)
qed

lemma layered_within: "layered ts R ps \<Longrightarrow> set (concat ps) \<subseteq> set ts"
proof (induction ps arbitrary: R)
  case (Cons p ps)
  then show ?case by (auto simp: layered_Cons)
qed simp

lemma layered_phase_eq:
  assumes "distinct (map t_name ts)" and "layered ts R ps" and "layered ts R qs"
  shows "map mset ps = map mset qs"
  using assms(2,3)
proof (induction ps arbitrary: R qs)
  case Nil
  then show ?case by (cases qs) (auto simp: layered_Nil layered_Cons)
next
  case (Cons p ps)
  then obtain q qs' where q: "qs = q # qs'"
    by (cases qs) (auto simp: layered_Nil layered_Cons)
  have inj: "inj_on t_name (set ts)" using assms(1) by (simp add: distinct_map)
  have "set p = set q"
    using Cons.prems inj_on_image_eq_iff [OF inj, of "set p" "set q"] by (auto simp: q layered_Cons)
  moreover have "distinct p" "distinct q"
    using Cons.prems by (auto simp: q layered_Cons distinct_map)
  ultimately have "mset p = mset q" by (simp add: set_eq_iff_mset_eq_distinct)
  moreover have "map mset ps = map mset qs'"
    using Cons.IH [of "R \<union> layer ts R" qs'] Cons.prems by (simp add: q layered_Cons)
  ultimately show ?case by (simp add: q)
qed

lemma hash_order_id: "hash_order (\<lambda>ks. ks)" and hash_order_rev: "hash_order rev"
  by (simp_all add: hash_order_def)

section \<open>What the graph functions guarantee\<close>

text \<open>A diamond, a crew of one self-dependent task, and a library for the witnesses.\<close>

definition diamond :: "task list" where
  "diamond = [default_task ''d'' [''b'', ''c''], default_task ''b'' [''a''],
              default_task ''c'' [''a''], default_task ''a'' []]"

definition plain_floats :: float_lib where
  "plain_floats = \<lparr>parse_f64 = (\<lambda>_. None), show_f64 = (\<lambda>_. [])\<rparr>"

text \<open>
  C1. \<open>validate_dependency_graph\<close> never panics, whatever order the hash map iterates in,
  and accepts exactly the crews with distinct task names, admissible runtime limits, no
  reference to a missing task and no dependency cycle.
\<close>

theorem validate_dependency_graph_exact:
  assumes "hash_order ord"
  shows "validate_dependency_graph lib env ord ts \<noteq> None \<and>
    (validate_dependency_graph lib env ord ts = Some (Inr ()) \<longleftrightarrow>
       distinct (map t_name ts) \<and>
       (\<forall>t \<in> set ts. validate_task_runtime_limits lib env t = Inr ()) \<and>
       (\<forall>t \<in> set ts. set (t_depends_on t) \<subseteq> t_name ` set ts) \<and>
       acyclic {(d, t_name t) |d t. t \<in> set ts \<and> d \<in> set (t_depends_on t)})"
proof -
  obtain r where r: "validate_dependency_graph lib env ord ts = Some r"
    and iff: "r = Inr () \<longleftrightarrow> distinct (map t_name ts) \<and>
       (\<forall>t \<in> set ts. validate_task_runtime_limits lib env t = Inr ()) \<and>
       (\<forall>n. set (deps_of ts n) \<subseteq> names_of ts) \<and> acyclic (dep_edges ts)"
    using validate_dependency_graph_cases [OF assms] by blast
  show ?thesis
  proof (cases "distinct (map t_name ts)")
    case True
    show ?thesis using r iff unfolding deps_named_iff [OF True] dep_edges_eq [OF True] by simp
  next
    case False
    then show ?thesis using r iff by simp
  qed
qed

theorem validate_dependency_graph_exact_witness:
  "hash_order rev \<and> validate_dependency_graph plain_floats (\<lambda>_. NotPresent) rev [default_task ''a'' [''a'']] \<noteq> None \<and>
   validate_dependency_graph plain_floats (\<lambda>_. NotPresent) rev [default_task ''a'' [''a'']] \<noteq> Some (Inr ())"
proof -
  have "\<not> acyclic {(d, t_name t) |d t. t \<in> set [default_task ''a'' [''a'']] \<and> d \<in> set (t_depends_on t)}"
    by (auto simp: acyclic_def default_task_def intro!: exI [of _ "''a''"])
  then show ?thesis
    using validate_dependency_graph_exact [OF hash_order_rev, of plain_floats "\<lambda>_. NotPresent" "[default_task ''a'' [''a'']]"]
      hash_order_rev by blast
qed

text \<open>
  C2. For a crew that validation accepts, the phases hold every task exactly once; every
  dependency of a task is in a strictly earlier phase (so tasks of one phase may run
  concurrently); and no task waits longer than it must: a task of a later phase has a
  dependency in the phase just before its own.
\<close>

theorem topological_phases_correct:
  assumes ord: "hash_order ord"
    and ok: "validate_dependency_graph lib env ord' ts = Some (Inr ())" and ord': "hash_order ord'"
  shows "mset (concat (topological_phases ord ts)) = mset ts \<and>
    (\<forall>i < length (topological_phases ord ts). \<forall>t \<in> set (topological_phases ord ts ! i).
        (\<forall>d \<in> set (t_depends_on t). \<exists>j < i. d \<in> t_name ` set (topological_phases ord ts ! j)) \<and>
        (0 < i \<longrightarrow> (\<exists>d \<in> set (t_depends_on t). d \<in> t_name ` set (topological_phases ord ts ! (i - 1)))))"
proof (intro conjI)
  let ?ps = "topological_phases ord ts"
  have dist: "distinct (map t_name ts)" and refs: "\<And>n. set (deps_of ts n) \<subseteq> names_of ts"
    and ac: "acyclic (dep_edges ts)"
    using validate_dependency_graph_cases [OF ord', of lib env ts] ok by auto
  have l: "layered ts {} ?ps" by (rule topological_phases_layered [OF dist ord])
  show "mset (concat ?ps) = mset ts"
    using same_names_same_tasks [OF dist layered_within [OF l]] layered_concat [OF l]
      layered_complete [OF l refs ac] by blast
  show "\<forall>i < length ?ps. \<forall>t \<in> set (?ps ! i).
        (\<forall>d \<in> set (t_depends_on t). \<exists>j < i. d \<in> t_name ` set (?ps ! j)) \<and>
        (0 < i \<longrightarrow> (\<exists>d \<in> set (t_depends_on t). d \<in> t_name ` set (?ps ! (i - 1))))"
  proof (intro allI ballI impI)
    fix i t assume i: "i < length ?ps" and t: "t \<in> set (?ps ! i)"
    have "t \<in> set ts" using l i t by (auto simp: layered_def)
    then have deps: "deps_of ts (t_name t) = t_depends_on t" by (rule deps_of_task [OF dist])
    show "(\<forall>d \<in> set (t_depends_on t). \<exists>j < i. d \<in> t_name ` set (?ps ! j)) \<and>
        (0 < i \<longrightarrow> (\<exists>d \<in> set (t_depends_on t). d \<in> t_name ` set (?ps ! (i - 1))))"
      using layered_deps_earlier [OF l i t] layered_earliest [OF l, of "i - 1" t] i t
      unfolding deps by (cases i) (auto simp only: diff_Suc_1 length_greater_0_conv not_less0)
  qed
qed

lemma diamond_valid:
  "validate_dependency_graph plain_floats (\<lambda>_. NotPresent) (\<lambda>ks. ks) diamond = Some (Inr ())"
  by (simp add: validate_dependency_graph_def diamond_def default_task_def validate_unique_task_names_def
      validate_task_runtime_limits_def ensure_def check_references_def build_graph_def add_task_edges_def
      add_dep_def entry_or_insert_def deg_of_def adj_of_def ready_nodes_def)

theorem topological_phases_correct_witness:
  "mset (concat (topological_phases rev diamond)) = mset diamond \<and>
   map (map t_name) (topological_phases rev diamond) = [[''a''], [''c'', ''b''], [''d'']]"
proof
  show "mset (concat (topological_phases rev diamond)) = mset diamond"
    using topological_phases_correct [OF hash_order_rev diamond_valid hash_order_id] by blast
  show "map (map t_name) (topological_phases rev diamond) = [[''a''], [''c'', ''b''], [''d'']]"
    by (simp add: topological_phases_def validate_unique_task_names_def diamond_def default_task_def
        build_graph_def add_task_edges_def add_dep_def entry_or_insert_def deg_of_def adj_of_def
        ready_nodes_def phases_loop.simps remove_node_def task_map_def List.map_filter_simps AList.delete_eq Let_def)
qed

text \<open>
  C3. The phases do not depend on the hash map's iteration order: two runs group the same
  tasks into the same phases, and only the order inside a phase may differ.
\<close>

theorem topological_phases_deterministic:
  assumes "hash_order ord" and "hash_order ord'"
  shows "map mset (topological_phases ord ts) = map mset (topological_phases ord' ts)"
proof (cases "distinct (map t_name ts)")
  case True
  then show ?thesis
    using layered_phase_eq [OF True] topological_phases_layered [OF True] assms by blast
next
  case False
  then have "validate_unique_task_names ts \<noteq> Inr ()" by (simp add: validate_unique_iff)
  then show ?thesis by (auto simp: topological_phases_def split: sum.splits)
qed

theorem topological_phases_deterministic_witness:
  "map mset (topological_phases rev diamond) = map mset (topological_phases (\<lambda>ks. ks) diamond)"
  by (rule topological_phases_deterministic [OF hash_order_rev hash_order_id])

text \<open>
  \<open>topological_sort\<close> returns (it never unwraps a missing task), its result holds only
  tasks of the crew, each at most once and after all of its dependencies, and when the
  references exist and there is no cycle it holds every task.
\<close>

theorem topological_sort_ordered:
  assumes "hash_order ord" and "distinct (map t_name ts)"
  shows "\<exists>out. topological_sort ord ts = Some out \<and> set out \<subseteq> set ts \<and> distinct (map t_name out) \<and>
    (\<forall>i < length out. set (t_depends_on (out ! i)) \<subseteq> t_name ` set (take i out)) \<and>
    ((\<forall>t \<in> set ts. set (t_depends_on t) \<subseteq> t_name ` set ts) \<and>
     acyclic {(d, t_name t) |d t. t \<in> set ts \<and> d \<in> set (t_depends_on t)} \<longrightarrow> mset out = mset ts)"
proof -
  obtain deg adj where b: "build_graph ts = (deg, adj)" by (cases "build_graph ts")
  obtain deg' vs where k: "kahn_loop adj deg (ready_nodes ord deg) [] = Some (deg', vs)"
    and inv: "kahn_inv ts deg' [] vs"
    using kahn_run [OF assms(2,1) b] by blast
  then have sub: "set vs \<subseteq> names_of ts" and dv: "distinct vs" and ord: "dep_ordered ts vs"
    by (auto simp: kahn_inv_def)
  define out where "out = map (\<lambda>n. the (map_of (task_map ts) n)) vs"
  have task: "the (map_of (task_map ts) n) \<in> set ts \<and> t_name (the (map_of (task_map ts) n)) = n"
    if "n \<in> set vs" for n
    using that sub dom_task_map [of ts] map_of_task_map [OF assms(2)] by (metis domIff option.collapse subsetD)
  have names: "map t_name out = vs" by (simp add: out_def map_idI task)
  have res: "topological_sort ord ts = Some out"
    using b k assms(2) by (simp add: topological_sort_def out_def validate_unique_iff [of ts "()", THEN iffD2])
  have inside: "set out \<subseteq> set ts" using task by (auto simp: out_def)
  have "set (t_depends_on (out ! i)) \<subseteq> t_name ` set (take i out)" if i: "i < length out" for i
  proof -
    have "t_name ` set (take i out) = set (take i vs)" by (metis names set_map take_map)
    moreover have "t_depends_on (out ! i) = deps_of ts (vs ! i)"
      using deps_of_task [OF assms(2)] i inside names by (metis nth_map nth_mem subsetD)
    ultimately show ?thesis using ord i names by (auto simp: dep_ordered_def)
  qed
  moreover have "mset out = mset ts"
    if refs: "\<forall>t \<in> set ts. set (t_depends_on t) \<subseteq> t_name ` set ts"
      and ac: "acyclic {(d, t_name t) |d t. t \<in> set ts \<and> d \<in> set (t_depends_on t)}"
  proof (rule same_names_same_tasks [OF assms(2) inside])
    have "set (deps_of ts n) \<subseteq> names_of ts" for n
      using refs deps_named_iff [OF assms(2)] by blast
    moreover have "acyclic (dep_edges ts)" using ac by (simp only: dep_edges_eq [OF assms(2)])
    ultimately show "t_name ` set out = names_of ts"
      using kahn_visits_all [OF inv] names by (metis set_map)
    show "distinct (map t_name out)" by (simp add: names dv)
  qed
  ultimately show ?thesis using res inside names dv by (intro exI [of _ out]) simp
qed

theorem topological_sort_ordered_witness:
  "\<exists>out. topological_sort (\<lambda>ks. ks) diamond = Some out \<and> set out \<subseteq> set diamond \<and> distinct (map t_name out)"
proof -
  have "distinct (map t_name diamond)" by (simp add: diamond_def default_task_def)
  from topological_sort_ordered [OF hash_order_id this] show ?thesis by blast
qed

end
