(* ===== verification/Usage.thy ===== *)
theory Usage
  imports Prelude
begin

text \<open>
  \<open>src/src/usage.rs\<close>, \<open>usage/aggregate.rs\<close>, \<open>usage/aggregate/validation.rs\<close>, \<open>usage/parsing.rs\<close>
  and \<open>usage/wire.rs\<close>: provider usage receipts, the stream parser that assembles them, their
  checked aggregation, and the decimal wire format. A \<open>u64\<close> is a \<open>nat\<close>; the checked additions
  carry the width.
\<close>

section \<open>Counts and receipts\<close>

datatype usage_coverage = Complete | Partial | Unavailable

record usage_counts =
  c_prompt :: "nat option"
  c_completion :: "nat option"
  c_total :: "nat option"
  c_cached :: "nat option"
  c_cache_write :: "nat option"
  c_reasoning :: "nat option"

definition default_counts :: usage_counts where
  "default_counts = \<lparr>c_prompt = None, c_completion = None, c_total = None, c_cached = None,
     c_cache_write = None, c_reasoning = None\<rparr>"

text \<open>\<open>matches!((detail, parent), (Some(value), Some(limit)) if value > limit)\<close>\<close>

definition exceeds :: "nat option \<Rightarrow> nat option \<Rightarrow> bool" where
  "exceeds detail parent = (case (detail, parent) of (Some v, Some l) \<Rightarrow> l < v | _ \<Rightarrow> False)"

text \<open>All three known, and the checked sum of the first two overflows or exceeds the third.\<close>

definition sum_exceeds :: "nat option \<Rightarrow> nat option \<Rightarrow> nat option \<Rightarrow> bool" where
  "sum_exceeds a b limit = (case (a, b, limit) of
     (Some x, Some y, Some l) \<Rightarrow> (case checked_add x y of None \<Rightarrow> True | Some s \<Rightarrow> l < s)
   | _ \<Rightarrow> False)"

definition sum_differs :: "nat option \<Rightarrow> nat option \<Rightarrow> nat option \<Rightarrow> bool" where
  "sum_differs a b tot = (case (a, b, tot) of
     (Some x, Some y, Some t) \<Rightarrow> checked_add x y \<noteq> Some t
   | _ \<Rightarrow> False)"

definition normalize :: "usage_counts \<Rightarrow> usage_counts \<times> bool" where
  "normalize c0 =
    (let bad_total = (case c_total c0 of None \<Rightarrow> False
           | Some tot \<Rightarrow> list_ex (\<lambda>count. tot < count) (somes [c_prompt c0, c_completion c0]));
         c1 = (if bad_total then c0\<lparr>c_total := None\<rparr> else c0);
         bad_sum = sum_differs (c_prompt c1) (c_completion c1) (c_total c1);
         c2 = (if bad_sum then c1\<lparr>c_total := None\<rparr> else c1);
         bad_cached = exceeds (c_cached c2) (c_prompt c2);
         c3 = (if bad_cached then c2\<lparr>c_cached := None\<rparr> else c2);
         bad_write = exceeds (c_cache_write c3) (c_prompt c3);
         c4 = (if bad_write then c3\<lparr>c_cache_write := None\<rparr> else c3);
         bad_reasoning = exceeds (c_reasoning c4) (c_completion c4);
         c5 = (if bad_reasoning then c4\<lparr>c_reasoning := None\<rparr> else c4);
         bad_cache = sum_exceeds (c_cached c5) (c_cache_write c5) (c_prompt c5);
         c6 = (if bad_cache then c5\<lparr>c_cached := None, c_cache_write := None\<rparr> else c5)
     in (c6, \<not> (bad_total \<or> bad_sum \<or> bad_cached \<or> bad_write \<or> bad_reasoning \<or> bad_cache)))"

definition any_known :: "usage_counts \<Rightarrow> bool" where
  "any_known c = (c_prompt c \<noteq> None \<or> c_completion c \<noteq> None \<or> c_total c \<noteq> None \<or>
     c_cached c \<noteq> None \<or> c_cache_write c \<noteq> None \<or> c_reasoning c \<noteq> None)"

record usage_receipt =
  rc_counts :: usage_counts
  rc_final :: bool
  rc_coverage :: usage_coverage

definition from_counts :: "usage_counts \<Rightarrow> bool \<Rightarrow> usage_receipt" where
  "from_counts counts0 final_receipt0 =
    (let (counts, valid) = normalize counts0;
         final_receipt = (valid \<and> final_receipt0);
         coverage =
           (if final_receipt \<and> c_prompt counts \<noteq> None \<and> c_completion counts \<noteq> None \<and> c_total counts \<noteq> None
            then Complete else if any_known counts then Partial else Unavailable)
     in \<lparr>rc_counts = counts, rc_final = final_receipt, rc_coverage = coverage\<rparr>)"

definition default_receipt :: usage_receipt where
  "default_receipt = from_counts default_counts False"

text \<open>\<open>TryFrom<ReceiptWire>\<close>; the wire struct has the fields of the receipt.\<close>

definition receipt_try_from :: "usage_receipt \<Rightarrow> (string, usage_receipt) result" where
  "receipt_try_from wire =
    (let receipt = from_counts (rc_counts wire) (rc_final wire)
     in if rc_counts receipt \<noteq> rc_counts wire \<or> rc_final receipt \<noteq> rc_final wire \<or>
           rc_coverage receipt \<noteq> rc_coverage wire
        then Inl ''inconsistent usage receipt'' else Inr receipt)"

section \<open>Aggregates\<close>

datatype usage_overflow = UsageOverflow

record count_total =
  ct_known :: "nat option"
  ct_complete :: bool

definition default_count :: count_total where
  "default_count = \<lparr>ct_known = Some 0, ct_complete = True\<rparr>"

definition count_from_receipt :: "nat option \<Rightarrow> bool \<Rightarrow> count_total" where
  "count_from_receipt v final_receipt = \<lparr>ct_known = v, ct_complete = (v \<noteq> None \<and> final_receipt)\<rparr>"

definition count_merge :: "count_total \<Rightarrow> count_total \<Rightarrow> (usage_overflow, count_total) result" where
  "count_merge a b =
     and_then
       (case (ct_known a, ct_known b) of
          (Some x, Some y) \<Rightarrow> (case checked_add x y of None \<Rightarrow> Inl UsageOverflow | Some s \<Rightarrow> Inr (Some s))
        | (Some v, None) \<Rightarrow> Inr (Some v)
        | (None, Some v) \<Rightarrow> Inr (Some v)
        | (None, None) \<Rightarrow> Inr None)
       (\<lambda>known. Inr \<lparr>ct_known = known, ct_complete = (ct_complete a \<and> ct_complete b)\<rparr>)"

record usage_aggregate =
  a_requests :: nat
  a_coverage :: usage_coverage
  a_prompt :: count_total
  a_completion :: count_total
  a_total :: count_total
  a_cached :: count_total
  a_cache_write :: count_total
  a_reasoning :: count_total

definition default_aggregate :: usage_aggregate where
  "default_aggregate = \<lparr>a_requests = 0, a_coverage = Complete, a_prompt = default_count,
     a_completion = default_count, a_total = default_count, a_cached = default_count,
     a_cache_write = default_count, a_reasoning = default_count\<rparr>"

definition unknown_count :: count_total where
  "unknown_count = \<lparr>ct_known = None, ct_complete = False\<rparr>"

definition unavailable_aggregate :: usage_aggregate where
  "unavailable_aggregate = \<lparr>a_requests = 0, a_coverage = Unavailable, a_prompt = unknown_count,
     a_completion = unknown_count, a_total = unknown_count, a_cached = unknown_count,
     a_cache_write = unknown_count, a_reasoning = unknown_count\<rparr>"

definition merge_coverage :: "usage_coverage \<Rightarrow> usage_coverage \<Rightarrow> usage_coverage" where
  "merge_coverage a b = (case (a, b) of
     (Complete, Complete) \<Rightarrow> Complete | (Unavailable, Unavailable) \<Rightarrow> Unavailable | _ \<Rightarrow> Partial)"

text \<open>On \<open>Inl\<close> the aggregate is unchanged; on \<open>Inr\<close> the value is its new content.\<close>

definition aggregate_merge :: "usage_aggregate \<Rightarrow> usage_aggregate \<Rightarrow> (usage_overflow, usage_aggregate) result" where
  "aggregate_merge self other =
    (if other = default_aggregate then Inr self
     else if self = default_aggregate then Inr other
     else
       and_then (case checked_add (a_requests self) (a_requests other) of
           None \<Rightarrow> Inl UsageOverflow | Some n \<Rightarrow> Inr n) (\<lambda>requests.
       and_then (count_merge (a_prompt self) (a_prompt other)) (\<lambda>prompt.
       and_then (count_merge (a_completion self) (a_completion other)) (\<lambda>completion.
       and_then (count_merge (a_total self) (a_total other)) (\<lambda>tot.
       and_then (count_merge (a_cached self) (a_cached other)) (\<lambda>cached.
       and_then (count_merge (a_cache_write self) (a_cache_write other)) (\<lambda>cache_write.
       and_then (count_merge (a_reasoning self) (a_reasoning other)) (\<lambda>reasoning.
       Inr \<lparr>a_requests = requests, a_coverage = merge_coverage (a_coverage self) (a_coverage other),
            a_prompt = prompt, a_completion = completion, a_total = tot, a_cached = cached,
            a_cache_write = cache_write, a_reasoning = reasoning\<rparr>))))))))"

definition receipt_aggregate :: "usage_receipt \<Rightarrow> usage_aggregate" where
  "receipt_aggregate r =
    (let counts = rc_counts r; tally = (\<lambda>v. count_from_receipt v (rc_final r))
     in \<lparr>a_requests = 1, a_coverage = rc_coverage r, a_prompt = tally (c_prompt counts),
         a_completion = tally (c_completion counts), a_total = tally (c_total counts),
         a_cached = tally (c_cached counts), a_cache_write = tally (c_cache_write counts),
         a_reasoning = tally (c_reasoning counts)\<rparr>)"

definition aggregate_add :: "usage_aggregate \<Rightarrow> usage_receipt \<Rightarrow> (usage_overflow, usage_aggregate) result" where
  "aggregate_add self receipt = aggregate_merge self (receipt_aggregate receipt)"

text \<open>\<open>UsageAggregate::validate\<close>. \<open>None\<close> is the panic of \<open>unwrap\<close> on an unknown complete count.\<close>

definition validate_subsets :: "usage_aggregate \<Rightarrow> (string, unit) result" where
  "validate_subsets a =
     and_then (ensure (\<not> (ct_complete (a_total a) \<and>
         sum_exceeds (ct_known (a_prompt a)) (ct_known (a_completion a)) (ct_known (a_total a))))
       ''aggregate primary subtotals exceed complete total'') (\<lambda>_.
     and_then (try_each (\<lambda>(detail, parent).
         ensure (\<not> (ct_complete parent \<and> exceeds (ct_known detail) (ct_known parent)))
           ''aggregate usage subset exceeds complete parent'')
       [(a_prompt a, a_total a), (a_completion a, a_total a), (a_cached a, a_prompt a),
        (a_cache_write a, a_prompt a), (a_reasoning a, a_completion a)]) (\<lambda>_.
     ensure (\<not> (ct_complete (a_prompt a) \<and>
         sum_exceeds (ct_known (a_cached a)) (ct_known (a_cache_write a)) (ct_known (a_prompt a))))
       ''aggregate cache categories exceed complete input''))"

definition primary_complete :: "usage_aggregate \<Rightarrow> bool" where
  "primary_complete a = list_all ct_complete [a_prompt a, a_completion a, a_total a]"

definition expected_coverage :: "usage_aggregate \<Rightarrow> usage_coverage" where
  "expected_coverage a =
    (if primary_complete a then Complete
     else if list_ex (\<lambda>c. ct_known c \<noteq> None)
       [a_prompt a, a_completion a, a_total a, a_cached a, a_cache_write a, a_reasoning a]
     then Partial else Unavailable)"

definition validate_aggregate :: "usage_aggregate \<Rightarrow> (string, unit) result option" where
  "validate_aggregate a =
    (if a_requests a = 0 then
       Some (ensure (a = default_aggregate \<or> a = unavailable_aggregate)
         ''zero observed requests cannot carry token receipts'')
     else if expected_coverage a \<noteq> a_coverage a then
       Some (Inl ''inconsistent aggregate usage coverage'')
     else if primary_complete a then
       (case (ct_known (a_prompt a), ct_known (a_completion a)) of
          (Some input, Some output) \<Rightarrow>
            if checked_add input output \<noteq> ct_known (a_total a)
            then Some (Inl ''inconsistent aggregate usage total'') else Some (validate_subsets a)
        | _ \<Rightarrow> None)
     else Some (validate_subsets a))"

definition count_try_from :: "count_total \<Rightarrow> (string, count_total) result" where
  "count_try_from w = (if ct_complete w \<and> ct_known w = None
     then Inl ''complete usage requires a known count'' else Inr w)"

text \<open>
  \<open>TryFrom<AggregateWire>\<close>: serde decodes every count through \<open>count_try_from\<close> before the
  aggregate itself is validated.
\<close>

definition aggregate_try_from :: "usage_aggregate \<Rightarrow> (string, usage_aggregate) result option" where
  "aggregate_try_from w =
    (case try_each (\<lambda>c. and_then (count_try_from c) (\<lambda>_. Inr ()))
        [a_prompt w, a_completion w, a_total w, a_cached w, a_cache_write w, a_reasoning w] of
       Inl e \<Rightarrow> Some (Inl e)
     | Inr _ \<Rightarrow> map_option (\<lambda>r. and_then r (\<lambda>_. Inr w)) (validate_aggregate w))"

section \<open>Stream parsing\<close>

datatype provider_usage = OpenAiChat | OpenAiResponses | Anthropic

fun paths :: "provider_usage \<Rightarrow> string list list" where
  "paths OpenAiChat =
     [[''prompt_tokens''], [''completion_tokens''], [''total_tokens''],
      [''prompt_tokens_details'', ''cached_tokens''],
      [''prompt_tokens_details'', ''cache_write_tokens''],
      [''completion_tokens_details'', ''reasoning_tokens'']]"
| "paths OpenAiResponses =
     [[''input_tokens''], [''output_tokens''], [''total_tokens''],
      [''input_tokens_details'', ''cached_tokens''],
      [''input_tokens_details'', ''cache_write_tokens''],
      [''output_tokens_details'', ''reasoning_tokens'']]"
| "paths Anthropic =
     [[''input_tokens''], [''output_tokens''], [''total_tokens''],
      [''cache_read_input_tokens''], [''cache_creation_input_tokens''],
      [''output_tokens_details'', ''thinking_tokens'']]"

record stream_usage =
  su_provider :: provider_usage
  su_fields :: "nat option list"
  su_tainted :: bool

definition new_stream :: "provider_usage \<Rightarrow> stream_usage" where
  "new_stream p = \<lparr>su_provider = p, su_fields = [None, None, None, None, None, None], su_tainted = False\<rparr>"

fun field :: "json \<Rightarrow> string list \<Rightarrow> (unit, nat) result option" where
  "field v [] = Some (case as_u64 v of None \<Rightarrow> Inl () | Some n \<Rightarrow> Inr n)"
| "field v (key # path) =
     (if \<not> is_object v then Some (Inl ())
      else (case json_get v key of None \<Rightarrow> None | Some w \<Rightarrow> field w path))"

definition update_field :: "json \<Rightarrow> stream_usage \<Rightarrow> nat \<times> string list \<Rightarrow> stream_usage" where
  "update_field usage st = (\<lambda>(index, path).
     if index = 2 \<and> su_provider st = Anthropic then st
     else (case field usage path of
         None \<Rightarrow> st
       | Some (Inr cnt) \<Rightarrow>
           (if (case su_fields st ! index of None \<Rightarrow> True | Some prior \<Rightarrow> prior \<le> cnt)
            then st\<lparr>su_fields := (su_fields st)[index := Some cnt]\<rparr>
            else st\<lparr>su_tainted := True\<rparr>)
       | Some (Inl _) \<Rightarrow> st\<lparr>su_tainted := True\<rparr>))"

definition stream_update :: "stream_usage \<Rightarrow> json \<Rightarrow> stream_usage" where
  "stream_update st usage =
    (if usage = JNull then st
     else if \<not> is_object usage then st\<lparr>su_tainted := True\<rparr>
     else foldl (update_field usage) st (enumerate 0 (paths (su_provider st))))"

fun sum_known_from :: "nat option \<Rightarrow> nat list \<Rightarrow> nat option" where
  "sum_known_from known [] = known"
| "sum_known_from known (v # vs) =
     (case checked_add (case known of None \<Rightarrow> 0 | Some k \<Rightarrow> k) v of
        None \<Rightarrow> None | Some s \<Rightarrow> sum_known_from (Some s) vs)"

definition sum_known :: "nat option list \<Rightarrow> nat option" where
  "sum_known values = sum_known_from None (somes values)"

definition stream_snapshot :: "stream_usage \<Rightarrow> bool \<Rightarrow> usage_receipt" where
  "stream_snapshot st final_receipt =
    (let f = su_fields st;
         input = f ! 0; output = f ! 1; tot = f ! 2; cached = f ! 3; cache_write = f ! 4; reasoning = f ! 5;
         valid = (\<not> su_tainted st);
         (input', tot', valid') =
           (if su_provider st = Anthropic then
              (let valid1 = (valid \<and> list_all (\<lambda>x. x \<noteq> None) [input, output, cached, cache_write]);
                   input_fields = [input, cached, cache_write];
                   input' = sum_known input_fields;
                   input_overflow = (input' = None \<and> list_ex (\<lambda>x. x \<noteq> None) input_fields);
                   tot' = (if input_overflow then None else sum_known [input', output])
               in (input', tot', valid1 \<and> input' \<noteq> None \<and> tot' \<noteq> None))
            else (input, tot, valid))
     in from_counts \<lparr>c_prompt = input', c_completion = output, c_total = tot', c_cached = cached,
           c_cache_write = cache_write, c_reasoning = reasoning\<rparr> (final_receipt \<and> valid'))"

definition provider_parse :: "provider_usage \<Rightarrow> json option \<Rightarrow> bool \<Rightarrow> usage_receipt" where
  "provider_parse p usage final_receipt =
    (let st = new_stream p
     in stream_snapshot (case usage of None \<Rightarrow> st | Some u \<Rightarrow> stream_update st u) final_receipt)"

section \<open>The decimal wire format\<close>

definition wire_parse :: "string \<Rightarrow> (string, nat) result" where
  "wire_parse value =
    (if value = [] \<or> 20 < length value \<or> \<not> list_all is_ascii_digit value \<or>
        (1 < length value \<and> hd value = CHR ''0'')
     then Inl ''usage count must be a canonical unsigned decimal string''
     else (case parse_uint u64_max value of
         None \<Rightarrow> Inl ''usage count exceeds the supported 64-bit range''
       | Some n \<Rightarrow> Inr n))"

definition wire_serialize :: "nat \<Rightarrow> string" where
  "wire_serialize n = dec n"

definition wire_serialize_optional :: "nat option \<Rightarrow> string option" where
  "wire_serialize_optional v = map_option dec v"

definition wire_parse_optional :: "string option \<Rightarrow> (string, nat option) result" where
  "wire_parse_optional v = (case v of None \<Rightarrow> Inr None
     | Some s \<Rightarrow> and_then (wire_parse s) (\<lambda>n. Inr (Some n)))"

lemma dec_length: "n < 10 ^ k \<Longrightarrow> 0 < k \<Longrightarrow> length (dec n) \<le> k"
proof (induction n arbitrary: k rule: dec.induct)
  case (1 n)
  show ?case
  proof (cases "n < 10")
    case True
    then show ?thesis using "1.prems" by (subst dec.simps) simp
  next
    case False
    then obtain j where j: "k = Suc j" "0 < j"
      using "1.prems" by (cases k; cases "k - 1") auto
    then have "n div 10 < 10 ^ j" using "1.prems" by (simp add: less_mult_imp_div_less)
    with "1.IH" False j show ?thesis by (subst dec.simps) simp
  qed
qed

lemma wire_parse_dec: "n \<le> u64_max \<Longrightarrow> wire_parse (dec n) = Inr n"
proof -
  assume n: "n \<le> u64_max"
  then have "n < 10 ^ 20" by (simp add: u64_max_def)
  then have "length (dec n) \<le> 20" by (rule dec_length) simp
  moreover have "\<not> (1 < length (dec n) \<and> hd (dec n) = CHR ''0'')"
    using dec_hd_zero [of n] dec_single [of n] by auto
  ultimately show ?thesis
    using n dec_digits [of n] by (simp add: wire_parse_def parse_uint_dec)
qed

lemma wire_parse_canonical:
  assumes "wire_parse s = Inr n"
  shows "s = dec n \<and> n \<le> u64_max"
proof -
  have s: "s \<noteq> []" "list_all is_ascii_digit s" "1 < length s \<Longrightarrow> hd s \<noteq> CHR ''0''"
    and p: "parse_uint u64_max s = Some n"
    using assms by (auto simp: wire_parse_def split: if_splits option.splits)
  have "hd s \<noteq> CHR ''+''"
    using s(1,2) by (cases s) (auto simp: is_ascii_digit_def byte_def)
  then have "dec_val s = n \<and> n \<le> u64_max"
    using p s(1) by (cases s) (auto simp: parse_uint_def Let_def split: if_splits)
  with dec_dec_val [OF s] show ?thesis by simp
qed

section \<open>Receipts are consistent\<close>

lemma exceeds_None [simp]: "\<not> exceeds None p" "\<not> exceeds d None"
  by (auto simp: exceeds_def split: option.splits)

lemma exceeds_Some [simp]: "exceeds (Some a) (Some b) \<longleftrightarrow> b < a"
  by (simp add: exceeds_def)

lemma sum_differs_None [simp]: "\<not> sum_differs a b None"
  by (auto simp: sum_differs_def split: option.splits)

lemma sum_exceeds_None [simp]:
  "\<not> sum_exceeds None b c" "\<not> sum_exceeds a None c" "\<not> sum_exceeds a b None"
  by (auto simp: sum_exceeds_def split: option.splits)

lemma sum_exceeds_Some [simp]:
  "sum_exceeds (Some a) (Some b) (Some c) \<longleftrightarrow> u64_max < a + b \<or> c < a + b"
  by (auto simp: sum_exceeds_def checked_add_def)

definition counts_ok :: "usage_counts \<Rightarrow> bool" where
  "counts_ok c \<longleftrightarrow>
     \<not> exceeds (c_prompt c) (c_total c) \<and> \<not> exceeds (c_completion c) (c_total c) \<and>
     \<not> sum_differs (c_prompt c) (c_completion c) (c_total c) \<and>
     \<not> exceeds (c_cached c) (c_prompt c) \<and> \<not> exceeds (c_cache_write c) (c_prompt c) \<and>
     \<not> exceeds (c_reasoning c) (c_completion c) \<and>
     \<not> sum_exceeds (c_cached c) (c_cache_write c) (c_prompt c)"

lemma bad_total_iff:
  "(case t of None \<Rightarrow> False | Some tot \<Rightarrow> list_ex (\<lambda>count. tot < count) (somes [p, c])) \<longleftrightarrow>
   exceeds p t \<or> exceeds c t"
  by (cases t; cases p; cases c) auto

lemma normalize_counts_ok: "counts_ok c \<Longrightarrow> normalize c = (c, True)"
  unfolding normalize_def bad_total_iff by (simp add: counts_ok_def)

lemma normalize_valid_ok: "snd (normalize c) \<Longrightarrow> counts_ok c"
  unfolding normalize_def bad_total_iff counts_ok_def Let_def snd_conv de_Morgan_disj
  by (elim conjE) (simp only: if_False simp_thms)

lemma normalize_fixed_iff: "normalize c = (c, True) \<longleftrightarrow> counts_ok c"
  using normalize_counts_ok normalize_valid_ok by (metis snd_conv)

lemma normalize_ok: "counts_ok (fst (normalize c))"
proof (cases c)
  case (fields a b t d e f)
  show ?thesis
    unfolding normalize_def bad_total_iff counts_ok_def fields
    by (simp add: Let_def)
qed

lemma normalize_idem: "normalize (fst (normalize c)) = (fst (normalize c), True)"
  by (simp add: normalize_fixed_iff normalize_ok)

lemma from_counts_counts: "rc_counts (from_counts c f) = fst (normalize c)"
  by (simp add: from_counts_def Let_def split_def)

lemma from_counts_final: "rc_final (from_counts c f) = (snd (normalize c) \<and> f)"
  by (simp add: from_counts_def Let_def split_def)

definition receipt_ok :: "usage_receipt \<Rightarrow> bool" where
  "receipt_ok r \<longleftrightarrow> r = from_counts (rc_counts r) (rc_final r)"

lemma from_counts_ok: "receipt_ok (from_counts c f)"
  using normalize_idem [of c] by (auto simp: receipt_ok_def from_counts_def Let_def split_def)

lemma receipt_ok_counts: "receipt_ok r \<Longrightarrow> counts_ok (rc_counts r)"
  by (metis from_counts_counts normalize_ok receipt_ok_def)

lemma receipt_ok_coverage:
  "receipt_ok r \<Longrightarrow> rc_coverage r =
     (if rc_final r \<and> c_prompt (rc_counts r) \<noteq> None \<and> c_completion (rc_counts r) \<noteq> None \<and> c_total (rc_counts r) \<noteq> None
      then Complete else if any_known (rc_counts r) then Partial else Unavailable)"
proof -
  assume ok: "receipt_ok r"
  have "rc_coverage (from_counts (rc_counts r) (rc_final r)) = rc_coverage r"
    using ok by (simp add: receipt_ok_def)
  moreover have "normalize (rc_counts r) = (rc_counts r, True)"
    using receipt_ok_counts [OF ok] by (simp add: normalize_fixed_iff)
  ultimately show ?thesis by (simp add: from_counts_def)
qed

lemma receipt_try_from_iff: "receipt_try_from w = Inr r \<longleftrightarrow> receipt_ok w \<and> r = w"
  by (auto simp: receipt_try_from_def receipt_ok_def Let_def)

section \<open>Aggregation is exact\<close>

definition known_or_zero :: "count_total \<Rightarrow> nat" where
  "known_or_zero c = (case ct_known c of None \<Rightarrow> 0 | Some n \<Rightarrow> n)"

definition count_ok :: "count_total \<Rightarrow> bool" where
  "count_ok c \<longleftrightarrow> (ct_complete c \<longrightarrow> ct_known c \<noteq> None) \<and> known_or_zero c \<le> u64_max"

lemma count_merge_Inr:
  "count_merge a b = Inr c \<Longrightarrow>
     known_or_zero c = known_or_zero a + known_or_zero b \<and>
     ct_complete c = (ct_complete a \<and> ct_complete b) \<and>
     (ct_known c = None \<longleftrightarrow> ct_known a = None \<and> ct_known b = None)"
  by (auto simp: count_merge_def known_or_zero_def checked_add_def split: option.splits if_splits)

lemma count_merge_ok: "count_ok a \<Longrightarrow> count_ok b \<Longrightarrow> count_merge a b = Inr c \<Longrightarrow> count_ok c"
  by (auto simp: count_merge_def count_ok_def known_or_zero_def checked_add_def
      split: option.splits if_splits)

lemma count_merge_Inl:
  "count_ok a \<Longrightarrow> count_ok b \<Longrightarrow>
   count_merge a b = Inl e \<longleftrightarrow> u64_max < known_or_zero a + known_or_zero b"
  by (cases e) (auto simp: count_merge_def count_ok_def known_or_zero_def checked_add_def
      split: option.splits if_splits)

abbreviation all_counts :: "usage_aggregate \<Rightarrow> count_total list" where
  "all_counts a \<equiv> [a_prompt a, a_completion a, a_total a, a_cached a, a_cache_write a, a_reasoning a]"

definition sums_ok :: "usage_aggregate \<Rightarrow> bool" where
  "sums_ok a \<longleftrightarrow>
     (primary_complete a \<longrightarrow>
        known_or_zero (a_prompt a) + known_or_zero (a_completion a) = known_or_zero (a_total a)) \<and>
     (ct_complete (a_total a) \<longrightarrow>
        known_or_zero (a_prompt a) + known_or_zero (a_completion a) \<le> known_or_zero (a_total a)) \<and>
     (ct_complete (a_prompt a) \<longrightarrow>
        known_or_zero (a_cached a) + known_or_zero (a_cache_write a) \<le> known_or_zero (a_prompt a)) \<and>
     (ct_complete (a_completion a) \<longrightarrow> known_or_zero (a_reasoning a) \<le> known_or_zero (a_completion a))"

text \<open>The invariant: the counts are decodable and \<open>validate\<close> accepts.\<close>

definition aggregate_ok :: "usage_aggregate \<Rightarrow> bool" where
  "aggregate_ok a \<longleftrightarrow> list_all count_ok (all_counts a) \<and> a_requests a \<le> u64_max \<and>
     validate_aggregate a = Some (Inr ())"

lemma validate_subsets_iff:
  assumes "list_all count_ok (all_counts a)"
  shows "validate_subsets a = Inr () \<longleftrightarrow>
     (ct_complete (a_total a) \<longrightarrow>
        known_or_zero (a_prompt a) + known_or_zero (a_completion a) \<le> known_or_zero (a_total a)) \<and>
     (ct_complete (a_prompt a) \<longrightarrow>
        known_or_zero (a_cached a) + known_or_zero (a_cache_write a) \<le> known_or_zero (a_prompt a)) \<and>
     (ct_complete (a_completion a) \<longrightarrow> known_or_zero (a_reasoning a) \<le> known_or_zero (a_completion a))"
proof -
  have pair: "ct_complete p \<longrightarrow> known_or_zero x + known_or_zero y \<le> known_or_zero p"
    if "count_ok p" "count_ok x" "count_ok y"
      "\<not> (ct_complete p \<and> exceeds (ct_known x) (ct_known p))" "\<not> (ct_complete p \<and> exceeds (ct_known y) (ct_known p))"
      "\<not> (ct_complete p \<and> sum_exceeds (ct_known x) (ct_known y) (ct_known p))" for p x y
    using that by (auto simp: known_or_zero_def count_ok_def split: option.splits)
  have conv: "\<not> exceeds (ct_known x) (ct_known p) \<and> \<not> exceeds (ct_known y) (ct_known p) \<and>
      \<not> sum_exceeds (ct_known x) (ct_known y) (ct_known p)"
    if "known_or_zero x + known_or_zero y \<le> known_or_zero p" "count_ok p" for p x y
    using that by (auto simp: known_or_zero_def count_ok_def split: option.splits)
  have single: "\<not> (ct_complete p \<and> exceeds (ct_known x) (ct_known p)) \<longleftrightarrow>
      (ct_complete p \<longrightarrow> known_or_zero x \<le> known_or_zero p)" if "count_ok p" for p x
    using that by (auto simp: known_or_zero_def count_ok_def split: option.splits)
  have ok: "count_ok (a_prompt a)" "count_ok (a_completion a)" "count_ok (a_total a)"
    "count_ok (a_cached a)" "count_ok (a_cache_write a)"
    using assms by simp_all
  show ?thesis
    using pair [OF ok(3,1,2)] pair [OF ok(1,4,5)] conv [OF _ ok(3)] conv [OF _ ok(1)]
      single [OF ok(2), of "a_reasoning a"]
    by (auto simp: validate_subsets_def rust_result)
qed

lemma aggregate_ok_iff:
  assumes "0 < a_requests a"
  shows "aggregate_ok a \<longleftrightarrow> list_all count_ok (all_counts a) \<and> a_requests a \<le> u64_max \<and>
    a_coverage a = expected_coverage a \<and> sums_ok a"
proof (cases "list_all count_ok (all_counts a)")
  case ok: True
  show ?thesis
  proof (cases "primary_complete a")
    case True
    then obtain x y z where "ct_known (a_prompt a) = Some x" "ct_known (a_completion a) = Some y"
      "ct_known (a_total a) = Some z" "z \<le> u64_max"
      using ok by (auto simp: primary_complete_def count_ok_def known_or_zero_def)
    then have "validate_aggregate a = Some (Inr ()) \<longleftrightarrow>
        a_coverage a = expected_coverage a \<and> x + y = z \<and> validate_subsets a = Inr ()"
      using assms True by (auto simp: validate_aggregate_def checked_add_def)
    moreover have "known_or_zero (a_prompt a) + known_or_zero (a_completion a) = known_or_zero (a_total a)
        \<longleftrightarrow> x + y = z"
      using calculation \<open>ct_known (a_prompt a) = Some x\<close> \<open>ct_known (a_completion a) = Some y\<close>
        \<open>ct_known (a_total a) = Some z\<close> by (simp add: known_or_zero_def)
    ultimately show ?thesis
      using validate_subsets_iff [OF ok] True by (auto simp: aggregate_ok_def sums_ok_def ok)
  next
    case False
    then have "validate_aggregate a = Some (Inr ()) \<longleftrightarrow>
        a_coverage a = expected_coverage a \<and> validate_subsets a = Inr ()"
      using assms by (auto simp: validate_aggregate_def)
    then show ?thesis
      using validate_subsets_iff [OF ok] False by (auto simp: aggregate_ok_def sums_ok_def ok)
  qed
qed (auto simp: aggregate_ok_def)

lemma expected_coverage_cases:
  "expected_coverage a = Complete \<longleftrightarrow> primary_complete a"
  "expected_coverage a = Unavailable \<longleftrightarrow>
     \<not> primary_complete a \<and> list_all (\<lambda>c. ct_known c = None) (all_counts a)"
  by (auto simp: expected_coverage_def)

definition fits :: "nat option \<Rightarrow> bool" where
  "fits v = (case v of None \<Rightarrow> True | Some n \<Rightarrow> n \<le> u64_max)"

text \<open>The counts of a receipt are \<open>u64\<close> values.\<close>

definition counts_u64 :: "usage_counts \<Rightarrow> bool" where
  "counts_u64 c = list_all fits [c_prompt c, c_completion c, c_total c, c_cached c, c_cache_write c, c_reasoning c]"

lemma count_from_receipt_ok: "fits v \<Longrightarrow> count_ok (count_from_receipt v f)"
  by (auto simp: fits_def count_ok_def count_from_receipt_def known_or_zero_def split: option.splits)

lemma receipt_aggregate_ok:
  assumes ok: "receipt_ok r" and bounds: "counts_u64 (rc_counts r)"
  shows "aggregate_ok (receipt_aggregate r)"
proof -
  obtain p c t d w g where r: "rc_counts r = \<lparr>c_prompt = p, c_completion = c, c_total = t, c_cached = d,
      c_cache_write = w, c_reasoning = g\<rparr>"
    by (cases "rc_counts r")
  let ?a = "receipt_aggregate r"
  have counts: "counts_ok (rc_counts r)" by (rule receipt_ok_counts [OF ok])
  have "list_all count_ok (all_counts ?a)"
    using bounds by (auto simp: receipt_aggregate_def r counts_u64_def intro: count_from_receipt_ok)
  moreover have "a_coverage ?a = expected_coverage ?a"
    using receipt_ok_coverage [OF ok]
    by (auto simp: receipt_aggregate_def r expected_coverage_def primary_complete_def
        count_from_receipt_def any_known_def)
  moreover have "sums_ok ?a"
    using counts
    by (auto simp: receipt_aggregate_def r sums_ok_def primary_complete_def count_from_receipt_def
        known_or_zero_def counts_ok_def sum_differs_def checked_add_def split: option.splits if_splits)
  moreover have "a_requests ?a = 1" by (simp add: receipt_aggregate_def Let_def)
  ultimately show ?thesis by (subst aggregate_ok_iff) (auto simp: u64_max_def)
qed

lemma default_aggregate_ok: "aggregate_ok default_aggregate"
  by (simp add: aggregate_ok_def default_aggregate_def default_count_def count_ok_def known_or_zero_def
      validate_aggregate_def ensure_def)

lemma unavailable_aggregate_ok: "aggregate_ok unavailable_aggregate"
  by (simp add: aggregate_ok_def unavailable_aggregate_def unknown_count_def count_ok_def known_or_zero_def
      validate_aggregate_def ensure_def)

lemma aggregate_ok_zero:
  "aggregate_ok a \<Longrightarrow> a_requests a = 0 \<Longrightarrow> a = default_aggregate \<or> a = unavailable_aggregate"
  by (auto simp: aggregate_ok_def validate_aggregate_def ensure_def split: if_splits)

text \<open>The sum laws and the coverage rule hold of every valid aggregate, with or without requests.\<close>

lemma aggregate_ok_sums:
  assumes "aggregate_ok a"
  shows "sums_ok a" and "list_all count_ok (all_counts a)" and "a_requests a \<le> u64_max"
    and "a_coverage a = expected_coverage a"
proof -
  show "list_all count_ok (all_counts a)" "a_requests a \<le> u64_max"
    using assms by (simp_all add: aggregate_ok_def)
  show "sums_ok a"
  proof (cases "a_requests a = 0")
    case True
    then show ?thesis using aggregate_ok_zero [OF assms]
      by (auto simp: sums_ok_def default_aggregate_def unavailable_aggregate_def default_count_def
          unknown_count_def known_or_zero_def primary_complete_def)
  qed (use assms aggregate_ok_iff in simp)
  show "a_coverage a = expected_coverage a"
  proof (cases "a_requests a = 0")
    case True
    then show ?thesis using aggregate_ok_zero [OF assms]
      by (auto simp: expected_coverage_def default_aggregate_def unavailable_aggregate_def default_count_def
          unknown_count_def primary_complete_def)
  qed (use assms aggregate_ok_iff in simp)
qed

lemma sums_ok_merge:
  assumes "sums_ok a" and "sums_ok b"
    and "primary_complete m \<longrightarrow> primary_complete a \<and> primary_complete b"
    and "count_merge (a_prompt a) (a_prompt b) = Inr (a_prompt m)"
    and "count_merge (a_completion a) (a_completion b) = Inr (a_completion m)"
    and "count_merge (a_total a) (a_total b) = Inr (a_total m)"
    and "count_merge (a_cached a) (a_cached b) = Inr (a_cached m)"
    and "count_merge (a_cache_write a) (a_cache_write b) = Inr (a_cache_write m)"
    and "count_merge (a_reasoning a) (a_reasoning b) = Inr (a_reasoning m)"
  shows "sums_ok m"
proof -
  note m = assms(4-9) [THEN count_merge_Inr, THEN conjunct1]
  note f = assms(4-9) [THEN count_merge_Inr, THEN conjunct2, THEN conjunct1]
  show ?thesis unfolding sums_ok_def
  proof (intro conjI impI)
    assume "primary_complete m"
    then show "known_or_zero (a_prompt m) + known_or_zero (a_completion m) = known_or_zero (a_total m)"
      using assms(1-3) m(1-3) by (simp add: sums_ok_def)
  next
    assume "ct_complete (a_total m)"
    then have "known_or_zero (a_prompt a) + known_or_zero (a_completion a) \<le> known_or_zero (a_total a)"
      "known_or_zero (a_prompt b) + known_or_zero (a_completion b) \<le> known_or_zero (a_total b)"
      using assms(1,2) f(3) by (auto simp: sums_ok_def)
    then show "known_or_zero (a_prompt m) + known_or_zero (a_completion m) \<le> known_or_zero (a_total m)"
      using m(1-3) by linarith
  next
    assume "ct_complete (a_prompt m)"
    then have "known_or_zero (a_cached a) + known_or_zero (a_cache_write a) \<le> known_or_zero (a_prompt a)"
      "known_or_zero (a_cached b) + known_or_zero (a_cache_write b) \<le> known_or_zero (a_prompt b)"
      using assms(1,2) f(1) by (auto simp: sums_ok_def)
    then show "known_or_zero (a_cached m) + known_or_zero (a_cache_write m) \<le> known_or_zero (a_prompt m)"
      using m(1,4,5) by linarith
  next
    assume "ct_complete (a_completion m)"
    then have "known_or_zero (a_reasoning a) \<le> known_or_zero (a_completion a)"
      "known_or_zero (a_reasoning b) \<le> known_or_zero (a_completion b)"
      using assms(1,2) f(2) by (auto simp: sums_ok_def)
    then show "known_or_zero (a_reasoning m) \<le> known_or_zero (a_completion m)"
      using m(2,6) by linarith
  qed
qed

text \<open>A successful merge of two non-empty scopes, field by field.\<close>

lemma aggregate_merge_fields:
  assumes "aggregate_merge a b = Inr m" and "a \<noteq> default_aggregate" and "b \<noteq> default_aggregate"
  shows "a_requests m = a_requests a + a_requests b" "a_requests m \<le> u64_max"
    "a_coverage m = merge_coverage (a_coverage a) (a_coverage b)"
    "count_merge (a_prompt a) (a_prompt b) = Inr (a_prompt m)"
    "count_merge (a_completion a) (a_completion b) = Inr (a_completion m)"
    "count_merge (a_total a) (a_total b) = Inr (a_total m)"
    "count_merge (a_cached a) (a_cached b) = Inr (a_cached m)"
    "count_merge (a_cache_write a) (a_cache_write b) = Inr (a_cache_write m)"
    "count_merge (a_reasoning a) (a_reasoning b) = Inr (a_reasoning m)"
  using assms
  by (auto simp: aggregate_merge_def rust_result checked_add_def split: option.splits if_splits)

lemma merge_expected_coverage:
  assumes "count_merge (a_prompt a) (a_prompt b) = Inr (a_prompt m)"
    and "count_merge (a_completion a) (a_completion b) = Inr (a_completion m)"
    and "count_merge (a_total a) (a_total b) = Inr (a_total m)"
    and "count_merge (a_cached a) (a_cached b) = Inr (a_cached m)"
    and "count_merge (a_cache_write a) (a_cache_write b) = Inr (a_cache_write m)"
    and "count_merge (a_reasoning a) (a_reasoning b) = Inr (a_reasoning m)"
    and "list_all count_ok (all_counts a)" and "list_all count_ok (all_counts b)"
  shows "primary_complete m \<longleftrightarrow> primary_complete a \<and> primary_complete b"
    and "expected_coverage m = merge_coverage (expected_coverage a) (expected_coverage b)"
proof -
  note f = assms(1-6) [THEN count_merge_Inr, THEN conjunct2]
  show prim: "primary_complete m \<longleftrightarrow> primary_complete a \<and> primary_complete b"
    using f(1-3) by (auto simp: primary_complete_def)
  have none: "list_all (\<lambda>c. ct_known c = None) (all_counts m) \<longleftrightarrow>
      list_all (\<lambda>c. ct_known c = None) (all_counts a) \<and> list_all (\<lambda>c. ct_known c = None) (all_counts b)"
    by (simp add: f) blast
  have known: "\<not> list_all (\<lambda>c. ct_known c = None) (all_counts x)"
    if "primary_complete x" "list_all count_ok (all_counts x)" for x
    using that by (auto simp: primary_complete_def count_ok_def)
  show "expected_coverage m = merge_coverage (expected_coverage a) (expected_coverage b)"
    using prim none known [of a] known [of b] assms(7,8) expected_coverage_cases [of a]
      expected_coverage_cases [of b] expected_coverage_cases [of m]
    by (cases "expected_coverage a"; cases "expected_coverage b"; cases "expected_coverage m")
       (simp_all add: merge_coverage_def)
qed

lemma unavailable_merge:
  "aggregate_merge unavailable_aggregate unavailable_aggregate = Inr unavailable_aggregate"
  by (simp add: aggregate_merge_def unavailable_aggregate_def default_aggregate_def checked_add_def
      count_merge_def unknown_count_def merge_coverage_def)

lemma aggregate_merge_ok:
  assumes a: "aggregate_ok a" and b: "aggregate_ok b" and m: "aggregate_merge a b = Inr m"
  shows "aggregate_ok m"
proof (cases "a = default_aggregate \<or> b = default_aggregate")
  case True
  then show ?thesis using assms by (auto simp: aggregate_merge_def split: if_splits)
next
  case False
  then have ne: "a \<noteq> default_aggregate" "b \<noteq> default_aggregate" by auto
  note F = aggregate_merge_fields [OF m ne]
  note A = aggregate_ok_sums [OF a]
  note B = aggregate_ok_sums [OF b]
  note E = merge_expected_coverage [OF F(4-9) A(2) B(2)]
  have counts: "list_all count_ok (all_counts m)"
    using A(2) B(2) by (simp add: count_merge_ok [OF _ _ F(4)] count_merge_ok [OF _ _ F(5)]
        count_merge_ok [OF _ _ F(6)] count_merge_ok [OF _ _ F(7)] count_merge_ok [OF _ _ F(8)]
        count_merge_ok [OF _ _ F(9)])
  have sums: "sums_ok m" using sums_ok_merge [OF A(1) B(1) _ F(4-9)] E(1) by blast
  have cov: "a_coverage m = expected_coverage m" using F(3) A(4) B(4) E(2) by simp
  show ?thesis
  proof (cases "a_requests m = 0")
    case True
    then have "a = unavailable_aggregate" "b = unavailable_aggregate"
      using F(1) ne aggregate_ok_zero [OF a] aggregate_ok_zero [OF b] by auto
    then have "m = unavailable_aggregate"
      using m unavailable_merge by simp
    then show ?thesis by (simp add: unavailable_aggregate_ok)
  next
    case False
    then show ?thesis using counts sums cov F(2) by (subst aggregate_ok_iff) auto
  qed
qed

lemma aggregate_add_ok:
  "aggregate_ok a \<Longrightarrow> receipt_ok r \<Longrightarrow> counts_u64 (rc_counts r) \<Longrightarrow> aggregate_add a r = Inr m \<Longrightarrow> aggregate_ok m"
  unfolding aggregate_add_def using aggregate_merge_ok receipt_aggregate_ok by blast

lemma known_default [simp]: "known_or_zero default_count = 0"
  by (simp add: known_or_zero_def default_count_def)

text \<open>The seven sums of a scope, in one list: requests and the six token counts.\<close>

definition totals :: "usage_aggregate \<Rightarrow> nat list" where
  "totals a = a_requests a # map known_or_zero (all_counts a)"

definition receipt_totals :: "usage_receipt \<Rightarrow> nat list" where
  "receipt_totals r = totals (receipt_aggregate r)"

definition add_lists :: "nat list \<Rightarrow> nat list \<Rightarrow> nat list" where
  "add_lists xs ys = map2 (+) xs ys"

lemma aggregate_merge_totals:
  assumes m: "aggregate_merge a b = Inr m"
  shows "totals m = add_lists (totals a) (totals b)"
proof (cases "a = default_aggregate \<or> b = default_aggregate")
  case True
  then show ?thesis using m
    by (auto simp: aggregate_merge_def totals_def add_lists_def default_aggregate_def split: if_splits)
next
  case False
  then have ne: "a \<noteq> default_aggregate" "b \<noteq> default_aggregate" by auto
  note F = aggregate_merge_fields [OF m ne]
  show ?thesis
    using F(4-9) [THEN count_merge_Inr] F(1) by (simp add: totals_def add_lists_def)
qed

lemma aggregate_merge_overflow:
  assumes "aggregate_ok a" and "aggregate_ok b"
  shows "aggregate_merge a b = Inl UsageOverflow \<longleftrightarrow>
    (\<exists>n \<in> set (add_lists (totals a) (totals b)). u64_max < n)"
proof (cases "a = default_aggregate \<or> b = default_aggregate")
  case True
  have le: "n \<le> u64_max" if "n \<in> set (totals x)" "aggregate_ok x" for n x
    using aggregate_ok_sums [OF that(2)] that(1) by (auto simp: totals_def count_ok_def)
  have z: "add_lists (totals a) (totals default_aggregate) = totals a"
    "add_lists (totals default_aggregate) (totals b) = totals b"
    by (simp_all add: totals_def add_lists_def default_aggregate_def)
  show ?thesis
    using True z le assms by (auto simp: aggregate_merge_def not_less)
next
  case False
  note A = aggregate_ok_sums(2) [OF assms(1)]
  note B = aggregate_ok_sums(2) [OF assms(2)]
  have i: "count_merge x y = Inl UsageOverflow \<longleftrightarrow> u64_max < known_or_zero x + known_or_zero y"
    if "count_ok x" "count_ok y" for x y using count_merge_Inl that by blast
  have r: "(case checked_add x y of None \<Rightarrow> Inl UsageOverflow | Some n \<Rightarrow> Inr n) = Inl UsageOverflow \<longleftrightarrow> u64_max < x + y"
    for x y by (auto simp: checked_add_def)
  have bind: "and_then q k = Inl UsageOverflow \<longleftrightarrow> q = Inl UsageOverflow \<or> (\<exists>v. q = Inr v \<and> k v = Inl UsageOverflow)"
    for q :: "(usage_overflow, 'x) result" and k :: "'x \<Rightarrow> (usage_overflow, usage_aggregate) result"
    by (rule and_then_Inl_iff)
  have ok_cases: "(\<exists>v. q = Inr v) \<longleftrightarrow> q \<noteq> Inl UsageOverflow" for q :: "(usage_overflow, 'y) result"
    by (cases q) (auto intro: usage_overflow.exhaust)
  show ?thesis using False A B unfolding aggregate_merge_def
    by (simp add: bind r i totals_def add_lists_def ok_cases) blast
qed

text \<open>Recording one receipt after the other, as a scope does over its attempts.\<close>

fun record_all :: "usage_aggregate \<Rightarrow> usage_receipt list \<Rightarrow> (usage_overflow, usage_aggregate) result" where
  "record_all a [] = Inr a"
| "record_all a (r # rs) = and_then (aggregate_add a r) (\<lambda>m. record_all m rs)"

fun column_sums :: "nat list \<Rightarrow> nat list list \<Rightarrow> nat list" where
  "column_sums acc [] = acc"
| "column_sums acc (row # rows) = column_sums (add_lists acc row) rows"

lemma column_sums_ge:
  "length acc = 7 \<Longrightarrow> \<forall>row \<in> set rows. length row = 7 \<Longrightarrow>
   length (column_sums acc rows) = 7 \<and> (\<forall>i < 7. acc ! i \<le> column_sums acc rows ! i)"
proof (induction rows arbitrary: acc)
  case (Cons row rows)
  then have "length (add_lists acc row) = 7" by (simp add: add_lists_def)
  with Cons have "\<forall>i < 7. add_lists acc row ! i \<le> column_sums (add_lists acc row) rows ! i"
    "length (column_sums (add_lists acc row) rows) = 7" by simp_all
  moreover have "acc ! i \<le> add_lists acc row ! i" if "i < 7" for i
    using that Cons.prems by (simp add: add_lists_def)
  ultimately show ?case by (auto intro: order_trans)
qed simp

lemma record_all_exact:
  assumes "aggregate_ok a" and "\<forall>r \<in> set rs. receipt_ok r \<and> counts_u64 (rc_counts r)"
  shows "case record_all a rs of
      Inr m \<Rightarrow> aggregate_ok m \<and> totals m = column_sums (totals a) (map receipt_totals rs)
    | Inl _ \<Rightarrow> \<exists>n \<in> set (column_sums (totals a) (map receipt_totals rs)). u64_max < n"
  using assms
proof (induction rs arbitrary: a)
  case (Cons r rs)
  then have r: "aggregate_ok (receipt_aggregate r)" by (simp add: receipt_aggregate_ok)
  let ?sum = "add_lists (totals a) (receipt_totals r)"
  show ?case
  proof (cases "aggregate_add a r")
    case (Inl e)
    then have "\<exists>n \<in> set ?sum. u64_max < n"
      using aggregate_merge_overflow [OF Cons.prems(1) r]
      by (cases e) (simp add: aggregate_add_def receipt_totals_def)
    moreover have "length ?sum = 7" by (simp add: totals_def add_lists_def receipt_totals_def)
    ultimately obtain i where "i < 7" "u64_max < ?sum ! i" by (metis in_set_conv_nth)
    moreover have "length (column_sums ?sum (map receipt_totals rs)) = 7 \<and>
        (\<forall>i < 7. ?sum ! i \<le> column_sums ?sum (map receipt_totals rs) ! i)"
      by (rule column_sums_ge) (auto simp: totals_def add_lists_def receipt_totals_def)
    ultimately have "u64_max < column_sums ?sum (map receipt_totals rs) ! i"
      and "column_sums ?sum (map receipt_totals rs) ! i \<in> set (column_sums ?sum (map receipt_totals rs))"
      using order_less_le_trans by (blast, simp)
    then have "\<exists>n \<in> set (column_sums ?sum (map receipt_totals rs)). u64_max < n" by blast
    with Inl show ?thesis by simp
  next
    case (Inr m)
    then have "aggregate_ok m" using aggregate_add_ok [OF Cons.prems(1) _ _ Inr] Cons.prems(2) by simp
    moreover have "totals m = ?sum"
      using Inr aggregate_merge_totals by (simp add: aggregate_add_def receipt_totals_def)
    then have "column_sums (totals a) (map receipt_totals (r # rs)) = column_sums (totals m) (map receipt_totals rs)"
      by simp
    ultimately show ?thesis using Cons.IH [of m] Cons.prems(2) Inr
      by (cases "record_all m rs") simp_all
  qed
qed simp

section \<open>Stream updates\<close>

definition stream_le :: "stream_usage \<Rightarrow> stream_usage \<Rightarrow> bool" where
  "stream_le s t \<longleftrightarrow> su_provider t = su_provider s \<and> length (su_fields t) = length (su_fields s) \<and>
     (su_tainted s \<longrightarrow> su_tainted t) \<and>
     (\<forall>i < length (su_fields s). \<forall>n. su_fields s ! i = Some n \<longrightarrow> (\<exists>m \<ge> n. su_fields t ! i = Some m))"

lemma stream_le_refl: "stream_le s s"
  by (auto simp: stream_le_def)

lemma stream_le_trans: "stream_le s t \<Longrightarrow> stream_le t u \<Longrightarrow> stream_le s u"
proof -
  assume st: "stream_le s t" and tu: "stream_le t u"
  have "\<exists>k \<ge> n. su_fields u ! i = Some k" if i: "i < length (su_fields s)" and n: "su_fields s ! i = Some n" for i n
  proof -
    obtain m where m: "n \<le> m" "su_fields t ! i = Some m" using st i n by (auto simp: stream_le_def)
    have "i < length (su_fields t)" using st i by (simp add: stream_le_def)
    with tu m(2) obtain k where "m \<le> k" "su_fields u ! i = Some k" unfolding stream_le_def by metis
    with m(1) show ?thesis using order_trans by blast
  qed
  with st tu show ?thesis by (simp add: stream_le_def)
qed

lemma nth_update_in: "i < length xs \<Longrightarrow> xs[a := v] ! i = (if i = a then v else xs ! i)"
  by simp

lemma update_field_le: "stream_le s (update_field usage s f)"
  by (cases f) (auto simp: update_field_def stream_le_def nth_update_in
      split: option.splits sum.splits if_splits)

lemma update_fields_le: "stream_le s (foldl (update_field usage) s fs)"
proof (induction fs arbitrary: s)
  case (Cons f fs)
  then show ?case using stream_le_trans update_field_le by fastforce
qed (simp add: stream_le_refl)

lemma stream_update_le: "stream_le s (stream_update s usage)"
  by (auto simp: stream_update_def stream_le_refl update_fields_le)
     (simp add: stream_le_def)

interpretation stream: step_monotone stream_update stream_le
  by unfold_locales (auto intro: stream_le_refl stream_le_trans stream_update_le)

definition stream_of :: "provider_usage \<Rightarrow> json list \<Rightarrow> stream_usage" where
  "stream_of p us = foldl stream_update (new_stream p) us"

lemma new_stream_fields [simp]: "length (su_fields (new_stream p)) = 6" "su_provider (new_stream p) = p"
  by (simp_all add: new_stream_def)

lemma sum_known_three:
  "sum_known [Some a, Some b, Some c] = Some s \<Longrightarrow> s = a + b + c \<and> s \<le> u64_max"
  by (auto simp: sum_known_def checked_add_def split: option.splits if_splits)

lemma sum_known_two: "sum_known [Some a, Some b] = Some s \<Longrightarrow> s = a + b \<and> s \<le> u64_max"
  by (auto simp: sum_known_def checked_add_def split: option.splits if_splits)

lemma stream_snapshot_shape:
  "\<exists>c v. stream_snapshot st final = from_counts c (final \<and> v) \<and> (v \<longrightarrow> \<not> su_tainted st) \<and>
     (su_provider st = Anthropic \<longrightarrow>
        c_prompt c = sum_known [su_fields st ! 0, su_fields st ! 3, su_fields st ! 4] \<and>
        (v \<longrightarrow> su_fields st ! 0 \<noteq> None \<and> su_fields st ! 3 \<noteq> None \<and> su_fields st ! 4 \<noteq> None))"
proof (cases "su_provider st = Anthropic")
  case True
  show ?thesis
    unfolding stream_snapshot_def Let_def True simp_thms if_True case_prod_conv
    by (rule exI, rule exI, rule conjI, rule refl) simp
next
  case False
  show ?thesis
    unfolding stream_snapshot_def Let_def if_not_P [OF False] case_prod_conv
    by (rule exI, rule exI, rule conjI, rule refl) (simp add: False)
qed

lemma from_counts_complete:
  assumes "rc_coverage (from_counts c f) = Complete"
  shows "f \<and> rc_counts (from_counts c f) = c \<and>
    (\<exists>i out. c_prompt c = Some i \<and> c_completion c = Some out \<and> c_total c = Some (i + out) \<and> i + out \<le> u64_max)"
proof -
  have v: "snd (normalize c)" "f"
    using assms by (auto simp: from_counts_def Let_def split_def split: if_splits)
  then have ok: "counts_ok c" by (intro normalize_valid_ok)
  then have n: "normalize c = (c, True)" by (rule normalize_counts_ok)
  with assms obtain i out t where "c_prompt c = Some i" "c_completion c = Some out" "c_total c = Some t"
    by (auto simp: from_counts_def split: if_splits)
  with ok have "t = i + out" "t \<le> u64_max"
    by (auto simp: counts_ok_def sum_differs_def checked_add_def split: if_splits)
  with n v \<open>c_prompt c = _\<close> \<open>c_completion c = _\<close> \<open>c_total c = _\<close> show ?thesis
    by (simp add: from_counts_counts)
qed

section \<open>What receipts and aggregates guarantee\<close>

text \<open>
  C4. Aggregation never loses or invents usage: after any sequence of provider receipts the
  aggregate passes its own \<open>validate\<close>, and its request count and six token counts are the
  exact sums of the receipts; an error is reported precisely when one of those sums does
  not fit 64 bits.
\<close>

theorem usage_aggregation_exact:
  assumes "\<forall>r \<in> set rs. receipt_ok r \<and> counts_u64 (rc_counts r)"
  shows "case record_all default_aggregate rs of
      Inr m \<Rightarrow> validate_aggregate m = Some (Inr ()) \<and> totals m = column_sums [0, 0, 0, 0, 0, 0, 0] (map receipt_totals rs)
        \<and> (\<forall>n \<in> set (totals m). n \<le> u64_max)
    | Inl _ \<Rightarrow> \<exists>n \<in> set (column_sums [0, 0, 0, 0, 0, 0, 0] (map receipt_totals rs)). u64_max < n"
proof -
  have "totals default_aggregate = [0, 0, 0, 0, 0, 0, 0]"
    by (simp add: totals_def default_aggregate_def)
  moreover have "\<forall>n \<in> set (totals m). n \<le> u64_max" if "aggregate_ok m" for m
    using aggregate_ok_sums [OF that] by (auto simp: totals_def count_ok_def)
  ultimately show ?thesis
    using record_all_exact [OF default_aggregate_ok assms] aggregate_ok_def
    by (cases "record_all default_aggregate rs") auto
qed

definition sample_receipt :: usage_receipt where
  "sample_receipt = provider_parse OpenAiChat
     (Some (JObject [(''prompt_tokens'', JUint 7), (''completion_tokens'', JUint 5), (''total_tokens'', JUint 12)])) True"

lemma sample_receipt_value:
  "sample_receipt = \<lparr>rc_counts = \<lparr>c_prompt = Some 7, c_completion = Some 5, c_total = Some 12, c_cached = None,
      c_cache_write = None, c_reasoning = None\<rparr>, rc_final = True, rc_coverage = Complete\<rparr>"
proof -
  let ?u = "JObject [(''prompt_tokens'', JUint 7), (''completion_tokens'', JUint 5), (''total_tokens'', JUint 12)]"
  have "stream_update (new_stream OpenAiChat) ?u =
      \<lparr>su_provider = OpenAiChat, su_fields = [Some 7, Some 5, Some 12, None, None, None], su_tainted = False\<rparr>"
    by (simp add: stream_update_def new_stream_def update_field_def is_object_def json_get_def as_u64_def u64_max_def)
  moreover have "normalize \<lparr>c_prompt = Some 7, c_completion = Some 5, c_total = Some 12, c_cached = None,
      c_cache_write = None, c_reasoning = None\<rparr> = (\<lparr>c_prompt = Some 7, c_completion = Some 5, c_total = Some 12,
      c_cached = None, c_cache_write = None, c_reasoning = None\<rparr>, True)"
    by (rule normalize_counts_ok) (simp add: counts_ok_def sum_differs_def checked_add_def u64_max_def)
  ultimately show ?thesis
    by (simp add: sample_receipt_def provider_parse_def stream_snapshot_def from_counts_def)
qed

lemma sample_receipt_ok: "receipt_ok sample_receipt \<and> counts_u64 (rc_counts sample_receipt)"
  by (simp add: sample_receipt_value counts_u64_def fits_def u64_max_def)
     (simp add: sample_receipt_def provider_parse_def stream_snapshot_def Let_def split_def from_counts_ok
       flip: sample_receipt_value)

theorem usage_aggregation_exact_witness:
  "receipt_ok sample_receipt \<and> counts_u64 (rc_counts sample_receipt) \<and>
   (case record_all default_aggregate [sample_receipt, sample_receipt] of
      Inr m \<Rightarrow> totals m = [2, 14, 10, 24, 0, 0, 0] | Inl _ \<Rightarrow> False)"
proof -
  have r: "\<forall>r \<in> set [sample_receipt, sample_receipt]. receipt_ok r \<and> counts_u64 (rc_counts r)"
    using sample_receipt_ok by simp
  have t: "receipt_totals sample_receipt = [1, 7, 5, 12, 0, 0, 0]"
    by (simp add: receipt_totals_def totals_def receipt_aggregate_def sample_receipt_value Let_def
        count_from_receipt_def known_or_zero_def)
  have "column_sums [0, 0, 0, 0, 0, 0, 0] (map receipt_totals [sample_receipt, sample_receipt]) = [2, 14, 10, 24, 0, 0, 0]"
    by (simp add: t add_lists_def)
  with usage_aggregation_exact [OF r] r show ?thesis
    by (auto simp: u64_max_def split: sum.splits)
qed

text \<open>
  A receipt built from a provider stream can only claim complete coverage when the
  transport declared it final, no update was malformed or regressing, and its total is
  the exact, non-overflowing sum of input and output (for Anthropic, with both cache
  categories counted into the input). Every such receipt is internally consistent.
\<close>

theorem stream_receipt_trustworthy:
  "receipt_ok (stream_snapshot (stream_of p us) final) \<and>
   (rc_coverage (stream_snapshot (stream_of p us) final) = Complete \<longrightarrow>
      final \<and> \<not> su_tainted (stream_of p us) \<and>
      (\<exists>i out. c_prompt (rc_counts (stream_snapshot (stream_of p us) final)) = Some i \<and>
        c_completion (rc_counts (stream_snapshot (stream_of p us) final)) = Some out \<and>
        c_total (rc_counts (stream_snapshot (stream_of p us) final)) = Some (i + out) \<and> i + out \<le> u64_max \<and>
        (p = Anthropic \<longrightarrow> (\<exists>a b c. su_fields (stream_of p us) ! 0 = Some a \<and>
            su_fields (stream_of p us) ! 3 = Some b \<and> su_fields (stream_of p us) ! 4 = Some c \<and> i = a + b + c))))"
proof -
  define st where "st = stream_of p us"
  have p: "su_provider st = p"
    using stream.below_run [of "new_stream p" us] by (simp add: st_def stream_of_def stream_le_def)
  obtain c v where s: "stream_snapshot st final = from_counts c (final \<and> v)"
    and v: "v \<longrightarrow> \<not> su_tainted st"
    and a: "p = Anthropic \<longrightarrow> c_prompt c = sum_known [su_fields st ! 0, su_fields st ! 3, su_fields st ! 4] \<and>
       (v \<longrightarrow> su_fields st ! 0 \<noteq> None \<and> su_fields st ! 3 \<noteq> None \<and> su_fields st ! 4 \<noteq> None)"
    using stream_snapshot_shape [of st final] p by metis
  have "final \<and> \<not> su_tainted st \<and>
      (\<exists>i out. c_prompt (rc_counts (stream_snapshot st final)) = Some i \<and>
        c_completion (rc_counts (stream_snapshot st final)) = Some out \<and>
        c_total (rc_counts (stream_snapshot st final)) = Some (i + out) \<and> i + out \<le> u64_max \<and>
        (p = Anthropic \<longrightarrow> (\<exists>a b c. su_fields st ! 0 = Some a \<and> su_fields st ! 3 = Some b \<and>
            su_fields st ! 4 = Some c \<and> i = a + b + c)))"
    if complete: "rc_coverage (stream_snapshot st final) = Complete"
  proof -
    obtain i out where fin: "final" "v" and rc: "rc_counts (stream_snapshot st final) = c"
      and c: "c_prompt c = Some i" "c_completion c = Some out" "c_total c = Some (i + out)" "i + out \<le> u64_max"
      using from_counts_complete [of c "final \<and> v"] complete unfolding s by blast
    have "\<exists>a b d. su_fields st ! 0 = Some a \<and> su_fields st ! 3 = Some b \<and> su_fields st ! 4 = Some d \<and> i = a + b + d"
      if "p = Anthropic"
      using that a fin(2) c(1) sum_known_three by force
    then show ?thesis using fin v c unfolding rc by blast
  qed
  moreover have "receipt_ok (stream_snapshot st final)" by (simp add: s from_counts_ok)
  ultimately show ?thesis unfolding st_def by blast
qed

theorem stream_receipt_trustworthy_witness:
  "rc_coverage (stream_snapshot (stream_of Anthropic [JObject
       [(''input_tokens'', JUint 3), (''output_tokens'', JUint 4), (''cache_read_input_tokens'', JUint 3),
        (''cache_creation_input_tokens'', JUint 2)]]) True) = Complete \<and>
   \<not> su_tainted (stream_of Anthropic [JObject
       [(''input_tokens'', JUint 3), (''output_tokens'', JUint 4), (''cache_read_input_tokens'', JUint 3),
        (''cache_creation_input_tokens'', JUint 2)]])"
proof -
  let ?us = "[JObject [(''input_tokens'', JUint 3), (''output_tokens'', JUint 4),
      (''cache_read_input_tokens'', JUint 3), (''cache_creation_input_tokens'', JUint 2)]]"
  have f: "stream_of Anthropic ?us = \<lparr>su_provider = Anthropic,
      su_fields = [Some 3, Some 4, None, Some 3, Some 2, None], su_tainted = False\<rparr>"
    by (simp add: stream_of_def stream_update_def new_stream_def update_field_def is_object_def json_get_def
        as_u64_def u64_max_def)
  have n: "normalize \<lparr>c_prompt = Some 8, c_completion = Some 4, c_total = Some 12, c_cached = Some 3,
      c_cache_write = Some 2, c_reasoning = None\<rparr> = (\<lparr>c_prompt = Some 8, c_completion = Some 4, c_total = Some 12,
      c_cached = Some 3, c_cache_write = Some 2, c_reasoning = None\<rparr>, True)"
    by (rule normalize_counts_ok) (simp add: counts_ok_def sum_differs_def checked_add_def u64_max_def)
  have k: "sum_known [Some 3, Some 3, Some 2] = Some 8" "sum_known [Some 8, Some 4] = Some 12"
    by (simp_all add: sum_known_def checked_add_def u64_max_def)
  have "rc_coverage (stream_snapshot (stream_of Anthropic ?us) True) = Complete"
    by (simp add: f stream_snapshot_def Let_def k from_counts_def n)
  then show ?thesis using stream_receipt_trustworthy [of Anthropic ?us True] by blast
qed

text \<open>
  Streaming updates never lose a count: whatever chunks follow (null, malformed,
  regressing or out of order), a token count that was once known stays known and never
  decreases, and an error seen once is never forgotten.
\<close>

theorem stream_counts_never_regress:
  "(\<forall>i < 6. \<forall>n. su_fields (stream_of p us) ! i = Some n \<longrightarrow>
      (\<exists>m \<ge> n. su_fields (stream_of p (us @ vs)) ! i = Some m)) \<and>
   (su_tainted (stream_of p us) \<longrightarrow> su_tainted (stream_of p (us @ vs)))"
proof -
  have "length (su_fields (stream_of p us)) = 6"
    using stream.below_run [of "new_stream p" us] by (simp add: stream_of_def stream_le_def)
  then show ?thesis
    using stream.below_run [of "stream_of p us" vs] by (simp add: stream_of_def stream_le_def)
qed

theorem stream_counts_never_regress_witness:
  "su_fields (stream_of OpenAiChat [JObject [(''prompt_tokens'', JUint 3)]]) ! 0 = Some 3 \<and>
   (\<exists>m \<ge> 3. su_fields (stream_of OpenAiChat ([JObject [(''prompt_tokens'', JUint 3)]] @
       [JObject [(''prompt_tokens'', JUint 2)]])) ! 0 = Some m)"
proof
  show "su_fields (stream_of OpenAiChat [JObject [(''prompt_tokens'', JUint 3)]]) ! 0 = Some 3"
    by (simp add: stream_of_def stream_update_def new_stream_def update_field_def is_object_def json_get_def
        as_u64_def u64_max_def)
  then show "\<exists>m \<ge> 3. su_fields (stream_of OpenAiChat ([JObject [(''prompt_tokens'', JUint 3)]] @
       [JObject [(''prompt_tokens'', JUint 2)]])) ! 0 = Some m"
    using stream_counts_never_regress [of OpenAiChat "[JObject [(''prompt_tokens'', JUint 3)]]"
        "[JObject [(''prompt_tokens'', JUint 2)]]"] by simp
qed

text \<open>
  The wire format is a bijection between the 64-bit counts and the accepted strings:
  every count survives serialization and parsing, and every accepted string is the
  canonical decimal numeral of the count it denotes.
\<close>

theorem usage_wire_round_trip:
  "(wire_parse s = Inr n) = (s = wire_serialize n \<and> n \<le> u64_max)"
  using wire_parse_canonical wire_parse_dec by (auto simp: wire_serialize_def)

lemma aggregate_decode_cases:
  assumes "\<forall>c \<in> set (all_counts w). fits (ct_known c)" and "a_requests w \<le> u64_max"
  shows "aggregate_try_from w \<noteq> None \<and>
    (aggregate_ok w \<longrightarrow> aggregate_try_from w = Some (Inr w)) \<and>
    (\<forall>m. aggregate_try_from w = Some (Inr m) \<longrightarrow> m = w \<and> aggregate_ok w)"
proof -
  have ok: "count_ok c \<longleftrightarrow> count_try_from c = Inr c" if "fits (ct_known c)" for c
    using that by (auto simp: count_ok_def count_try_from_def fits_def known_or_zero_def split: option.splits)
  define xs where "xs = all_counts w"
  let ?checks = "try_each (\<lambda>c. and_then (count_try_from c) (\<lambda>_. Inr ())) xs"
  have each: "?checks = Inr () \<longleftrightarrow> list_all count_ok xs"
    unfolding try_each_Inr_iff list_all_iff using assms(1) [folded xs_def] ok
    by (auto simp: count_try_from_def split: if_splits)
  have decode: "aggregate_try_from w = (case ?checks of Inl e \<Rightarrow> Some (Inl e)
      | Inr _ \<Rightarrow> map_option (\<lambda>r. and_then r (\<lambda>_. Inr w)) (validate_aggregate w))"
    by (simp only: aggregate_try_from_def xs_def)
  have inv: "aggregate_ok w \<longleftrightarrow> list_all count_ok xs \<and> validate_aggregate w = Some (Inr ())"
    using assms(2) by (simp only: aggregate_ok_def xs_def simp_thms)
  show ?thesis
  proof (cases ?checks)
    case (Inl e)
    then show ?thesis using each by (auto simp: decode inv)
  next
    case (Inr u)
    then have counts: "list_all count_ok xs" using each by simp
    moreover have "aggregate_try_from w = map_option (\<lambda>r. and_then r (\<lambda>_. Inr w)) (validate_aggregate w)"
      using Inr by (simp add: decode)
    moreover have "validate_aggregate w \<noteq> None"
      using counts unfolding xs_def
      by (auto simp: validate_aggregate_def primary_complete_def count_ok_def split: option.splits)
    ultimately show ?thesis by (auto simp: inv and_then_Inr_iff)
  qed
qed

text \<open>
  Decoding a persisted aggregate never panics, and it accepts exactly the aggregates
  that satisfy the invariant; in particular whatever the accounting produced can be read
  back unchanged.
\<close>

theorem aggregate_decode_exact:
  assumes "\<forall>c \<in> set (all_counts w). fits (ct_known c)" and "a_requests w \<le> u64_max"
  shows "aggregate_try_from w \<noteq> None \<and>
    (aggregate_ok w \<longrightarrow> aggregate_try_from w = Some (Inr w)) \<and>
    (\<forall>m. aggregate_try_from w = Some (Inr m) \<longrightarrow> m = w \<and> aggregate_ok w)"
  by (rule aggregate_decode_cases [OF assms])

theorem aggregate_decode_exact_witness:
  "aggregate_try_from unavailable_aggregate = Some (Inr unavailable_aggregate)"
  using aggregate_decode_exact [of unavailable_aggregate] unavailable_aggregate_ok
  by (simp add: unavailable_aggregate_def unknown_count_def fits_def)

end
