(* ===== verification/Token_Budget.thy ===== *)
theory Token_Budget
  imports Usage
begin

text \<open>
  \<open>src/src/usage/budget.rs\<close>, \<open>usage/budget/snapshot.rs\<close> and \<open>usage/snapshot.rs\<close>: the run
  token budget, its reservations, and the persisted snapshot.

  A \<open>TokenBudget\<close> is \<open>None\<close> when budgeting is disabled, and otherwise the value behind its
  mutex; every operation takes the lock for its whole effect, so operations are atomic
  and are passed the state explicitly. The release profile has no overflow checks, so the
  plain operators of the code are the wrapping ones.
\<close>

section \<open>Snapshots\<close>

datatype budget_state =
    BDisabled | BUnavailable | BActive | BExhausted | BUnsupported | BBoundViolated | BCountingFailed

fun state_check :: "budget_state \<Rightarrow> (budget_error, unit) result" where
  "state_check BDisabled = Inr ()"
| "state_check BActive = Inr ()"
| "state_check BExhausted = Inl Exhausted"
| "state_check BUnsupported = Inl Unsupported"
| "state_check BUnavailable = Inl Unsupported"
| "state_check BBoundViolated = Inl BoundViolated"
| "state_check BCountingFailed = Inl CountingFailed"

fun from_error :: "budget_error \<Rightarrow> budget_state" where
  "from_error Exhausted = BExhausted"
| "from_error BoundViolated = BBoundViolated"
| "from_error CountingFailed = BCountingFailed"
| "from_error Unsupported = BUnsupported"
| "from_error Configuration = BUnsupported"

record budget_snapshot =
  b_state :: budget_state
  b_limit :: "nat option"
  b_charged :: nat
  b_retained :: nat
  b_reserved :: nat
  b_in_flight :: nat

definition default_budget :: budget_snapshot where
  "default_budget = \<lparr>b_state = BDisabled, b_limit = None, b_charged = 0, b_retained = 0, b_reserved = 0, b_in_flight = 0\<rparr>"

definition max_run_tokens :: nat where
  "max_run_tokens = 1000000000"

definition validate_budget :: "budget_snapshot \<Rightarrow> (string, unit) result" where
  "validate_budget b =
    (if b_state b = BDisabled \<or> b_state b = BUnavailable then
       ensure (b = default_budget\<lparr>b_state := b_state b\<rparr>) ''invalid disabled token budget''
     else (case b_limit b of
         Some limit \<Rightarrow>
           if 1 \<le> limit \<and> limit \<le> max_run_tokens then
             ensure (\<not> ((case checked_add (b_charged b) (b_reserved b) of None \<Rightarrow> True | Some n \<Rightarrow> limit < n) \<or>
                        b_charged b < b_retained b \<or>
                        (b_in_flight b = 0) \<noteq> (b_reserved b = 0) \<or>
                        b_reserved b < b_in_flight b))
               ''invalid token budget counters''
           else Inl ''invalid token budget limit''
       | None \<Rightarrow> Inl ''invalid token budget limit''))"

section \<open>The budget\<close>

type_synonym token_budget = "budget_snapshot option"

definition new_budget :: "nat \<Rightarrow> (budget_error, token_budget) result" where
  "new_budget limit =
    (if \<not> (1 \<le> limit \<and> limit \<le> max_run_tokens) then Inl Configuration
     else Inr (Some (default_budget\<lparr>b_state := BActive, b_limit := Some limit\<rparr>)))"

definition from_raw :: "string option \<Rightarrow> (budget_error, token_budget) result" where
  "from_raw raw = (case raw of
     None \<Rightarrow> Inr None
   | Some s \<Rightarrow>
      (if s = [] \<or> \<not> list_all is_ascii_digit s then Inl Configuration
       else (case parse_uint u64_max s of None \<Rightarrow> Inl Configuration | Some n \<Rightarrow> new_budget n)))"

definition from_environment :: "env \<Rightarrow> (budget_error, token_budget) result" where
  "from_environment env = (case env ''IRONCREW_MAX_RUN_TOKENS'' of
     Present value \<Rightarrow> from_raw (Some value)
   | NotPresent \<Rightarrow> Inr None
   | NotUnicode \<Rightarrow> Inl Configuration)"

definition budget_snapshot_of :: "token_budget \<Rightarrow> budget_snapshot" where
  "budget_snapshot_of t = (case t of None \<Rightarrow> default_budget | Some b \<Rightarrow> b)"

definition budget_check :: "token_budget \<Rightarrow> (budget_error, unit) result" where
  "budget_check t = state_check (b_state (budget_snapshot_of t))"

definition block :: "token_budget \<Rightarrow> budget_error \<Rightarrow> token_budget" where
  "block t e = map_option (\<lambda>b. if b_state b = BActive then b\<lparr>b_state := from_error e\<rparr> else b) t"

record reservation =
  rv_input :: nat
  rv_output :: nat
  rv_settled :: bool

definition reserve :: "token_budget \<Rightarrow> nat \<Rightarrow> nat \<Rightarrow> token_budget \<times> (budget_error, reservation) result" where
  "reserve t input output =
    (case checked_add input output of
       None \<Rightarrow> (block t Exhausted, Inl Exhausted)
     | Some amount \<Rightarrow>
        (if output = 0 then (block t Unsupported, Inl Unsupported)
         else (let granted = Inr \<lparr>rv_input = input, rv_output = output, rv_settled = False\<rparr>
           in case t of
             None \<Rightarrow> (None, granted)
           | Some b \<Rightarrow>
              (case state_check (b_state b) of
                 Inl e \<Rightarrow> (Some b, Inl e)
               | Inr _ \<Rightarrow>
                  (let remaining = wrapping_sub (wrapping_sub (the (b_limit b)) (b_charged b)) (b_reserved b)
                   in if remaining < amount then (Some (b\<lparr>b_state := BExhausted\<rparr>), Inl Exhausted)
                      else (Some (b\<lparr>b_reserved := wrapping_add (b_reserved b) amount,
                                   b_in_flight := wrapping_add (b_in_flight b) 1\<rparr>), granted))))))"

text \<open>\<open>Reservation::settle\<close>: the reservation's new value, the budget, and the result.\<close>

definition settle :: "token_budget \<Rightarrow> reservation \<Rightarrow> usage_receipt \<Rightarrow>
    token_budget \<times> reservation \<times> (budget_error, unit) result" where
  "settle t rv receipt =
    (if rv_settled rv then (t, rv, Inr ())
     else (let rv' = rv\<lparr>rv_settled := True\<rparr> in case t of
         None \<Rightarrow> (None, rv', Inr ())
       | Some b \<Rightarrow>
          (let amount = wrapping_add (rv_input rv) (rv_output rv);
               counts = rc_counts receipt;
               violated = (exceeds (c_prompt counts) (Some (rv_input rv)) \<or>
                           exceeds (c_completion counts) (Some (rv_output rv)) \<or>
                           exceeds (c_total counts) (Some amount));
               known = (rc_coverage receipt = Complete \<and> \<not> violated);
               charge = (if known then the (c_total counts) else amount);
               b1 = b\<lparr>b_reserved := wrapping_sub (b_reserved b) amount,
                      b_in_flight := wrapping_sub (b_in_flight b) 1,
                      b_charged := wrapping_add (b_charged b) charge\<rparr>;
               b2 = (if \<not> known then b1\<lparr>b_retained := wrapping_add (b_retained b1) amount\<rparr> else b1)
           in if violated then (Some (b2\<lparr>b_state := BBoundViolated\<rparr>), rv', Inl BoundViolated)
              else (Some b2, rv', Inr ()))))"

text \<open>Dropping a reservation settles it with the default receipt.\<close>

definition drop_reservation :: "token_budget \<Rightarrow> reservation \<Rightarrow> token_budget" where
  "drop_reservation t rv = fst (settle t rv default_receipt)"

text \<open>\<open>Reservation::finish\<close>: settle, then the value is dropped.\<close>

definition finish :: "token_budget \<Rightarrow> reservation \<Rightarrow> usage_receipt \<Rightarrow> token_budget \<times> (budget_error, unit) result" where
  "finish t rv receipt =
    (let (t', rv', r) = settle t rv receipt in (drop_reservation t' rv', r))"

section \<open>A run: concurrent reservations over one budget\<close>

text \<open>
  A budget together with the reservations that its requests still hold. Each event is one
  operation of a request; an index names the reservation it acts on.
\<close>

record run =
  run_budget :: token_budget
  run_live :: "reservation list"

datatype event =
    Reserve nat nat
  | Finish nat usage_receipt
  | Cancel nat
  | Block budget_error

definition remove_at :: "nat \<Rightarrow> 'a list \<Rightarrow> 'a list" where
  "remove_at k xs = take k xs @ drop (Suc k) xs"

fun run_step :: "run \<Rightarrow> event \<Rightarrow> run" where
  "run_step r (Reserve i out) =
     (case reserve (run_budget r) i out of
        (t, Inr rv) \<Rightarrow> r\<lparr>run_budget := t, run_live := run_live r @ [rv]\<rparr>
      | (t, Inl _) \<Rightarrow> r\<lparr>run_budget := t\<rparr>)"
| "run_step r (Finish k receipt) =
     (if k < length (run_live r)
      then r\<lparr>run_budget := fst (finish (run_budget r) (run_live r ! k) receipt), run_live := remove_at k (run_live r)\<rparr>
      else r)"
| "run_step r (Cancel k) =
     (if k < length (run_live r)
      then r\<lparr>run_budget := drop_reservation (run_budget r) (run_live r ! k), run_live := remove_at k (run_live r)\<rparr>
      else r)"
| "run_step r (Block e) = r\<lparr>run_budget := block (run_budget r) e\<rparr>"

definition start_run :: "token_budget \<Rightarrow> run" where
  "start_run t = \<lparr>run_budget = t, run_live = []\<rparr>"

definition amount_of :: "reservation \<Rightarrow> nat" where
  "amount_of rv = rv_input rv + rv_output rv"

text \<open>The invariant of an enabled budget and its live reservations.\<close>

definition budget_inv :: "nat \<Rightarrow> budget_snapshot \<Rightarrow> reservation list \<Rightarrow> bool" where
  "budget_inv limit b live \<longleftrightarrow>
     b_limit b = Some limit \<and> 1 \<le> limit \<and> limit \<le> max_run_tokens \<and>
     b_state b \<noteq> BDisabled \<and> b_state b \<noteq> BUnavailable \<and>
     b_charged b + b_reserved b \<le> limit \<and> b_retained b \<le> b_charged b \<and>
     b_reserved b = sum_list (map amount_of live) \<and> b_in_flight b = length live \<and>
     (\<forall>rv \<in> set live. \<not> rv_settled rv \<and> 1 \<le> rv_output rv)"

lemma sum_list_ge_length: "(\<forall>x \<in> set xs. 1 \<le> f x) \<Longrightarrow> length xs \<le> sum_list (map f xs)"
  for f :: "'a \<Rightarrow> nat"
  by (induction xs) auto

lemma budget_inv_live:
  assumes "budget_inv limit b live"
  shows "length live \<le> sum_list (map amount_of live)"
  using assms by (intro sum_list_ge_length) (auto simp: budget_inv_def amount_of_def)

lemma budget_inv_validate:
  assumes "budget_inv limit b live"
  shows "validate_budget b = Inr ()"
proof -
  have "length live \<le> sum_list (map amount_of live)" by (rule budget_inv_live [OF assms])
  moreover have "limit \<le> u64_max" using assms by (simp add: budget_inv_def max_run_tokens_def u64_max_def)
  moreover have "live = []" if "sum_list (map amount_of live) = 0" using calculation(1) unfolding that by simp
  ultimately show ?thesis
    using assms by (auto simp: validate_budget_def budget_inv_def ensure_def checked_add_def)
qed

lemma sum_list_remove_at:
  "k < length xs \<Longrightarrow> sum_list (map f (remove_at k xs)) + f (xs ! k) = sum_list (map f xs)" for f :: "'a \<Rightarrow> nat"
  by (subst (3) id_take_nth_drop [of k xs]) (simp_all add: remove_at_def)

lemma length_remove_at: "k < length xs \<Longrightarrow> Suc (length (remove_at k xs)) = length xs"
  by (simp add: remove_at_def)

lemma set_remove_at: "set (remove_at k xs) \<subseteq> set xs"
  by (auto simp: remove_at_def dest: in_set_takeD in_set_dropD)

lemma settle_inv:
  assumes inv: "budget_inv limit b live" and k: "k < length live" and r: "receipt_ok receipt"
  shows "\<exists>b'. fst (settle (Some b) (live ! k) receipt) = Some b' \<and> budget_inv limit b' (remove_at k live) \<and>
    rv_settled (fst (snd (settle (Some b) (live ! k) receipt))) \<and>
    (b_state b \<noteq> BActive \<longrightarrow> b_state b' \<noteq> BActive) \<and> b_charged b \<le> b_charged b'"
proof -
  let ?rv = "live ! k"
  let ?c = "rc_counts receipt"
  have rv: "\<not> rv_settled ?rv" "1 \<le> rv_output ?rv" using inv k by (auto simp: budget_inv_def)
  have sum: "sum_list (map amount_of (remove_at k live)) + amount_of ?rv = b_reserved b"
    and len: "Suc (length (remove_at k live)) = b_in_flight b"
    using sum_list_remove_at [OF k, of amount_of] length_remove_at [OF k] inv by (auto simp: budget_inv_def)
  have lim: "b_charged b + b_reserved b \<le> limit" "limit \<le> max_run_tokens" "b_retained b \<le> b_charged b"
    using inv by (auto simp: budget_inv_def)
  have small: "max_run_tokens \<le> u64_max" by (simp add: max_run_tokens_def u64_max_def)
  have amount: "wrapping_add (rv_input ?rv) (rv_output ?rv) = amount_of ?rv"
    using sum lim small by (simp add: amount_of_def)
  define violated where "violated = (exceeds (c_prompt ?c) (Some (rv_input ?rv)) \<or>
      exceeds (c_completion ?c) (Some (rv_output ?rv)) \<or> exceeds (c_total ?c) (Some (amount_of ?rv)))"
  define known where "known = (rc_coverage receipt = Complete \<and> \<not> violated)"
  define charge where "charge = (if known then the (c_total ?c) else amount_of ?rv)"
  have charge: "charge \<le> amount_of ?rv"
  proof (cases known)
    case True
    then obtain t where "c_total ?c = Some t"
      using receipt_ok_coverage [OF r] by (auto simp: known_def split: if_splits)
    then show ?thesis using True by (simp add: charge_def known_def violated_def)
  qed (simp add: charge_def)
  have rest: "\<forall>rv \<in> set (remove_at k live). \<not> rv_settled rv \<and> 1 \<le> rv_output rv"
    using inv set_remove_at [of k live] by (auto simp: budget_inv_def)
  define B where "B = b\<lparr>b_reserved := b_reserved b - amount_of ?rv, b_in_flight := b_in_flight b - 1,
      b_charged := b_charged b + charge, b_retained := (if known then b_retained b else b_retained b + amount_of ?rv)\<rparr>"
  have exact: "wrapping_sub (b_reserved b) (amount_of ?rv) = b_reserved b - amount_of ?rv"
    "wrapping_sub (b_in_flight b) 1 = b_in_flight b - 1" "wrapping_add (b_charged b) charge = b_charged b + charge"
    "wrapping_add (b_retained b) (amount_of ?rv) = b_retained b + amount_of ?rv"
    using sum len lim small charge by simp_all
  have S: "settle (Some b) ?rv receipt =
      (if violated then (Some (B\<lparr>b_state := BBoundViolated\<rparr>), ?rv\<lparr>rv_settled := True\<rparr>, Inl BoundViolated)
       else (Some B, ?rv\<lparr>rv_settled := True\<rparr>, Inr ()))"
    unfolding settle_def if_not_P [OF rv(1)] Let_def option.case amount
      violated_def [symmetric] known_def [symmetric] charge_def [symmetric]
    by (simp add: exact B_def del: One_nat_def)
  have "budget_inv limit B (remove_at k live) \<and> budget_inv limit (B\<lparr>b_state := BBoundViolated\<rparr>) (remove_at k live)"
    using inv sum len lim charge rest by (auto simp: budget_inv_def B_def charge_def)
  then show ?thesis unfolding S by (auto simp: B_def)
qed

lemma state_check_ok: "state_check st = Inr u \<longleftrightarrow> st = BActive \<or> st = BDisabled"
  by (cases st) auto

lemma block_inv: "budget_inv limit b live \<Longrightarrow> \<exists>b'. block (Some b) e = Some b' \<and> budget_inv limit b' live \<and>
    (b_state b \<noteq> BActive \<longrightarrow> b_state b' \<noteq> BActive) \<and> b_charged b' = b_charged b"
  by (cases e) (auto simp: block_def budget_inv_def)

lemma remaining_exact:
  assumes "budget_inv limit b live"
  shows "wrapping_sub (wrapping_sub (the (b_limit b)) (b_charged b)) (b_reserved b)
    = limit - b_charged b - b_reserved b"
proof -
  have "the (b_limit b) = limit" "b_charged b \<le> limit" "b_reserved b \<le> limit - b_charged b"
    using assms by (auto simp: budget_inv_def)
  then show ?thesis by simp
qed

text \<open>When a request is admitted, and what an admission changes.\<close>

lemma reserve_cases:
  assumes inv: "budget_inv limit b live"
  shows "(\<exists>e b'. reserve (Some b) i out = (Some b', Inl e) \<and> budget_inv limit b' live \<and>
        (b_state b \<noteq> BActive \<longrightarrow> b_state b' \<noteq> BActive) \<and> b_charged b' = b_charged b \<and>
        \<not> (b_state b = BActive \<and> 1 \<le> out \<and> b_charged b + b_reserved b + (i + out) \<le> limit)) \<or>
    (\<exists>b'. reserve (Some b) i out = (Some b', Inr \<lparr>rv_input = i, rv_output = out, rv_settled = False\<rparr>) \<and>
        budget_inv limit b' (live @ [\<lparr>rv_input = i, rv_output = out, rv_settled = False\<rparr>]) \<and>
        b_state b = BActive \<and> b_state b' = BActive \<and> b_charged b' = b_charged b \<and>
        1 \<le> out \<and> b_charged b + b_reserved b + (i + out) \<le> limit)"
proof -
  note R = remaining_exact [OF inv]
  have lim: "b_charged b + b_reserved b \<le> limit" "limit \<le> u64_max" "length live \<le> b_reserved b"
    using inv budget_inv_live [OF inv] by (auto simp: budget_inv_def max_run_tokens_def u64_max_def)
  show ?thesis
  proof (cases "checked_add i out")
    case None
    then have "reserve (Some b) i out = (block (Some b) Exhausted, Inl Exhausted)" by (simp add: reserve_def)
    moreover have "\<not> b_charged b + b_reserved b + (i + out) \<le> limit"
      using None lim by (simp add: checked_add_None_iff)
    ultimately show ?thesis using block_inv [OF inv, of Exhausted] by auto
  next
    case (Some amount)
    then have a: "amount = i + out" by (simp add: checked_add_Some_iff)
    show ?thesis
    proof (cases "out = 0")
      case True
      then show ?thesis using block_inv [OF inv, of Unsupported] Some by (auto simp: reserve_def)
    next
      case False
      consider e where "state_check (b_state b) = Inl e" | "b_state b = BActive"
        using state_check_ok [of "b_state b" "()"] inv by (cases "state_check (b_state b)") (auto simp: budget_inv_def)
      then show ?thesis
      proof cases
        case 1
        then show ?thesis using Some False inv by (auto simp: reserve_def Let_def)
      next
        case 2
        then show ?thesis
          using Some False inv lim a
          by (auto simp: reserve_def Let_def R budget_inv_def amount_of_def)
      qed
    qed
  qed
qed

definition run_inv :: "nat \<Rightarrow> run \<Rightarrow> bool" where
  "run_inv limit r \<longleftrightarrow> (\<exists>b. run_budget r = Some b \<and> budget_inv limit b (run_live r))"

definition event_ok :: "event \<Rightarrow> bool" where
  "event_ok e = (case e of Finish _ receipt \<Rightarrow> receipt_ok receipt | _ \<Rightarrow> True)"

lemma settle_settled: "rv_settled rv \<Longrightarrow> settle t rv receipt = (t, rv, Inr ())"
  by (simp add: settle_def)

lemma finish_settle: "rv_settled (fst (snd (settle t rv receipt))) \<Longrightarrow> fst (finish t rv receipt) = fst (settle t rv receipt)"
  by (simp add: finish_def split_def drop_reservation_def settle_settled Let_def)

lemma default_receipt_ok: "receipt_ok default_receipt"
  by (simp add: default_receipt_def from_counts_ok)

lemma run_step_inv:
  assumes inv: "run_inv limit r" and ok: "event_ok e"
  shows "run_inv limit (run_step r e) \<and>
    (b_state (the (run_budget r)) \<noteq> BActive \<longrightarrow> b_state (the (run_budget (run_step r e))) \<noteq> BActive) \<and>
    b_charged (the (run_budget r)) \<le> b_charged (the (run_budget (run_step r e)))"
proof -
  obtain b where b: "run_budget r = Some b" and bi: "budget_inv limit b (run_live r)"
    using inv by (auto simp: run_inv_def)
  show ?thesis
  proof (cases e)
    case (Reserve i out)
    then show ?thesis using reserve_cases [OF bi, of i out] b by (auto simp: run_inv_def)
  next
    case (Finish k receipt)
    then show ?thesis using settle_inv [OF bi, of k receipt] ok b inv
      by (cases "k < length (run_live r)") (auto simp: run_inv_def event_ok_def finish_settle)
  next
    case (Cancel k)
    then show ?thesis using settle_inv [OF bi, of k default_receipt] default_receipt_ok b inv
      by (cases "k < length (run_live r)") (auto simp: run_inv_def drop_reservation_def)
  next
    case (Block err)
    then show ?thesis using block_inv [OF bi, of err] b by (auto simp: run_inv_def)
  qed
qed

text \<open>
  The step function restricted to events with well-formed receipts, which are the only ones
  the code can build (the fields of \<open>UsageReceipt\<close> are private to its module).
\<close>

definition checked_step :: "run \<Rightarrow> event \<Rightarrow> run" where
  "checked_step r e = (if event_ok e then run_step r e else r)"

interpretation budget_run: step_invariant checked_step "run_inv limit" for limit
  by unfold_locales (simp add: checked_step_def run_step_inv)

text \<open>From an admissible state the budget can only become more restrictive.\<close>

definition tightening :: "nat \<Rightarrow> run \<Rightarrow> run \<Rightarrow> bool" where
  "tightening limit r s \<longleftrightarrow> (run_inv limit r \<longrightarrow> run_inv limit s \<and>
     (b_state (the (run_budget r)) \<noteq> BActive \<longrightarrow> b_state (the (run_budget s)) \<noteq> BActive) \<and>
     b_charged (the (run_budget r)) \<le> b_charged (the (run_budget s)))"

interpretation budget_mono: step_monotone checked_step "tightening limit" for limit
  by unfold_locales (auto simp: tightening_def checked_step_def run_step_inv intro: order_trans)

lemma start_run_inv: "new_budget limit = Inr t \<Longrightarrow> run_inv limit (start_run t)"
  by (auto simp: new_budget_def run_inv_def start_run_def budget_inv_def default_budget_def split: if_splits)

lemma checked_run_eq: "\<forall>e \<in> set es. event_ok e \<Longrightarrow> foldl run_step r es = foldl checked_step r es"
  by (induction es arbitrary: r) (auto simp: checked_step_def)

section \<open>Usage snapshots\<close>

record usage_snapshot =
  s_budget :: budget_snapshot
  s_settled :: usage_aggregate
  s_in_flight :: nat
  s_coverage :: usage_coverage

definition new_snapshot :: "usage_aggregate \<Rightarrow> nat \<Rightarrow> usage_snapshot" where
  "new_snapshot settled in_flight =
     \<lparr>s_budget = default_budget, s_settled = settled, s_in_flight = in_flight,
      s_coverage = (if in_flight = 0 then a_coverage settled
        else if a_requests settled = 0 \<or> a_coverage settled = Unavailable then Unavailable else Partial)\<rparr>"

definition default_snapshot :: usage_snapshot where
  "default_snapshot = new_snapshot default_aggregate 0"

definition unavailable_snapshot :: usage_snapshot where
  "unavailable_snapshot =
    (let snapshot = new_snapshot unavailable_aggregate 0
     in snapshot\<lparr>s_budget := (s_budget snapshot)\<lparr>b_state := BUnavailable\<rparr>\<rparr>)"

definition snapshot_from_receipt :: "usage_receipt \<Rightarrow> usage_snapshot option" where
  "snapshot_from_receipt receipt = (case aggregate_add default_aggregate receipt of
     Inl _ \<Rightarrow> None | Inr settled \<Rightarrow> Some (new_snapshot settled 0))"

text \<open>\<open>UsageSnapshot::validate\<close>; \<open>None\<close> is the panic that \<open>UsageAggregate::validate\<close> can raise.\<close>

definition validate_snapshot :: "usage_snapshot \<Rightarrow> (string, unit) result option" where
  "validate_snapshot s = (case validate_budget (s_budget s) of
     Inl e \<Rightarrow> Some (Inl e)
   | Inr _ \<Rightarrow> (case validate_aggregate (s_settled s) of
       None \<Rightarrow> None
     | Some (Inl e) \<Rightarrow> Some (Inl e)
     | Some (Inr _) \<Rightarrow>
        (if checked_add (a_requests (s_settled s)) (s_in_flight s) = None
         then Some (Inl ''usage request count overflow'')
         else Some (ensure (s_coverage (new_snapshot (s_settled s) (s_in_flight s)) = s_coverage s)
           ''inconsistent usage snapshot coverage''))))"

text \<open>
  \<open>TryFrom<SnapshotWire>\<close>, after serde has decoded the embedded aggregate and the counters
  (a decoding error of those is \<open>Inl\<close> as well).
\<close>

definition snapshot_try_from :: "usage_snapshot \<Rightarrow> (string, usage_snapshot) result option" where
  "snapshot_try_from w = (case aggregate_try_from (s_settled w) of
     None \<Rightarrow> None
   | Some (Inl e) \<Rightarrow> Some (Inl e)
   | Some (Inr settled) \<Rightarrow>
      (if checked_add (a_requests settled) (s_in_flight w) = None
       then Some (Inl ''usage request count overflow'')
       else (let v = new_snapshot settled (s_in_flight w) in
         case validate_budget (s_budget w) of
           Inl e \<Rightarrow> Some (Inl e)
         | Inr _ \<Rightarrow>
            (let v' = v\<lparr>s_budget := s_budget w\<rparr>
             in if s_coverage v' \<noteq> s_coverage w
                then Some (Inl ''inconsistent usage snapshot coverage'') else Some (Inr v')))))"

lemma snapshot_from_receipt_total:
  "receipt_ok r \<Longrightarrow> counts_u64 (rc_counts r) \<Longrightarrow>
   snapshot_from_receipt r = Some (new_snapshot (receipt_aggregate r) 0)"
  by (auto simp: snapshot_from_receipt_def aggregate_add_def aggregate_merge_def
      receipt_aggregate_def default_aggregate_def)

section \<open>What the budget guarantees\<close>

text \<open>
  C5. The token budget is never overspent. Whatever sequence of reservations, settlements
  (with any receipt a provider can produce), cancellations and blocks happens, the counters
  stay valid and never wrap: the reserved amount is exactly the sum of the live
  reservations, and charged plus reserved tokens stay within the configured limit, even
  when a provider reports more usage than it reserved.
\<close>

theorem token_budget_never_exceeded:
  assumes "new_budget limit = Inr t" and "\<forall>e \<in> set es. event_ok e"
  shows "\<exists>b. run_budget (foldl run_step (start_run t) es) = Some b \<and> validate_budget b = Inr () \<and>
    b_charged b + b_reserved b \<le> limit \<and> b_retained b \<le> b_charged b \<and>
    b_reserved b = sum_list (map amount_of (run_live (foldl run_step (start_run t) es))) \<and>
    b_in_flight b = length (run_live (foldl run_step (start_run t) es))"
proof -
  have "run_inv limit (foldl run_step (start_run t) es)"
    unfolding checked_run_eq [OF assms(2)]
    by (rule budget_run.inv_run [OF start_run_inv [OF assms(1)]])
  then show ?thesis using budget_inv_validate by (auto simp: run_inv_def budget_inv_def)
qed

definition sample_run :: "event list" where
  "sample_run = [Reserve 50 20, Reserve 10 10, Finish 0 sample_receipt, Cancel 0, Reserve 200 1]"

definition sample_budget :: token_budget where
  "sample_budget = Some (default_budget\<lparr>b_state := BActive, b_limit := Some 100\<rparr>)"

lemma sample_budget_new: "new_budget 100 = Inr sample_budget"
  by (simp add: new_budget_def sample_budget_def max_run_tokens_def)

lemma sample_run_ok: "\<forall>e \<in> set sample_run. event_ok e"
  by (simp add: sample_run_def event_ok_def sample_receipt_def provider_parse_def Let_def split_def
      stream_snapshot_def from_counts_ok)

theorem token_budget_never_exceeded_witness:
  "\<exists>b. run_budget (foldl run_step (start_run sample_budget) sample_run) = Some b \<and> b_charged b + b_reserved b \<le> 100"
  using token_budget_never_exceeded [OF sample_budget_new sample_run_ok] by blast

text \<open>
  C6. Admission is exact: in every reachable state a request is admitted if and only if the
  budget is active, the request asks for output, and its whole bound still fits under the
  limit next to everything charged and reserved.
\<close>

theorem reserve_admits_exactly:
  assumes "new_budget limit = Inr t" and "\<forall>e \<in> set es. event_ok e"
    and "run_budget (foldl run_step (start_run t) es) = Some b"
  shows "(\<exists>rv. snd (reserve (Some b) i out) = Inr rv) \<longleftrightarrow>
    b_state b = BActive \<and> 1 \<le> out \<and> b_charged b + b_reserved b + (i + out) \<le> limit"
proof -
  have "run_inv limit (foldl run_step (start_run t) es)"
    unfolding checked_run_eq [OF assms(2)]
    by (rule budget_run.inv_run [OF start_run_inv [OF assms(1)]])
  then have "budget_inv limit b (run_live (foldl run_step (start_run t) es))"
    using assms(3) by (simp add: run_inv_def)
  from reserve_cases [OF this, of i out] show ?thesis by auto
qed

theorem reserve_admits_exactly_witness:
  "(\<exists>rv. snd (reserve sample_budget 60 40) = Inr rv) \<and> \<not> (\<exists>rv. snd (reserve sample_budget 60 41) = Inr rv)"
  using reserve_admits_exactly [OF sample_budget_new, of "[]" "default_budget\<lparr>b_state := BActive, b_limit := Some 100\<rparr>" 60 40]
    reserve_admits_exactly [OF sample_budget_new, of "[]" "default_budget\<lparr>b_state := BActive, b_limit := Some 100\<rparr>" 60 41]
  by (simp add: start_run_def sample_budget_def default_budget_def)

text \<open>
  Failure is sticky: once the budget of a run is exhausted, blocked or violated it stays
  so, no later request is admitted, and the charged amount never goes back, no matter how
  much capacity other requests release.
\<close>

theorem budget_failure_sticky:
  assumes "new_budget limit = Inr t" and "\<forall>e \<in> set (es @ fs). event_ok e"
    and "run_budget (foldl run_step (start_run t) es) = Some b" and "b_state b \<noteq> BActive"
  shows "\<exists>b'. run_budget (foldl run_step (start_run t) (es @ fs)) = Some b' \<and> b_state b' \<noteq> BActive \<and>
    b_charged b \<le> b_charged b' \<and> (\<forall>i out. \<exists>e. snd (reserve (Some b') i out) = Inl e)"
proof -
  let ?r = "foldl checked_step (start_run t) es"
  have eq: "foldl run_step (start_run t) es = ?r" "foldl run_step (start_run t) (es @ fs) = foldl checked_step ?r fs"
    using checked_run_eq [of es] checked_run_eq [of "es @ fs"] assms(2) by auto
  have inv: "run_inv limit ?r" by (rule budget_run.inv_run [OF start_run_inv [OF assms(1)]])
  have "run_inv limit (foldl checked_step ?r fs)" by (rule budget_run.inv_run [OF inv])
  then obtain b' where b': "run_budget (foldl checked_step ?r fs) = Some b'"
    and bi: "budget_inv limit b' (run_live (foldl checked_step ?r fs))"
    by (auto simp: run_inv_def)
  have "b_state b' \<noteq> BActive" "b_charged b \<le> b_charged b'"
    using budget_mono.below_run [of limit ?r fs] inv assms(3,4) b' by (auto simp: tightening_def eq)
  then show ?thesis using b' reserve_cases [OF bi] unfolding eq by (metis snd_conv)
qed

theorem budget_failure_sticky_witness:
  "\<exists>b'. run_budget (foldl run_step (start_run sample_budget) ([Reserve 200 1] @ [Reserve 1 1])) = Some b' \<and>
     b_state b' \<noteq> BActive"
proof -
  have "run_budget (foldl run_step (start_run sample_budget) [Reserve 200 1]) =
      Some (default_budget\<lparr>b_state := BExhausted, b_limit := Some 100\<rparr>)"
    by (simp add: start_run_def sample_budget_def default_budget_def reserve_def checked_add_def u64_max_def)
  from budget_failure_sticky [OF sample_budget_new _ this, of "[Reserve 1 1]"]
  show ?thesis by (auto simp: event_ok_def)
qed

lemma snapshot_decode_valid:
  assumes "aggregate_try_from (s_settled w) = Some (Inr (s_settled w))" and "aggregate_ok (s_settled w)"
  shows "snapshot_try_from w = Some (Inr w) \<longleftrightarrow> validate_snapshot w = Some (Inr ())"
    and "snapshot_try_from w \<noteq> None" and "snapshot_try_from w = Some (Inr s) \<Longrightarrow> s = w"
proof -
  have v: "validate_aggregate (s_settled w) = Some (Inr ())" using assms(2) by (simp add: aggregate_ok_def)
  have new: "(new_snapshot (s_settled w) (s_in_flight w))\<lparr>s_budget := s_budget w\<rparr> = w \<longleftrightarrow>
      s_coverage (new_snapshot (s_settled w) (s_in_flight w)) = s_coverage w"
    by (cases w) (auto simp: new_snapshot_def)
  have cov: "s_coverage ((new_snapshot (s_settled w) (s_in_flight w))\<lparr>s_budget := s_budget w\<rparr>) =
      s_coverage (new_snapshot (s_settled w) (s_in_flight w))" by simp
  show "snapshot_try_from w = Some (Inr w) \<longleftrightarrow> validate_snapshot w = Some (Inr ())"
    and "snapshot_try_from w \<noteq> None" and "snapshot_try_from w = Some (Inr s) \<Longrightarrow> s = w"
    unfolding snapshot_try_from_def validate_snapshot_def assms(1) v Let_def cov option.case sum.case
    using new by (auto simp: ensure_def split: sum.splits if_splits)
qed

text \<open>
  A persisted usage snapshot is decoded without a panic, and it is accepted exactly when
  \<open>validate\<close> accepts it and all its counts are decodable; an accepted snapshot is the one that
  was written.
\<close>

theorem snapshot_decode_exact:
  assumes "\<forall>c \<in> set (all_counts (s_settled w)). fits (ct_known c)" and "a_requests (s_settled w) \<le> u64_max"
  shows "snapshot_try_from w \<noteq> None \<and>
    (\<forall>s. snapshot_try_from w = Some (Inr s) \<longrightarrow> s = w \<and> validate_snapshot w = Some (Inr ())) \<and>
    (validate_snapshot w = Some (Inr ()) \<and> aggregate_ok (s_settled w) \<longrightarrow> snapshot_try_from w = Some (Inr w))"
proof -
  have some: "aggregate_try_from (s_settled w) \<noteq> None"
    and good: "aggregate_ok (s_settled w) \<Longrightarrow> aggregate_try_from (s_settled w) = Some (Inr (s_settled w))"
    and ok: "aggregate_try_from (s_settled w) = Some (Inr m) \<Longrightarrow> m = s_settled w \<and> aggregate_ok (s_settled w)" for m
    using aggregate_decode_cases [OF assms] by blast+
  show ?thesis
  proof (cases "aggregate_ok (s_settled w)")
    case True
    then show ?thesis using snapshot_decode_valid [OF good [OF True] True] by blast
  next
    case False
    then obtain e where "aggregate_try_from (s_settled w) = Some (Inl e)"
      using some ok by (metis option.exhaust sum.exhaust)
    with False show ?thesis by (simp add: snapshot_try_from_def)
  qed
qed

theorem snapshot_decode_exact_witness:
  "snapshot_try_from unavailable_snapshot = Some (Inr unavailable_snapshot)"
proof -
  have settled: "s_settled unavailable_snapshot = unavailable_aggregate"
    by (simp add: unavailable_snapshot_def new_snapshot_def Let_def)
  have "validate_snapshot unavailable_snapshot = Some (Inr ())"
    using unavailable_aggregate_ok
    by (simp add: unavailable_snapshot_def new_snapshot_def Let_def validate_snapshot_def validate_budget_def
        default_budget_def ensure_def aggregate_ok_def checked_add_def)
  then show ?thesis
    using snapshot_decode_exact [of unavailable_snapshot] unavailable_aggregate_ok
    by (simp add: settled) (simp add: unavailable_aggregate_def unknown_count_def fits_def)
qed

end
