(* ===== verification/Usage_Tracker.thy ===== *)
theory Usage_Tracker
  imports Token_Budget
begin

text \<open>
  \<open>src/src/usage/tracker.rs\<close>: hierarchical usage scopes. The nodes that \<open>Arc\<close> shares are a
  store, a list indexed by node identity; a tracker is an index into it. A budget handle is
  an index into the list of budgets. Pointer addresses, which only decide the locking
  order, are a parameter \<open>addr\<close>. All locks of a lineage are held together, so \<open>start\<close> and
  \<open>settle\<close> are atomic. \<open>None\<close> is a panic.
\<close>

section \<open>The store\<close>

record node =
  n_budget :: nat
  n_parent :: "nat option"
  n_observer :: "nat option"
  n_depth :: nat

record node_state =
  st_settled :: usage_aggregate
  st_in_flight :: nat
  st_overflowed :: bool

definition default_state :: node_state where
  "default_state = \<lparr>st_settled = default_aggregate, st_in_flight = 0, st_overflowed = False\<rparr>"

record forest =
  f_nodes :: "node list"
  f_states :: "node_state list"
  f_budgets :: "token_budget list"

definition empty_forest :: forest where
  "empty_forest = \<lparr>f_nodes = [], f_states = [], f_budgets = []\<rparr>"

definition add_node :: "forest \<Rightarrow> node \<Rightarrow> node_state \<Rightarrow> forest" where
  "add_node f n st = f\<lparr>f_nodes := f_nodes f @ [n], f_states := f_states f @ [st]\<rparr>"

text \<open>
  \<open>ancestry\<close>: the \<open>pending\<close> vector is a stack with its top first. The visited list grows by
  one from the empty list, so reaching 128 nodes and having at least 128 coincide.
\<close>

function ancestry_loop :: "node list \<Rightarrow> nat list \<Rightarrow> nat list \<Rightarrow> nat list option" where
  "ancestry_loop ns visited [] = Some visited"
| "ancestry_loop ns visited (n # pending) =
     (if n \<in> set visited then ancestry_loop ns visited pending
      else if 128 \<le> length visited then None
      else ancestry_loop ns (visited @ [n]) (somes [n_observer (ns ! n), n_parent (ns ! n)] @ pending))"
  by pat_completeness auto
termination
  by (relation "measures [\<lambda>(ns, visited, pending). 128 - length visited, \<lambda>(ns, visited, pending). length pending]")
     auto

datatype scope_depth_error = UsageScopeDepth

definition ancestry :: "(nat \<Rightarrow> nat) \<Rightarrow> node list \<Rightarrow> nat \<Rightarrow> (scope_depth_error, nat list) result" where
  "ancestry addr ns n = (case ancestry_loop ns [] [n] of
     None \<Rightarrow> Inl UsageScopeDepth | Some visited \<Rightarrow> Inr (sort_key addr visited))"

section \<open>Construction\<close>

definition with_budget :: "forest \<Rightarrow> token_budget \<Rightarrow> forest \<times> nat" where
  "with_budget f t =
     (let f' = f\<lparr>f_budgets := f_budgets f @ [t]\<rparr>
      in (add_node f' \<lparr>n_budget = length (f_budgets f), n_parent = None, n_observer = None, n_depth = 0\<rparr> default_state,
          length (f_nodes f)))"

definition for_run :: "env \<Rightarrow> forest \<Rightarrow> (budget_error, forest \<times> nat) result" where
  "for_run env f = and_then (from_environment env) (\<lambda>t. Inr (with_budget f t))"

definition new_child :: "(nat \<Rightarrow> nat) \<Rightarrow> forest \<Rightarrow> nat \<Rightarrow> nat option \<Rightarrow> (scope_depth_error, forest \<times> nat) result" where
  "new_child addr f parent observer =
    (let depth = max (n_depth (f_nodes f ! parent))
                     (case observer of None \<Rightarrow> 0 | Some scope \<Rightarrow> n_depth (f_nodes f ! scope)) + 1
     in if 64 < depth then Inl UsageScopeDepth
        else (let child = \<lparr>n_budget = n_budget (f_nodes f ! parent), n_parent = Some parent,
                           n_observer = observer, n_depth = depth\<rparr>;
                  f' = add_node f child default_state
              in and_then (ancestry addr (f_nodes f') (length (f_nodes f))) (\<lambda>_. Inr (f', length (f_nodes f)))))"

definition child :: "(nat \<Rightarrow> nat) \<Rightarrow> forest \<Rightarrow> nat \<Rightarrow> (scope_depth_error, forest \<times> nat) result" where
  "child addr f parent = new_child addr f parent None"

definition child_observed_by :: "(nat \<Rightarrow> nat) \<Rightarrow> forest \<Rightarrow> nat \<Rightarrow> nat \<Rightarrow> (scope_depth_error, forest \<times> nat) result" where
  "child_observed_by addr f parent observer = new_child addr f parent (Some observer)"

definition from_snapshot :: "forest \<Rightarrow> usage_snapshot \<Rightarrow> (string, forest \<times> nat) result option" where
  "from_snapshot f s = (case validate_snapshot s of
     None \<Rightarrow> None
   | Some (Inl e) \<Rightarrow> Some (Inl e)
   | Some (Inr _) \<Rightarrow>
      (if s_in_flight s \<noteq> 0 then Some (Inl ''cannot resume an in-flight usage checkpoint'')
       else Some (Inr
         (let (f', n) = with_budget f None
          in (f'\<lparr>f_states := (f_states f')[n := default_state\<lparr>st_settled := s_settled s\<rparr>]\<rparr>, n)))))"

section \<open>Attempts\<close>

record usage_attempt =
  at_tracker :: "nat option"
  at_receipt :: usage_receipt

text \<open>\<open>lineage\<close> expects the ancestry check of the construction to succeed again.\<close>

definition lineage :: "(nat \<Rightarrow> nat) \<Rightarrow> forest \<Rightarrow> nat \<Rightarrow> nat list option" where
  "lineage addr f n = (case ancestry addr (f_nodes f) n of Inl _ \<Rightarrow> None | Inr ids \<Rightarrow> Some ids)"

definition update_states :: "(node_state \<Rightarrow> node_state) \<Rightarrow> nat list \<Rightarrow> forest \<Rightarrow> forest" where
  "update_states g ids f = f\<lparr>f_states := foldl (\<lambda>ss i. ss[i := g (ss ! i)]) (f_states f) ids\<rparr>"

definition start_check :: "node_state \<Rightarrow> (usage_overflow, unit) result" where
  "start_check st =
    (if st_overflowed st then Inl UsageOverflow
     else (case Option.bind (checked_add (a_requests (st_settled st)) (st_in_flight st)) (\<lambda>n. checked_add n 1) of
         None \<Rightarrow> Inl UsageOverflow | Some _ \<Rightarrow> Inr ()))"

definition start :: "(nat \<Rightarrow> nat) \<Rightarrow> forest \<Rightarrow> nat \<Rightarrow> (forest \<times> (usage_overflow, usage_attempt) result) option" where
  "start addr f n = (case lineage addr f n of
     None \<Rightarrow> None
   | Some ids \<Rightarrow> Some
      (case try_each (\<lambda>i. start_check (f_states f ! i)) ids of
         Inl e \<Rightarrow> (f, Inl e)
       | Inr _ \<Rightarrow>
          (update_states (\<lambda>st. st\<lparr>st_in_flight := wrapping_add (st_in_flight st) 1\<rparr>) ids f,
           Inr \<lparr>at_tracker = Some n, at_receipt = default_receipt\<rparr>)))"

definition tracker_snapshot :: "forest \<Rightarrow> nat \<Rightarrow> (usage_overflow, usage_snapshot) result" where
  "tracker_snapshot f n =
    (let st = f_states f ! n
     in if st_overflowed st then Inl UsageOverflow
        else Inr ((new_snapshot (st_settled st) (st_in_flight st))
               \<lparr>s_budget := budget_snapshot_of (f_budgets f ! n_budget (f_nodes f ! n))\<rparr>))"

text \<open>The new aggregates of the whole lineage, or the first error.\<close>

fun settle_totals :: "usage_receipt \<Rightarrow> node_state list \<Rightarrow> (usage_overflow, usage_aggregate list) result" where
  "settle_totals receipt [] = Inr []"
| "settle_totals receipt (st # sts) =
     and_then (if st_overflowed st then Inl UsageOverflow else aggregate_add (st_settled st) receipt)
       (\<lambda>tot. and_then (settle_totals receipt sts) (\<lambda>tots. Inr (tot # tots)))"

fun store_totals :: "nat list \<Rightarrow> usage_aggregate list \<Rightarrow> node_state list \<Rightarrow> node_state list" where
  "store_totals (i # ids) (tot # tots) ss = store_totals ids tots (ss[i := (ss ! i)\<lparr>st_settled := tot\<rparr>])"
| "store_totals _ _ ss = ss"

definition tracker_settle :: "(nat \<Rightarrow> nat) \<Rightarrow> forest \<Rightarrow> nat \<Rightarrow> usage_receipt \<Rightarrow>
    (forest \<times> (usage_overflow, unit) result) option" where
  "tracker_settle addr f n receipt = (case lineage addr f n of
     None \<Rightarrow> None
   | Some ids \<Rightarrow>
      (if \<exists>i \<in> set ids. st_in_flight (f_states f ! i) = 0 then None
       else (let f1 = update_states (\<lambda>st. st\<lparr>st_in_flight := st_in_flight st - 1\<rparr>) ids f
         in Some (case settle_totals receipt (map (\<lambda>i. f_states f1 ! i) ids) of
              Inr tots \<Rightarrow> (f1\<lparr>f_states := store_totals ids tots (f_states f1)\<rparr>, Inr ())
            | Inl e \<Rightarrow> (update_states (\<lambda>st. st\<lparr>st_overflowed := True\<rparr>) ids f1, Inl e)))))"

definition observe :: "usage_attempt \<Rightarrow> usage_receipt \<Rightarrow> usage_attempt" where
  "observe a receipt =
    (if rc_coverage receipt = Unavailable \<and> rc_coverage (at_receipt a) \<noteq> Unavailable then a
     else a\<lparr>at_receipt := receipt\<rparr>)"

text \<open>\<open>UsageAttempt::settle\<close> takes the tracker out of the attempt, so a second call does nothing.\<close>

definition attempt_settle :: "(nat \<Rightarrow> nat) \<Rightarrow> forest \<Rightarrow> usage_attempt \<Rightarrow>
    (forest \<times> usage_attempt \<times> (usage_overflow, unit) result) option" where
  "attempt_settle addr f a = (case at_tracker a of
     None \<Rightarrow> Some (f, a, Inr ())
   | Some n \<Rightarrow> map_option (\<lambda>(f', r). (f', a\<lparr>at_tracker := None\<rparr>, r)) (tracker_settle addr f n (at_receipt a)))"

definition attempt_drop :: "(nat \<Rightarrow> nat) \<Rightarrow> forest \<Rightarrow> usage_attempt \<Rightarrow> forest option" where
  "attempt_drop addr f a = map_option fst (attempt_settle addr f a)"

definition attempt_finish :: "(nat \<Rightarrow> nat) \<Rightarrow> forest \<Rightarrow> usage_attempt \<Rightarrow> usage_receipt \<Rightarrow>
    (forest \<times> (usage_overflow, unit) result) option" where
  "attempt_finish addr f a receipt = (case attempt_settle addr f (observe a receipt) of
     None \<Rightarrow> None
   | Some (f', a', r) \<Rightarrow> map_option (\<lambda>f''. (f'', r)) (attempt_drop addr f' a'))"

section \<open>Ancestors\<close>

definition links :: "node list \<Rightarrow> (nat \<times> nat) set" where
  "links ns = {(n, m). n < length ns \<and> (n_parent (ns ! n) = Some m \<or> n_observer (ns ! n) = Some m)}"

text \<open>Links lead to older nodes.\<close>

definition links_ok :: "node list \<Rightarrow> bool" where
  "links_ok ns \<longleftrightarrow> (\<forall>(n, m) \<in> links ns. m < n)"

definition ancestors :: "node list \<Rightarrow> nat \<Rightarrow> nat set" where
  "ancestors ns n = {m. (n, m) \<in> (links ns)\<^sup>*}"

lemma links_older: "links_ok ns \<Longrightarrow> (n, m) \<in> links ns \<Longrightarrow> m < n \<and> n < length ns"
  unfolding links_ok_def by (auto simp: links_def)

lemma set_somes: "set (somes xs) = {x. Some x \<in> set xs}"
  by (induction xs) (auto simp: somes_def List.map_filter_simps split: option.splits)

lemma rtrancl_closed:
  "(n, m) \<in> R\<^sup>* \<Longrightarrow> n \<in> S \<Longrightarrow> (\<And>a b. a \<in> S \<Longrightarrow> (a, b) \<in> R \<Longrightarrow> b \<in> S) \<Longrightarrow> m \<in> S"
  by (induction rule: rtrancl_induct) blast+

lemma ancestry_loop_reach:
  assumes "ancestry_loop ns visited pending = Some out"
    and "distinct visited" and "\<forall>n \<in> set visited \<union> set pending. n < length ns" and "links_ok ns"
    and "\<forall>n \<in> set visited. \<forall>m. (n, m) \<in> links ns \<longrightarrow> m \<in> set visited \<union> set pending"
  shows "distinct out \<and> set out = {m. \<exists>n \<in> set visited \<union> set pending. (n, m) \<in> (links ns)\<^sup>*}"
  using assms
proof (induction ns visited pending rule: ancestry_loop.induct)
  case (1 ns visited)
  have "m \<in> set visited" if "(n, m) \<in> (links ns)\<^sup>*" "n \<in> set visited" for n m
    using rtrancl_closed [OF that] "1.prems"(5) by auto
  with "1.prems"(1,2) show ?case by auto
next
  case (2 ns visited n pending)
  show ?case
  proof (cases "n \<in> set visited")
    case True
    then show ?thesis using 2 by (simp add: insert_absorb)
  next
    case False
    let ?succ = "somes [n_observer (ns ! n), n_parent (ns ! n)]"
    have succ: "m \<in> set ?succ \<longleftrightarrow> (n, m) \<in> links ns" for m
      using "2.prems"(3) by (auto simp: links_def set_somes)
    have lt: "m < length ns" if "(n, m) \<in> links ns" for m
      using links_older [OF "2.prems"(4) that] by simp
    have nb: "\<not> 128 \<le> length visited" using "2.prems"(1) False by auto
    have "distinct out \<and> set out =
        {m. \<exists>k \<in> set (visited @ [n]) \<union> set (?succ @ pending). (k, m) \<in> (links ns)\<^sup>*}"
    proof (rule "2.IH"(2) [OF False nb])
      show "ancestry_loop ns (visited @ [n]) (?succ @ pending) = Some out"
        using "2.prems"(1) False nb by simp
      show "\<forall>k \<in> set (visited @ [n]) \<union> set (?succ @ pending). k < length ns"
        using "2.prems"(3) succ lt by auto
      show "\<forall>k \<in> set (visited @ [n]). \<forall>m. (k, m) \<in> links ns \<longrightarrow> m \<in> set (visited @ [n]) \<union> set (?succ @ pending)"
        using "2.prems"(5) succ by fastforce
    qed (use False "2.prems" in auto)
    moreover have "(\<exists>k \<in> set (visited @ [n]) \<union> set (?succ @ pending). (k, m) \<in> (links ns)\<^sup>*) \<longleftrightarrow>
        (\<exists>k \<in> set visited \<union> set (n # pending). (k, m) \<in> (links ns)\<^sup>*)" for m
      using succ by (auto intro: converse_rtrancl_into_rtrancl)
    ultimately show ?thesis by simp
  qed
qed

lemma ancestry_reach:
  assumes "ancestry addr ns n = Inr ids" and "n < length ns" and "links_ok ns"
  shows "distinct ids \<and> set ids = ancestors ns n"
proof -
  obtain out where "ancestry_loop ns [] [n] = Some out" "ids = sort_key addr out"
    using assms(1) by (auto simp: ancestry_def split: option.splits)
  with ancestry_loop_reach [of ns "[]" "[n]" out] assms(2,3) show ?thesis
    by (simp add: ancestors_def)
qed

section \<open>Updating a lineage\<close>

lemma foldl_update_nth:
  "distinct ids \<Longrightarrow> \<forall>i \<in> set ids. i < length ss \<Longrightarrow> i < length ss \<Longrightarrow>
   foldl (\<lambda>ss i. ss[i := g (ss ! i)]) ss ids ! i = (if i \<in> set ids then g (ss ! i) else ss ! i)"
proof (induction ids arbitrary: ss)
  case (Cons j ids)
  then show ?case by (auto simp: nth_list_update)
qed simp

lemma length_foldl_update: "length (foldl (\<lambda>ss i. ss[i := g (ss ! i)]) ss ids) = length ss"
  by (induction ids arbitrary: ss) auto

lemma update_states_nth:
  "distinct ids \<Longrightarrow> \<forall>i \<in> set ids. i < length (f_states f) \<Longrightarrow> i < length (f_states f) \<Longrightarrow>
   f_states (update_states g ids f) ! i = (if i \<in> set ids then g (f_states f ! i) else f_states f ! i)"
  by (simp add: update_states_def foldl_update_nth)

lemma update_states_frame [simp]:
  "f_nodes (update_states g ids f) = f_nodes f" "f_budgets (update_states g ids f) = f_budgets f"
  "length (f_states (update_states g ids f)) = length (f_states f)"
  by (simp_all add: update_states_def length_foldl_update)

lemma length_store_totals [simp]: "length (store_totals ids tots ss) = length ss"
  by (induction ids tots ss rule: store_totals.induct) auto

lemma store_totals_nth:
  "distinct ids \<Longrightarrow> length tots = length ids \<Longrightarrow> \<forall>i \<in> set ids. i < length ss \<Longrightarrow> i < length ss \<Longrightarrow>
   (i \<notin> set ids \<longrightarrow> store_totals ids tots ss ! i = ss ! i) \<and>
   (\<forall>k < length ids. ids ! k = i \<longrightarrow> store_totals ids tots ss ! i = (ss ! i)\<lparr>st_settled := tots ! k\<rparr>)"
proof (induction ids tots ss rule: store_totals.induct)
  case (1 j ids tot tots ss)
  note IH = "1.IH" [OF _ _ _ _, simplified]
  show ?case
  proof (cases "i = j")
    case True
    then have "i \<notin> set ids" using "1.prems" by simp
    then show ?thesis using IH "1.prems" True by (auto simp: nth_Cons split: nat.splits)
  next
    case False
    then show ?thesis using IH "1.prems" by (auto simp: nth_Cons split: nat.splits)
  qed
qed auto

lemma settle_totals_Inr:
  "settle_totals r sts = Inr tots \<Longrightarrow>
   length tots = length sts \<and> (\<forall>k < length sts. \<not> st_overflowed (sts ! k) \<and> aggregate_add (st_settled (sts ! k)) r = Inr (tots ! k))"
proof (induction sts arbitrary: tots)
  case (Cons st sts)
  then obtain tot rest where "tots = tot # rest" "aggregate_add (st_settled st) r = Inr tot" "\<not> st_overflowed st"
    "settle_totals r sts = Inr rest"
    by (auto simp: rust_result split: if_splits)
  with Cons.IH show ?case by (auto simp: nth_Cons split: nat.splits)
qed simp

section \<open>Sessions: scopes, attempts and what was settled\<close>

text \<open>
  A session is the store, the attempts in progress, and a ghost log of the receipts that
  were settled, in order, with the scope each attempt started in.
\<close>

record session =
  ss_forest :: forest
  ss_live :: "usage_attempt list"
  ss_log :: "(nat \<times> usage_receipt) list"

datatype session_event =
    SRoot token_budget
  | SChild nat "nat option"
  | SStart nat
  | SObserve nat usage_receipt
  | SFinish nat usage_receipt
  | SDrop nat

definition close_attempt :: "session \<Rightarrow> nat \<Rightarrow> usage_receipt \<Rightarrow> forest \<Rightarrow> session" where
  "close_attempt s k receipt f =
     \<lparr>ss_forest = f, ss_live = remove_at k (ss_live s),
      ss_log = ss_log s @ [(the (at_tracker (ss_live s ! k)), receipt)]\<rparr>"

fun session_step :: "(nat \<Rightarrow> nat) \<Rightarrow> session \<Rightarrow> session_event \<Rightarrow> session option" where
  "session_step addr s (SRoot t) = Some (s\<lparr>ss_forest := fst (with_budget (ss_forest s) t)\<rparr>)"
| "session_step addr s (SChild p ob) =
     (if p < length (f_nodes (ss_forest s)) \<and> (case ob of None \<Rightarrow> True | Some q \<Rightarrow> q < length (f_nodes (ss_forest s)))
      then (case new_child addr (ss_forest s) p ob of Inl _ \<Rightarrow> Some s | Inr (f, _) \<Rightarrow> Some (s\<lparr>ss_forest := f\<rparr>))
      else Some s)"
| "session_step addr s (SStart n) =
     (if n < length (f_nodes (ss_forest s)) then
        (case start addr (ss_forest s) n of
           None \<Rightarrow> None
         | Some (f, Inl _) \<Rightarrow> Some (s\<lparr>ss_forest := f\<rparr>)
         | Some (f, Inr a) \<Rightarrow> Some (s\<lparr>ss_forest := f, ss_live := ss_live s @ [a]\<rparr>))
      else Some s)"
| "session_step addr s (SObserve k r) =
     (if k < length (ss_live s) then Some (s\<lparr>ss_live := (ss_live s)[k := observe (ss_live s ! k) r]\<rparr>) else Some s)"
| "session_step addr s (SFinish k r) =
     (if k < length (ss_live s) then
        map_option (\<lambda>(f, _). close_attempt s k (at_receipt (observe (ss_live s ! k) r)) f)
          (attempt_finish addr (ss_forest s) (ss_live s ! k) r)
      else Some s)"
| "session_step addr s (SDrop k) =
     (if k < length (ss_live s) then
        map_option (close_attempt s k (at_receipt (ss_live s ! k))) (attempt_drop addr (ss_forest s) (ss_live s ! k))
      else Some s)"

definition session_event_ok :: "session_event \<Rightarrow> bool" where
  "session_event_ok e = (case e of
     SObserve _ r \<Rightarrow> receipt_ok r \<and> counts_u64 (rc_counts r)
   | SFinish _ r \<Rightarrow> receipt_ok r \<and> counts_u64 (rc_counts r)
   | _ \<Rightarrow> True)"

text \<open>The receipts settled in a scope or below it, and the attempts in progress there.\<close>

definition settled_in :: "node list \<Rightarrow> (nat \<times> usage_receipt) list \<Rightarrow> nat \<Rightarrow> usage_receipt list" where
  "settled_in ns log i = map snd (filter (\<lambda>(n, _). i \<in> ancestors ns n) log)"

definition live_in :: "node list \<Rightarrow> usage_attempt list \<Rightarrow> nat \<Rightarrow> nat" where
  "live_in ns live i = length (filter (\<lambda>a. i \<in> ancestors ns (the (at_tracker a))) live)"

definition node_inv :: "node list \<Rightarrow> usage_attempt list \<Rightarrow> (nat \<times> usage_receipt) list \<Rightarrow> nat \<Rightarrow> node_state \<Rightarrow> bool" where
  "node_inv ns live log i st \<longleftrightarrow>
     st_in_flight st = live_in ns live i \<and>
     a_requests (st_settled st) + st_in_flight st \<le> u64_max \<and> aggregate_ok (st_settled st) \<and>
     (\<not> st_overflowed st \<longrightarrow>
        totals (st_settled st) = column_sums [0, 0, 0, 0, 0, 0, 0] (map receipt_totals (settled_in ns log i)))"

definition forest_ok :: "(nat \<Rightarrow> nat) \<Rightarrow> forest \<Rightarrow> bool" where
  "forest_ok addr f \<longleftrightarrow> links_ok (f_nodes f) \<and> length (f_states f) = length (f_nodes f) \<and>
     (\<forall>n < length (f_nodes f). \<exists>ids. ancestry addr (f_nodes f) n = Inr ids)"

definition attempt_ok :: "node list \<Rightarrow> usage_attempt \<Rightarrow> bool" where
  "attempt_ok ns a \<longleftrightarrow> (\<exists>n < length ns. at_tracker a = Some n) \<and> receipt_ok (at_receipt a) \<and>
     counts_u64 (rc_counts (at_receipt a))"

definition session_inv :: "(nat \<Rightarrow> nat) \<Rightarrow> session \<Rightarrow> bool" where
  "session_inv addr s \<longleftrightarrow> forest_ok addr (ss_forest s) \<and>
     (\<forall>a \<in> set (ss_live s). attempt_ok (f_nodes (ss_forest s)) a) \<and>
     (\<forall>(n, r) \<in> set (ss_log s). n < length (f_nodes (ss_forest s))) \<and>
     (\<forall>i < length (f_nodes (ss_forest s)).
        node_inv (f_nodes (ss_forest s)) (ss_live s) (ss_log s) i (f_states (ss_forest s) ! i))"

lemma lineage_ok:
  assumes "forest_ok addr f" and "n < length (f_nodes f)"
  shows "\<exists>ids. lineage addr f n = Some ids \<and> distinct ids \<and> set ids = ancestors (f_nodes f) n \<and>
    (\<forall>i \<in> set ids. i < length (f_states f))"
proof -
  obtain ids where ids: "ancestry addr (f_nodes f) n = Inr ids" using assms by (auto simp: forest_ok_def)
  then have r: "distinct ids \<and> set ids = ancestors (f_nodes f) n"
    using ancestry_reach assms by (auto simp: forest_ok_def)
  have "i < length (f_nodes f)" if "i \<in> ancestors (f_nodes f) n" for i
    using rtrancl_closed [of n i "links (f_nodes f)" "{..<length (f_nodes f)}"] that assms
      links_older [of "f_nodes f"] by (fastforce simp: ancestors_def forest_ok_def)
  with r ids assms show ?thesis by (auto simp: lineage_def forest_ok_def)
qed

lemma live_in_trackers:
  "live_in ns live i = length (filter (\<lambda>t. i \<in> ancestors ns (the t)) (map at_tracker live))"
  by (simp add: live_in_def filter_map comp_def)

lemma live_in_remove:
  assumes "k < length live"
  shows "live_in ns live i = live_in ns (remove_at k live) i +
    (if i \<in> ancestors ns (the (at_tracker (live ! k))) then 1 else 0)"
proof -
  have "live = take k live @ live ! k # drop (Suc k) live" by (rule id_take_nth_drop [OF assms])
  then have "live_in ns live i = live_in ns (take k live @ live ! k # drop (Suc k) live) i" by simp
  then show ?thesis by (simp add: live_in_def remove_at_def)
qed

lemma column_sums_snoc: "column_sums acc (rows @ [row]) = add_lists (column_sums acc rows) row"
  by (induction rows arbitrary: acc) auto

lemma settled_in_snoc:
  "settled_in ns (log @ [(n, r)]) i = settled_in ns log i @ (if i \<in> ancestors ns n then [r] else [])"
  by (simp add: settled_in_def)

text \<open>One node of the lineage after an attempt closed there, in the three possible ways.\<close>

lemma node_inv_close:
  assumes inv: "node_inv ns live log i st" and k: "k < length live" and n: "n = the (at_tracker (live ! k))"
    and ok: "receipt_ok r" "counts_u64 (rc_counts r)"
  shows "i \<notin> ancestors ns n \<Longrightarrow> node_inv ns (remove_at k live) (log @ [(n, r)]) i st"
    and "i \<in> ancestors ns n \<Longrightarrow> \<not> st_overflowed st \<Longrightarrow> aggregate_add (st_settled st) r = Inr tot \<Longrightarrow>
      node_inv ns (remove_at k live) (log @ [(n, r)]) i (st\<lparr>st_in_flight := st_in_flight st - 1, st_settled := tot\<rparr>)"
    and "i \<in> ancestors ns n \<Longrightarrow>
      node_inv ns (remove_at k live) (log @ [(n, r)]) i (st\<lparr>st_in_flight := st_in_flight st - 1, st_overflowed := True\<rparr>)"
    and "i \<in> ancestors ns n \<Longrightarrow> 0 < st_in_flight st"
proof -
  note rem = live_in_remove [OF k, of ns i, folded n]
  show "i \<notin> ancestors ns n \<Longrightarrow> node_inv ns (remove_at k live) (log @ [(n, r)]) i st"
    using inv rem by (simp add: node_inv_def settled_in_snoc)
  show pos: "i \<in> ancestors ns n \<Longrightarrow> 0 < st_in_flight st"
    using inv rem by (simp add: node_inv_def)
  show "i \<in> ancestors ns n \<Longrightarrow>
      node_inv ns (remove_at k live) (log @ [(n, r)]) i (st\<lparr>st_in_flight := st_in_flight st - 1, st_overflowed := True\<rparr>)"
    using inv rem by (simp add: node_inv_def)
  assume i: "i \<in> ancestors ns n" and no: "\<not> st_overflowed st" and add: "aggregate_add (st_settled st) r = Inr tot"
  have t: "totals tot = add_lists (totals (st_settled st)) (receipt_totals r)"
    using aggregate_merge_totals add by (simp add: aggregate_add_def receipt_totals_def)
  then have "a_requests tot = a_requests (st_settled st) + 1"
    by (simp add: totals_def add_lists_def receipt_totals_def receipt_aggregate_def Let_def)
  moreover have "aggregate_ok tot"
    using aggregate_add_ok [OF _ ok add] inv by (simp add: node_inv_def)
  ultimately show "node_inv ns (remove_at k live) (log @ [(n, r)]) i
      (st\<lparr>st_in_flight := st_in_flight st - 1, st_settled := tot\<rparr>)"
    using inv rem no i t by (simp add: node_inv_def settled_in_snoc column_sums_snoc)
qed

lemma tracker_settle_inv:
  assumes inv: "session_inv addr s" and k: "k < length (ss_live s)"
    and n: "at_tracker (ss_live s ! k) = Some n" and ok: "receipt_ok r" "counts_u64 (rc_counts r)"
  shows "\<exists>f res. tracker_settle addr (ss_forest s) n r = Some (f, res) \<and> session_inv addr (close_attempt s k r f)"
proof -
  let ?f = "ss_forest s" and ?ns = "f_nodes (ss_forest s)"
  have fo: "forest_ok addr ?f" using inv by (simp add: session_inv_def)
  have "attempt_ok ?ns (ss_live s ! k)" using inv k by (simp add: session_inv_def)
  then have nl: "n < length ?ns" using n by (auto simp: attempt_ok_def)
  obtain ids where ids: "lineage addr ?f n = Some ids" "distinct ids" "set ids = ancestors ?ns n"
    and lt: "\<forall>i \<in> set ids. i < length (f_states ?f)"
    using lineage_ok [OF fo nl] by blast
  have len: "length (f_states ?f) = length ?ns" using fo by (simp add: forest_ok_def)
  have the_n: "n = the (at_tracker (ss_live s ! k))" using n by simp
  have ni: "node_inv ?ns (ss_live s) (ss_log s) i (f_states ?f ! i)" if "i < length ?ns" for i
    using inv that by (simp add: session_inv_def)
  note close = node_inv_close [OF ni k the_n ok]
  have pos: "\<not> (\<exists>i \<in> set ids. st_in_flight (f_states ?f ! i) = 0)"
    using close(4) ids(3) lt len by (metis less_irrefl)
  define f1 where "f1 = update_states (\<lambda>st. st\<lparr>st_in_flight := st_in_flight st - 1\<rparr>) ids ?f"
  have f1: "f_states f1 ! i = (if i \<in> set ids then (f_states ?f ! i)\<lparr>st_in_flight := st_in_flight (f_states ?f ! i) - 1\<rparr>
      else f_states ?f ! i)" if "i < length ?ns" for i
    using update_states_nth [OF ids(2) lt] that len by (simp add: f1_def)
  have fr: "f_nodes f1 = ?ns" "f_budgets f1 = f_budgets ?f" "length (f_states f1) = length ?ns"
    by (simp_all add: f1_def len)
  have lt1: "\<forall>i \<in> set ids. i < length (f_states f1)" using lt len fr by simp
  have T: "tracker_settle addr ?f n r = Some (case settle_totals r (map (\<lambda>i. f_states f1 ! i) ids) of
      Inr tots \<Rightarrow> (f1\<lparr>f_states := store_totals ids tots (f_states f1)\<rparr>, Inr ())
    | Inl e \<Rightarrow> (update_states (\<lambda>st. st\<lparr>st_overflowed := True\<rparr>) ids f1, Inl e))"
    unfolding tracker_settle_def ids(1) option.case if_not_P [OF pos] Let_def f1_def ..
  have goal: "session_inv addr (close_attempt s k r f)"
    if frame: "f_nodes f = ?ns" "length (f_states f) = length ?ns"
      and nodes: "\<And>i. i < length ?ns \<Longrightarrow> node_inv ?ns (remove_at k (ss_live s)) (ss_log s @ [(n, r)]) i (f_states f ! i)" for f
    using inv frame nodes nl set_remove_at [of k "ss_live s"]
    by (auto simp: session_inv_def close_attempt_def forest_ok_def the_n [symmetric])
  show ?thesis
  proof (cases "settle_totals r (map (\<lambda>i. f_states f1 ! i) ids)")
    case (Inl e)
    let ?g = "update_states (\<lambda>st. st\<lparr>st_overflowed := True\<rparr>) ids f1"
    have "session_inv addr (close_attempt s k r ?g)"
    proof (rule goal)
      fix i assume i: "i < length ?ns"
      show "node_inv ?ns (remove_at k (ss_live s)) (ss_log s @ [(n, r)]) i (f_states ?g ! i)"
        using close(1,3) [OF i] i update_states_nth [OF ids(2) lt1] ids(3) fr(3) f1 [OF i] by auto
    qed (simp_all add: fr)
    then show ?thesis using Inl by (simp add: T)
  next
    case (Inr tots)
    note tot = settle_totals_Inr [OF Inr]
    let ?g = "f1\<lparr>f_states := store_totals ids tots (f_states f1)\<rparr>"
    have "session_inv addr (close_attempt s k r ?g)"
    proof (rule goal)
      fix i assume i: "i < length ?ns"
      note st = store_totals_nth [OF ids(2) _ lt1, of tots i]
      show "node_inv ?ns (remove_at k (ss_live s)) (ss_log s @ [(n, r)]) i (f_states ?g ! i)"
      proof (cases "i \<in> set ids")
        case False
        then show ?thesis using close(1) [OF i] st tot i fr(3) f1 [OF i] ids(3) by simp
      next
        case True
        then obtain m where m: "m < length ids" "ids ! m = i" by (auto simp: in_set_conv_nth)
        have "\<not> st_overflowed (f_states ?f ! i)" "aggregate_add (st_settled (f_states ?f ! i)) r = Inr (tots ! m)"
          using tot m f1 [OF i] True by auto
        with close(2) [OF i] True ids(3) have "node_inv ?ns (remove_at k (ss_live s)) (ss_log s @ [(n, r)]) i
            ((f_states ?f ! i)\<lparr>st_in_flight := st_in_flight (f_states ?f ! i) - 1, st_settled := tots ! m\<rparr>)"
          by simp
        moreover have "f_states ?g ! i = (f_states f1 ! i)\<lparr>st_settled := tots ! m\<rparr>"
          using st tot m i fr(3) by simp
        ultimately show ?thesis using f1 [OF i] True by simp
      qed
    qed (simp_all add: fr)
    then show ?thesis using Inr by (simp add: T)
  qed
qed

lemma attempt_finish_settle:
  "at_tracker a = Some n \<Longrightarrow>
   attempt_finish addr f a r = tracker_settle addr f n (at_receipt (observe a r))"
proof -
  assume "at_tracker a = Some n"
  then have "at_tracker (observe a r) = Some n" by (simp add: observe_def)
  then show ?thesis
    by (cases "tracker_settle addr f n (at_receipt (observe a r))")
       (auto simp: attempt_finish_def attempt_settle_def attempt_drop_def)
qed

lemma attempt_drop_settle:
  "at_tracker a = Some n \<Longrightarrow> attempt_drop addr f a = map_option fst (tracker_settle addr f n (at_receipt a))"
  by (cases "tracker_settle addr f n (at_receipt a)") (auto simp: attempt_drop_def attempt_settle_def)

lemma default_receipt_u64: "counts_u64 (rc_counts default_receipt)"
  by (simp add: default_receipt_def default_counts_def from_counts_counts normalize_counts_ok counts_ok_def
      counts_u64_def fits_def)

lemma start_inv:
  assumes inv: "session_inv addr s" and n: "n < length (f_nodes (ss_forest s))"
  shows "\<exists>s'. session_step addr s (SStart n) = Some s' \<and> session_inv addr s'"
proof -
  let ?f = "ss_forest s" and ?ns = "f_nodes (ss_forest s)"
  let ?a = "\<lparr>at_tracker = Some n, at_receipt = default_receipt\<rparr>"
  have fo: "forest_ok addr ?f" using inv by (simp add: session_inv_def)
  obtain ids where ids: "lineage addr ?f n = Some ids" "distinct ids" "set ids = ancestors ?ns n"
    and lt: "\<forall>i \<in> set ids. i < length (f_states ?f)"
    using lineage_ok [OF fo n] by blast
  have len: "length (f_states ?f) = length ?ns" using fo by (simp add: forest_ok_def)
  show ?thesis
  proof (cases "try_each (\<lambda>i. start_check (f_states ?f ! i)) ids")
    case (Inl e)
    then show ?thesis using ids inv n by (simp add: start_def)
  next
    case (Inr u)
    then have room: "a_requests (st_settled (f_states ?f ! i)) + st_in_flight (f_states ?f ! i) + 1 \<le> u64_max"
      if "i \<in> set ids" for i
      using that by (auto simp: try_each_Inr_iff start_check_def checked_add_def split: if_splits option.splits bind_splits)
    let ?g = "update_states (\<lambda>st. st\<lparr>st_in_flight := wrapping_add (st_in_flight st) 1\<rparr>) ids ?f"
    have "node_inv ?ns (ss_live s @ [?a]) (ss_log s) i (f_states ?g ! i)" if i: "i < length ?ns" for i
    proof -
      have ni: "node_inv ?ns (ss_live s) (ss_log s) i (f_states ?f ! i)" using inv i by (simp add: session_inv_def)
      have live: "live_in ?ns (ss_live s @ [?a]) i = live_in ?ns (ss_live s) i + (if i \<in> set ids then 1 else 0)"
        by (simp add: live_in_def ids(3))
      show ?thesis
        using ni live room [of i] update_states_nth [OF ids(2) lt, of i] i len by (auto simp: node_inv_def)
    qed
    then have "session_inv addr (s\<lparr>ss_forest := ?g, ss_live := ss_live s @ [?a]\<rparr>)"
      using inv n default_receipt_ok default_receipt_u64
      by (auto simp: session_inv_def forest_ok_def attempt_ok_def)
    then show ?thesis using ids(1) n Inr by (simp add: start_def)
  qed
qed

text \<open>New nodes leave the ancestors of the old ones alone.\<close>

lemma ancestry_loop_append:
  assumes "links_ok ns"
  shows "\<forall>n \<in> set pending. n < length ns \<Longrightarrow> ancestry_loop (ns @ [x]) visited pending = ancestry_loop ns visited pending"
  using assms
proof (induction ns visited pending rule: ancestry_loop.induct)
  case (2 ns visited n pending)
  then have n: "n < length ns" by simp
  have "m < length ns" if "m \<in> set (somes [n_observer (ns ! n), n_parent (ns ! n)])" for m
  proof -
    have "(n, m) \<in> links ns" using that n by (auto simp: set_somes links_def)
    then show ?thesis using links_older [OF "2.prems"(2)] by fastforce
  qed
  with 2 n show ?case by (auto simp: nth_append)
qed simp

lemma links_append:
  "links (ns @ [x]) = links ns \<union> {(length ns, m) |m. n_parent x = Some m \<or> n_observer x = Some m}"
  by (auto simp: links_def nth_append less_Suc_eq)

lemma ancestors_append:
  assumes "links_ok ns" and "n < length ns"
  shows "ancestors (ns @ [x]) n = ancestors ns n"
proof -
  have old: "m < length ns \<and> (n, m) \<in> (links ns)\<^sup>*" if "(n, m) \<in> (links (ns @ [x]))\<^sup>*" for m
    using that
  proof (induction rule: rtrancl_induct)
    case (step a b)
    then have "(a, b) \<in> links ns" by (auto simp: links_append)
    with step.IH links_older [OF assms(1)] show ?case by (meson dual_order.strict_trans rtrancl.rtrancl_into_rtrancl)
  qed (simp add: assms)
  have "(links ns)\<^sup>* \<subseteq> (links (ns @ [x]))\<^sup>*" by (rule rtrancl_mono) (auto simp: links_append)
  then show ?thesis using old by (auto simp: ancestors_def)
qed

lemma add_node_inv:
  assumes inv: "session_inv addr s"
    and older: "\<And>m. n_parent x = Some m \<or> n_observer x = Some m \<Longrightarrow> m < length (f_nodes (ss_forest s))"
    and anc: "ancestry addr (f_nodes (ss_forest s) @ [x]) (length (f_nodes (ss_forest s))) = Inr ids"
    and f: "f_nodes f = f_nodes (ss_forest s) @ [x]" "f_states f = f_states (ss_forest s) @ [default_state]"
  shows "session_inv addr (s\<lparr>ss_forest := f\<rparr>)"
proof -
  let ?ns = "f_nodes (ss_forest s)"
  have lo: "links_ok ?ns" and len: "length (f_states (ss_forest s)) = length ?ns"
    and old: "\<And>n. n < length ?ns \<Longrightarrow> \<exists>ids. ancestry addr ?ns n = Inr ids"
    using inv by (auto simp: session_inv_def forest_ok_def)
  have lo': "links_ok (?ns @ [x])" using lo older by (auto simp: links_ok_def links_append)
  have eq: "ancestors (?ns @ [x]) n = ancestors ?ns n" if "n < length ?ns" for n by (rule ancestors_append [OF lo that])
  have inside: "m < length ?ns" if "m \<in> ancestors ?ns n" "n < length ?ns" for m n
    using rtrancl_closed [of n m "links ?ns" "{..<length ?ns}"] that links_older [OF lo] by (fastforce simp: ancestors_def)
  have anc_eq: "ancestry addr (?ns @ [x]) n = ancestry addr ?ns n" if "n < length ?ns" for n
    using ancestry_loop_append [OF lo, of "[n]" x "[]"] that by (simp add: ancestry_def)
  have fo: "forest_ok addr f"
    using lo' len old anc anc_eq f by (auto simp: forest_ok_def less_Suc_eq)
  have live: "\<forall>a \<in> set (ss_live s). attempt_ok ?ns a" and log: "\<forall>(n, r) \<in> set (ss_log s). n < length ?ns"
    using inv by (auto simp: session_inv_def)
  have li: "live_in (?ns @ [x]) (ss_live s) i = live_in ?ns (ss_live s) i" for i
    unfolding live_in_def using live eq by (intro arg_cong [where f = length] filter_cong) (auto simp: attempt_ok_def)
  have se: "settled_in (?ns @ [x]) (ss_log s) i = settled_in ?ns (ss_log s) i" for i
    unfolding settled_in_def using log eq by (intro arg_cong [where f = "map snd"] filter_cong) auto
  have none: "live_in ?ns (ss_live s) (length ?ns) = 0" "settled_in ?ns (ss_log s) (length ?ns) = []"
    using live log inside by (fastforce simp: live_in_def settled_in_def filter_empty_conv attempt_ok_def)+
  have "node_inv (?ns @ [x]) (ss_live s) (ss_log s) i (f_states f ! i)" if "i < Suc (length ?ns)" for i
  proof (cases "i < length ?ns")
    case True
    then have "node_inv ?ns (ss_live s) (ss_log s) i (f_states (ss_forest s) ! i)"
      using inv by (simp add: session_inv_def)
    moreover have "node_inv (?ns @ [x]) (ss_live s) (ss_log s) i st \<longleftrightarrow> node_inv ?ns (ss_live s) (ss_log s) i st" for st
      by (simp add: node_inv_def li se)
    ultimately show ?thesis using f len True by (simp add: nth_append)
  next
    case False
    then have "i = length ?ns" using that by simp
    then show ?thesis
      using f len none default_aggregate_ok
      by (simp add: node_inv_def li se nth_append default_state_def)
         (simp add: totals_def default_aggregate_def)
  qed
  moreover have "\<forall>a \<in> set (ss_live s). attempt_ok (?ns @ [x]) a" using live by (force simp: attempt_ok_def)
  ultimately show ?thesis using fo log f by (auto simp: session_inv_def)
qed

lemma root_ancestry: "n_parent x = None \<Longrightarrow> n_observer x = None \<Longrightarrow>
   ancestry addr (ns @ [x]) (length ns) = Inr [length ns]"
  by (simp add: ancestry_def)

lemma new_child_inv:
  assumes inv: "session_inv addr s" and p: "p < length (f_nodes (ss_forest s))"
    and ob: "\<And>q. ob = Some q \<Longrightarrow> q < length (f_nodes (ss_forest s))"
    and c: "new_child addr (ss_forest s) p ob = Inr (f, n)"
  shows "session_inv addr (s\<lparr>ss_forest := f\<rparr>)"
proof -
  define x where "x = \<lparr>n_budget = n_budget (f_nodes (ss_forest s) ! p), n_parent = Some p, n_observer = ob,
      n_depth = max (n_depth (f_nodes (ss_forest s) ! p))
        (case ob of None \<Rightarrow> 0 | Some scope \<Rightarrow> n_depth (f_nodes (ss_forest s) ! scope)) + 1\<rparr>"
  have x: "n_parent x = Some p" "n_observer x = ob" by (simp_all add: x_def)
  obtain ids where f: "f = add_node (ss_forest s) x default_state"
    and anc: "ancestry addr (f_nodes (ss_forest s) @ [x]) (length (f_nodes (ss_forest s))) = Inr ids"
    using c unfolding new_child_def Let_def x_def [symmetric]
    by (auto simp: and_then_Inr_iff add_node_def split: if_splits)
  show ?thesis
    by (rule add_node_inv [OF inv _ anc]) (use x p ob f in \<open>auto simp: add_node_def\<close>)
qed

lemma session_step_inv:
  assumes inv: "session_inv addr s" and ok: "session_event_ok e"
  shows "\<exists>s'. session_step addr s e = Some s' \<and> session_inv addr s'"
proof -
  have att: "\<exists>n. at_tracker (ss_live s ! k) = Some n \<and> receipt_ok (at_receipt (ss_live s ! k)) \<and>
      counts_u64 (rc_counts (at_receipt (ss_live s ! k)))" if "k < length (ss_live s)" for k
    using inv that by (auto simp: session_inv_def attempt_ok_def)
  show ?thesis
  proof (cases e)
    case (SRoot t)
    let ?x = "\<lparr>n_budget = length (f_budgets (ss_forest s)), n_parent = None, n_observer = None, n_depth = 0\<rparr>"
    have "session_inv addr (s\<lparr>ss_forest := fst (with_budget (ss_forest s) t)\<rparr>)"
      by (rule add_node_inv [OF inv _ root_ancestry [of ?x]])
         (simp_all add: with_budget_def add_node_def)
    then show ?thesis using SRoot by simp
  next
    case (SChild p ob)
    then show ?thesis using inv new_child_inv [OF inv, of p ob]
      by (auto split: sum.splits option.splits)
  next
    case (SStart n)
    then show ?thesis using start_inv [OF inv, of n] inv by (cases "n < length (f_nodes (ss_forest s))") simp_all
  next
    case (SObserve k r)
    show ?thesis
    proof (cases "k < length (ss_live s)")
      case True
      have tr: "at_tracker (observe a r) = at_tracker a" for a by (simp add: observe_def)
      have "map at_tracker ((ss_live s)[k := observe (ss_live s ! k) r]) = map at_tracker (ss_live s)"
        using True by (simp add: map_update tr) (metis list_update_id nth_map)
      then have li: "live_in ns ((ss_live s)[k := observe (ss_live s ! k) r]) i = live_in ns (ss_live s) i" for ns i
        by (simp only: live_in_trackers)
      have all: "\<forall>a \<in> set (ss_live s). attempt_ok (f_nodes (ss_forest s)) a" using inv by (simp add: session_inv_def)
      then have "attempt_ok (f_nodes (ss_forest s)) (ss_live s ! k)" using True by simp
      then have "attempt_ok (f_nodes (ss_forest s)) (observe (ss_live s ! k) r)"
        using ok SObserve by (auto simp: attempt_ok_def observe_def session_event_ok_def)
      with all have sub: "\<forall>a \<in> set ((ss_live s)[k := observe (ss_live s ! k) r]). attempt_ok (f_nodes (ss_forest s)) a"
        using set_update_subset_insert by fastforce
      have ni: "node_inv ns ((ss_live s)[k := observe (ss_live s ! k) r]) log i st = node_inv ns (ss_live s) log i st"
        for ns log i st by (simp add: node_inv_def li)
      show ?thesis using SObserve True inv
        using sub ni by (simp add: session_inv_def)
    qed (use SObserve inv in simp)
  next
    case (SFinish k r)
    show ?thesis
    proof (cases "k < length (ss_live s)")
      case True
      then obtain n where n: "at_tracker (ss_live s ! k) = Some n" using att by blast
      have "receipt_ok (at_receipt (observe (ss_live s ! k) r)) \<and> counts_u64 (rc_counts (at_receipt (observe (ss_live s ! k) r)))"
        using att [OF True] ok SFinish by (simp add: observe_def session_event_ok_def)
      then obtain f res where "tracker_settle addr (ss_forest s) n (at_receipt (observe (ss_live s ! k) r)) = Some (f, res)"
        "session_inv addr (close_attempt s k (at_receipt (observe (ss_live s ! k) r)) f)"
        using tracker_settle_inv [OF inv True n] by blast
      then show ?thesis using SFinish True by (simp add: attempt_finish_settle [OF n])
    qed (use SFinish inv in simp)
  next
    case (SDrop k)
    show ?thesis
    proof (cases "k < length (ss_live s)")
      case True
      then obtain n where n: "at_tracker (ss_live s ! k) = Some n" using att by blast
      obtain f res where "tracker_settle addr (ss_forest s) n (at_receipt (ss_live s ! k)) = Some (f, res)"
        "session_inv addr (close_attempt s k (at_receipt (ss_live s ! k)) f)"
        using tracker_settle_inv [OF inv True n] att [OF True] by blast
      then show ?thesis using SDrop True by (simp add: attempt_drop_settle [OF n])
    qed (use SDrop inv in simp)
  qed
qed

fun session_run :: "(nat \<Rightarrow> nat) \<Rightarrow> session \<Rightarrow> session_event list \<Rightarrow> session option" where
  "session_run addr s [] = Some s"
| "session_run addr s (e # es) = Option.bind (session_step addr s e) (\<lambda>s'. session_run addr s' es)"

definition empty_session :: session where
  "empty_session = \<lparr>ss_forest = empty_forest, ss_live = [], ss_log = []\<rparr>"

lemma session_run_inv:
  "session_inv addr s \<Longrightarrow> \<forall>e \<in> set es. session_event_ok e \<Longrightarrow>
   \<exists>s'. session_run addr s es = Some s' \<and> session_inv addr s'"
proof (induction es arbitrary: s)
  case (Cons e es)
  then obtain s1 where "session_step addr s e = Some s1" "session_inv addr s1"
    using session_step_inv [of addr s e] by auto
  with Cons show ?case by simp
qed simp

lemma empty_session_inv: "session_inv addr empty_session"
  by (simp add: empty_session_def empty_forest_def session_inv_def forest_ok_def links_ok_def links_def)

section \<open>What usage scopes guarantee\<close>

text \<open>
  C7. Hierarchical accounting is inclusive and exactly-once. For any history of scope
  creation, attempts, observations, completions and cancellations, no operation panics;
  in every scope the in-flight counter is the number of attempts in progress in it or in a
  descendant; and in every scope that has not reported an overflow, the seven totals are
  the exact sums of the receipts of all attempts settled in it or in a descendant, each
  attempt counted once even where scopes share ancestors through observers.
\<close>

theorem usage_scopes_inclusive:
  assumes "\<forall>e \<in> set es. session_event_ok e"
  shows "\<exists>s. session_run addr empty_session es = Some s \<and>
    (\<forall>i < length (f_nodes (ss_forest s)).
      st_in_flight (f_states (ss_forest s) ! i) = live_in (f_nodes (ss_forest s)) (ss_live s) i \<and>
      (\<not> st_overflowed (f_states (ss_forest s) ! i) \<longrightarrow>
        totals (st_settled (f_states (ss_forest s) ! i)) =
          column_sums [0, 0, 0, 0, 0, 0, 0]
            (map receipt_totals (settled_in (f_nodes (ss_forest s)) (ss_log s) i))))"
  using session_run_inv [OF empty_session_inv assms, of addr]
  by (auto simp: session_inv_def node_inv_def)

definition sample_session :: "session_event list" where
  "sample_session = [SRoot None, SRoot None, SChild 0 (Some 1), SStart 2, SFinish 0 sample_receipt]"

theorem usage_scopes_inclusive_witness:
  "\<exists>s. session_run (\<lambda>n. n) empty_session sample_session = Some s"
proof -
  have "\<forall>e \<in> set sample_session. session_event_ok e"
    by (simp add: sample_session_def session_event_ok_def sample_receipt_ok)
  from usage_scopes_inclusive [OF this] show ?thesis by blast
qed

end
