(* ===== verification/Interpolate.thy ===== *)
theory Interpolate
  imports Task_Graph Token_Budget
begin

text \<open>
  \<open>src/src/engine/interpolate.rs\<close> and \<open>utils/env.rs\<close>: expansion of \<open>${...}\<close> expressions in
  prompts into a character-bounded buffer, and the allow-list for environment variables.
  A template is a UTF-8 byte string; its \<open>chars()\<close> are the byte groups of \<open>chars_of\<close>.
\<close>

section \<open>Task results and allow-listed environment variables\<close>

record task_result =
  r_task :: string
  r_agent :: string
  r_output :: string
  r_success :: bool
  r_duration_ms :: nat
  r_usage :: usage_snapshot
  r_reasoning :: "string option"

type_synonym results = "string \<Rightarrow> task_result option"

definition is_name_allowlisted :: "string \<Rightarrow> string \<Rightarrow> bool" where
  "is_name_allowlisted name allowlist =
     list_ex (\<lambda>allowed. allowed \<noteq> [] \<and> eq_ignore_ascii_case allowed name) (map trim (split_on (CHR '','') allowlist))"

definition read_allowlisted :: "env \<Rightarrow> string \<Rightarrow> string option" where
  "read_allowlisted env name =
    (if name = [] \<or> 256 < length name \<or>
        list_ex (\<lambda>c. c = ''='' \<or> c = [char_of (0::nat)] \<or> is_control c) (chars_of name) then None
     else (case env_ok env ''IRONCREW_ENV_ALLOWLIST'' of
         None \<Rightarrow> None
       | Some allowlist \<Rightarrow> if \<not> is_name_allowlisted name allowlist then None else env_ok env name))"

section \<open>The bounded buffer\<close>

definition prompt_char_limit :: "env \<Rightarrow> nat" where
  "prompt_char_limit env = positive_limit env ''IRONCREW_MAX_PROMPT_CHARS'' (100 * 1024) (4 * 1024 * 1024)"

record bounded_interpolation =
  bi_output :: string
  bi_max_chars :: nat
  bi_chars :: nat
  bi_truncated :: bool

definition new_buffer :: "nat \<Rightarrow> bounded_interpolation" where
  "new_buffer max_chars = \<lparr>bi_output = [], bi_max_chars = max_chars, bi_chars = 0, bi_truncated = False\<rparr>"

text \<open>
  The loop over \<open>char_indices\<close>: how many characters fit, and the byte index at which it
  stopped, if it did.
\<close>

fun scan :: "nat \<Rightarrow> nat \<Rightarrow> nat \<Rightarrow> string list \<Rightarrow> nat \<times> nat option" where
  "scan remaining included byte_index [] = (included, None)"
| "scan remaining included byte_index (c # cs) =
     (if included = remaining then (included, Some byte_index)
      else scan remaining (included + 1) (byte_index + length c) cs)"

definition push :: "bounded_interpolation \<Rightarrow> string \<Rightarrow> bounded_interpolation" where
  "push b value =
    (if value = [] then b
     else if bi_max_chars b \<le> bi_chars b then b\<lparr>bi_truncated := True\<rparr>
     else (let remaining = bi_max_chars b - bi_chars b;
               (included, cut) = scan remaining 0 0 (chars_of value);
               boundary = (case cut of None \<Rightarrow> length value | Some i \<Rightarrow> i)
           in b\<lparr>bi_output := bi_output b @ take boundary value,
                bi_chars := bi_chars b + min included remaining,
                bi_truncated := (bi_truncated b \<or> cut \<noteq> None)\<rparr>))"

section \<open>Expressions\<close>

text \<open>What an expression pushes; \<open>None\<close> when it is unresolved and nothing is pushed.\<close>

definition resolve :: "env \<Rightarrow> results \<Rightarrow> string \<Rightarrow> string option" where
  "resolve env results expr = (case splitn_on 3 (CHR ''.'') (trim expr) of
     [a, task_name, fld] \<Rightarrow>
       (if a = ''results'' then
          (case results task_name of
             None \<Rightarrow> None
           | Some r \<Rightarrow>
              (if fld = ''output'' then Some (r_output r)
               else if fld = ''success'' then Some (if r_success r then ''true'' else ''false'')
               else if fld = ''agent'' then Some (r_agent r)
               else if fld = ''duration_ms'' then Some (dec (r_duration_ms r))
               else if fld = ''task'' then Some (r_task r)
               else None))
        else None)
   | [a, var_name] \<Rightarrow> (if a = ''env'' then read_allowlisted env var_name else None)
   | _ \<Rightarrow> None)"

definition append_expression :: "env \<Rightarrow> results \<Rightarrow> string \<Rightarrow> bounded_interpolation \<Rightarrow> bounded_interpolation" where
  "append_expression env results expr b = (case resolve env results expr of None \<Rightarrow> b | Some v \<Rightarrow> push b v)"

text \<open>The inner loop after \<open>${\<close>: the expression up to the matching brace, and the rest.\<close>

fun read_expr :: "nat \<Rightarrow> string \<Rightarrow> string list \<Rightarrow> string \<times> string list" where
  "read_expr depth expr [] = (expr, [])"
| "read_expr depth expr (c # cs) =
     (if c = ''{'' then read_expr (depth + 1) (expr @ c) cs
      else if c = ''}'' then (if depth - 1 = 0 then (expr, cs) else read_expr (depth - 1) (expr @ c) cs)
      else read_expr depth (expr @ c) cs)"

lemma read_expr_shorter: "read_expr depth expr cs = (e, rest) \<Longrightarrow> length rest \<le> length cs"
  by (induction depth expr cs rule: read_expr.induct) (auto split: if_splits)

function interpolate_loop :: "env \<Rightarrow> results \<Rightarrow> string list \<Rightarrow> bounded_interpolation \<Rightarrow> bounded_interpolation" where
  "interpolate_loop env results [] b = b"
| "interpolate_loop env results (ch # cs) b =
     (if ch = ''$'' \<and> (case cs of [] \<Rightarrow> False | c # _ \<Rightarrow> c = ''{'')
      then (let (expr, rest) = read_expr 1 [] (tl cs)
            in interpolate_loop env results rest (append_expression env results expr b))
      else interpolate_loop env results cs (push b ch))"
  by pat_completeness auto
termination
proof (relation "measure (\<lambda>(env, results, cs, b). length cs)", goal_cases)
  case (2 env results ch cs b x expr rest)
  then have "length rest \<le> length (tl cs)" using read_expr_shorter [of 1 "[]" "tl cs" expr rest] by simp
  then show ?case by auto
qed auto

definition interpolate_bounded :: "env \<Rightarrow> string \<Rightarrow> results \<Rightarrow> nat \<Rightarrow> string \<times> bool" where
  "interpolate_bounded env template results max_chars =
    (let b = interpolate_loop env results (chars_of template) (new_buffer max_chars)
     in (bi_output b, bi_truncated b))"

definition interpolate :: "env \<Rightarrow> string \<Rightarrow> results \<Rightarrow> string" where
  "interpolate env template results = fst (interpolate_bounded env template results (prompt_char_limit env))"

section \<open>Specification: expand everything, then cut\<close>

text \<open>The unbounded expansion, as the list of its characters.\<close>

function expand :: "env \<Rightarrow> results \<Rightarrow> string list \<Rightarrow> string list" where
  "expand env results [] = []"
| "expand env results (ch # cs) =
     (if ch = ''$'' \<and> (case cs of [] \<Rightarrow> False | c # _ \<Rightarrow> c = ''{'')
      then (let (expr, rest) = read_expr 1 [] (tl cs)
            in (case resolve env results expr of None \<Rightarrow> [] | Some v \<Rightarrow> chars_of v) @ expand env results rest)
      else ch # expand env results cs)"
  by pat_completeness auto
termination
proof (relation "measure (\<lambda>(env, results, cs). length cs)", goal_cases)
  case (2 env results ch cs x expr rest)
  then have "length rest \<le> length (tl cs)" using read_expr_shorter [of 1 "[]" "tl cs" expr rest] by simp
  then show ?case by auto
qed auto

lemma scan_spec:
  assumes "included \<le> remaining"
  shows "scan remaining included i cs =
    (included + min (length cs) (remaining - included),
     if length cs \<le> remaining - included then None
     else Some (i + length (concat (take (remaining - included) cs))))"
  using assms
proof (induction cs arbitrary: included i)
  case (Cons c cs)
  show ?case
  proof (cases "included = remaining")
    case False
    then obtain d where "remaining - included = Suc d" "remaining - Suc included = d"
      using Cons.prems by (cases "remaining - included") auto
    with Cons False show ?thesis by auto
  qed simp
qed simp

text \<open>The buffer holds the first \<open>max_chars\<close> characters of what was pushed so far.\<close>

definition holds :: "nat \<Rightarrow> string list \<Rightarrow> bounded_interpolation \<Rightarrow> bool" where
  "holds limit cs b \<longleftrightarrow> bi_max_chars b = limit \<and> bi_output b = concat (take limit cs) \<and>
     bi_chars b = min limit (length cs) \<and> bi_truncated b = (limit < length cs)"

lemma take_concat_boundary: "take (length (concat (take k cs))) (concat cs) = concat (take k cs)"
  by (metis append_eq_conv_conj append_take_drop_id concat_append)

lemma push_holds:
  assumes "holds limit cs b"
  shows "holds limit (cs @ chars_of v) (push b v)"
proof (cases "v = []")
  case True
  with assms show ?thesis by (simp add: push_def)
next
  case False
  then have ne: "0 < length (chars_of v)" by simp
  show ?thesis
  proof (cases "limit \<le> length cs")
    case True
    with assms False have "bi_truncated (push b v)" "bi_output (push b v) = concat (take limit cs)"
      "bi_chars (push b v) = limit" "bi_max_chars (push b v) = limit" by (auto simp: push_def holds_def)
    moreover have "limit < length cs + length (chars_of v)" using ne True by linarith
    ultimately show ?thesis using True by (simp add: holds_def)
  next
    case less: False
    let ?rem = "limit - length cs"
    have b: "bi_max_chars b = limit" "bi_chars b = length cs" "bi_output b = concat cs" "\<not> bi_truncated b"
      using assms less by (auto simp: holds_def)
    note sc = scan_spec [of 0 ?rem 0 "chars_of v"]
    have out: "take (length (concat (take ?rem (chars_of v)))) v = concat (take ?rem (chars_of v))"
      using take_concat_boundary [of ?rem "chars_of v"] by simp
    show ?thesis
    proof (cases "length (chars_of v) \<le> ?rem")
      case True
      with b sc False less show ?thesis by (auto simp: push_def holds_def)
    next
      case more: False
      with b sc False less out show ?thesis by (auto simp: push_def holds_def)
    qed
  qed
qed

lemma read_expr_rest: "read_expr depth expr cs = (e, rest) \<Longrightarrow> set rest \<subseteq> set cs"
  by (induction depth expr cs rule: read_expr.induct) (auto split: if_splits)

lemma chars_of_char: "ch \<in> set (chars_of s) \<Longrightarrow> chars_of ch = [ch]"
proof (induction s rule: chars_of.induct)
  case (2 c cs)
  have "\<forall>x \<in> set (takeWhile is_cont cs). is_cont x" by (auto dest: set_takeWhileD)
  then have "chars_of (c # takeWhile is_cont cs) = [c # takeWhile is_cont cs]"
    by (simp add: takeWhile_eq_all_conv [THEN iffD2] dropWhile_eq_Nil_conv [THEN iffD2])
  with 2 show ?case by auto
qed simp

lemma interpolate_loop_holds:
  assumes "holds limit done b" and "\<forall>ch \<in> set cs. chars_of ch = [ch]"
  shows "holds limit (done @ expand env results cs) (interpolate_loop env results cs b)"
  using assms
proof (induction env results cs b arbitrary: "done" rule: interpolate_loop.induct)
  case (2 env results ch cs b)
  show ?case
  proof (cases "ch = ''$'' \<and> (case cs of [] \<Rightarrow> False | c # _ \<Rightarrow> c = ''{'')")
    case True
    obtain expr rest where r: "read_expr 1 [] (tl cs) = (expr, rest)" by (cases "read_expr 1 [] (tl cs)")
    have sub: "set rest \<subseteq> set cs"
      using read_expr_rest [OF r] by (cases cs) auto
    have "holds limit (done @ (case resolve env results expr of None \<Rightarrow> [] | Some v \<Rightarrow> chars_of v))
        (append_expression env results expr b)"
      using "2.prems"(1) push_holds by (auto simp: append_expression_def split: option.splits)
    from "2.IH"(1) [OF True r [symmetric] refl this] "2.prems"(2) sub True r show ?thesis by auto
  next
    case False
    have "holds limit (done @ [ch]) (push b ch)"
      using push_holds [OF "2.prems"(1), of ch] "2.prems"(2) by simp
    from "2.IH"(2) [OF False this] "2.prems"(2) False show ?thesis by auto
  qed
qed simp

lemma interpolate_bounded_expand:
  "interpolate_bounded env template results max_chars =
     (concat (take max_chars (expand env results (chars_of template))),
      max_chars < length (expand env results (chars_of template)))"
proof -
  have "holds max_chars [] (new_buffer max_chars)" by (simp add: holds_def new_buffer_def)
  moreover have "\<forall>ch \<in> set (chars_of template). chars_of ch = [ch]" using chars_of_char by blast
  ultimately have "holds max_chars ([] @ expand env results (chars_of template))
      (interpolate_loop env results (chars_of template) (new_buffer max_chars))"
    by (rule interpolate_loop_holds)
  then show ?thesis by (simp add: interpolate_bounded_def holds_def Let_def)
qed

section \<open>What interpolation guarantees\<close>

text \<open>
  C8. Bounded interpolation is exactly the full expansion cut after \<open>max_chars\<close> characters,
  on a character boundary, and the flag says precisely whether something was cut. So no
  template, however often it repeats a large result, produces more than the budget.
\<close>

theorem interpolate_bounded_exact:
  "interpolate_bounded env template results max_chars =
     (concat (take max_chars (expand env results (chars_of template))),
      max_chars < length (expand env results (chars_of template)))"
  by (rule interpolate_bounded_expand)

text \<open>
  The variables whose value may reach a prompt: those on the allow-list. Two environments
  that agree on them and on the allow-list itself cannot be told apart.
\<close>

definition same_allowed :: "env \<Rightarrow> env \<Rightarrow> bool" where
  "same_allowed e1 e2 \<longleftrightarrow> e1 ''IRONCREW_ENV_ALLOWLIST'' = e2 ''IRONCREW_ENV_ALLOWLIST'' \<and>
     (\<forall>name allowlist. e1 ''IRONCREW_ENV_ALLOWLIST'' = Present allowlist \<longrightarrow>
        is_name_allowlisted name allowlist \<longrightarrow> e1 name = e2 name)"

lemma read_allowlisted_agree:
  assumes "same_allowed e1 e2"
  shows "read_allowlisted e1 name = read_allowlisted e2 name"
proof -
  have a: "e1 ''IRONCREW_ENV_ALLOWLIST'' = e2 ''IRONCREW_ENV_ALLOWLIST''" using assms by (simp add: same_allowed_def)
  have "env_ok e1 name = env_ok e2 name"
    if "e2 ''IRONCREW_ENV_ALLOWLIST'' = Present l" "is_name_allowlisted name l" for l
    using assms that a by (simp add: same_allowed_def env_ok_def)
  then show ?thesis
    by (cases "e2 ''IRONCREW_ENV_ALLOWLIST''")
       (auto simp: read_allowlisted_def env_ok_def [of _ "''IRONCREW_ENV_ALLOWLIST''"] a)
qed

lemma resolve_agree: "same_allowed e1 e2 \<Longrightarrow> resolve e1 results expr = resolve e2 results expr"
  by (auto simp: resolve_def read_allowlisted_agree split: list.splits)

lemma expand_agree: "same_allowed e1 e2 \<Longrightarrow> expand e1 results cs = expand e2 results cs"
proof (induction e1 results cs rule: expand.induct)
  case (2 env results ch cs)
  show ?case
  proof (cases "ch = ''$'' \<and> (case cs of [] \<Rightarrow> False | c # _ \<Rightarrow> c = ''{'')")
    case True
    obtain expr rest where r: "read_expr 1 [] (tl cs) = (expr, rest)" by (cases "read_expr 1 [] (tl cs)")
    show ?thesis using "2.IH"(1) [OF True r [symmetric] refl "2.prems"] True r resolve_agree [OF "2.prems"] by simp
  next
    case False
    then show ?thesis using "2.IH"(2) [OF False "2.prems"] by auto
  qed
qed simp

text \<open>
  C9. Environment secrets do not leak into prompts: the expansion of any template, with any
  task results and any bound, depends on the process environment only through the
  variables named in \<open>IRONCREW_ENV_ALLOWLIST\<close>.
\<close>

theorem interpolate_no_env_leak:
  assumes "same_allowed e1 e2"
  shows "interpolate_bounded e1 template results max_chars = interpolate_bounded e2 template results max_chars"
  by (simp add: interpolate_bounded_expand expand_agree [OF assms])

theorem interpolate_no_env_leak_witness:
  "interpolate_bounded ((\<lambda>_. NotPresent)(''SECRET'' := Present ''hunter2'')) ''${env.SECRET}'' (\<lambda>_. None) 100 =
   interpolate_bounded (\<lambda>_. NotPresent) ''${env.SECRET}'' (\<lambda>_. None) 100"
  by (rule interpolate_no_env_leak) (simp add: same_allowed_def)

end
