(* ===== verification/Message_Bus.thy ===== *)
theory Message_Bus
  imports Prelude "HOL-Library.AList" "HOL-Library.Sublist"
begin

text \<open>
  \<open>src/src/engine/messagebus.rs\<close>: the agent-to-agent message bus with per-agent queues, a
  history and pending broadcasts, all bounded by message count and by bytes.

  A \<open>send\<close> takes three locks one after the other: the history's, the queues', and the pending
  broadcasts' when no agent is registered. Each critical section is a step of its own, and
  the sections of concurrent sends interleave with each other and with the other methods,
  which work under the queues' lock or under the lock of the pending broadcasts. A future
  dropped while it waits for a lock leaves the sections it has not reached undone.

  A \<open>HashMap\<close> of queues is an association list; no operation depends on its iteration order,
  because a broadcast treats every queue independently. The limits are read from the
  environment, which is a parameter; message ids and the clock are arguments of
  \<open>new_message\<close>.
\<close>

section \<open>Messages\<close>

datatype message_type = Notification | Request | Response | Broadcast

record message =
  m_id :: string
  m_from :: string
  m_to :: string
  m_content :: string
  m_type :: message_type
  m_timestamp :: int
  m_reply_to :: "string option"

definition new_message :: "string \<Rightarrow> int \<Rightarrow> string \<Rightarrow> string \<Rightarrow> string \<Rightarrow> message_type \<Rightarrow> message" where
  "new_message uuid now from_agent to_agent content ty =
     \<lparr>m_id = uuid, m_from = from_agent, m_to = to_agent, m_content = content, m_type = ty,
      m_timestamp = now, m_reply_to = None\<rparr>"

definition reply :: "string \<Rightarrow> int \<Rightarrow> message \<Rightarrow> string \<Rightarrow> string \<Rightarrow> message" where
  "reply uuid now original from_agent content =
     (new_message uuid now from_agent (m_from original) content Response)\<lparr>m_reply_to := Some (m_id original)\<rparr>"

definition message_size :: "message \<Rightarrow> nat" where
  "message_size m =
     saturating_add (saturating_add (saturating_add (saturating_add (saturating_add
       (length (m_content m)) (length (m_from m))) (length (m_to m))) (length (m_id m)))
       (case m_reply_to m of None \<Rightarrow> 0 | Some r \<Rightarrow> length r)) 64"

definition truncate_message_content :: "string \<Rightarrow> nat \<Rightarrow> string \<times> bool" where
  "truncate_message_content content max_bytes =
    (if length content \<le> max_bytes then (content, False)
     else (take (char_floor content max_bytes) content, True))"

section \<open>Limits\<close>

definition message_max_bytes :: "env \<Rightarrow> nat" where
  "message_max_bytes env = positive_limit env ''IRONCREW_MESSAGEBUS_MESSAGE_MAX_BYTES'' (64 * 1024) (4 * 1024 * 1024)"

definition queue_max_bytes :: "env \<Rightarrow> nat" where
  "queue_max_bytes env = positive_limit env ''IRONCREW_MESSAGEBUS_QUEUE_MAX_BYTES'' (4 * 1024 * 1024) (64 * 1024 * 1024)"

definition history_max_bytes :: "env \<Rightarrow> nat" where
  "history_max_bytes env = positive_limit env ''IRONCREW_MESSAGEBUS_HISTORY_MAX_BYTES'' (4 * 1024 * 1024) (64 * 1024 * 1024)"

definition pending_max_bytes :: "env \<Rightarrow> nat" where
  "pending_max_bytes env = positive_limit env ''IRONCREW_MESSAGEBUS_PENDING_MAX_BYTES'' (4 * 1024 * 1024) (64 * 1024 * 1024)"

definition queue_depth_limit :: "env \<Rightarrow> nat" where
  "queue_depth_limit env = positive_limit env ''IRONCREW_MESSAGEBUS_QUEUE_DEPTH'' 1000 10000"

definition history_depth_limit :: "env \<Rightarrow> nat" where
  "history_depth_limit env = positive_limit env ''IRONCREW_MESSAGEBUS_HISTORY_DEPTH'' 500 10000"

definition pending_cap_limit :: "env \<Rightarrow> nat" where
  "pending_cap_limit env = positive_limit env ''IRONCREW_MESSAGEBUS_PENDING_CAP'' 500 5000"

text \<open>The condition of the eviction loops.\<close>

definition over_budget :: "nat \<Rightarrow> nat \<Rightarrow> message list \<Rightarrow> bool" where
  "over_budget cap byte_cap ms = (cap < length ms \<or> byte_cap < saturating_sum message_size ms)"

definition enforce_queue_cap :: "env \<Rightarrow> nat \<Rightarrow> message list \<Rightarrow> message list" where
  "enforce_queue_cap env cap queue = evict_front (over_budget cap (queue_max_bytes env)) queue"

section \<open>The bus\<close>

record message_bus =
  mb_queues :: "(string \<times> message list) list"
  mb_history :: "message list"
  mb_pending :: "message list"

definition new_bus :: message_bus where
  "new_bus = \<lparr>mb_queues = [], mb_history = [], mb_pending = []\<rparr>"

definition queue_of :: "message_bus \<Rightarrow> string \<Rightarrow> message list" where
  "queue_of bus name = (case map_of (mb_queues bus) name of None \<Rightarrow> [] | Some q \<Rightarrow> q)"

text \<open>\<open>entry(name).or_default()\<close> followed by a push and the cap.\<close>

definition push_capped :: "env \<Rightarrow> string \<Rightarrow> message \<Rightarrow> message_bus \<Rightarrow> message_bus" where
  "push_capped env name m bus =
     bus\<lparr>mb_queues := AList.update name
       (enforce_queue_cap env (queue_depth_limit env) (queue_of bus name @ [m])) (mb_queues bus)\<rparr>"

definition push_history :: "env \<Rightarrow> message \<Rightarrow> message_bus \<Rightarrow> message_bus" where
  "push_history env m bus = bus\<lparr>mb_history :=
     evict_front (over_budget (history_depth_limit env) (history_max_bytes env)) (mb_history bus @ [m])\<rparr>"

text \<open>The two loops over the pending broadcasts: first by count, then by bytes.\<close>

definition push_pending :: "env \<Rightarrow> message \<Rightarrow> message_bus \<Rightarrow> message_bus" where
  "push_pending env m bus = bus\<lparr>mb_pending :=
     evict_front (\<lambda>ms. pending_max_bytes env < saturating_sum message_size ms)
       (evict_front (\<lambda>ms. pending_cap_limit env < length ms) (mb_pending bus @ [m]))\<rparr>"

definition truncated_message :: "env \<Rightarrow> message \<Rightarrow> message" where
  "truncated_message env m = m\<lparr>m_content := fst (truncate_message_content (m_content m) (message_max_bytes env))\<rparr>"

text \<open>
  \<open>send\<close> as its critical sections: what it waits for next, and what the section does to the
  bus. \<open>None\<close>: the call returns.
\<close>

datatype send_stage = AtHistory | AtQueues | AtPending

fun send_section :: "env \<Rightarrow> send_stage \<Rightarrow> message \<Rightarrow> message_bus \<Rightarrow> message_bus \<times> send_stage option" where
  "send_section env AtHistory m bus = (push_history env m bus, Some AtQueues)"
| "send_section env AtQueues m bus =
    (if m_to m = ''*'' then
       (if mb_queues bus = [] then (bus, Some AtPending)
        else (foldl (\<lambda>b name. if name \<noteq> m_from m then push_capped env name m b else b)
                bus (map fst (mb_queues bus)), None))
     else (push_capped env (m_to m) m bus, None))"
| "send_section env AtPending m bus = (push_pending env m bus, None)"

text \<open>
  The registration first creates the queue and then waits for the pending broadcasts with
  the queues locked, so that nobody sees the state in between, unless the future is dropped
  there.
\<close>

definition open_queue :: "message_bus \<Rightarrow> string \<Rightarrow> message_bus" where
  "open_queue bus name = (case map_of (mb_queues bus) name of
     None \<Rightarrow> bus\<lparr>mb_queues := AList.update name [] (mb_queues bus)\<rparr> | Some _ \<Rightarrow> bus)"

definition register_agent :: "env \<Rightarrow> message_bus \<Rightarrow> string \<Rightarrow> message_bus" where
  "register_agent env bus name =
    (let bus1 = open_queue bus name
     in foldl (\<lambda>b m. if m_from m \<noteq> name then push_capped env name m b else b) bus1 (mb_pending bus1))"

definition receive :: "message_bus \<Rightarrow> string \<Rightarrow> message_bus \<times> message list" where
  "receive bus name = (case map_of (mb_queues bus) name of
     None \<Rightarrow> (bus, [])
   | Some q \<Rightarrow> (bus\<lparr>mb_queues := AList.update name [] (mb_queues bus)\<rparr>, q))"

definition clear_pending_broadcasts :: "message_bus \<Rightarrow> message_bus" where
  "clear_pending_broadcasts bus = bus\<lparr>mb_pending := []\<rparr>"

definition peek :: "message_bus \<Rightarrow> string \<Rightarrow> message list" where
  "peek bus name = queue_of bus name"

definition pending_count :: "message_bus \<Rightarrow> string \<Rightarrow> nat" where
  "pending_count bus name = length (queue_of bus name)"

definition get_history :: "message_bus \<Rightarrow> message list" where
  "get_history bus = mb_history bus"

section \<open>Eviction\<close>

interpretation queue_eviction: front_eviction "over_budget cap byte_cap" for cap byte_cap
  by unfold_locales (simp add: over_budget_def saturating_sum_eq)

interpretation pending_count_eviction: front_eviction "\<lambda>ms. cap < length ms" for cap :: nat
  by unfold_locales simp

interpretation pending_byte_eviction: front_eviction "\<lambda>ms. byte_cap < saturating_sum message_size ms" for byte_cap
  by unfold_locales (simp add: saturating_sum_eq)

text \<open>
  The budgets grow with the list, so that evicting while messages arrive one by one gives the
  same as evicting once at the end.
\<close>

locale monotone_eviction = front_eviction +
  assumes over_append: "over xs \<Longrightarrow> over (xs @ ys)"
    and over_Cons: "over xs \<Longrightarrow> over (x # xs)"
begin

lemma evict_append: "evict_front over (evict_front over xs @ ys) = evict_front over (xs @ ys)"
proof (induction xs)
  case (Cons x xs)
  then show ?case using over_append [of "x # xs" ys] by auto
qed simp

lemma evict_idem: "evict_front over (evict_front over xs) = evict_front over xs"
  using evict_append [of xs "[]"] by simp

lemma foldl_evict: "foldl (\<lambda>q m. evict_front over (q @ [m])) (evict_front over xs) ms = evict_front over (xs @ ms)"
proof (induction ms arbitrary: xs)
  case (Cons m ms)
  have "foldl (\<lambda>q m. evict_front over (q @ [m])) (evict_front over xs) (m # ms) =
      foldl (\<lambda>q m. evict_front over (q @ [m])) (evict_front over (xs @ [m])) ms"
    by (simp add: evict_append)
  then show ?case using Cons [of "xs @ [m]"] by simp
qed (simp add: evict_idem)

text \<open>Two loops with a budget each are one loop with both.\<close>

lemma evict_twice: "evict_front over' (evict_front over xs) = evict_front (\<lambda>ms. over ms \<or> over' ms) xs"
proof (induction xs)
  case (Cons x xs)
  have "evict_front over xs = xs" if "\<not> over (x # xs)"
    using unchanged over_Cons that by blast
  then show ?case using Cons by auto
qed simp

end

interpretation queue_recent: monotone_eviction "over_budget cap byte_cap" for cap byte_cap
  by unfold_locales (auto simp: over_budget_def saturating_sum_eq)

interpretation count_recent: monotone_eviction "\<lambda>ms. cap < length ms" for cap :: nat
  by unfold_locales auto

lemma pending_one_loop:
  "evict_front (\<lambda>ms. byte_cap < saturating_sum message_size ms) (evict_front (\<lambda>ms. cap < length ms) xs) =
   evict_front (over_budget cap byte_cap) xs"
  using count_recent.evict_twice [of "\<lambda>ms. byte_cap < saturating_sum message_size ms" cap xs]
  by (simp add: over_budget_def [abs_def])

text \<open>Within the caps the true sizes are bounded too: the saturating sum cannot have clamped.\<close>

definition within :: "nat \<Rightarrow> nat \<Rightarrow> message list \<Rightarrow> bool" where
  "within cap byte_cap ms \<longleftrightarrow> length ms \<le> cap \<and> sum_list (map message_size ms) \<le> byte_cap"

lemma not_over_within:
  "\<not> over_budget cap byte_cap ms \<Longrightarrow> byte_cap < u64_max \<Longrightarrow> within cap byte_cap ms"
  by (auto simp: over_budget_def within_def saturating_sum_eq min_def split: if_splits)

lemma byte_caps:
  "queue_max_bytes env < u64_max" "history_max_bytes env < u64_max" "pending_max_bytes env < u64_max"
proof -
  have "positive_limit env n (4 * 1024 * 1024) (64 * 1024 * 1024) \<le> 64 * 1024 * 1024" for n
    by (rule positive_limit_le) simp
  then have "positive_limit env n (4 * 1024 * 1024) (64 * 1024 * 1024) < u64_max" for n
    by (rule le_less_trans) (simp add: u64_max_def)
  then show "queue_max_bytes env < u64_max" "history_max_bytes env < u64_max" "pending_max_bytes env < u64_max"
    by (simp_all add: queue_max_bytes_def history_max_bytes_def pending_max_bytes_def)
qed

lemma enforce_within: "within cap (queue_max_bytes env) (enforce_queue_cap env cap q)"
  unfolding enforce_queue_cap_def by (rule not_over_within [OF queue_eviction.within byte_caps(1)])

lemma pending_within:
  "within (pending_cap_limit env) (pending_max_bytes env)
     (evict_front (\<lambda>ms. pending_max_bytes env < saturating_sum message_size ms)
       (evict_front (\<lambda>ms. pending_cap_limit env < length ms) ms))"
proof -
  let ?a = "evict_front (\<lambda>ms. pending_cap_limit env < length ms) ms"
  let ?b = "evict_front (\<lambda>ms. pending_max_bytes env < saturating_sum message_size ms) ?a"
  have "length ?b \<le> length ?a" using pending_byte_eviction.suffix [of ?a] by (metis length_append le_add2)
  moreover have "length ?a \<le> pending_cap_limit env"
    using pending_count_eviction.within [of "pending_cap_limit env" ms] by simp
  moreover have "saturating_sum message_size ?b \<le> pending_max_bytes env"
    using pending_byte_eviction.within [of "pending_max_bytes env" ?a] by simp
  then have "sum_list (map message_size ?b) \<le> pending_max_bytes env"
    using byte_caps(3) [of env] by (auto simp: saturating_sum_eq min_def split: if_splits)
  ultimately show ?thesis by (simp add: within_def)
qed

section \<open>Runs\<close>

text \<open>
  The sends under way, each with what it waits for. \<open>advance\<close> runs the next critical section of
  the \<open>i\<close>-th of them; the same function drives the specification below.
\<close>

type_synonym sends = "(send_stage \<times> message) list"

definition forget :: "nat \<Rightarrow> sends \<Rightarrow> sends" where
  "forget i sends = take i sends @ drop (Suc i) sends"

definition advance :: "(send_stage \<Rightarrow> message \<Rightarrow> 's \<Rightarrow> 's \<times> send_stage option) \<Rightarrow> nat \<Rightarrow> 's \<times> sends \<Rightarrow> 's \<times> sends" where
  "advance section i st =
    (if i < length (snd st) then
       (case snd st ! i of (stage, m) \<Rightarrow>
          (case section stage m (fst st) of
             (s, None) \<Rightarrow> (s, forget i (snd st))
           | (s, Some next) \<Rightarrow> (s, (snd st)[i := (next, m)])))
     else st)"

datatype bus_event = BSend message | BAdvance nat | BDropSend nat
  | BRegister string | BDropRegister string | BReceive string | BClear

fun bus_step :: "env \<Rightarrow> message_bus \<times> sends \<Rightarrow> bus_event \<Rightarrow> message_bus \<times> sends" where
  "bus_step env st (BSend m) = (fst st, snd st @ [(AtHistory, truncated_message env m)])"
| "bus_step env st (BAdvance i) = advance (send_section env) i st"
| "bus_step env st (BDropSend i) = (fst st, forget i (snd st))"
| "bus_step env st (BRegister name) = (register_agent env (fst st) name, snd st)"
| "bus_step env st (BDropRegister name) = (open_queue (fst st) name, snd st)"
| "bus_step env st (BReceive name) = (fst (receive (fst st) name), snd st)"
| "bus_step env st BClear = (clear_pending_broadcasts (fst st), snd st)"

definition bus_after :: "env \<Rightarrow> bus_event list \<Rightarrow> message_bus" where
  "bus_after env es = fst (foldl (bus_step env) (new_bus, []) es)"

lemma map_of_update' [simp]: "map_of (AList.update k v m) = (map_of m)(k \<mapsto> v)"
  by (rule update_conv')

lemma push_capped_frame [simp]:
  "mb_history (push_capped env n m bus) = mb_history bus" "mb_pending (push_capped env n m bus) = mb_pending bus"
  by (simp_all add: push_capped_def)

lemma push_capped_queues:
  "map_of (mb_queues (push_capped env n m bus)) =
     (map_of (mb_queues bus))(n \<mapsto> enforce_queue_cap env (queue_depth_limit env) (queue_of bus n @ [m]))"
  by (simp add: push_capped_def)

lemma distinct_push_capped:
  "distinct (map fst (mb_queues bus)) \<Longrightarrow> distinct (map fst (mb_queues (push_capped env n m bus)))"
  by (simp add: push_capped_def distinct_update)

text \<open>The loop of a broadcast touches every named queue once.\<close>

lemma broadcast_queues:
  "distinct ns \<Longrightarrow>
   map_of (mb_queues (foldl (\<lambda>b name. if name \<noteq> s then push_capped env name m b else b) bus ns)) n =
     (if n \<in> set ns \<and> n \<noteq> s then Some (enforce_queue_cap env (queue_depth_limit env) (queue_of bus n @ [m]))
      else map_of (mb_queues bus) n)"
proof (induction ns arbitrary: bus)
  case (Cons x ns)
  then show ?case by (auto simp: push_capped_queues queue_of_def)
qed simp

lemma broadcast_frame:
  "mb_history (foldl (\<lambda>b name. if name \<noteq> s then push_capped env name m b else b) bus ns) = mb_history bus
   \<and> mb_pending (foldl (\<lambda>b name. if name \<noteq> s then push_capped env name m b else b) bus ns) = mb_pending bus
   \<and> (distinct (map fst (mb_queues bus)) \<longrightarrow>
      distinct (map fst (mb_queues (foldl (\<lambda>b name. if name \<noteq> s then push_capped env name m b else b) bus ns))))"
  by (induction ns arbitrary: bus) (auto simp: distinct_push_capped)

section \<open>Capacity invariant\<close>

definition content_ok :: "env \<Rightarrow> message \<Rightarrow> bool" where
  "content_ok env m \<longleftrightarrow> length (m_content m) \<le> message_max_bytes env"

definition bus_inv :: "env \<Rightarrow> message_bus \<Rightarrow> bool" where
  "bus_inv env bus \<longleftrightarrow> distinct (map fst (mb_queues bus)) \<and>
     (\<forall>n q. map_of (mb_queues bus) n = Some q \<longrightarrow>
        within (queue_depth_limit env) (queue_max_bytes env) q \<and> (\<forall>m \<in> set q. content_ok env m)) \<and>
     within (history_depth_limit env) (history_max_bytes env) (mb_history bus) \<and>
     (\<forall>m \<in> set (mb_history bus). content_ok env m) \<and>
     within (pending_cap_limit env) (pending_max_bytes env) (mb_pending bus) \<and>
     (\<forall>m \<in> set (mb_pending bus). content_ok env m)"

lemma truncated_ok: "content_ok env (truncated_message env m)"
  using char_floor_le [of "m_content m" "message_max_bytes env"]
  by (auto simp: content_ok_def truncated_message_def truncate_message_content_def)

lemma set_evict: "m \<in> set (evict_front over xs) \<Longrightarrow> m \<in> set xs"
  by (induction xs) (auto split: if_splits)

lemma within_Nil [simp]: "within cap bytes []"
  by (simp add: within_def)

lemma queue_of_ok: "bus_inv env bus \<Longrightarrow> m \<in> set (queue_of bus n) \<Longrightarrow> content_ok env m"
  by (auto simp: bus_inv_def queue_of_def split: option.splits)

lemma push_capped_inv:
  assumes "bus_inv env bus" and "content_ok env m"
  shows "bus_inv env (push_capped env n m bus)"
proof -
  have "content_ok env x" if "x \<in> set (enforce_queue_cap env (queue_depth_limit env) (queue_of bus n @ [m]))" for x
    using set_evict [OF that [unfolded enforce_queue_cap_def]] queue_of_ok [OF assms(1)] assms(2) by auto
  then show ?thesis
    using assms enforce_within [of "queue_depth_limit env" env "queue_of bus n @ [m]"]
    by (auto simp: bus_inv_def push_capped_queues distinct_push_capped)
qed

lemma foldl_push_inv:
  "bus_inv env bus \<Longrightarrow> (\<And>x. x \<in> set xs \<Longrightarrow> content_ok env (g x)) \<Longrightarrow>
   bus_inv env (foldl (\<lambda>b x. if P x then push_capped env (f x) (g x) b else b) bus xs)"
  by (induction xs arbitrary: bus) (auto intro: push_capped_inv)

lemma push_history_inv:
  assumes "bus_inv env bus" and "content_ok env m"
  shows "bus_inv env (push_history env m bus)"
proof -
  let ?h = "evict_front (over_budget (history_depth_limit env) (history_max_bytes env)) (mb_history bus @ [m])"
  have "within (history_depth_limit env) (history_max_bytes env) ?h"
    by (rule not_over_within [OF queue_eviction.within byte_caps(2)])
  moreover have "\<forall>x \<in> set ?h. content_ok env x" using set_evict assms by (fastforce simp: bus_inv_def)
  ultimately show ?thesis using assms(1) by (auto simp: bus_inv_def push_history_def)
qed

lemma push_pending_inv:
  assumes "bus_inv env bus" and "content_ok env m"
  shows "bus_inv env (push_pending env m bus)"
proof -
  let ?p = "evict_front (\<lambda>ms. pending_max_bytes env < saturating_sum message_size ms)
       (evict_front (\<lambda>ms. pending_cap_limit env < length ms) (mb_pending bus @ [m]))"
  have "\<forall>x \<in> set ?p. content_ok env x"
    using set_evict [OF set_evict] assms by (fastforce simp: bus_inv_def dest: set_evict)
  then show ?thesis
    using assms(1) pending_within [of env "mb_pending bus @ [m]"] by (auto simp: bus_inv_def push_pending_def)
qed

lemma send_section_inv:
  assumes "bus_inv env bus" and m: "content_ok env m"
  shows "bus_inv env (fst (send_section env stage m bus))"
proof (cases stage)
  case AtQueues
  show ?thesis
    using AtQueues push_capped_inv [OF assms]
      foldl_push_inv [OF assms(1), of _ "\<lambda>_. m" "\<lambda>name. name \<noteq> m_from m" "\<lambda>name. name"] m assms(1)
    by auto
qed (simp_all add: push_history_inv [OF assms] push_pending_inv [OF assms])

lemma set_forget: "x \<in> set (forget i sends) \<Longrightarrow> x \<in> set sends"
  by (auto simp: forget_def dest: in_set_takeD in_set_dropD)

lemma empty_queue_inv:
  "bus_inv env bus \<Longrightarrow> bus_inv env (bus\<lparr>mb_queues := AList.update name [] (mb_queues bus)\<rparr>)"
  by (auto simp: bus_inv_def distinct_update simp del: map_of_eq_Some_iff)

lemma open_queue_inv: "bus_inv env bus \<Longrightarrow> bus_inv env (open_queue bus name)"
  using empty_queue_inv by (simp add: open_queue_def split: option.splits)

lemma register_inv:
  assumes "bus_inv env bus"
  shows "bus_inv env (register_agent env bus name)"
proof -
  note b = open_queue_inv [OF assms, of name]
  have "bus_inv env (foldl (\<lambda>b m. if m_from m \<noteq> name then push_capped env name m b else b)
      (open_queue bus name) (mb_pending (open_queue bus name)))"
    by (rule foldl_push_inv [OF b]) (use b in \<open>auto simp: bus_inv_def\<close>)
  then show ?thesis by (simp add: register_agent_def Let_def)
qed

definition run_inv :: "env \<Rightarrow> message_bus \<times> sends \<Rightarrow> bool" where
  "run_inv env st \<longleftrightarrow> bus_inv env (fst st) \<and> (\<forall>(stage, m) \<in> set (snd st). content_ok env m)"

lemma advance_inv:
  assumes inv: "run_inv env st"
  shows "run_inv env (advance (send_section env) i st)"
proof (cases "i < length (snd st)")
  case True
  obtain stage m where e: "snd st ! i = (stage, m)" by fastforce
  then have "(stage, m) \<in> set (snd st)" using True by (metis nth_mem)
  then have m: "content_ok env m" using inv by (auto simp: run_inv_def)
  have b: "bus_inv env (fst (send_section env stage m (fst st)))"
    using send_section_inv m inv by (simp add: run_inv_def)
  obtain s nx where r: "send_section env stage m (fst st) = (s, nx)" by fastforce
  show ?thesis
    using True e r b m inv
    by (cases nx) (auto simp: advance_def run_inv_def dest!: set_forget set_update_subset_insert [THEN subsetD])
qed (use inv in \<open>simp add: advance_def\<close>)

lemma bus_step_inv: "run_inv env st \<Longrightarrow> run_inv env (bus_step env st e)"
proof (cases e)
  case (BAdvance i)
  assume "run_inv env st"
  then show ?thesis using BAdvance advance_inv by simp
next
  case (BReceive name)
  assume "run_inv env st"
  then show ?thesis using BReceive empty_queue_inv by (simp add: run_inv_def receive_def split: option.splits)
next
  case BClear
  assume "run_inv env st"
  then show ?thesis using BClear by (simp add: clear_pending_broadcasts_def bus_inv_def run_inv_def)
qed (auto simp: run_inv_def truncated_ok register_inv open_queue_inv dest: set_forget)

interpretation bus_run: step_invariant "bus_step env" "run_inv env" for env
  by unfold_locales (rule bus_step_inv)

lemma new_bus_inv: "run_inv env (new_bus, [])"
  by (simp add: run_inv_def bus_inv_def new_bus_def)

section \<open>Refinement: unbounded FIFO mailboxes\<close>

text \<open>
  The specification: the same bus without the capacities. A mailbox per agent with everything
  put into it since it was last emptied, everything sent, and every broadcast parked since
  the last clearing. The one place where a limit shows is a registration, which delivers the
  broadcasts that are still parked.
\<close>

record mailboxes =
  mx_boxes :: "string \<Rightarrow> message list option"
  mx_history :: "message list"
  mx_pending :: "message list"

definition empty_mailboxes :: mailboxes where
  "empty_mailboxes = \<lparr>mx_boxes = (\<lambda>_. None), mx_history = [], mx_pending = []\<rparr>"

definition box_of :: "mailboxes \<Rightarrow> string \<Rightarrow> message list" where
  "box_of s n = (case mx_boxes s n of None \<Rightarrow> [] | Some q \<Rightarrow> q)"

abbreviation recent_queue :: "env \<Rightarrow> message list \<Rightarrow> message list" where
  "recent_queue env \<equiv> evict_front (over_budget (queue_depth_limit env) (queue_max_bytes env))"

abbreviation recent_history :: "env \<Rightarrow> message list \<Rightarrow> message list" where
  "recent_history env \<equiv> evict_front (over_budget (history_depth_limit env) (history_max_bytes env))"

abbreviation recent_pending :: "env \<Rightarrow> message list \<Rightarrow> message list" where
  "recent_pending env \<equiv> evict_front (over_budget (pending_cap_limit env) (pending_max_bytes env))"

fun spec_section :: "send_stage \<Rightarrow> message \<Rightarrow> mailboxes \<Rightarrow> mailboxes \<times> send_stage option" where
  "spec_section AtHistory m s = (s\<lparr>mx_history := mx_history s @ [m]\<rparr>, Some AtQueues)"
| "spec_section AtQueues m s =
    (if m_to m = ''*'' then
       (if mx_boxes s = (\<lambda>_. None) then (s, Some AtPending)
        else (s\<lparr>mx_boxes := (\<lambda>n. map_option (\<lambda>q. if n \<noteq> m_from m then q @ [m] else q) (mx_boxes s n))\<rparr>, None))
     else (s\<lparr>mx_boxes := (mx_boxes s)(m_to m \<mapsto> box_of s (m_to m) @ [m])\<rparr>, None))"
| "spec_section AtPending m s = (s\<lparr>mx_pending := mx_pending s @ [m]\<rparr>, None)"

fun spec_step :: "env \<Rightarrow> mailboxes \<times> sends \<Rightarrow> bus_event \<Rightarrow> mailboxes \<times> sends" where
  "spec_step env st (BSend m) = (fst st, snd st @ [(AtHistory, truncated_message env m)])"
| "spec_step env st (BAdvance i) = advance spec_section i st"
| "spec_step env st (BDropSend i) = (fst st, forget i (snd st))"
| "spec_step env st (BRegister name) =
    (let s = fst st in
      (s\<lparr>mx_boxes := (mx_boxes s)(name \<mapsto>
           box_of s name @ filter (\<lambda>m. m_from m \<noteq> name) (recent_pending env (mx_pending s)))\<rparr>, snd st))"
| "spec_step env st (BDropRegister name) =
    (let s = fst st in (s\<lparr>mx_boxes := (mx_boxes s)(name \<mapsto> box_of s name)\<rparr>, snd st))"
| "spec_step env st (BReceive name) =
    (let s = fst st in (s\<lparr>mx_boxes := (mx_boxes s)(name := map_option (\<lambda>_. []) (mx_boxes s name))\<rparr>, snd st))"
| "spec_step env st BClear = ((fst st)\<lparr>mx_pending := []\<rparr>, snd st)"

definition mailboxes_after :: "env \<Rightarrow> bus_event list \<Rightarrow> mailboxes" where
  "mailboxes_after env es = fst (foldl (spec_step env) (empty_mailboxes, []) es)"

text \<open>The bus holds the recent part of every list of the specification, and nothing else.\<close>

definition refines :: "env \<Rightarrow> message_bus \<Rightarrow> mailboxes \<Rightarrow> bool" where
  "refines env bus s \<longleftrightarrow> distinct (map fst (mb_queues bus)) \<and>
     (\<forall>n. map_of (mb_queues bus) n = map_option (recent_queue env) (mx_boxes s n)) \<and>
     mb_history bus = recent_history env (mx_history s) \<and> mb_pending bus = recent_pending env (mx_pending s)"

lemma refines_queue: "refines env bus s \<Longrightarrow> queue_of bus n = recent_queue env (box_of s n)"
  by (auto simp: refines_def queue_of_def box_of_def split: option.splits)

lemma refines_empty: "refines env bus s \<Longrightarrow> mb_queues bus = [] \<longleftrightarrow> mx_boxes s = (\<lambda>_. None)"
proof -
  assume r: "refines env bus s"
  have "mx_boxes s n = None \<longleftrightarrow> map_of (mb_queues bus) n = None" for n
    using r by (simp add: refines_def del: map_of_eq_None_iff)
  then have "mx_boxes s = (\<lambda>_. None) \<longleftrightarrow> dom (map_of (mb_queues bus)) = {}"
    by (auto simp: fun_eq_iff dom_def)
  then show ?thesis by (simp add: dom_map_of_conv_image_fst)
qed

lemma foldl_push_queue:
  "map_of (mb_queues (foldl (\<lambda>b m. if m_from m \<noteq> n then push_capped env n m b else b) bus ms)) =
     (if filter (\<lambda>m. m_from m \<noteq> n) ms = [] then map_of (mb_queues bus)
      else (map_of (mb_queues bus))(n \<mapsto>
        foldl (\<lambda>q m. enforce_queue_cap env (queue_depth_limit env) (q @ [m])) (queue_of bus n)
          (filter (\<lambda>m. m_from m \<noteq> n) ms)))"
proof (induction ms arbitrary: bus)
  case (Cons m ms)
  have "queue_of (push_capped env n m bus) n = enforce_queue_cap env (queue_depth_limit env) (queue_of bus n @ [m])"
    by (simp add: queue_of_def push_capped_queues)
  then show ?case using Cons by (simp add: push_capped_queues fun_eq_iff)
qed simp

lemma foldl_push_frame:
  "mb_history (foldl (\<lambda>b m. if m_from m \<noteq> n then push_capped env n m b else b) bus ms) = mb_history bus
   \<and> mb_pending (foldl (\<lambda>b m. if m_from m \<noteq> n then push_capped env n m b else b) bus ms) = mb_pending bus
   \<and> (distinct (map fst (mb_queues bus)) \<longrightarrow>
      distinct (map fst (mb_queues (foldl (\<lambda>b m. if m_from m \<noteq> n then push_capped env n m b else b) bus ms))))"
  by (induction ms arbitrary: bus) (auto simp: distinct_push_capped)

lemma enforce_recent:
  "enforce_queue_cap env (queue_depth_limit env) (recent_queue env q @ [m]) = recent_queue env (q @ [m])"
  by (simp add: enforce_queue_cap_def queue_recent.evict_append)

lemma broadcast_refines:
  assumes r: "refines env bus s"
  shows "refines env
     (foldl (\<lambda>b name. if name \<noteq> m_from m then push_capped env name m b else b) bus (map fst (mb_queues bus)))
     (s\<lparr>mx_boxes := (\<lambda>n. map_option (\<lambda>q. if n \<noteq> m_from m then q @ [m] else q) (mx_boxes s n))\<rparr>)"
proof -
  let ?b = "foldl (\<lambda>b name. if name \<noteq> m_from m then push_capped env name m b else b) bus (map fst (mb_queues bus))"
  have dist: "distinct (map fst (mb_queues bus))" using r by (simp add: refines_def)
  have "map_of (mb_queues ?b) n =
      map_option (recent_queue env) (map_option (\<lambda>q. if n \<noteq> m_from m then q @ [m] else q) (mx_boxes s n))" for n
  proof (cases "mx_boxes s n")
    case None
    then have "map_of (mb_queues bus) n = None" using r by (simp add: refines_def del: map_of_eq_None_iff)
    moreover then have "n \<notin> set (map fst (mb_queues bus))" by (metis map_of_eq_None_iff set_map)
    ultimately show ?thesis using None dist by (simp add: broadcast_queues del: map_of_eq_None_iff)
  next
    case (Some q)
    then have q: "map_of (mb_queues bus) n = Some (recent_queue env q)" using r by (simp add: refines_def)
    then have "n \<in> set (map fst (mb_queues bus))" by (metis map_of_eq_None_iff option.distinct(1) set_map)
    moreover have "queue_of bus n = recent_queue env q" using q by (simp add: queue_of_def)
    ultimately show ?thesis
      using Some q dist by (cases "n = m_from m") (simp_all add: broadcast_queues enforce_recent del: map_of_eq_Some_iff)
  qed
  then show ?thesis
    using r broadcast_frame [of "m_from m" env m bus "map fst (mb_queues bus)"] dist by (simp add: refines_def)
qed

lemma send_section_refines:
  assumes r: "refines env bus s"
  shows "refines env (fst (send_section env stage m bus)) (fst (spec_section stage m s))
       \<and> snd (send_section env stage m bus) = snd (spec_section stage m s)"
proof (cases stage)
  case AtHistory
  then show ?thesis using r by (simp add: refines_def push_history_def queue_recent.evict_append)
next
  case AtQueues
  have "refines env (push_capped env (m_to m) m bus) (s\<lparr>mx_boxes := (mx_boxes s)(m_to m \<mapsto> box_of s (m_to m) @ [m])\<rparr>)"
    using r by (simp add: refines_def distinct_push_capped push_capped_queues refines_queue [OF r] enforce_recent)
  then show ?thesis
    using AtQueues r broadcast_refines [OF r] refines_empty [OF r] by simp
next
  case AtPending
  then show ?thesis
    using r by (simp add: refines_def push_pending_def pending_one_loop queue_recent.evict_append)
qed

lemma open_queue_refines:
  assumes r: "refines env bus s"
  shows "refines env (open_queue bus name) (s\<lparr>mx_boxes := (mx_boxes s)(name \<mapsto> box_of s name)\<rparr>)"
  using r by (auto simp: open_queue_def refines_def box_of_def distinct_update simp del: map_of_eq_None_iff map_of_eq_Some_iff
      split: option.splits)

lemma register_refines:
  assumes r: "refines env bus s"
  shows "refines env (register_agent env bus name)
    (s\<lparr>mx_boxes := (mx_boxes s)(name \<mapsto>
        box_of s name @ filter (\<lambda>m. m_from m \<noteq> name) (recent_pending env (mx_pending s)))\<rparr>)"
proof -
  let ?b = "open_queue bus name" and ?s = "s\<lparr>mx_boxes := (mx_boxes s)(name \<mapsto> box_of s name)\<rparr>"
  have b: "refines env ?b ?s" by (rule open_queue_refines [OF r])
  have q: "queue_of ?b name = recent_queue env (box_of s name)"
    using refines_queue [OF b, of name] by (simp add: box_of_def)
  have p: "mb_pending ?b = recent_pending env (mx_pending s)" using b by (simp add: refines_def)
  have "foldl (\<lambda>q m. enforce_queue_cap env (queue_depth_limit env) (q @ [m])) (queue_of ?b name) ms =
      recent_queue env (box_of s name @ ms)" for ms
    unfolding enforce_queue_cap_def q by (rule queue_recent.foldl_evict)
  then show ?thesis
    using b p foldl_push_frame [of name env ?b "mb_pending ?b"]
    by (auto simp: register_agent_def Let_def refines_def foldl_push_queue)
qed

definition run_refines :: "env \<Rightarrow> message_bus \<times> sends \<Rightarrow> mailboxes \<times> sends \<Rightarrow> bool" where
  "run_refines env st sp \<longleftrightarrow> refines env (fst st) (fst sp) \<and> snd st = snd sp"

lemma advance_refines:
  assumes r: "run_refines env st sp"
  shows "run_refines env (advance (send_section env) i st) (advance spec_section i sp)"
proof -
  obtain bus sends where st: "st = (bus, sends)" by fastforce
  obtain s where sp: "sp = (s, sends)" using r st by (cases sp) (simp add: run_refines_def)
  obtain stage m where e: "sends ! i = (stage, m)" by fastforce
  obtain b nb where x: "send_section env stage m bus = (b, nb)" by fastforce
  obtain t nt where y: "spec_section stage m s = (t, nt)" by fastforce
  have rb: "refines env bus s" using r st sp by (simp add: run_refines_def)
  have "refines env b t" "nb = nt"
    using send_section_refines [OF rb, of stage m] x y by simp_all
  then show ?thesis
    using rb by (cases nt) (simp_all add: advance_def st sp e x y run_refines_def)
qed

lemma receive_refines:
  assumes "refines env bus s"
  shows "refines env (fst (receive bus name)) (s\<lparr>mx_boxes := (mx_boxes s)(name := map_option (\<lambda>_. []) (mx_boxes s name))\<rparr>)"
  using assms by (auto simp: receive_def refines_def distinct_update simp del: map_of_eq_None_iff split: option.splits)

lemma bus_step_refines:
  assumes r: "run_refines env st sp"
  shows "run_refines env (bus_step env st e) (spec_step env sp e)"
proof (cases e)
  case (BAdvance i)
  then show ?thesis using advance_refines [OF r] by simp
next
  case BClear
  then show ?thesis using r by (simp add: run_refines_def refines_def clear_pending_broadcasts_def)
qed (use r in \<open>simp_all add: run_refines_def Let_def register_refines open_queue_refines receive_refines\<close>)

lemma bus_run_refines:
  "run_refines env st sp \<Longrightarrow> run_refines env (foldl (bus_step env) st es) (foldl (spec_step env) sp es)"
  by (induction es arbitrary: st sp) (auto simp: bus_step_refines simp del: bus_step.simps spec_step.simps)

lemma bus_after_refines: "refines env (bus_after env es) (mailboxes_after env es)"
proof -
  have "run_refines env (new_bus, []) (empty_mailboxes, [])"
    by (simp add: run_refines_def refines_def new_bus_def empty_mailboxes_def)
  from bus_run_refines [OF this, of es] show ?thesis
    by (simp add: run_refines_def bus_after_def mailboxes_after_def)
qed

section \<open>What the message bus guarantees\<close>

text \<open>
  \<open>kept\<close> is the longest end of \<open>all\<close> that respects both limits, without saturation.
\<close>

definition longest_recent :: "nat \<Rightarrow> nat \<Rightarrow> message list \<Rightarrow> message list \<Rightarrow> bool" where
  "longest_recent cap byte_cap all kept \<longleftrightarrow> suffix kept all \<and> within cap byte_cap kept \<and>
     (\<forall>ms. suffix ms all \<and> within cap byte_cap ms \<longrightarrow> length ms \<le> length kept)"

lemma evict_longest_recent:
  assumes "byte_cap < u64_max"
  shows "longest_recent cap byte_cap xs (evict_front (over_budget cap byte_cap) xs)"
proof -
  let ?k = "evict_front (over_budget cap byte_cap) xs"
  have "suffix ?k xs" using queue_eviction.suffix [of xs cap byte_cap] by (auto simp: suffix_def)
  moreover have "within cap byte_cap ?k" by (rule not_over_within [OF queue_eviction.within assms])
  moreover have "length ms \<le> length ?k" if "suffix ms xs" "within cap byte_cap ms" for ms
  proof (rule ccontr)
    assume "\<not> length ms \<le> length ?k"
    then have "over_budget cap byte_cap ms"
      using queue_eviction.longest [of xs _ ms cap byte_cap] that(1) by (auto simp: suffix_def)
    then show False using that(2) by (auto simp: over_budget_def within_def saturating_sum_eq)
  qed
  ultimately show ?thesis by (simp add: longest_recent_def)
qed

text \<open>
  C10. The bus never outgrows its limits: after any interleaving of the critical sections of
  concurrent sends with registrations, receives and clears, some of them dropped on the way,
  every queue, the history and the pending broadcasts respect both their message-count and
  their byte limits (measured without saturation), and every stored message respects the
  content limit.
\<close>

theorem message_bus_bounded:
  "bus_inv env (bus_after env es)"
  using bus_run.inv_run [OF new_bus_inv, of env es] by (simp add: bus_after_def run_inv_def)

text \<open>
  C11. The bus refines unbounded first-in first-out mailboxes, exactly: after any
  interleaving of the critical sections of concurrent sends with registrations, receives and
  clears, an agent has a queue if and only if it has a mailbox, and the queue is the longest
  end of the mailbox that respects the limits, where the mailbox holds all messages put in
  since it was last emptied: those addressed to the agent, the broadcasts of others, and at
  registration the broadcasts still parked. The history is the longest such end of
  everything sent, the pending broadcasts the longest such end of everything parked since
  the last clear, and a receive returns the queue. Only the oldest messages are dropped, and
  no more of them than the limits require.
\<close>

theorem message_bus_refines_mailboxes:
  "rel_option (\<lambda>q box. longest_recent (queue_depth_limit env) (queue_max_bytes env) box q)
     (map_of (mb_queues (bus_after env es)) name) (mx_boxes (mailboxes_after env es) name) \<and>
   longest_recent (history_depth_limit env) (history_max_bytes env)
     (mx_history (mailboxes_after env es)) (get_history (bus_after env es)) \<and>
   longest_recent (pending_cap_limit env) (pending_max_bytes env)
     (mx_pending (mailboxes_after env es)) (mb_pending (bus_after env es)) \<and>
   longest_recent (queue_depth_limit env) (queue_max_bytes env)
     (box_of (mailboxes_after env es) name) (snd (receive (bus_after env es) name))"
proof -
  let ?b = "bus_after env es" and ?s = "mailboxes_after env es"
  have r: "refines env ?b ?s" by (rule bus_after_refines)
  have "rel_option (\<lambda>q box. longest_recent (queue_depth_limit env) (queue_max_bytes env) box q)
      (map_of (mb_queues ?b) name) (mx_boxes ?s name)"
    using r evict_longest_recent [OF byte_caps(1)]
    by (cases "mx_boxes ?s name") (simp_all add: refines_def del: map_of_eq_None_iff map_of_eq_Some_iff)
  moreover have "snd (receive ?b name) = queue_of ?b name"
    by (simp add: receive_def queue_of_def split: option.splits)
  ultimately show ?thesis
    using r refines_queue [OF r, of name] evict_longest_recent byte_caps
    by (simp add: refines_def get_history_def)
qed

text \<open>
  Between the look at the queues and the parking of a broadcast an agent may register: it
  then receives neither from the broadcast nor from its registration.
\<close>

lemma broadcast_misses_registering_agent:
  assumes "m_to m = ''*''"
  shows "queue_of (bus_after env [BSend m, BAdvance 0, BAdvance 0, BRegister name, BAdvance 0]) name = []"
  using assms
  by (simp add: bus_after_def advance_def forget_def new_bus_def push_history_def push_pending_def queue_of_def
      register_agent_def open_queue_def truncated_message_def)

end
