(* ===== verification/Admission.thy ===== *)
theory Admission
  imports Prelude "HOL-Library.AList"
begin

text \<open>
  \<open>src/src/api/admission.rs\<close> and \<open>api/admission_paths.rs\<close>: request classification, token
  buckets per principal and class, and the admission middleware.

  An \<open>Instant\<close> is a number of nanoseconds, read by the caller and passed in. The bucket map
  is an association list behind a mutex, whose poisoning is a field of the controller.
  \<open>u128\<close> arithmetic saturates where the code says so. The rest of the router (\<open>next.run\<close>) is a
  parameter.
\<close>

section \<open>HTTP\<close>

datatype http_method = GET | POST | DELETE | PUT | PATCH | HEAD | OPTIONS | OtherMethod string

record request =
  rq_method :: http_method
  rq_path :: string

record response =
  rs_status :: nat
  rs_headers :: "(string \<times> string) list"
  rs_body :: json

definition header_insert :: "string \<Rightarrow> string \<Rightarrow> response \<Rightarrow> response" where
  "header_insert k v r = r\<lparr>rs_headers := (k, v) # filter (\<lambda>(n, _). n \<noteq> k) (rs_headers r)\<rparr>"

definition contains_header :: "string \<Rightarrow> response \<Rightarrow> bool" where
  "contains_header k r = (map_of (rs_headers r) k \<noteq> None)"

lemma map_of_filter_key: "map_of (filter (\<lambda>(n, _). n \<noteq> k) hs) n = (if n = k then None else map_of hs n)"
  by (induction hs) auto

lemma header_insert_lookup [simp]:
  "map_of (rs_headers (header_insert k v r)) n = (if n = k then Some v else map_of (rs_headers r) n)"
  by (simp add: header_insert_def map_of_filter_key)

lemma header_insert_frame [simp]:
  "rs_status (header_insert k v r) = rs_status r" "rs_body (header_insert k v r) = rs_body r"
  by (simp_all add: header_insert_def)

section \<open>Classes and policies\<close>

datatype mutation_class = Work | Control | Observation

fun label :: "mutation_class \<Rightarrow> string" where
  "label Work = ''work''"
| "label Control = ''control''"
| "label Observation = ''observation''"

record rate_policy =
  rate_per_minute :: nat
  burst :: nat

record admission_config =
  cf_work :: rate_policy
  cf_control :: rate_policy

definition default_config :: admission_config where
  "default_config = \<lparr>cf_work = \<lparr>rate_per_minute = 60, burst = 10\<rparr>, cf_control = \<lparr>rate_per_minute = 120, burst = 20\<rparr>\<rparr>"

definition policy_from_env :: "env \<Rightarrow> string \<Rightarrow> nat \<Rightarrow> string \<Rightarrow> nat \<Rightarrow> nat \<Rightarrow> (iron_error, rate_policy) result" where
  "policy_from_env env rate_name rate_default burst_name burst_default burst_max =
     and_then (bounded_env env rate_name rate_default 1 60000) (\<lambda>rate.
     and_then (bounded_env env burst_name burst_default 1 burst_max) (\<lambda>b.
     Inr \<lparr>rate_per_minute = rate, burst = b\<rparr>))"

definition config_from_env :: "env \<Rightarrow> (iron_error, admission_config) result" where
  "config_from_env env =
     and_then (policy_from_env env ''IRONCREW_ADMISSION_WORK_RATE_PER_MINUTE'' 60
       ''IRONCREW_ADMISSION_WORK_BURST'' 10 10000) (\<lambda>w.
     and_then (policy_from_env env ''IRONCREW_ADMISSION_CONTROL_RATE_PER_MINUTE'' 120
       ''IRONCREW_ADMISSION_CONTROL_BURST'' 20 10000) (\<lambda>c.
     Inr \<lparr>cf_work = w, cf_control = c\<rparr>))"

section \<open>Token buckets\<close>

definition u128_max :: nat where
  "u128_max = 340282366920938463463374607431768211455"

definition sat128_mul :: "nat \<Rightarrow> nat \<Rightarrow> nat" where
  "sat128_mul a b = min (a * b) u128_max"

definition sat128_add :: "nat \<Rightarrow> nat \<Rightarrow> nat" where
  "sat128_add a b = min (a + b) u128_max"

definition div_ceil :: "nat \<Rightarrow> nat \<Rightarrow> nat" where
  "div_ceil a b = (a + (b - 1)) div b"

definition token_units :: nat where
  "token_units = 1000000000"

record token_bucket =
  tb_tokens :: nat
  tb_updated_at :: nat

definition full_bucket :: "rate_policy \<Rightarrow> nat \<Rightarrow> token_bucket" where
  "full_bucket policy now = \<lparr>tb_tokens = sat128_mul (burst policy) token_units, tb_updated_at = now\<rparr>"

definition try_take :: "token_bucket \<Rightarrow> rate_policy \<Rightarrow> nat \<Rightarrow> token_bucket \<times> (nat, unit) result" where
  "try_take b policy now =
    (let elapsed_nanos = now - tb_updated_at b;
         replenished = sat128_mul elapsed_nanos (rate_per_minute policy) div 60;
         capacity = sat128_mul (burst policy) token_units;
         tokens = min (sat128_add (tb_tokens b) replenished) capacity
     in if token_units \<le> tokens
        then (\<lparr>tb_tokens = tokens - token_units, tb_updated_at = now\<rparr>, Inr ())
        else (let deficit = token_units - tokens;
                  retry_nanos = div_ceil (sat128_mul deficit 60) (rate_per_minute policy);
                  retry_seconds = max (div_ceil retry_nanos 1000000000) 1
              in (\<lparr>tb_tokens = tokens, tb_updated_at = now\<rparr>,
                  Inl (if retry_seconds \<le> u64_max then retry_seconds else u64_max))))"

section \<open>The controller\<close>

record metrics =
  mt_admitted :: "mutation_class \<Rightarrow> nat"
  mt_limited :: "mutation_class \<Rightarrow> nat"
  mt_internal_errors :: nat
  mt_quota_rejections :: "nat list"

definition default_metrics :: metrics where
  "default_metrics = \<lparr>mt_admitted = (\<lambda>_. 0), mt_limited = (\<lambda>_. 0), mt_internal_errors = 0, mt_quota_rejections = [0, 0, 0]\<rparr>"

definition record_admitted :: "mutation_class \<Rightarrow> metrics \<Rightarrow> metrics" where
  "record_admitted c m = m\<lparr>mt_admitted := (mt_admitted m)(c := wrapping_add (mt_admitted m c) 1)\<rparr>"

definition record_limited :: "mutation_class \<Rightarrow> metrics \<Rightarrow> metrics" where
  "record_limited c m = m\<lparr>mt_limited := (mt_limited m)(c := wrapping_add (mt_limited m c) 1)\<rparr>"

definition record_internal_error :: "metrics \<Rightarrow> metrics" where
  "record_internal_error m = m\<lparr>mt_internal_errors := wrapping_add (mt_internal_errors m) 1\<rparr>"

datatype quota_metric = GlobalRecords | PrincipalRecords | PrincipalInFlight

fun quota_index :: "quota_metric \<Rightarrow> nat" where
  "quota_index GlobalRecords = 0"
| "quota_index PrincipalRecords = 1"
| "quota_index PrincipalInFlight = 2"

definition record_quota_rejection :: "quota_metric \<Rightarrow> metrics \<Rightarrow> metrics" where
  "record_quota_rejection q m = m\<lparr>mt_quota_rejections := (mt_quota_rejections m)
     [quota_index q := wrapping_add (mt_quota_rejections m ! quota_index q) 1]\<rparr>"

record 'u controller =
  ac_config :: admission_config
  ac_observation :: rate_policy
  ac_buckets :: "((string \<times> mutation_class) \<times> token_bucket) list"
  ac_poisoned :: bool
  ac_metrics :: metrics
  ac_durable_usage :: "(nat \<times> 'u) option"

definition new_with_observation :: "admission_config \<Rightarrow> rate_policy \<Rightarrow> 'u controller" where
  "new_with_observation config observation =
     \<lparr>ac_config = config, ac_observation = observation, ac_buckets = [], ac_poisoned = False,
      ac_metrics = default_metrics, ac_durable_usage = None\<rparr>"

definition new_controller :: "admission_config \<Rightarrow> 'u controller" where
  "new_controller config = new_with_observation config \<lparr>rate_per_minute = 600, burst = 20\<rparr>"

definition controller_from_env :: "env \<Rightarrow> (iron_error, 'u controller) result" where
  "controller_from_env env =
     and_then (config_from_env env) (\<lambda>config.
     and_then (policy_from_env env ''IRONCREW_ADMISSION_OBSERVATION_RATE_PER_MINUTE'' 600
       ''IRONCREW_ADMISSION_OBSERVATION_BURST'' 20 1000) (\<lambda>observation.
     Inr (new_with_observation config observation)))"

text \<open>\<open>lookup\<close> is the store's \<open>idempotency_usage\<close> call, \<open>now\<close> the clock before and after it.\<close>

definition cached_idempotency_usage ::
    "'u controller \<Rightarrow> nat \<Rightarrow> (iron_error, 'u) result \<Rightarrow> nat \<Rightarrow> 'u controller \<times> (iron_error, 'u) result" where
  "cached_idempotency_usage c now lookup now_after =
    (case ac_durable_usage c of
       Some (checked_at, snapshot) \<Rightarrow>
         if now - checked_at < 1000000000 then (c, Inr snapshot)
         else (case lookup of
             Inr fresh \<Rightarrow> (c\<lparr>ac_durable_usage := Some (now_after, fresh)\<rparr>, Inr fresh)
           | Inl e \<Rightarrow> (c\<lparr>ac_metrics := record_internal_error (ac_metrics c)\<rparr>, Inl e))
     | None \<Rightarrow> (case lookup of
             Inr fresh \<Rightarrow> (c\<lparr>ac_durable_usage := Some (now_after, fresh)\<rparr>, Inr fresh)
           | Inl e \<Rightarrow> (c\<lparr>ac_metrics := record_internal_error (ac_metrics c)\<rparr>, Inl e)))"

datatype admission_failure = Limited mutation_class nat | AdmissionUnavailable

definition policy_of :: "'u controller \<Rightarrow> mutation_class \<Rightarrow> rate_policy" where
  "policy_of c cls = (case cls of
     Work \<Rightarrow> cf_work (ac_config c) | Control \<Rightarrow> cf_control (ac_config c) | Observation \<Rightarrow> ac_observation c)"

definition bucket_of :: "'u controller \<Rightarrow> string \<Rightarrow> mutation_class \<Rightarrow> nat \<Rightarrow> token_bucket" where
  "bucket_of c who cls now = (case map_of (ac_buckets c) (who, cls) of
     None \<Rightarrow> full_bucket (policy_of c cls) now | Some b \<Rightarrow> b)"

definition admit_principal :: "'u controller \<Rightarrow> nat \<Rightarrow> string \<Rightarrow> mutation_class \<Rightarrow>
    'u controller \<times> (admission_failure, unit) result" where
  "admit_principal c now who cls =
    (if ac_poisoned c then (c\<lparr>ac_metrics := record_internal_error (ac_metrics c)\<rparr>, Inl AdmissionUnavailable)
     else (case try_take (bucket_of c who cls now) (policy_of c cls) now of
         (b, r) \<Rightarrow>
          (let c1 = c\<lparr>ac_buckets := AList.update (who, cls) b (ac_buckets c)\<rparr> in
           case r of
             Inr _ \<Rightarrow> (c1\<lparr>ac_metrics := record_admitted cls (ac_metrics c)\<rparr>, Inr ())
           | Inl retry \<Rightarrow> (c1\<lparr>ac_metrics := record_limited cls (ac_metrics c)\<rparr>, Inl (Limited cls retry)))))"

definition tracked_buckets :: "'u controller \<Rightarrow> nat" where
  "tracked_buckets c = (if ac_poisoned c then 0 else length (ac_buckets c))"

record prometheus_snapshot =
  ps_tracked_buckets :: nat
  ps_work :: rate_policy
  ps_control :: rate_policy
  ps_observation :: rate_policy
  ps_work_admitted :: nat
  ps_work_limited :: nat
  ps_control_admitted :: nat
  ps_control_limited :: nat
  ps_observation_admitted :: nat
  ps_observation_limited :: nat
  ps_internal_errors :: nat
  ps_quota_rejections :: "nat list"

definition prometheus_snapshot_of :: "'u controller \<Rightarrow> prometheus_snapshot" where
  "prometheus_snapshot_of c = (let m = ac_metrics c in
     \<lparr>ps_tracked_buckets = tracked_buckets c, ps_work = cf_work (ac_config c),
      ps_control = cf_control (ac_config c), ps_observation = ac_observation c,
      ps_work_admitted = mt_admitted m Work, ps_work_limited = mt_limited m Work,
      ps_control_admitted = mt_admitted m Control, ps_control_limited = mt_limited m Control,
      ps_observation_admitted = mt_admitted m Observation, ps_observation_limited = mt_limited m Observation,
      ps_internal_errors = mt_internal_errors m, ps_quota_rejections = mt_quota_rejections m\<rparr>)"

section \<open>Classification\<close>

definition path_segments :: "string \<Rightarrow> string list" where
  "path_segments path = split_on (CHR ''/'') (trim_matches (CHR ''/'') path)"

definition is_flow_inspection :: "string \<Rightarrow> bool" where
  "is_flow_inspection path = (case path_segments path of
     [a, flow, b] \<Rightarrow> a = ''flows'' \<and> (b = ''validate'' \<or> b = ''agents'') \<and> flow \<noteq> []
   | _ \<Rightarrow> False)"

definition is_run_control_path :: "string \<Rightarrow> bool" where
  "is_run_control_path path = (case path_segments path of
     [a, flow, b, run_id] \<Rightarrow> a = ''flows'' \<and> (b = ''abort'' \<or> b = ''answer'') \<and> flow \<noteq> [] \<and> run_id \<noteq> []
   | _ \<Rightarrow> False)"

definition is_question_poll_path :: "string \<Rightarrow> bool" where
  "is_question_poll_path path = (case path_segments path of
     [a, flow, b, run_id] \<Rightarrow> a = ''flows'' \<and> b = ''questions'' \<and> flow \<noteq> [] \<and> run_id \<noteq> []
   | _ \<Rightarrow> False)"

definition classify_mutation :: "http_method \<Rightarrow> string \<Rightarrow> mutation_class option" where
  "classify_mutation m path =
    (if m = GET \<and> (is_question_poll_path path \<or> is_flow_inspection path) then Some Observation
     else if m = DELETE then Some Control
     else if m \<noteq> POST then None
     else if is_run_control_path path then Some Control else Some Work)"

section \<open>Middleware\<close>

definition rate_limited_response :: "mutation_class \<Rightarrow> nat \<Rightarrow> response" where
  "rate_limited_response cls retry_after_seconds =
     header_insert ''cache-control'' ''no-store''
       (header_insert ''retry-after'' (dec (max retry_after_seconds 1))
         \<lparr>rs_status = 429, rs_headers = [(''content-type'', ''application/json'')],
          rs_body = JObject [(''error'', JString (label cls @ '' request rate limit exceeded; retry later''))]\<rparr>)"

definition harden_downstream_rate_response :: "response \<Rightarrow> response" where
  "harden_downstream_rate_response r =
    (if rs_status r = 429 then
       header_insert ''cache-control'' ''no-store''
         (if \<not> contains_header ''retry-after'' r then header_insert ''retry-after'' ''60'' r else r)
     else r)"

definition admission_unavailable_response :: response where
  "admission_unavailable_response =
     \<lparr>rs_status = 503, rs_headers = [(''content-type'', ''application/json''), (''cache-control'', ''no-store'')],
      rs_body = JObject [(''error'', JString ''Request admission is temporarily unavailable'')]\<rparr>"

text \<open>The second component tells whether the request reached the rest of the router.\<close>

definition enforce_mutation_admission ::
    "'u controller \<Rightarrow> nat \<Rightarrow> string \<Rightarrow> 'r request_scheme \<Rightarrow> ('u controller \<Rightarrow> 'r request_scheme \<Rightarrow> response) \<Rightarrow> 'u controller \<times> bool \<times> response" where
  "enforce_mutation_admission c now who request run =
    (case classify_mutation (rq_method request) (rq_path request) of
       None \<Rightarrow> (c, True, harden_downstream_rate_response (run c request))
     | Some cls \<Rightarrow>
        (case admit_principal c now who cls of
           (c', Inr _) \<Rightarrow> (c', True, harden_downstream_rate_response (run c' request))
         | (c', Inl (Limited cls' retry)) \<Rightarrow> (c', False, rate_limited_response cls' retry)
         | (c', Inl AdmissionUnavailable) \<Rightarrow> (c', False, admission_unavailable_response)))"

section \<open>Refill arithmetic\<close>

definition policy_ok :: "rate_policy \<Rightarrow> bool" where
  "policy_ok p \<longleftrightarrow> 1 \<le> rate_per_minute p \<and> 1 \<le> burst p \<and> burst p \<le> 10000"

definition capacity_of :: "rate_policy \<Rightarrow> nat" where
  "capacity_of p = burst p * token_units"

lemma config_from_env_ok:
  "config_from_env env = Inr c \<Longrightarrow> policy_ok (cf_work c) \<and> policy_ok (cf_control c)"
  by (auto simp: config_from_env_def policy_from_env_def and_then_Inr_iff policy_ok_def
      dest!: bounded_env_range)

lemma capacity_bounds:
  assumes "policy_ok p"
  shows "sat128_mul (burst p) token_units = capacity_of p" "token_units \<le> capacity_of p"
    "capacity_of p \<le> u128_max div 60"
proof -
  have "burst p * token_units \<le> 10000 * token_units" "1 * token_units \<le> burst p * token_units"
    using assms unfolding policy_ok_def by (meson mult_le_mono1)+
  then show "sat128_mul (burst p) token_units = capacity_of p" "token_units \<le> capacity_of p"
    "capacity_of p \<le> u128_max div 60"
    by (simp_all add: capacity_of_def sat128_mul_def token_units_def u128_max_def)
qed

text \<open>Saturation never shows: the bucket is full before the product overflows.\<close>

lemma refill_exact:
  assumes "policy_ok p" and "t \<le> capacity_of p"
  shows "min (sat128_add t (sat128_mul e (rate_per_minute p) div 60)) (sat128_mul (burst p) token_units)
    = min (t + e * rate_per_minute p div 60) (capacity_of p)"
proof (cases "e * rate_per_minute p \<le> u128_max")
  case True
  then show ?thesis
    using capacity_bounds [OF assms(1)] assms(2) unfolding sat128_mul_def [of e] sat128_add_def
    by (simp add: min_def) linarith
next
  case False
  then have "u128_max div 60 \<le> e * rate_per_minute p div 60" by (simp add: div_le_mono)
  then show ?thesis
    using False capacity_bounds [OF assms(1)] unfolding sat128_mul_def [of e] sat128_add_def
    by (simp add: min_def) linarith
qed

definition refilled :: "token_bucket \<Rightarrow> rate_policy \<Rightarrow> nat \<Rightarrow> nat" where
  "refilled b p now = min (tb_tokens b + (now - tb_updated_at b) * rate_per_minute p div 60) (capacity_of p)"

lemma try_take_cases:
  assumes "policy_ok p" and "tb_tokens b \<le> capacity_of p"
  shows "token_units \<le> refilled b p now \<Longrightarrow>
      try_take b p now = (\<lparr>tb_tokens = refilled b p now - token_units, tb_updated_at = now\<rparr>, Inr ())"
    and "refilled b p now < token_units \<Longrightarrow> \<exists>retry.
      try_take b p now = (\<lparr>tb_tokens = refilled b p now, tb_updated_at = now\<rparr>, Inl retry) \<and>
      1 \<le> retry \<and> retry \<le> 60 \<and> (token_units - refilled b p now) * 60 \<le> retry * 1000000000 * rate_per_minute p"
proof -
  note R = refill_exact [OF assms, folded refilled_def, of "now - tb_updated_at b"]
  have R': "min (sat128_add (tb_tokens b) (sat128_mul (now - tb_updated_at b) (rate_per_minute p) div 60))
      (sat128_mul (burst p) token_units) = refilled b p now"
    using R by (simp add: refilled_def)
  show "try_take b p now = (\<lparr>tb_tokens = refilled b p now - token_units, tb_updated_at = now\<rparr>, Inr ())"
    if "token_units \<le> refilled b p now"
    using that unfolding try_take_def Let_def R' by simp
  assume low: "refilled b p now < token_units"
  let ?r = "rate_per_minute p" and ?d = "token_units - refilled b p now"
  have r: "1 \<le> ?r" using assms(1) by (simp add: policy_ok_def)
  have d: "?d * 60 \<le> 60000000000" by (simp add: token_units_def)
  then have sat: "sat128_mul ?d 60 = ?d * 60" by (simp add: sat128_mul_def u128_max_def)
  have ceil: "a \<le> div_ceil a b * b" "div_ceil a b \<le> a" if "0 < b" "0 < a" for a b
  proof -
    have "a + (b - 1) = (a + (b - 1)) div b * b + (a + (b - 1)) mod b" by simp
    moreover have "(a + (b - 1)) mod b \<le> b - 1" using that by (metis Suc_diff_1 less_Suc_eq_le mod_less_divisor)
    ultimately show "a \<le> div_ceil a b * b" unfolding div_ceil_def by linarith
    have "(a + (b - 1)) div b \<le> (a * b) div b"
    proof (rule div_le_mono)
      show "a + (b - 1) \<le> a * b" using that by (cases a; cases b) auto
    qed
    then show "div_ceil a b \<le> a" using that by (simp add: div_ceil_def)
  qed
  define n where "n = div_ceil (?d * 60) ?r"
  define s where "s = max (div_ceil n 1000000000) 1"
  have dpos: "0 < ?d * 60" using low by simp
  have n: "?d * 60 \<le> n * ?r" "n \<le> 60000000000"
    using ceil [of ?r "?d * 60"] dpos r d by (auto simp: n_def)
  have npos: "0 < n" using n(1) dpos by (cases n) auto
  have "div_ceil n 1000000000 \<le> div_ceil 60000000000 1000000000"
    unfolding div_ceil_def using n(2) by (intro div_le_mono) simp
  then have s: "1 \<le> s" "s \<le> 60" by (auto simp: s_def div_ceil_def)
  have "n \<le> s * 1000000000" using ceil(1) [of 1000000000 n] npos by (auto simp: s_def max_def)
  then have "?d * 60 \<le> s * 1000000000 * ?r" using n(1) by (meson le_trans mult_le_mono1)
  moreover have "try_take b p now = (\<lparr>tb_tokens = refilled b p now, tb_updated_at = now\<rparr>, Inl s)"
    unfolding try_take_def Let_def R' sat n_def [symmetric] s_def [symmetric]
    using low s by (simp add: u64_max_def)
  ultimately show "\<exists>retry.
      try_take b p now = (\<lparr>tb_tokens = refilled b p now, tb_updated_at = now\<rparr>, Inl retry) \<and>
      1 \<le> retry \<and> retry \<le> 60 \<and> ?d * 60 \<le> retry * 1000000000 * ?r"
    using s by blast
qed

lemma try_take_bound: "policy_ok p \<Longrightarrow> tb_tokens b \<le> capacity_of p \<Longrightarrow>
   tb_tokens (fst (try_take b p now)) \<le> capacity_of p \<and> tb_updated_at (fst (try_take b p now)) = now"
proof -
  assume ok: "policy_ok p" "tb_tokens b \<le> capacity_of p"
  have "refilled b p now \<le> capacity_of p" by (simp add: refilled_def)
  then show ?thesis
    using try_take_cases [OF ok, of now] by (cases "token_units \<le> refilled b p now") auto
qed

lemma policy_of_cong:
  "ac_config c = ac_config d \<Longrightarrow> ac_observation c = ac_observation d \<Longrightarrow> policy_of c cls = policy_of d cls"
  by (cases cls) (simp_all add: policy_of_def)

section \<open>Histories of requests\<close>

type_synonym admission_request = "nat \<times> string \<times> mutation_class"

definition key_of :: "admission_request \<Rightarrow> string \<times> mutation_class" where
  "key_of e = snd e"

fun admit_all :: "'u controller \<Rightarrow> admission_request list \<Rightarrow> 'u controller \<times> (admission_failure, unit) result list" where
  "admit_all c [] = (c, [])"
| "admit_all c ((now, who, cls) # h) =
     (let (c1, r) = admit_principal c now who cls; (c2, rs) = admit_all c1 h in (c2, r # rs))"

text \<open>The outcomes of the requests of one principal and class.\<close>

definition outcomes_of ::
    "string \<times> mutation_class \<Rightarrow> admission_request list \<Rightarrow> (admission_failure, unit) result list \<Rightarrow>
     (admission_failure, unit) result list" where
  "outcomes_of k h rs = map snd (filter (\<lambda>(e, _). key_of e = k) (zip h rs))"

definition admitted :: "(admission_failure, unit) result list \<Rightarrow> nat" where
  "admitted rs = length (filter is_ok rs)"

definition same_bucket :: "string \<times> mutation_class \<Rightarrow> 'u controller \<Rightarrow> 'u controller \<Rightarrow> bool" where
  "same_bucket k c d \<longleftrightarrow> ac_config c = ac_config d \<and> ac_observation c = ac_observation d \<and>
     ac_poisoned c = ac_poisoned d \<and> map_of (ac_buckets c) k = map_of (ac_buckets d) k"

lemma admit_frame:
  "ac_config (fst (admit_principal c now who cls)) = ac_config c"
  "ac_observation (fst (admit_principal c now who cls)) = ac_observation c"
  "ac_poisoned (fst (admit_principal c now who cls)) = ac_poisoned c"
  by (auto simp: admit_principal_def Let_def split: prod.splits sum.splits)

lemma admit_bucket:
  "\<not> ac_poisoned c \<Longrightarrow> map_of (ac_buckets (fst (admit_principal c now who cls))) =
     (map_of (ac_buckets c))((who, cls) \<mapsto> fst (try_take (bucket_of c who cls now) (policy_of c cls) now))"
  by (auto simp: admit_principal_def Let_def update_conv' split: prod.splits sum.splits)

lemma admit_outcome:
  "\<not> ac_poisoned c \<Longrightarrow> snd (admit_principal c now who cls) =
     (case snd (try_take (bucket_of c who cls now) (policy_of c cls) now) of
        Inr _ \<Rightarrow> Inr () | Inl retry \<Rightarrow> Inl (Limited cls retry))"
  by (auto simp: admit_principal_def Let_def split: prod.splits sum.splits)

lemma same_bucket_other: "(who, cls) \<noteq> k \<Longrightarrow> same_bucket k c d \<Longrightarrow> same_bucket k (fst (admit_principal c now who cls)) d"
proof (cases "ac_poisoned c")
  case True
  assume "same_bucket k c d"
  with True show ?thesis by (simp add: same_bucket_def admit_principal_def)
next
  case False
  assume "(who, cls) \<noteq> k" "same_bucket k c d"
  with False show ?thesis by (simp add: same_bucket_def admit_frame admit_bucket)
qed

lemma same_bucket_own:
  assumes "same_bucket (who, cls) c d"
  shows "snd (admit_principal c now who cls) = snd (admit_principal d now who cls) \<and>
    same_bucket (who, cls) (fst (admit_principal c now who cls)) (fst (admit_principal d now who cls))"
proof -
  have "policy_of c cls = policy_of d cls" using assms by (intro policy_of_cong) (simp_all add: same_bucket_def)
  then have b: "bucket_of c who cls now = bucket_of d who cls now" "policy_of c cls = policy_of d cls"
    using assms by (auto simp: same_bucket_def bucket_of_def split: option.splits)
  show ?thesis
  proof (cases "ac_poisoned c")
    case True
    with assms show ?thesis by (simp add: same_bucket_def admit_principal_def)
  next
    case False
    moreover have "\<not> ac_poisoned d" using False assms by (simp add: same_bucket_def)
    ultimately show ?thesis using assms b by (simp add: same_bucket_def admit_frame admit_bucket admit_outcome)
  qed
qed

lemma length_admit_all: "length (snd (admit_all c h)) = length h"
proof (induction h arbitrary: c)
  case (Cons e h)
  then show ?case by (cases e) (auto simp: Let_def split_def)
qed simp

lemma admit_all_isolated:
  "same_bucket k c d \<Longrightarrow>
   outcomes_of k h (snd (admit_all c h)) = snd (admit_all d (filter (\<lambda>e. key_of e = k) h))"
proof (induction h arbitrary: c d)
  case (Cons e h)
  obtain now who cls where e: "e = (now, who, cls)" by (cases e) auto
  show ?case
  proof (cases "(who, cls) = k")
    case True
    then show ?thesis
      using same_bucket_own [of who cls c d now] Cons.prems Cons.IH
      by (auto simp: e outcomes_of_def key_of_def Let_def split_def)
  next
    case False
    then show ?thesis
      using same_bucket_other [OF False Cons.prems, of now] Cons.IH
      by (auto simp: e outcomes_of_def key_of_def Let_def split_def)
  qed
qed (simp add: outcomes_of_def)

section \<open>The rate bound\<close>

fun takes :: "rate_policy \<Rightarrow> token_bucket \<Rightarrow> nat list \<Rightarrow> token_bucket \<times> nat" where
  "takes p b [] = (b, 0)"
| "takes p b (t # ts) =
     (let (b1, r) = try_take b p t; (b2, n) = takes p b1 ts in (b2, n + (if is_ok r then 1 else 0)))"

lemma div_sum_le: "a div 60 + b div 60 \<le> (a + b) div (60::nat)"
proof -
  have "a div 60 * 60 \<le> a" "b div 60 * 60 \<le> b" by (rule div_times_less_eq_dividend)+
  then have "(a div 60 + b div 60) * 60 \<le> a + b" by (simp add: add_mult_distrib)
  then have "(a div 60 + b div 60) * 60 div 60 \<le> (a + b) div 60" by (rule div_le_mono)
  then show ?thesis by simp
qed

lemma takes_bound:
  assumes "policy_ok p" and "tb_tokens b \<le> capacity_of p" and "sorted (tb_updated_at b # ts)"
  shows "tb_tokens (fst (takes p b ts)) + snd (takes p b ts) * token_units
      \<le> tb_tokens b + (last (tb_updated_at b # ts) - tb_updated_at b) * rate_per_minute p div 60"
  using assms(2,3)
proof (induction ts arbitrary: b)
  case (Cons t ts)
  let ?b = "fst (try_take b p t)" and ?r = "rate_per_minute p"
  note bd = try_take_bound [OF assms(1) Cons.prems(1), of t]
  have IH: "tb_tokens (fst (takes p ?b ts)) + snd (takes p ?b ts) * token_units
      \<le> tb_tokens ?b + (last (t # ts) - t) * ?r div 60"
    using Cons.IH [of ?b] bd Cons.prems(2) by simp
  have gain: "tb_tokens ?b + (if is_ok (snd (try_take b p t)) then token_units else 0)
      \<le> tb_tokens b + (t - tb_updated_at b) * ?r div 60"
  proof (cases "token_units \<le> refilled b p t")
    case True
    then show ?thesis using try_take_cases(1) [OF assms(1) Cons.prems(1) True] by (simp add: refilled_def)
  next
    case False
    then obtain retry where "try_take b p t = (\<lparr>tb_tokens = refilled b p t, tb_updated_at = t\<rparr>, Inl retry)"
      using try_take_cases(2) [OF assms(1) Cons.prems(1), of t] by (auto simp: not_le)
    then show ?thesis by (simp add: refilled_def)
  qed
  have le: "tb_updated_at b \<le> t" "t \<le> last (t # ts)"
    using Cons.prems(2) by (auto simp: last_in_set split: if_splits)
  have "(t - tb_updated_at b) * ?r div 60 + (last (t # ts) - t) * ?r div 60
      \<le> ((t - tb_updated_at b) * ?r + (last (t # ts) - t) * ?r) div 60" by (rule div_sum_le)
  also have "\<dots> = (last (t # ts) - tb_updated_at b) * ?r div 60"
    using le by (simp flip: add_mult_distrib)
  finally show ?case using IH gain by (auto simp: Let_def split_def split: if_splits)
qed simp

text \<open>The requests of one principal and class, served alone, are a sequence of takes.\<close>

lemma admit_all_takes:
  assumes "\<forall>e \<in> set h. key_of e = (who, cls)" and "\<not> ac_poisoned c"
    and "map_of (ac_buckets c) (who, cls) = Some b"
  shows "admitted (snd (admit_all c h)) = snd (takes (policy_of c cls) b (map fst h))"
  using assms
proof (induction h arbitrary: c b)
  case (Cons e h)
  obtain now where e: "e = (now, who, cls)" using Cons.prems(1) by (cases e) (auto simp: key_of_def)
  let ?c = "fst (admit_principal c now who cls)"
  have bo: "bucket_of c who cls now = b" using Cons.prems(3) by (simp add: bucket_of_def)
  have "map_of (ac_buckets ?c) (who, cls) = Some (fst (try_take b (policy_of c cls) now))"
    using admit_bucket [OF Cons.prems(2)] by (simp add: bo)
  moreover have "policy_of ?c cls = policy_of c cls" by (rule policy_of_cong) (simp_all add: admit_frame)
  moreover have "is_ok (snd (admit_principal c now who cls)) = is_ok (snd (try_take b (policy_of c cls) now))"
    using admit_outcome [OF Cons.prems(2)] bo by (auto simp: split: sum.splits)
  ultimately show ?case
    using Cons.IH [of ?c] Cons.prems by (simp add: e admitted_def Let_def split_def admit_frame)
qed (simp add: admitted_def)

lemma admit_all_first:
  assumes "h \<noteq> []" and "\<forall>e \<in> set h. key_of e = (who, cls)" and "\<not> ac_poisoned c"
    and "map_of (ac_buckets c) (who, cls) = None"
  shows "admitted (snd (admit_all c h)) =
    snd (takes (policy_of c cls) (full_bucket (policy_of c cls) (fst (hd h))) (map fst h))"
proof -
  obtain now h' where h: "h = (now, who, cls) # h'" using assms(1,2) by (cases h) (auto simp: key_of_def)
  let ?f = "full_bucket (policy_of c cls) now"
  let ?d = "c\<lparr>ac_buckets := AList.update (who, cls) ?f (ac_buckets c)\<rparr>"
  have po: "policy_of ?d cls = policy_of c cls" by (rule policy_of_cong) simp_all
  have "admit_principal ?d now who cls = admit_principal c now who cls"
    using assms(3,4)
    by (simp add: admit_principal_def bucket_of_def po update_conv' Let_def split: prod.splits sum.splits)
  then have "snd (admit_all ?d h) = snd (admit_all c h)" by (simp add: h Let_def split_def)
  moreover have "admitted (snd (admit_all ?d h)) = snd (takes (policy_of ?d cls) ?f (map fst h))"
    by (rule admit_all_takes) (use assms in \<open>auto simp: update_conv'\<close>)
  ultimately show ?thesis by (simp add: h po)
qed

text \<open>Readings that go back and forth refill the bucket every time.\<close>

lemma takes_reordered:
  assumes "policy_ok p" and "tb_tokens b \<le> capacity_of p" and "60 * token_units \<le> w * rate_per_minute p"
  shows "n \<le> snd (takes p b (concat (replicate n [t, t + w])))"
  using assms(2)
proof (induction n arbitrary: b)
  case (Suc n)
  let ?b1 = "fst (try_take b p t)"
  let ?b2 = "fst (try_take ?b1 p (t + w))"
  have b1: "tb_tokens ?b1 \<le> capacity_of p" "tb_updated_at ?b1 = t"
    using try_take_bound [OF assms(1) Suc.prems, of t] by simp_all
  have "60 * token_units div 60 \<le> w * rate_per_minute p div 60" using assms(3) by (rule div_le_mono)
  then have "token_units \<le> refilled ?b1 p (t + w)"
    using b1(2) capacity_bounds(2) [OF assms(1)] by (simp add: refilled_def)
  then have "is_ok (snd (try_take ?b1 p (t + w)))" using try_take_cases(1) [OF assms(1) b1(1)] by simp
  moreover have "n \<le> snd (takes p ?b2 (concat (replicate n [t, t + w])))"
    using try_take_bound [OF assms(1) b1(1), of "t + w"] by (intro Suc.IH) simp
  ultimately show ?case by (simp add: Let_def split_def)
qed simp

section \<open>Controllers of a running server\<close>

definition controller_ok :: "'u controller \<Rightarrow> bool" where
  "controller_ok c \<longleftrightarrow> (\<forall>cls. policy_ok (policy_of c cls)) \<and>
     (\<forall>who cls b. map_of (ac_buckets c) (who, cls) = Some b \<longrightarrow> tb_tokens b \<le> capacity_of (policy_of c cls))"

lemma policy_from_env_ok:
  "policy_from_env env n1 d1 n2 d2 m = Inr p \<Longrightarrow> m \<le> 10000 \<Longrightarrow> policy_ok p"
  by (auto simp: policy_from_env_def and_then_Inr_iff policy_ok_def dest!: bounded_env_range)

lemma controller_from_env_ok:
  assumes "controller_from_env env = Inr c"
  shows "controller_ok c" "ac_buckets c = []" "\<not> ac_poisoned c"
proof -
  have "policy_ok (policy_of c cls)" for cls
    using assms
    by (cases cls) (auto simp: controller_from_env_def new_with_observation_def and_then_Inr_iff
        policy_of_def dest: config_from_env_ok policy_from_env_ok)
  moreover show "ac_buckets c = []" "\<not> ac_poisoned c"
    using assms by (auto simp: controller_from_env_def new_with_observation_def and_then_Inr_iff)
  ultimately show "controller_ok c" by (simp add: controller_ok_def)
qed

lemma bucket_of_bound: "controller_ok c \<Longrightarrow> tb_tokens (bucket_of c who cls now) \<le> capacity_of (policy_of c cls)"
  by (auto simp: controller_ok_def bucket_of_def full_bucket_def capacity_bounds(1) split: option.splits)

lemma admit_ok: "controller_ok c \<Longrightarrow> controller_ok (fst (admit_principal c now who cls))"
proof -
  assume ok: "controller_ok c"
  have p: "policy_of (fst (admit_principal c now who cls)) = policy_of c"
    by (rule ext, rule policy_of_cong) (simp_all add: admit_frame)
  show ?thesis
  proof (cases "ac_poisoned c")
    case True
    then have "ac_buckets (fst (admit_principal c now who cls)) = ac_buckets c"
      by (simp add: admit_principal_def)
    then show ?thesis using ok by (simp add: controller_ok_def p)
  next
    case False
    show ?thesis
      using ok try_take_bound [OF _ bucket_of_bound [OF ok, of who cls now], of now]
      by (auto simp: controller_ok_def p admit_bucket [OF False] split: if_splits)
  qed
qed

lemma admit_all_ok: "controller_ok c \<Longrightarrow> controller_ok (fst (admit_all c h))"
proof (induction h arbitrary: c)
  case (Cons e h)
  then show ?case by (cases e) (simp add: Let_def split_def admit_ok)
qed simp

lemma admit_all_poisoned: "ac_poisoned (fst (admit_all c h)) = ac_poisoned c"
proof (induction h arbitrary: c)
  case (Cons e h)
  then show ?case by (cases e) (simp add: Let_def split_def admit_frame)
qed simp

section \<open>Middleware lemmas\<close>

definition throttled_ok :: "response \<Rightarrow> bool" where
  "throttled_ok r \<longleftrightarrow> (rs_status r = 429 \<longrightarrow> contains_header ''retry-after'' r \<and>
     map_of (rs_headers r) ''cache-control'' = Some ''no-store'')"

lemma harden_ok: "throttled_ok (harden_downstream_rate_response r)"
  by (simp add: throttled_ok_def harden_downstream_rate_response_def contains_header_def)

lemma rate_limited_ok: "throttled_ok (rate_limited_response cls n)"
  by (simp add: throttled_ok_def rate_limited_response_def contains_header_def)

lemma unavailable_ok: "throttled_ok admission_unavailable_response"
  by (simp add: throttled_ok_def admission_unavailable_response_def)

lemma enforce_headers: "throttled_ok (snd (snd (enforce_mutation_admission c now who request run)))"
  by (simp add: enforce_mutation_admission_def harden_ok rate_limited_ok unavailable_ok
      split: option.splits prod.splits sum.splits admission_failure.splits)

lemma enforce_reached:
  "fst (snd (enforce_mutation_admission c now who request run)) =
     (case classify_mutation (rq_method request) (rq_path request) of
        None \<Rightarrow> True | Some cls \<Rightarrow> is_ok (snd (admit_principal c now who cls)))"
  by (auto simp: enforce_mutation_admission_def split: option.splits prod.splits sum.splits admission_failure.splits)

lemma filter_keys: "\<forall>e \<in> set (filter (\<lambda>e. key_of e = k) h). key_of e = k"
  by simp

lemma controller_from_env_defaults:
  "controller_from_env (\<lambda>_. NotPresent) = Inr (new_controller default_config)"
  by (simp add: controller_from_env_def config_from_env_def policy_from_env_def bounded_env_def
      new_controller_def default_config_def)

definition burst_one_env :: env where
  "burst_one_env name = (if name = ''IRONCREW_ADMISSION_WORK_BURST'' then Present ''1'' else NotPresent)"

definition burst_one_controller :: "nat controller" where
  "burst_one_controller = new_controller (default_config\<lparr>cf_work := \<lparr>rate_per_minute = 60, burst = 1\<rparr>\<rparr>)"

lemma burst_one_controller: "controller_from_env burst_one_env = Inr burst_one_controller"
proof -
  have "parse_uint u64_max ''1'' = Some 1" by (simp add: parse_uint_def u64_max_def is_ascii_digit_def dec_val_def byte_def Let_def)
  then show ?thesis
    by (simp add: controller_from_env_def config_from_env_def policy_from_env_def bounded_env_def
        new_controller_def default_config_def burst_one_env_def burst_one_controller_def)
qed

lemma burst_one_limited:
  "snd (admit_principal (fst (admit_all burst_one_controller [(0, ''p'', Work)])) 0 ''p'' Work) = Inl (Limited Work 1)"
  by (simp add: burst_one_controller_def new_controller_def default_config_def new_with_observation_def
      admit_principal_def bucket_of_def policy_of_def full_bucket_def try_take_def Let_def sat128_mul_def
      sat128_add_def u128_max_def token_units_def div_ceil_def u64_max_def)

section \<open>Properties\<close>

text \<open>
  C12. Rate bound under interleaving: on a controller configured from the environment, whatever the
  other principals and classes do in between, the requests one principal gets admitted in one
  class between its first and its last request are at most the burst plus the elapsed time at
  the configured rate, as long as the clock readings of that principal's requests are ordered.
  Units are nanoseconds, 60e9 per minute.\<close>

theorem admission_rate_bounded:
  assumes "controller_from_env env = Inr c"
    and "sorted (map fst (filter (\<lambda>e. key_of e = (who, cls)) h))"
    and "filter (\<lambda>e. key_of e = (who, cls)) h = (first, who, cls) # rest"
    and "final = last (map fst (filter (\<lambda>e. key_of e = (who, cls)) h))"
  shows "admitted (outcomes_of (who, cls) h (snd (admit_all c h))) * 60000000000
    \<le> burst (policy_of c cls) * 60000000000 + (final - first) * rate_per_minute (policy_of c cls)"
proof -
  let ?hk = "filter (\<lambda>e. key_of e = (who, cls)) h" and ?p = "policy_of c cls"
  let ?b = "full_bucket ?p first"
  note ok = controller_from_env_ok [OF assms(1)]
  have pok: "policy_ok ?p" using ok(1) by (simp add: controller_ok_def)
  have "outcomes_of (who, cls) h (snd (admit_all c h)) = snd (admit_all c ?hk)"
    by (rule admit_all_isolated) (simp add: same_bucket_def)
  moreover have "admitted (snd (admit_all c ?hk)) = snd (takes ?p (full_bucket ?p (fst (hd ?hk))) (map fst ?hk))"
  proof (rule admit_all_first [where who = who])
    show "?hk \<noteq> []" using assms(3) by simp
  qed (use ok in \<open>simp_all\<close>)
  ultimately have eq: "admitted (outcomes_of (who, cls) h (snd (admit_all c h))) = snd (takes ?p ?b (map fst ?hk))"
    using assms(3) by simp
  have "tb_tokens (fst (takes ?p ?b (map fst ?hk))) + snd (takes ?p ?b (map fst ?hk)) * token_units
      \<le> tb_tokens ?b + (last (tb_updated_at ?b # map fst ?hk) - tb_updated_at ?b) * rate_per_minute ?p div 60"
    by (rule takes_bound)
      (use pok assms(2) in \<open>simp_all add: full_bucket_def capacity_bounds assms(3)\<close>)
  then have "snd (takes ?p ?b (map fst ?hk)) * token_units
      \<le> burst ?p * token_units + (final - first) * rate_per_minute ?p div 60"
    by (simp add: full_bucket_def capacity_bounds(1) [OF pok] capacity_of_def assms(3,4))
  then have "snd (takes ?p ?b (map fst ?hk)) * token_units * 60
      \<le> burst ?p * token_units * 60 + (final - first) * rate_per_minute ?p div 60 * 60" by linarith
  also have "(final - first) * rate_per_minute ?p div 60 * 60 \<le> (final - first) * rate_per_minute ?p"
    by (rule div_times_less_eq_dividend)
  finally show ?thesis unfolding eq by (simp add: token_units_def)
qed

theorem admission_rate_bounded_witness:
  "admitted (outcomes_of (''p'', Work) [(5, ''p'', Work), (7, ''q'', Control), (9, ''p'', Work)]
      (snd (admit_all (new_controller default_config :: nat controller)
        [(5, ''p'', Work), (7, ''q'', Control), (9, ''p'', Work)]))) * 60000000000
    \<le> burst (policy_of (new_controller default_config :: nat controller) Work) * 60000000000
      + (9 - 5) * rate_per_minute (policy_of (new_controller default_config :: nat controller) Work)"
  by (rule admission_rate_bounded [of "\<lambda>_. NotPresent" _ "''p''" Work _ 5 "[(9, ''p'', Work)]"])
    (simp_all add: controller_from_env_defaults key_of_def)

text \<open>
  C13. \<open>Retry-After\<close> is honest: after any history on a controller configured from the environment,
  a refused request is told to wait between one second and one minute, and the same principal
  retrying after that long (with no request of its own in between) is admitted.\<close>

theorem retry_after_sufficient:
  assumes "controller_from_env env = Inr c0"
    and "admit_principal (fst (admit_all c0 h)) now who cls = (c, Inl (Limited cls retry))"
    and "now + retry * 1000000000 \<le> later"
  shows "1 \<le> retry \<and> retry \<le> 60 \<and> snd (admit_principal c later who cls) = Inr ()"
proof -
  let ?c = "fst (admit_all c0 h)" and ?p = "policy_of (fst (admit_all c0 h)) cls"
  let ?b = "bucket_of ?c who cls now"
  note ok0 = controller_from_env_ok [OF assms(1)]
  have ok: "controller_ok ?c" "\<not> ac_poisoned ?c"
    using ok0 by (simp_all add: admit_all_ok admit_all_poisoned)
  then have pok: "policy_ok ?p" "tb_tokens ?b \<le> capacity_of ?p"
    by (simp add: controller_ok_def) (rule bucket_of_bound [OF ok(1)])
  have lim: "snd (try_take ?b ?p now) = Inl retry"
    using admit_outcome [OF ok(2), of now who cls] assms(2) by (auto split: sum.splits)
  then have low: "refilled ?b ?p now < token_units"
    using try_take_cases(1) [OF pok, of now] by (cases "token_units \<le> refilled ?b ?p now") auto
  then have t: "try_take ?b ?p now = (\<lparr>tb_tokens = refilled ?b ?p now, tb_updated_at = now\<rparr>, Inl retry)"
    and r: "1 \<le> retry" "retry \<le> 60"
      "(token_units - refilled ?b ?p now) * 60 \<le> retry * 1000000000 * rate_per_minute ?p"
    using try_take_cases(2) [OF pok low] lim by auto
  let ?b' = "\<lparr>tb_tokens = refilled ?b ?p now, tb_updated_at = now\<rparr>"
  have c: "c = fst (admit_principal ?c now who cls)" using assms(2) by simp
  have pol: "policy_of c cls = ?p" unfolding c by (rule policy_of_cong) (simp_all add: admit_frame)
  have bo: "bucket_of c who cls later = ?b'" using t ok(2) by (simp add: bucket_of_def c admit_bucket)
  have np: "\<not> ac_poisoned c" using ok(2) by (simp add: c admit_frame)
  have b'ok: "tb_tokens ?b' \<le> capacity_of ?p" by (simp add: refilled_def)
  have "retry * 1000000000 * rate_per_minute ?p \<le> (later - now) * rate_per_minute ?p"
    using assms(3) by (intro mult_le_mono1) simp
  with r(3) have "(token_units - refilled ?b ?p now) * 60 div 60 \<le> (later - now) * rate_per_minute ?p div 60"
    by (intro div_le_mono) linarith
  then have "token_units \<le> refilled ?b' ?p later"
    using low capacity_bounds(2) [OF pok(1)] by (simp add: refilled_def [of ?b'])
  then have "snd (try_take ?b' ?p later) = Inr ()" using try_take_cases(1) [OF pok(1) b'ok] by simp
  then show ?thesis using r(1,2) admit_outcome [OF np, of later who cls] by (simp add: bo pol)
qed

theorem retry_after_sufficient_witness:
  "1 \<le> (1 :: nat) \<and> (1 :: nat) \<le> 60 \<and> snd (admit_principal
     (fst (admit_principal (fst (admit_all burst_one_controller [(0, ''p'', Work)])) 0 ''p'' Work))
       1000000000 ''p'' Work) = Inr ()"
  by (rule retry_after_sufficient [OF burst_one_controller, of "[(0, ''p'', Work)]" 0])
    (simp_all add: burst_one_limited prod_eq_iff del: admit_all.simps)

text \<open>
  The admission middleware: a POST or DELETE request reaches the router only when its
  principal's bucket gave it a token, GET, HEAD and other reads are throttled only on the
  polling and inspection paths, and every 429 that leaves the server, from the limiter or from
  a downstream quota, carries \<open>Retry-After\<close> and \<open>Cache-Control: no-store\<close>.\<close>

theorem admission_middleware_guards:
  assumes "enforce_mutation_admission c now who request run = (c', reached, resp)"
  shows "(rq_method request \<in> {POST, DELETE} \<longrightarrow> classify_mutation (rq_method request) (rq_path request) \<noteq> None) \<and>
     reached = (case classify_mutation (rq_method request) (rq_path request) of
        None \<Rightarrow> True | Some cls \<Rightarrow> is_ok (snd (admit_principal c now who cls))) \<and>
     (rs_status resp = 429 \<longrightarrow> contains_header ''retry-after'' resp \<and>
        map_of (rs_headers resp) ''cache-control'' = Some ''no-store'')"
  using enforce_reached [of c now who request run] enforce_headers [of c now who request run] assms
  by (simp add: throttled_ok_def classify_mutation_def)

theorem admission_middleware_guards_witness:
  "contains_header ''retry-after'' (harden_downstream_rate_response \<lparr>rs_status = 429, rs_headers = [], rs_body = JNull\<rparr>)"
  using admission_middleware_guards [of "new_controller default_config :: nat controller" 0 "''p''"
      "\<lparr>rq_method = HEAD, rq_path = ''/flows''\<rparr>" "\<lambda>_ _. \<lparr>rs_status = 429, rs_headers = [], rs_body = JNull\<rparr>"]
  by (simp add: enforce_mutation_admission_def classify_mutation_def harden_downstream_rate_response_def)

text \<open>
  C14. Reordered clock readings mint tokens without bound: \<open>now\<close> is read before the lock and
  \<open>try_take\<close> stores it even when it is earlier than the last update. On any controller
  configured from the environment, let \<open>w\<close> be a time in which the configured rate gives one
  token. When the requests of one principal in one class reach the buckets with readings
  that go back and forth between \<open>t\<close> and \<open>t + w\<close>, at least one of each pair is admitted,
  whatever others do in between: \<open>n\<close> pairs get \<open>n\<close> admissions although all the readings lie
  within \<open>w\<close>, for every \<open>n\<close>, where ordered readings allow no more than the burst and one more
  for each such \<open>w\<close>.\<close>

theorem admission_clock_reordering:
  assumes "controller_from_env env = Inr c"
    and "60 * token_units \<le> w * rate_per_minute (policy_of c cls)"
    and "filter (\<lambda>e. key_of e = (who, cls)) h = concat (replicate n [(t, who, cls), (t + w, who, cls)])"
  shows "n \<le> admitted (outcomes_of (who, cls) h (snd (admit_all c h)))"
proof -
  let ?hk = "filter (\<lambda>e. key_of e = (who, cls)) h" and ?p = "policy_of c cls"
  note ok = controller_from_env_ok [OF assms(1)]
  have pok: "policy_ok ?p" using ok(1) by (simp add: controller_ok_def)
  have times: "map fst ?hk = concat (replicate n [t, t + w])"
    unfolding assms(3) by (induction n) simp_all
  have "outcomes_of (who, cls) h (snd (admit_all c h)) = snd (admit_all c ?hk)"
    by (rule admit_all_isolated) (simp add: same_bucket_def)
  moreover have "n \<le> admitted (snd (admit_all c ?hk))"
  proof (cases "?hk = []")
    case True
    then have "n = 0" using assms(3) by (cases n) simp_all
    then show ?thesis by simp
  next
    case False
    have "admitted (snd (admit_all c ?hk)) = snd (takes ?p (full_bucket ?p (fst (hd ?hk))) (map fst ?hk))"
      by (rule admit_all_first [where who = who]) (use False ok in \<open>simp_all\<close>)
    then show ?thesis
      unfolding times using takes_reordered [OF pok _ assms(2)] by (simp add: full_bucket_def capacity_bounds [OF pok])
  qed
  ultimately show ?thesis by simp
qed

theorem admission_clock_reordering_witness:
  "5 \<le> admitted (outcomes_of (''p'', Work)
     (concat (replicate 5 [(7, ''p'', Work), (7 + 1000000000, ''p'', Work)]) @ [(8, ''q'', Work)])
     (snd (admit_all burst_one_controller
       (concat (replicate 5 [(7, ''p'', Work), (7 + 1000000000, ''p'', Work)]) @ [(8, ''q'', Work)]))))"
  by (rule admission_clock_reordering [OF burst_one_controller, where w = 1000000000 and t = 7])
    (simp_all add: burst_one_controller_def new_controller_def new_with_observation_def policy_of_def token_units_def
      key_of_def)

end
