(* ===== verification/Idempotency.thy ===== *)
theory Idempotency
  imports Prelude
begin

text \<open>
  \<open>src/src/engine/idempotency.rs\<close>: principal identities, quota limits, ledger records, claims and
  completions with their validation.

  SHA-256 (\<open>sha2\<close>) and the RFC 3339 parser (\<open>chrono\<close>) are parameters: \<open>sha\<close> maps bytes to bytes,
  \<open>rfc3339\<close> returns an instant in nanoseconds or the parser's message.
\<close>

section \<open>Validators\<close>

type_synonym rfc3339 = "string \<Rightarrow> (string, int) result"

definition is_lower_hex :: "char \<Rightarrow> bool" where
  "is_lower_hex c = (is_ascii_digit c \<or> 97 \<le> byte c \<and> byte c \<le> 102)"

definition valid_digest :: "string \<Rightarrow> bool" where
  "valid_digest s = (length s = 64 \<and> list_all is_lower_hex s)"

definition validate_digest :: "string \<Rightarrow> string \<Rightarrow> (iron_error, unit) result" where
  "validate_digest lbl s =
     ensure (valid_digest s) (Validation (lbl @ '' must be a lowercase SHA-256 digest''))"

definition run_operation :: string where
  "run_operation = ''flow.run''"

definition conversation_message_operation :: string where
  "conversation_message_operation = ''conversation.message''"

definition validate_operation :: "string \<Rightarrow> (iron_error, unit) result" where
  "validate_operation s =
     ensure (s = run_operation \<or> s = conversation_message_operation)
       (Validation (''Unsupported idempotency operation '' @ quoted s))"

definition valid_printable :: "nat \<Rightarrow> string \<Rightarrow> bool" where
  "valid_printable max_bytes s =
     (s \<noteq> [] \<and> length s \<le> max_bytes \<and> list_all (\<lambda>c. byte c < 128 \<and> \<not> (byte c < 32 \<or> byte c = 127)) s)"

definition validate_bounded_printable :: "string \<Rightarrow> string \<Rightarrow> nat \<Rightarrow> (iron_error, unit) result" where
  "validate_bounded_printable lbl s max_bytes =
     ensure (valid_printable max_bytes s)
       (Validation (lbl @ '' must be 1..='' @ dec max_bytes @ '' printable ASCII bytes''))"

definition validate_timestamp :: "rfc3339 \<Rightarrow> string \<Rightarrow> string \<Rightarrow> (iron_error, unit) result" where
  "validate_timestamp parse lbl s =
     (case parse s of Inr _ \<Rightarrow> Inr () | Inl e \<Rightarrow> Inl (Validation (lbl @ '' is not valid RFC3339: '' @ e)))"

section \<open>Principal identities\<close>

text \<open>A \<open>PrincipalId\<close> is its lowercase hexadecimal digest.\<close>

type_synonym principal_id = string

definition hex_digit :: "nat \<Rightarrow> char" where
  "hex_digit n = ''0123456789abcdef'' ! n"

definition hex_encode :: "string \<Rightarrow> string" where
  "hex_encode bytes = concat (map (\<lambda>b. [hex_digit (byte b div 16), hex_digit (byte b mod 16)]) bytes)"

definition from_domain_value :: "(string \<Rightarrow> string) \<Rightarrow> string \<Rightarrow> string \<Rightarrow> principal_id" where
  "from_domain_value sha domain v = hex_encode (sha (domain @ [CHR 0x00] @ v))"

definition legacy_principal :: "(string \<Rightarrow> string) \<Rightarrow> principal_id" where
  "legacy_principal sha = from_domain_value sha ''ironcrew:principal:legacy:v1'' ''default''"

definition anonymous_principal :: "(string \<Rightarrow> string) \<Rightarrow> principal_id" where
  "anonymous_principal sha = legacy_principal sha"

definition from_label :: "(string \<Rightarrow> string) \<Rightarrow> string \<Rightarrow> principal_id" where
  "from_label sha lbl = from_domain_value sha ''ironcrew:principal:named:v1'' lbl"

definition validate_principal_id :: "principal_id \<Rightarrow> (iron_error, unit) result" where
  "validate_principal_id p = validate_digest ''principal id'' p"

definition from_digest :: "string \<Rightarrow> (iron_error, principal_id) result" where
  "from_digest s = and_then (validate_principal_id s) (\<lambda>_. Inr s)"

section \<open>Limits and usage\<close>

record limits =
  global_max_records :: nat
  principal_max_records :: nat
  principal_max_in_flight :: nat
  global_max_response_bytes :: nat
  principal_max_response_bytes :: nat
  prune_batch :: nat

definition validate_limits :: "limits \<Rightarrow> (iron_error, unit) result" where
  "validate_limits l =
    (if global_max_records l = 0 \<or> principal_max_records l = 0 \<or> principal_max_in_flight l = 0 \<or>
        global_max_response_bytes l = 0 \<or> principal_max_response_bytes l = 0 \<or> prune_batch l = 0
     then Inl (Validation ''Idempotency limits must all be positive'')
     else if global_max_records l < principal_max_records l
     then Inl (Validation ''Per-principal idempotency record limit cannot exceed the global limit'')
     else if principal_max_records l < principal_max_in_flight l
     then Inl (Validation ''Per-principal in-flight idempotency limit cannot exceed its record limit'')
     else if global_max_response_bytes l < principal_max_response_bytes l
     then Inl (Validation ''Per-principal idempotency response-byte limit cannot exceed the global limit'')
     else Inr ())"

record ledger_usage =
  us_global_records :: nat
  us_global_in_flight :: nat
  us_global_response_bytes :: nat
  us_principal_records :: nat
  us_principal_in_flight :: nat
  us_principal_response_bytes :: nat
  us_principal_count :: nat
  us_max_principal_records :: nat
  us_max_principal_in_flight :: nat
  us_max_principal_response_bytes :: nat
  us_at_80 :: nat
  us_at_90 :: nat
  us_at_100 :: nat

definition default_usage :: ledger_usage where
  "default_usage = \<lparr>us_global_records = 0, us_global_in_flight = 0, us_global_response_bytes = 0,
     us_principal_records = 0, us_principal_in_flight = 0, us_principal_response_bytes = 0,
     us_principal_count = 0, us_max_principal_records = 0, us_max_principal_in_flight = 0,
     us_max_principal_response_bytes = 0, us_at_80 = 0, us_at_90 = 0, us_at_100 = 0\<rparr>"

section \<open>States\<close>

datatype idem_state = Claimed | Running | Completed | Indeterminate

definition in_flight :: "idem_state \<Rightarrow> bool" where
  "in_flight s = (s = Claimed \<or> s = Running)"

definition terminal :: "idem_state \<Rightarrow> bool" where
  "terminal s = (\<not> in_flight s)"

fun show_state :: "idem_state \<Rightarrow> string" where
  "show_state Claimed = ''claimed''"
| "show_state Running = ''running''"
| "show_state Completed = ''completed''"
| "show_state Indeterminate = ''indeterminate''"

definition parse_state :: "string \<Rightarrow> (iron_error, idem_state) result" where
  "parse_state s =
    (if s = ''claimed'' then Inr Claimed
     else if s = ''running'' then Inr Running
     else if s = ''completed'' then Inr Completed
     else if s = ''indeterminate'' then Inr Indeterminate
     else Inl (Validation (''Unknown idempotency state '' @ quoted s)))"

section \<open>Records\<close>

record idem_record =
  key_hash :: string
  principal_id :: principal_id
  request_fingerprint :: string
  operation :: string
  scope :: string
  resource_id :: string
  exclusive_scope :: "string option"
  attempt_id :: string
  owner_instance_id :: string
  base_revision :: "nat option"
  state :: idem_state
  response_status :: "nat option"
  response_body :: "string option"
  lease_expires_at :: string
  created_at :: string
  updated_at :: string
  completed_at :: "string option"
  expires_at :: "string option"
  ttl_seconds :: nat

definition max_ttl_seconds :: nat where
  "max_ttl_seconds = 2592000"

definition hard_response_bytes :: nat where
  "hard_response_bytes = 67108864"

definition validate_optional :: "('a \<Rightarrow> (iron_error, unit) result) \<Rightarrow> 'a option \<Rightarrow> (iron_error, unit) result" where
  "validate_optional f x = (case x of None \<Rightarrow> Inr () | Some v \<Rightarrow> f v)"

definition validate_record :: "rfc3339 \<Rightarrow> idem_record \<Rightarrow> (iron_error, unit) result" where
  "validate_record parse r =
    and_then (validate_digest ''idempotency key hash'' (key_hash r)) (\<lambda>_.
    and_then (validate_principal_id (principal_id r)) (\<lambda>_.
    and_then (validate_digest ''request fingerprint'' (request_fingerprint r)) (\<lambda>_.
    and_then (validate_operation (operation r)) (\<lambda>_.
    and_then (validate_bounded_printable ''idempotency scope'' (scope r) 512) (\<lambda>_.
    and_then (validate_bounded_printable ''idempotency resource id'' (resource_id r) 128) (\<lambda>_.
    and_then (validate_optional (\<lambda>s. validate_bounded_printable ''idempotency exclusive scope'' s 512)
        (exclusive_scope r)) (\<lambda>_.
    and_then (validate_bounded_printable ''idempotency attempt id'' (attempt_id r) 128) (\<lambda>_.
    and_then (validate_bounded_printable ''idempotency owner instance id'' (owner_instance_id r) 255) (\<lambda>_.
    and_then (ensure (\<not> (operation r = conversation_message_operation \<and> base_revision r = None))
        (Validation ''Conversation idempotency records require a base revision'')) (\<lambda>_.
    and_then (if in_flight (state r) \<or> lease_expires_at r \<noteq> []
        then validate_timestamp parse ''idempotency lease expiry'' (lease_expires_at r) else Inr ()) (\<lambda>_.
    and_then (validate_timestamp parse ''idempotency creation time'' (created_at r)) (\<lambda>_.
    and_then (validate_timestamp parse ''idempotency update time'' (updated_at r)) (\<lambda>_.
    and_then (validate_optional (validate_timestamp parse ''idempotency completion time'') (completed_at r)) (\<lambda>_.
    and_then (validate_optional (validate_timestamp parse ''idempotency retention expiry'') (expires_at r)) (\<lambda>_.
    and_then (ensure (\<not> (ttl_seconds r = 0 \<or> max_ttl_seconds < ttl_seconds r))
        (Validation (''Idempotency TTL must be 1..='' @ dec max_ttl_seconds @ '' seconds''))) (\<lambda>_.
    and_then (ensure (\<not> (response_body r \<noteq> None \<and> response_status r = None))
        (Validation ''Stored idempotency response body has no HTTP status'')) (\<lambda>_.
    and_then (ensure (case response_body r of None \<Rightarrow> True | Some body \<Rightarrow> length body \<le> hard_response_bytes)
        (Validation ''Stored idempotency response body exceeds the hard byte limit'')) (\<lambda>_.
    and_then (ensure (\<not> (in_flight (state r) \<and> expires_at r \<noteq> None))
        (Validation ''In-flight idempotency records must not have a retention expiry'')) (\<lambda>_.
    ensure (\<not> (terminal (state r) \<and> (completed_at r = None \<or> expires_at r = None)))
        (Validation ''Terminal idempotency records require completion and retention timestamps''))))))))))))))))))))"

definition replayable :: "idem_record \<Rightarrow> bool" where
  "replayable r = ((state r = Running \<or> state r = Completed) \<and> response_status r \<noteq> None \<and> response_body r \<noteq> None)"

section \<open>Claims and completions\<close>

record idem_claim =
  cl_key_hash :: string
  cl_principal_id :: principal_id
  cl_recovery_key_hash :: "string option"
  cl_request_fingerprint :: string
  cl_operation :: string
  cl_scope :: string
  cl_resource_id :: string
  cl_exclusive_scope :: "string option"
  cl_attempt_id :: string
  cl_owner_instance_id :: string
  cl_base_revision :: "nat option"
  cl_response_status :: "nat option"
  cl_response_body :: "string option"
  cl_max_total_response_bytes :: nat
  cl_lease_expires_at :: string
  cl_created_at :: string
  cl_ttl_seconds :: nat

definition to_record :: "idem_claim \<Rightarrow> idem_record" where
  "to_record c = \<lparr>key_hash = cl_key_hash c, principal_id = cl_principal_id c,
     request_fingerprint = cl_request_fingerprint c, operation = cl_operation c, scope = cl_scope c,
     resource_id = cl_resource_id c, exclusive_scope = cl_exclusive_scope c, attempt_id = cl_attempt_id c,
     owner_instance_id = cl_owner_instance_id c, base_revision = cl_base_revision c, state = Claimed,
     response_status = cl_response_status c, response_body = cl_response_body c,
     lease_expires_at = cl_lease_expires_at c, created_at = cl_created_at c, updated_at = cl_created_at c,
     completed_at = None, expires_at = None, ttl_seconds = cl_ttl_seconds c\<rparr>"

definition validate_claim :: "rfc3339 \<Rightarrow> idem_claim \<Rightarrow> (iron_error, unit) result" where
  "validate_claim parse c =
    and_then (validate_record parse (to_record c)) (\<lambda>_.
    and_then (ensure (cl_max_total_response_bytes c \<noteq> 0)
        (Validation ''Idempotency response-byte budget must be positive'')) (\<lambda>_.
    validate_optional (\<lambda>recovery.
      and_then (validate_digest ''idempotency recovery key hash'' recovery) (\<lambda>_.
      ensure (\<not> (cl_operation c \<noteq> conversation_message_operation \<or> cl_exclusive_scope c = None \<or>
            recovery = cl_key_hash c))
        (Validation ''An idempotency recovery key must name a different conversation-message key'')))
      (cl_recovery_key_hash c)))"

record idem_completion =
  cm_key_hash :: string
  cm_principal_id :: principal_id
  cm_request_fingerprint :: string
  cm_attempt_id :: string
  cm_owner_instance_id :: string
  cm_response_status :: nat
  cm_response_body :: "string option"
  cm_completed_at :: string
  cm_expires_at :: string

definition validate_completion :: "rfc3339 \<Rightarrow> idem_completion \<Rightarrow> (iron_error, unit) result" where
  "validate_completion parse c =
    and_then (validate_digest ''idempotency key hash'' (cm_key_hash c)) (\<lambda>_.
    and_then (validate_principal_id (cm_principal_id c)) (\<lambda>_.
    and_then (validate_digest ''request fingerprint'' (cm_request_fingerprint c)) (\<lambda>_.
    and_then (validate_bounded_printable ''idempotency attempt id'' (cm_attempt_id c) 128) (\<lambda>_.
    and_then (validate_bounded_printable ''idempotency owner instance id'' (cm_owner_instance_id c) 255) (\<lambda>_.
    and_then (ensure (100 \<le> cm_response_status c \<and> cm_response_status c \<le> 599)
        (Validation ''Idempotency completion has an invalid HTTP status'')) (\<lambda>_.
    and_then (validate_timestamp parse ''idempotency completion time'' (cm_completed_at c)) (\<lambda>_.
    validate_timestamp parse ''idempotency retention expiry'' (cm_expires_at c))))))))"

datatype idem_lookup =
    Miss | LookupReplay idem_record | LookupInProgress idem_record | LookupIndeterminate idem_record | LookupConflict

datatype quota_scope = GlobalScope | PrincipalScope

datatype quota_resource = Records | InFlight

datatype claim_outcome =
    ClaimClaimed idem_record | ClaimReplay idem_record | ClaimInProgress idem_record
  | ClaimIndeterminate idem_record | ClaimConflict | ClaimBusy
  | QuotaExceeded quota_scope quota_resource nat

record completion_outcome =
  co_replayable :: bool
  co_already_completed :: bool

section \<open>Lemmas\<close>

lemma ensure_Inr [simp]: "ensure b e = Inr u \<longleftrightarrow> b"
  by (simp add: ensure_def)

lemma in_flight_simps [simp]:
  "in_flight Claimed" "in_flight Running" "\<not> in_flight Completed" "\<not> in_flight Indeterminate"
  by (simp_all add: in_flight_def)

lemma in_flight_cases: "in_flight s \<Longrightarrow> (s = Claimed \<Longrightarrow> P) \<Longrightarrow> (s = Running \<Longrightarrow> P) \<Longrightarrow> P"
  by (auto simp: in_flight_def)

lemma parse_show_state: "parse_state (show_state s) = Inr s"
  by (cases s) (simp_all add: parse_state_def)

lemma parse_state_Inr: "parse_state text = Inr s \<Longrightarrow> text = show_state s"
  by (auto simp: parse_state_def split: if_splits)

text \<open>What a validated record satisfies, as one predicate.\<close>

definition is_time :: "rfc3339 \<Rightarrow> string \<Rightarrow> bool" where
  "is_time parse s = is_ok (parse s)"

definition record_ok :: "rfc3339 \<Rightarrow> idem_record \<Rightarrow> bool" where
  "record_ok parse r \<longleftrightarrow>
     valid_digest (key_hash r) \<and> valid_digest (principal_id r) \<and> valid_digest (request_fingerprint r) \<and>
     (operation r = run_operation \<or> operation r = conversation_message_operation) \<and>
     valid_printable 512 (scope r) \<and> valid_printable 128 (resource_id r) \<and>
     (case exclusive_scope r of None \<Rightarrow> True | Some s \<Rightarrow> valid_printable 512 s) \<and>
     valid_printable 128 (attempt_id r) \<and> valid_printable 255 (owner_instance_id r) \<and>
     (operation r = conversation_message_operation \<longrightarrow> base_revision r \<noteq> None) \<and>
     (in_flight (state r) \<or> lease_expires_at r \<noteq> [] \<longrightarrow> is_time parse (lease_expires_at r)) \<and>
     is_time parse (created_at r) \<and> is_time parse (updated_at r) \<and>
     (case completed_at r of None \<Rightarrow> True | Some s \<Rightarrow> is_time parse s) \<and>
     (case expires_at r of None \<Rightarrow> True | Some s \<Rightarrow> is_time parse s) \<and>
     0 < ttl_seconds r \<and> ttl_seconds r \<le> max_ttl_seconds \<and>
     (response_body r \<noteq> None \<longrightarrow> response_status r \<noteq> None) \<and>
     (case response_body r of None \<Rightarrow> True | Some body \<Rightarrow> length body \<le> hard_response_bytes) \<and>
     (in_flight (state r) \<longrightarrow> expires_at r = None) \<and>
     (terminal (state r) \<longrightarrow> completed_at r \<noteq> None \<and> expires_at r \<noteq> None)"

lemma validate_timestamp_Inr [simp]: "validate_timestamp parse lbl s = Inr u \<longleftrightarrow> is_time parse s"
  by (auto simp: validate_timestamp_def is_time_def is_ok_def split: sum.splits)

lemma validate_optional_Inr [simp]:
  "validate_optional f x = Inr u \<longleftrightarrow> (case x of None \<Rightarrow> True | Some v \<Rightarrow> f v = Inr ())"
  by (auto simp: validate_optional_def split: option.splits)

lemma if_Inr [simp]: "(if b then r else Inr ()) = Inr u \<longleftrightarrow> (b \<longrightarrow> r = Inr ())"
  by simp

lemma and_then_unit [simp]: "and_then r (\<lambda>_. k) = Inr u \<longleftrightarrow> r = Inr () \<and> k = Inr ()"
  by (cases r) simp_all

lemmas validators = validate_digest_def validate_principal_id_def validate_operation_def
  validate_bounded_printable_def

lemma validate_record_iff: "validate_record parse r = Inr u \<longleftrightarrow> record_ok parse r"
  unfolding validate_record_def record_ok_def validators and_then_unit if_Inr validate_optional_Inr
    validate_timestamp_Inr ensure_Inr
  by (simp only: de_Morgan_conj de_Morgan_disj not_not not_less imp_conv_disj neq0_conv conj_assoc)

lemma validate_record_ok [simp]: "is_ok (validate_record parse r) \<longleftrightarrow> record_ok parse r"
  using validate_record_iff [of parse r "()"] by (auto simp: is_ok_def split: sum.splits)

lemma to_record_simps [simp]:
  "state (to_record c) = Claimed" "key_hash (to_record c) = cl_key_hash c"
  "principal_id (to_record c) = cl_principal_id c" "exclusive_scope (to_record c) = cl_exclusive_scope c"
  "request_fingerprint (to_record c) = cl_request_fingerprint c" "expires_at (to_record c) = None"
  "attempt_id (to_record c) = cl_attempt_id c" "lease_expires_at (to_record c) = cl_lease_expires_at c"
  "response_body (to_record c) = cl_response_body c"
  by (simp_all add: to_record_def)

lemma hex_digit_inj: "a < 16 \<Longrightarrow> b < 16 \<Longrightarrow> hex_digit a = hex_digit b \<Longrightarrow> a = b"
proof -
  assume "a < 16" "b < 16" and eq: "hex_digit a = hex_digit b"
  moreover have "distinct ''0123456789abcdef''" by simp
  ultimately show ?thesis by (simp add: hex_digit_def nth_eq_iff_index_eq)
qed

lemma hex_digit_ok: "a < 16 \<Longrightarrow> is_lower_hex (hex_digit a)"
proof -
  assume "a < 16"
  then have "hex_digit a \<in> set ''0123456789abcdef''" unfolding hex_digit_def by (intro nth_mem) simp
  then show ?thesis by (auto simp: is_lower_hex_def is_ascii_digit_def byte_def)
qed

lemma byte_lt: "byte c < 256"
  by (simp add: byte_def)

lemma byte_inj: "byte c = byte d \<Longrightarrow> c = d"
  by (simp add: byte_def)

lemma hex_encode_inj: "hex_encode a = hex_encode b \<Longrightarrow> a = b"
proof (induction a arbitrary: b)
  case Nil
  then show ?case by (cases b) (simp_all add: hex_encode_def)
next
  case (Cons c a)
  then obtain d b' where b: "b = d # b'" by (cases b) (simp_all add: hex_encode_def)
  have lt: "byte x div 16 < 16" "byte x mod 16 < 16" for x using byte_lt [of x] by simp_all
  have "hex_digit (byte c div 16) = hex_digit (byte d div 16)" "hex_digit (byte c mod 16) = hex_digit (byte d mod 16)"
    "hex_encode a = hex_encode b'"
    using Cons.prems by (simp_all add: b hex_encode_def)
  then have "byte c div 16 = byte d div 16" "byte c mod 16 = byte d mod 16" "a = b'"
    using hex_digit_inj lt Cons.IH by blast+
  then show ?case using byte_inj b by (metis div_mult_mod_eq)
qed

lemma hex_encode_ok: "length (hex_encode b) = 2 * length b \<and> list_all is_lower_hex (hex_encode b)"
proof (induction b)
  case (Cons c b)
  have "byte c div 16 < 16" using byte_lt [of c] by simp
  with Cons show ?case by (simp add: hex_encode_def hex_digit_ok)
qed (simp add: hex_encode_def)

text \<open>The digests a label and the legacy identity are made of.\<close>

lemma principal_id_valid:
  assumes "\<And>x. length (sha x) = 32"
  shows "valid_digest (from_label sha lbl)" "valid_digest (legacy_principal sha)"
  using hex_encode_ok assms by (simp_all add: from_label_def legacy_principal_def from_domain_value_def valid_digest_def)

lemma from_label_inj:
  assumes "\<And>x y. sha x = sha y \<Longrightarrow> x = y"
  shows "from_label sha a = from_label sha b \<longleftrightarrow> a = b" "from_label sha a \<noteq> legacy_principal sha"
  using assms by (auto simp: from_label_def legacy_principal_def from_domain_value_def dest!: hex_encode_inj assms)

end
