(* ===== verification/Auth.thy ===== *)
theory Auth
  imports Admission Idempotency
begin

text \<open>
  \<open>src/src/api/auth.rs\<close>: the bearer-token policy parsed at startup, authentication of a request
  and the authentication middleware.

  \<open>ring\<close>'s SHA-256 and HMAC-SHA-256, and the \<open>http\<close> crate's header value conversions, are the
  fields of a \<open>crypto\<close> and a \<open>header_codec\<close> parameter. The JSON parser delivers the entries of the
  token map one key at a time, with the value read after the key, and then the error at its end,
  if any; \<open>visit_map\<close> is the repository's visitor over them.
\<close>

section \<open>Parameters\<close>

record crypto =
  sha256 :: "string \<Rightarrow> string"
  hmac_sign :: "string \<Rightarrow> string \<Rightarrow> string"
  hmac_verify :: "string \<Rightarrow> string \<Rightarrow> string \<Rightarrow> bool"

record header_codec =
  value_to_str :: "string \<Rightarrow> string option"
  value_from_str :: "string \<Rightarrow> string option"

text \<open>The documented behaviour: \<open>verify\<close> recomputes the tag; visible ASCII is a header value.\<close>

definition crypto_ok :: "crypto \<Rightarrow> bool" where
  "crypto_ok cr \<longleftrightarrow> (\<forall>key msg tag. hmac_verify cr key msg tag \<longleftrightarrow> tag = hmac_sign cr key msg)"

definition codec_ok :: "header_codec \<Rightarrow> bool" where
  "codec_ok h \<longleftrightarrow> (\<forall>s. list_all (\<lambda>c. 32 \<le> byte c \<and> byte c < 127) s \<longrightarrow>
     value_from_str h s = Some s \<and> value_to_str h s = Some s)"

record token_map_source =
  tm_entries :: "(string \<times> (string, json) result) list"
  tm_end :: "string option"

section \<open>Principals and credentials\<close>

record principal =
  pr_id :: principal_id
  pr_name :: string
  pr_authenticated :: bool

definition authenticated_principal :: "string \<Rightarrow> principal_id \<Rightarrow> principal" where
  "authenticated_principal name i = \<lparr>pr_id = i, pr_name = name, pr_authenticated = True\<rparr>"

definition anonymous :: "crypto \<Rightarrow> principal" where
  "anonymous cr = \<lparr>pr_id = anonymous_principal (sha256 cr), pr_name = ''anonymous'', pr_authenticated = False\<rparr>"

record credential =
  cr_principal :: principal
  cr_token_digest :: string

record auth_config =
  credentials :: "credential list"

definition disabled :: auth_config where
  "disabled = \<lparr>credentials = []\<rparr>"

definition is_configured :: "auth_config \<Rightarrow> bool" where
  "is_configured cfg = (credentials cfg \<noteq> [])"

definition principal_count :: "auth_config \<Rightarrow> nat" where
  "principal_count cfg = length (credentials cfg)"

section \<open>Validation\<close>

definition valid_token_bytes :: "string \<Rightarrow> bool" where
  "valid_token_bytes token =
     (32 \<le> length token \<and> length token \<le> 4096 \<and> list_all (\<lambda>c. 33 \<le> byte c \<and> byte c \<le> 126) token)"

definition validate_token :: "string \<Rightarrow> string \<Rightarrow> (iron_error, unit) result" where
  "validate_token lbl token =
     ensure (valid_token_bytes token)
       (Validation (lbl @ '' must be 32-4096 visible ASCII bytes without spaces''))"

definition principal_char :: "char \<Rightarrow> bool" where
  "principal_char c = (is_ascii_alphanumeric c \<or> c \<in> set ''._:@-'')"

definition valid_principal :: "string \<Rightarrow> bool" where
  "valid_principal name = (length name \<le> 128 \<and>
     (case name of [] \<Rightarrow> False | c # rest \<Rightarrow> is_ascii_alphanumeric c \<and> list_all principal_char rest))"

definition validate_principal :: "string \<Rightarrow> (iron_error, unit) result" where
  "validate_principal name =
     ensure (valid_principal name)
       (Validation ''API principal must be 1-128 ASCII bytes, start with an alphanumeric character, and contain only alphanumerics or ._:@-'')"

definition token_digest :: "crypto \<Rightarrow> string \<Rightarrow> string" where
  "token_digest cr token = sha256 cr token"

definition comparison_key :: string where
  "comparison_key = ''ironcrew-api-token-constant-time-comparison''"

definition constant_time_digest_eq :: "crypto \<Rightarrow> string \<Rightarrow> string \<Rightarrow> bool" where
  "constant_time_digest_eq cr supplied expected =
     hmac_verify cr comparison_key supplied (hmac_sign cr comparison_key expected)"

section \<open>Configuration\<close>

fun visit_map :: "(string \<times> (string, json) result) list \<Rightarrow> string option \<Rightarrow> string set \<Rightarrow> (string \<times> json) list \<Rightarrow>
    (string, (string \<times> json) list) result" where
  "visit_map [] finish seen acc = (case finish of None \<Rightarrow> Inr acc | Some e \<Rightarrow> Inl e)"
| "visit_map ((name, v) # rest) finish seen acc =
    (if name \<in> seen then Inl (''duplicate API principal '' @ quoted name)
     else (case v of
         Inl e \<Rightarrow> Inl e
       | Inr val \<Rightarrow> visit_map rest finish (insert name seen) (acc @ [(name, val)])))"

definition max_token_map_bytes :: nat where
  "max_token_map_bytes = 2097152"

definition legacy_credential :: "crypto \<Rightarrow> string option \<Rightarrow> string \<Rightarrow> (iron_error, credential) result" where
  "legacy_credential cr legacy_name token =
     and_then (validate_token ''IRONCREW_API_TOKEN'' token) (\<lambda>_.
     and_then (case legacy_name of
         Some name \<Rightarrow> and_then (validate_principal name) (\<lambda>_. Inr (name, from_label (sha256 cr) name))
       | None \<Rightarrow> Inr (''default'', legacy_principal (sha256 cr))) (\<lambda>(name, i).
     Inr \<lparr>cr_principal = authenticated_principal name i, cr_token_digest = token_digest cr token\<rparr>))"

definition map_credential :: "crypto \<Rightarrow> string \<times> json \<Rightarrow> (iron_error, credential) result" where
  "map_credential cr e = (case e of (name, v) \<Rightarrow>
     and_then (validate_principal name) (\<lambda>_.
     and_then (case v of JString t \<Rightarrow> Inr t
         | _ \<Rightarrow> Inl (Validation (''IRONCREW_API_TOKENS entry '' @ quoted name @ '' must be a string''))) (\<lambda>token.
     and_then (validate_token ''IRONCREW_API_TOKENS bearer token'' token) (\<lambda>_.
     Inr \<lparr>cr_principal = authenticated_principal name (from_label (sha256 cr) name),
          cr_token_digest = token_digest cr token\<rparr>))))"

fun collect :: "('a \<Rightarrow> ('e, 'b) result) \<Rightarrow> 'a list \<Rightarrow> ('e, 'b list) result" where
  "collect f [] = Inr []"
| "collect f (x # xs) = and_then (f x) (\<lambda>y. and_then (collect f xs) (\<lambda>ys. Inr (y # ys)))"

definition map_credentials :: "crypto \<Rightarrow> (string \<Rightarrow> token_map_source) \<Rightarrow> string \<Rightarrow> (iron_error, credential list) result" where
  "map_credentials cr parse raw =
    (if max_token_map_bytes < length raw
     then Inl (Validation (''IRONCREW_API_TOKENS exceeds the '' @ dec max_token_map_bytes @ ''-byte configuration limit''))
     else case visit_map (tm_entries (parse raw)) (tm_end (parse raw)) {} [] of
         Inl e \<Rightarrow> Inl (Validation (''IRONCREW_API_TOKENS must be a JSON object of principal-to-token strings: '' @ e))
       | Inr entries \<Rightarrow>
          (if entries = [] then Inl (Validation ''IRONCREW_API_TOKENS must contain at least one principal'')
           else collect (map_credential cr) entries))"

fun check_unique :: "string set \<Rightarrow> string set \<Rightarrow> credential list \<Rightarrow> (iron_error, unit) result" where
  "check_unique principals tokens [] = Inr ()"
| "check_unique principals tokens (c # cs) =
    (if pr_name (cr_principal c) \<in> principals
     then Inl (Validation (''Duplicate API principal '' @ quoted (pr_name (cr_principal c))))
     else if cr_token_digest c \<in> tokens
     then Inl (Validation ''The same API bearer token cannot be assigned to multiple principals'')
     else check_unique (insert (pr_name (cr_principal c)) principals) (insert (cr_token_digest c) tokens) cs)"

definition from_sources :: "crypto \<Rightarrow> (string \<Rightarrow> token_map_source) \<Rightarrow> string option \<Rightarrow> string option \<Rightarrow> string option \<Rightarrow>
    (iron_error, auth_config) result" where
  "from_sources cr parse legacy_token legacy_name token_map =
    (if legacy_name \<noteq> None \<and> legacy_token = None
     then Inl (Validation ''IRONCREW_API_PRINCIPAL requires IRONCREW_API_TOKEN'')
     else
       and_then (case legacy_token of None \<Rightarrow> Inr []
           | Some token \<Rightarrow> and_then (legacy_credential cr legacy_name token) (\<lambda>c. Inr [c])) (\<lambda>first.
       and_then (case token_map of None \<Rightarrow> Inr [] | Some raw \<Rightarrow> map_credentials cr parse raw) (\<lambda>rest.
       let creds = first @ rest in
       if 256 < length creds then Inl (Validation ''At most 256 API bearer tokens may be configured'')
       else and_then (check_unique {} {} creds) (\<lambda>_. Inr \<lparr>credentials = creds\<rparr>))))"

definition read_optional_env :: "env \<Rightarrow> string \<Rightarrow> (iron_error, string option) result" where
  "read_optional_env env name = (case env name of
     Present v \<Rightarrow> Inr (Some v) | NotPresent \<Rightarrow> Inr None
   | NotUnicode \<Rightarrow> Inl (Validation (name @ '' must contain valid UTF-8'')))"

definition auth_from_env :: "crypto \<Rightarrow> (string \<Rightarrow> token_map_source) \<Rightarrow> env \<Rightarrow> (iron_error, auth_config) result" where
  "auth_from_env cr parse env =
     and_then (read_optional_env env ''IRONCREW_API_TOKEN'') (\<lambda>legacy_token.
     and_then (read_optional_env env ''IRONCREW_API_PRINCIPAL'') (\<lambda>legacy_name.
     and_then (read_optional_env env ''IRONCREW_API_TOKENS'') (\<lambda>token_map.
     from_sources cr parse legacy_token legacy_name token_map)))"

section \<open>Authentication\<close>

datatype auth_failure = Missing | InvalidScheme | InvalidToken

fun failure_message :: "auth_failure \<Rightarrow> string" where
  "failure_message Missing = ''Missing Authorization header''"
| "failure_message InvalidScheme = ''Invalid Authorization scheme''"
| "failure_message InvalidToken = ''Invalid token''"

definition matched :: "crypto \<Rightarrow> string \<Rightarrow> credential list \<Rightarrow> principal option" where
  "matched cr supplied creds =
     foldl (\<lambda>m c. if constant_time_digest_eq cr supplied (cr_token_digest c) then Some (cr_principal c) else m) None creds"

definition authenticate :: "crypto \<Rightarrow> header_codec \<Rightarrow> auth_config \<Rightarrow> (string \<times> string) list \<Rightarrow> (auth_failure, principal) result" where
  "authenticate cr codec cfg headers =
    (if \<not> is_configured cfg then Inr (anonymous cr)
     else case Option.bind (map_of headers ''authorization'') (value_to_str codec) of
         None \<Rightarrow> Inl Missing
       | Some v \<Rightarrow>
          (case splitn_on 2 (CHR '' '') v of
             [scheme, token] \<Rightarrow>
               (if \<not> eq_ignore_ascii_case scheme ''Bearer'' \<or> token = [] then Inl InvalidScheme
                else if \<not> valid_token_bytes token then Inl InvalidToken
                else (case matched cr (token_digest cr token) (credentials cfg) of
                    Some p \<Rightarrow> Inr p | None \<Rightarrow> Inl InvalidToken))
           | _ \<Rightarrow> Inl InvalidScheme))"

record http_request = request +
  rq_headers :: "(string \<times> string) list"
  rq_principal :: "principal option"

definition headers_insert :: "string \<Rightarrow> string \<Rightarrow> (string \<times> string) list \<Rightarrow> (string \<times> string) list" where
  "headers_insert k v hs = (k, v) # filter (\<lambda>(n, _). n \<noteq> k) hs"

definition unauthorized_response :: "auth_failure \<Rightarrow> response" where
  "unauthorized_response e = \<lparr>rs_status = 401,
     rs_headers = [(''content-type'', ''application/json''), (''cache-control'', ''no-store'')],
     rs_body = JObject [(''error'', JString (failure_message e))]\<rparr>"

text \<open>What the middleware hands on: a response of its own, the request for the next layer, or a panic.\<close>

datatype 'r layer = Respond response | Forward 'r | Panicked

definition bearer_auth :: "crypto \<Rightarrow> header_codec \<Rightarrow> auth_config \<Rightarrow> http_request \<Rightarrow> http_request layer" where
  "bearer_auth cr codec cfg request =
    (case authenticate cr codec cfg (rq_headers request) of
       Inl e \<Rightarrow> Respond (unauthorized_response e)
     | Inr p \<Rightarrow>
        (if pr_authenticated p then
           (case value_from_str codec (pr_name p) of
              None \<Rightarrow> Panicked
            | Some v \<Rightarrow> Forward (request\<lparr>rq_headers := headers_insert ''x-audit-actor'' v (rq_headers request),
                  rq_principal := Some p\<rparr>))
         else Forward (request\<lparr>rq_principal := Some p\<rparr>)))"

section \<open>Lemmas on the configuration\<close>

lemma collect_Inr_set: "collect f xs = Inr ys \<Longrightarrow> y \<in> set ys \<Longrightarrow> \<exists>x \<in> set xs. f x = Inr y"
  by (induction xs arbitrary: ys) (auto simp: and_then_Inr_iff)

lemma check_unique_Inr:
  "check_unique ps ts cs = Inr u \<Longrightarrow>
     distinct (map (pr_name \<circ> cr_principal) cs) \<and> distinct (map cr_token_digest cs) \<and>
     ps \<inter> (pr_name \<circ> cr_principal) ` set cs = {} \<and> ts \<inter> cr_token_digest ` set cs = {}"
  by (induction cs arbitrary: ps ts) (fastforce split: if_splits)+

definition credential_ok :: "crypto \<Rightarrow> credential \<Rightarrow> bool" where
  "credential_ok cr c \<longleftrightarrow> valid_principal (pr_name (cr_principal c)) \<and> pr_authenticated (cr_principal c) \<and>
     (\<exists>token. valid_token_bytes token \<and> cr_token_digest c = token_digest cr token)"

lemma legacy_credential_ok: "legacy_credential cr n token = Inr c \<Longrightarrow> credential_ok cr c"
proof -
  have "valid_principal ''default''"
    by (simp add: valid_principal_def principal_char_def is_ascii_alphanumeric_def byte_def)
  then show "legacy_credential cr n token = Inr c \<Longrightarrow> credential_ok cr c"
    by (auto simp: legacy_credential_def credential_ok_def and_then_Inr_iff validate_token_def
        validate_principal_def authenticated_principal_def split: option.splits)
qed

lemma map_credential_ok: "map_credential cr e = Inr c \<Longrightarrow> credential_ok cr c"
  by (cases e) (auto simp: map_credential_def credential_ok_def and_then_Inr_iff validate_token_def
      validate_principal_def authenticated_principal_def split: json.splits)

lemma map_credentials_ok: "map_credentials cr parse raw = Inr cs \<Longrightarrow> c \<in> set cs \<Longrightarrow> credential_ok cr c"
  by (auto simp: map_credentials_def split: if_splits sum.splits dest!: collect_Inr_set dest: map_credential_ok)

lemma from_sources_Inr:
  assumes "from_sources cr parse lt ln tm = Inr cfg"
  shows "distinct (map (pr_name \<circ> cr_principal) (credentials cfg))"
    "distinct (map cr_token_digest (credentials cfg))"
    "length (credentials cfg) \<le> 256" "c \<in> set (credentials cfg) \<Longrightarrow> credential_ok cr c"
  using assms
  by (auto simp: from_sources_def and_then_Inr_iff Let_def split: if_splits option.splits
      dest: check_unique_Inr legacy_credential_ok map_credentials_ok)

lemma valid_principal_visible:
  "valid_principal name \<Longrightarrow> list_all (\<lambda>c. 32 \<le> byte c \<and> byte c < 127) name"
  by (cases name) (auto simp: valid_principal_def list_all_iff principal_char_def is_ascii_alphanumeric_def
      is_ascii_digit_def byte_def)

section \<open>Lemmas on the matching loop\<close>

lemma matched_snoc:
  "matched cr d (cs @ [c]) =
     (if constant_time_digest_eq cr d (cr_token_digest c) then Some (cr_principal c) else matched cr d cs)"
  by (simp add: matched_def)

lemma matched_Some:
  "matched cr d cs = Some p \<Longrightarrow> \<exists>c \<in> set cs. constant_time_digest_eq cr d (cr_token_digest c) \<and> cr_principal c = p"
  by (induction cs rule: rev_induct) (auto simp: matched_snoc matched_def split: if_splits)

lemma matched_unique:
  assumes "c \<in> set cs" "\<And>x. x \<in> set cs \<Longrightarrow> constant_time_digest_eq cr d (cr_token_digest x) \<longleftrightarrow> x = c"
  shows "matched cr d cs = Some (cr_principal c)"
  using assms
proof (induction cs rule: rev_induct)
  case (snoc x cs)
  then show ?case by (cases "x = c") (auto simp: matched_snoc)
qed simp

text \<open>
  No collision among the digests compared: the tag of the supplied digest and the tag of a
  configured one agree only for equal digests.
\<close>

definition no_collision :: "crypto \<Rightarrow> auth_config \<Rightarrow> string \<Rightarrow> bool" where
  "no_collision cr cfg token \<longleftrightarrow> (\<forall>c \<in> set (credentials cfg).
     hmac_sign cr comparison_key (token_digest cr token) = hmac_sign cr comparison_key (cr_token_digest c) \<longrightarrow>
     token_digest cr token = cr_token_digest c)"

lemma constant_time_exact:
  "crypto_ok cr \<Longrightarrow> no_collision cr cfg token \<Longrightarrow> c \<in> set (credentials cfg) \<Longrightarrow>
     constant_time_digest_eq cr (token_digest cr token) (cr_token_digest c) \<longleftrightarrow> token_digest cr token = cr_token_digest c"
  by (auto simp: constant_time_digest_eq_def crypto_ok_def no_collision_def)

lemma distinct_map_eq: "distinct (map f xs) \<Longrightarrow> x \<in> set xs \<Longrightarrow> y \<in> set xs \<Longrightarrow> f x = f y \<Longrightarrow> x = y"
  by (auto simp: distinct_map inj_on_def)

lemma matched_iff:
  assumes "from_sources cr parse lt ln tm = Inr cfg" "crypto_ok cr" "no_collision cr cfg token"
  shows "matched cr (token_digest cr token) (credentials cfg) = Some p \<longleftrightarrow>
    (\<exists>c \<in> set (credentials cfg). cr_token_digest c = token_digest cr token \<and> cr_principal c = p)"
proof
  assume "matched cr (token_digest cr token) (credentials cfg) = Some p"
  then show "\<exists>c \<in> set (credentials cfg). cr_token_digest c = token_digest cr token \<and> cr_principal c = p"
    using matched_Some constant_time_exact [OF assms(2,3)] by metis
next
  assume "\<exists>c \<in> set (credentials cfg). cr_token_digest c = token_digest cr token \<and> cr_principal c = p"
  then obtain c where c: "c \<in> set (credentials cfg)" "cr_token_digest c = token_digest cr token" "cr_principal c = p"
    by blast
  then have "matched cr (token_digest cr token) (credentials cfg) = Some (cr_principal c)"
    using constant_time_exact [OF assms(2,3)] distinct_map_eq [OF from_sources_Inr(2) [OF assms(1)]]
    by (intro matched_unique) metis+
  then show "matched cr (token_digest cr token) (credentials cfg) = Some p" using c by simp
qed

lemma splitn_scheme:
  "CHR '' '' \<notin> set scheme \<Longrightarrow> splitn_on 2 (CHR '' '') (scheme @ CHR '' '' # token) = [scheme, token]"
proof -
  assume sp: "CHR '' '' \<notin> set scheme"
  then have "dropWhile (\<lambda>c. c \<noteq> CHR '' '') (scheme @ CHR '' '' # token) = CHR '' '' # token"
    "takeWhile (\<lambda>c. c \<noteq> CHR '' '') (scheme @ CHR '' '' # token) = scheme"
    by (induction scheme) auto
  then show ?thesis by (simp add: numeral_2_eq_2)
qed

section \<open>Properties\<close>

text \<open>
  C15. A configuration the server accepts maps bearer tokens to principals one to one: names and
  token digests are distinct, there are at most 256, and every credential comes from a valid
  name and a valid token. A request \<open>scheme token\<close> is then authenticated exactly as the principal
  whose configured token has the supplied token's digest, with any spelling of \<open>Bearer\<close>, and every
  other token is refused. The hypotheses on the cryptography are \<open>crypto_ok\<close>, the documented
  meaning of \<open>verify\<close>, and \<open>no_collision\<close> of the compared tags.\<close>

theorem auth_tokens_identify_principals:
  assumes "from_sources cr parse legacy_token legacy_name token_map = Inr cfg" and "is_configured cfg"
    and "crypto_ok cr" and "no_collision cr cfg token"
    and "Option.bind (map_of headers ''authorization'') (value_to_str codec) = Some (scheme @ CHR '' '' # token)"
    and "CHR '' '' \<notin> set scheme" and "eq_ignore_ascii_case scheme ''Bearer''"
  shows "distinct (map (pr_name \<circ> cr_principal) (credentials cfg)) \<and>
    distinct (map cr_token_digest (credentials cfg)) \<and> principal_count cfg \<le> 256 \<and>
    list_all (credential_ok cr) (credentials cfg) \<and>
    (\<forall>p. authenticate cr codec cfg headers = Inr p \<longleftrightarrow> valid_token_bytes token \<and>
      (\<exists>c \<in> set (credentials cfg). cr_token_digest c = token_digest cr token \<and> cr_principal c = p)) \<and>
    (\<forall>e. authenticate cr codec cfg headers = Inl e \<longrightarrow> e = (if token = [] then InvalidScheme else InvalidToken))"
proof -
  have "authenticate cr codec cfg headers =
      (if token = [] then Inl InvalidScheme else if \<not> valid_token_bytes token then Inl InvalidToken
       else case matched cr (token_digest cr token) (credentials cfg) of Some p \<Rightarrow> Inr p | None \<Rightarrow> Inl InvalidToken)"
    using assms(2,5,7) splitn_scheme [OF assms(6)] by (simp add: authenticate_def)
  moreover have "valid_token_bytes token \<Longrightarrow> token \<noteq> []" by (auto simp: valid_token_bytes_def)
  ultimately have "authenticate cr codec cfg headers = Inr p \<longleftrightarrow> valid_token_bytes token \<and>
      matched cr (token_digest cr token) (credentials cfg) = Some p"
    "authenticate cr codec cfg headers = Inl e \<Longrightarrow> e = (if token = [] then InvalidScheme else InvalidToken)" for p e
    by (auto split: if_splits option.splits)
  then show ?thesis
    using from_sources_Inr [OF assms(1)] matched_iff [OF assms(1,3,4)]
    by (auto simp: principal_count_def list_all_iff)
qed

definition demo_token :: string where
  "demo_token = replicate 32 (CHR ''t'')"

definition demo_crypto :: crypto where
  "demo_crypto = \<lparr>sha256 = (\<lambda>x. x), hmac_sign = (\<lambda>k m. k @ m), hmac_verify = (\<lambda>k m t. t = k @ m)\<rparr>"

definition demo_codec :: header_codec where
  "demo_codec = \<lparr>value_to_str = Some, value_from_str = Some\<rparr>"

definition demo_parse :: "string \<Rightarrow> token_map_source" where
  "demo_parse raw = \<lparr>tm_entries = [], tm_end = None\<rparr>"

definition demo_config :: auth_config where
  "demo_config = \<lparr>credentials = [\<lparr>cr_principal = authenticated_principal ''default'' (legacy_principal (sha256 demo_crypto)),
     cr_token_digest = demo_token\<rparr>]\<rparr>"

lemma demo_valid_token: "valid_token_bytes demo_token"
  by (simp add: valid_token_bytes_def demo_token_def list_all_iff byte_def)

lemma demo_config: "from_sources demo_crypto demo_parse (Some demo_token) None None = Inr demo_config"
  by (simp add: from_sources_def legacy_credential_def validate_token_def demo_valid_token ensure_def
      demo_config_def Let_def token_digest_def demo_crypto_def)

lemma demo_crypto_ok: "crypto_ok demo_crypto" "no_collision demo_crypto cfg token"
  by (simp_all add: crypto_ok_def no_collision_def demo_crypto_def)

theorem auth_tokens_identify_principals_witness:
  "authenticate demo_crypto demo_codec demo_config [(''authorization'', ''bEARER '' @ demo_token)] =
     Inr (authenticated_principal ''default'' (legacy_principal (sha256 demo_crypto)))"
proof -
  have scheme: "eq_ignore_ascii_case ''bEARER'' ''Bearer''"
    by (simp add: eq_ignore_ascii_case_def to_ascii_lowercase_def byte_def char_of_def bit_iff_odd)
  show ?thesis
    using auth_tokens_identify_principals [OF demo_config _ demo_crypto_ok(1) demo_crypto_ok(2),
        of "[(''authorization'', ''bEARER '' @ demo_token)]" demo_codec "''bEARER''" demo_token] scheme demo_valid_token
    by (auto simp: demo_config_def is_configured_def demo_codec_def token_digest_def demo_crypto_def)
qed

text \<open>
  Identity cannot be spoofed: with authentication configured, a request that passes the
  middleware carries exactly one \<open>X-Audit-Actor\<close> header, the name of the principal its token
  authenticated, whatever the caller sent; its other headers, method and path are untouched; the
  forwarded principal is the authenticated one; and the header conversion never panics.\<close>

theorem audit_actor_unspoofable:
  assumes "from_sources cr parse legacy_token legacy_name token_map = Inr cfg" and "is_configured cfg"
    and "codec_ok codec"
  shows "case bearer_auth cr codec cfg request of
      Panicked \<Rightarrow> False
    | Respond r \<Rightarrow> rs_status r = 401 \<and> \<not> is_ok (authenticate cr codec cfg (rq_headers request))
    | Forward q \<Rightarrow> (\<exists>p. authenticate cr codec cfg (rq_headers request) = Inr p \<and> pr_authenticated p \<and>
        rq_principal q = Some p \<and>
        filter (\<lambda>(n, _). n = ''x-audit-actor'') (rq_headers q) = [(''x-audit-actor'', pr_name p)] \<and>
        filter (\<lambda>(n, _). n \<noteq> ''x-audit-actor'') (rq_headers q) = filter (\<lambda>(n, _). n \<noteq> ''x-audit-actor'') (rq_headers request) \<and>
        rq_method q = rq_method request \<and> rq_path q = rq_path request)"
proof (cases "authenticate cr codec cfg (rq_headers request)")
  case (Inl e)
  then show ?thesis by (simp add: bearer_auth_def unauthorized_response_def is_ok_def)
next
  case (Inr p)
  then have "\<exists>d. matched cr d (credentials cfg) = Some p"
    using assms(2) by (auto simp: authenticate_def split: option.splits list.splits if_splits)
  then obtain c where "c \<in> set (credentials cfg)" "cr_principal c = p" using matched_Some by metis
  then have p: "valid_principal (pr_name p)" "pr_authenticated p"
    using from_sources_Inr(4) [OF assms(1)] by (auto simp: credential_ok_def)
  then have v: "value_from_str codec (pr_name p) = Some (pr_name p)"
    using assms(3) valid_principal_visible by (simp add: codec_ok_def)
  have "filter (\<lambda>(n, _). n = k) (filter (\<lambda>(n, _). n \<noteq> k) hs) = []" for k :: string and hs :: "(string \<times> string) list"
    by (induction hs) auto
  moreover have "filter (\<lambda>(n, _). n \<noteq> k) (filter (\<lambda>(n, _). n \<noteq> k) hs) = filter (\<lambda>(n, _). n \<noteq> k) hs"
    for k :: string and hs :: "(string \<times> string) list"
    by (induction hs) auto
  ultimately show ?thesis using Inr p v by (simp add: bearer_auth_def headers_insert_def)
qed

theorem audit_actor_unspoofable_witness:
  "\<exists>q. bearer_auth demo_crypto demo_codec demo_config \<lparr>rq_method = POST, rq_path = ''/flows'',
       rq_headers = [(''x-audit-actor'', ''root''), (''authorization'', ''Bearer '' @ demo_token)], rq_principal = None\<rparr> = Forward q
     \<and> filter (\<lambda>(n, _). n = ''x-audit-actor'') (rq_headers q) = [(''x-audit-actor'', ''default'')]"
proof -
  let ?q = "\<lparr>rq_method = POST, rq_path = ''/flows'',
     rq_headers = [(''x-audit-actor'', ''root''), (''authorization'', ''Bearer '' @ demo_token)], rq_principal = None\<rparr>"
  have "matched demo_crypto demo_token (credentials demo_config) = Some (cr_principal (hd (credentials demo_config)))"
    by (simp add: matched_def demo_config_def constant_time_digest_eq_def demo_crypto_def)
  then have a: "authenticate demo_crypto demo_codec demo_config (rq_headers ?q) = Inr (cr_principal (hd (credentials demo_config)))"
    using splitn_scheme [of "''Bearer''" demo_token] demo_valid_token
    by (auto simp: authenticate_def is_configured_def demo_codec_def token_digest_def demo_config_def
        demo_crypto_def eq_ignore_ascii_case_def valid_token_bytes_def)
  have "is_configured demo_config" "codec_ok demo_codec"
    by (simp_all add: is_configured_def demo_config_def codec_ok_def demo_codec_def)
  then show ?thesis
    using audit_actor_unspoofable [OF demo_config, of demo_codec ?q] a
    by (auto simp: bearer_auth_def demo_codec_def demo_config_def authenticated_principal_def split: layer.splits)
qed

end
