(* ===== verification/Lifecycle.thy ===== *)
theory Lifecycle
  imports Auth
begin

text \<open>
  \<open>src/src/api/lifecycle.rs\<close> and the protected router of \<open>api/mod.rs\<close>: the monotone process
  phase behind an \<open>AtomicU8\<close>, the drain middleware, the instance header, and the composition
  of the middlewares in the order the router layers them.

  \<open>advance_to\<close> is a compare-exchange loop shared by concurrent callers. Each caller is a small
  machine (\<open>caller\<close>), one atomic access per step; a schedule interleaves any number of callers and
  may let \<open>compare_exchange_weak\<close> fail spuriously.
\<close>

section \<open>Phases\<close>

datatype phase = Accepting | Fencing | Draining | Stopping

fun phase_u8 :: "phase \<Rightarrow> nat" where
  "phase_u8 Accepting = 0"
| "phase_u8 Fencing = 1"
| "phase_u8 Draining = 2"
| "phase_u8 Stopping = 3"

definition all_phases :: "phase list" where
  "all_phases = [Accepting, Fencing, Draining, Stopping]"

fun phase_str :: "phase \<Rightarrow> string" where
  "phase_str Accepting = ''accepting''"
| "phase_str Fencing = ''fencing''"
| "phase_str Draining = ''draining''"
| "phase_str Stopping = ''stopping''"

definition from_u8 :: "nat \<Rightarrow> phase" where
  "from_u8 n = (if n = 0 then Accepting else if n = 1 then Fencing else if n = 2 then Draining else Stopping)"

instantiation phase :: linorder
begin

definition less_eq_phase :: "phase \<Rightarrow> phase \<Rightarrow> bool" where
  "less_eq_phase a b = (phase_u8 a \<le> phase_u8 b)"

definition less_phase :: "phase \<Rightarrow> phase \<Rightarrow> bool" where
  "less_phase a b = (phase_u8 a < phase_u8 b)"

instance
proof
  fix a b :: phase
  show "a \<le> b \<Longrightarrow> b \<le> a \<Longrightarrow> a = b" by (cases a; cases b) (simp_all add: less_eq_phase_def)
qed (auto simp: less_eq_phase_def less_phase_def)

end

lemma from_phase_u8 [simp]: "from_u8 (phase_u8 p) = p"
  by (cases p) (simp_all add: from_u8_def)

lemma phase_u8_le: "phase_u8 p \<le> 3"
  by (cases p) simp_all

lemma from_u8_mono: "a \<le> b \<Longrightarrow> from_u8 a \<le> from_u8 b"
  by (auto simp: from_u8_def less_eq_phase_def)

record lifecycle =
  lc_phase :: nat
  lc_work_rejections :: nat
  lc_control_rejections :: nat

definition new_lifecycle :: lifecycle where
  "new_lifecycle = \<lparr>lc_phase = phase_u8 Accepting, lc_work_rejections = 0, lc_control_rejections = 0\<rparr>"

definition current_phase :: "lifecycle \<Rightarrow> phase" where
  "current_phase lc = from_u8 (lc_phase lc)"

definition is_accepting_mutations :: "lifecycle \<Rightarrow> bool" where
  "is_accepting_mutations lc = (current_phase lc = Accepting)"

definition rejection_count :: "lifecycle \<Rightarrow> mutation_class \<Rightarrow> nat" where
  "rejection_count lc cls = (case cls of
     Work \<Rightarrow> lc_work_rejections lc | Control \<Rightarrow> lc_control_rejections lc | Observation \<Rightarrow> 0)"

definition record_rejection :: "mutation_class \<Rightarrow> lifecycle \<Rightarrow> lifecycle" where
  "record_rejection cls lc = (case cls of
     Work \<Rightarrow> lc\<lparr>lc_work_rejections := wrapping_add (lc_work_rejections lc) 1\<rparr>
   | Control \<Rightarrow> lc\<lparr>lc_control_rejections := wrapping_add (lc_control_rejections lc) 1\<rparr>
   | Observation \<Rightarrow> lc)"

section \<open>The compare-exchange loop\<close>

datatype caller =
    Loading nat
  | Looping nat nat
  | Returned nat phase

text \<open>One atomic access of \<open>advance_to\<close>: the target is the first argument of every state.\<close>

fun advance_step :: "bool \<Rightarrow> nat \<Rightarrow> caller \<Rightarrow> nat \<times> caller" where
  "advance_step spurious shared (Loading target) = (shared, Looping target shared)"
| "advance_step spurious shared (Looping target observed) =
    (if observed < target then
       (if shared = observed \<and> \<not> spurious then (target, Returned target (from_u8 target))
        else (shared, Looping target shared))
     else (shared, Returned target (from_u8 observed)))"
| "advance_step spurious shared (Returned target result) = (shared, Returned target result)"

definition begin_fencing :: caller where
  "begin_fencing = Loading (phase_u8 Fencing)"

definition mark_draining :: caller where
  "mark_draining = Loading (phase_u8 Draining)"

definition mark_stopping :: caller where
  "mark_stopping = Loading (phase_u8 Stopping)"

record lc_system =
  sy_phase :: nat
  sy_callers :: "caller list"

datatype lc_event = CallFencing | CallDraining | CallStopping | Step nat bool

fun lc_step :: "lc_system \<Rightarrow> lc_event \<Rightarrow> lc_system" where
  "lc_step s CallFencing = s\<lparr>sy_callers := sy_callers s @ [begin_fencing]\<rparr>"
| "lc_step s CallDraining = s\<lparr>sy_callers := sy_callers s @ [mark_draining]\<rparr>"
| "lc_step s CallStopping = s\<lparr>sy_callers := sy_callers s @ [mark_stopping]\<rparr>"
| "lc_step s (Step i spurious) =
    (if i < length (sy_callers s) then
       (let (p, c) = advance_step spurious (sy_phase s) (sy_callers s ! i)
        in s\<lparr>sy_phase := p, sy_callers := (sy_callers s)[i := c]\<rparr>)
     else s)"

definition boot :: lc_system where
  "boot = \<lparr>sy_phase = phase_u8 Accepting, sy_callers = []\<rparr>"

subsection \<open>Invariant and monotonicity\<close>

fun caller_ok :: "nat \<Rightarrow> caller \<Rightarrow> bool" where
  "caller_ok shared (Loading target) = (1 \<le> target \<and> target \<le> 3)"
| "caller_ok shared (Looping target observed) = (1 \<le> target \<and> target \<le> 3 \<and> observed \<le> shared)"
| "caller_ok shared (Returned target result) =
    (1 \<le> target \<and> target \<le> 3 \<and> target \<le> phase_u8 result \<and> phase_u8 result \<le> shared)"

definition lc_inv :: "lc_system \<Rightarrow> bool" where
  "lc_inv s \<longleftrightarrow> sy_phase s \<le> 3 \<and> list_all (caller_ok (sy_phase s)) (sy_callers s)"

lemma caller_ok_mono: "caller_ok p c \<Longrightarrow> p \<le> q \<Longrightarrow> caller_ok q c"
  by (cases c) auto

lemma from_u8_inverse: "n \<le> 3 \<Longrightarrow> phase_u8 (from_u8 n) = n"
  by (auto simp: from_u8_def)

lemma advance_step_ok:
  assumes "caller_ok p c" "p \<le> 3" "advance_step b p c = (q, d)"
  shows "p \<le> q" "q \<le> 3" "caller_ok q d"
  using assms by (cases c; auto simp: from_u8_inverse split: if_splits)+

lemma lc_inv_step: "lc_inv s \<Longrightarrow> lc_inv (lc_step s e)"
proof (cases e)
  case (Step i b)
  assume inv: "lc_inv s"
  show ?thesis
  proof (cases "i < length (sy_callers s)")
    case True
    obtain q d where a: "advance_step b (sy_phase s) (sy_callers s ! i) = (q, d)" by fastforce
    have "caller_ok (sy_phase s) (sy_callers s ! i)" "sy_phase s \<le> 3"
      using inv True by (auto simp: lc_inv_def list_all_length)
    note ok = advance_step_ok [OF this a]
    have "list_all (caller_ok q) ((sy_callers s)[i := d])"
      using inv ok True by (auto simp: lc_inv_def list_all_length nth_list_update intro: caller_ok_mono)
    then show ?thesis using ok a True Step by (simp add: lc_inv_def)
  qed (use inv Step in simp)
qed (auto simp: lc_inv_def begin_fencing_def mark_draining_def mark_stopping_def)

interpretation lc_run: step_invariant lc_step lc_inv
  by unfold_locales (rule lc_inv_step)

definition phase_le :: "lc_system \<Rightarrow> lc_system \<Rightarrow> bool" where
  "phase_le s t \<longleftrightarrow> (lc_inv s \<longrightarrow> lc_inv t \<and> sy_phase s \<le> sy_phase t)"

lemma phase_le_step: "phase_le s (lc_step s e)"
proof (cases e)
  case (Step i b)
  show ?thesis
  proof (cases "i < length (sy_callers s)")
    case True
    obtain q d where a: "advance_step b (sy_phase s) (sy_callers s ! i) = (q, d)" by fastforce
    show ?thesis unfolding phase_le_def
    proof
      assume inv: "lc_inv s"
      then have "caller_ok (sy_phase s) (sy_callers s ! i)" "sy_phase s \<le> 3"
        using True by (auto simp: lc_inv_def list_all_length)
      then show "lc_inv (lc_step s e) \<and> sy_phase s \<le> sy_phase (lc_step s e)"
        using advance_step_ok [OF _ _ a] lc_inv_step [OF inv, of e] a True Step by simp
    qed
  qed (use Step in \<open>simp add: phase_le_def\<close>)
qed (auto simp: phase_le_def begin_fencing_def mark_draining_def mark_stopping_def lc_inv_def)

interpretation lc_mono: step_monotone lc_step phase_le
  by unfold_locales (auto simp: phase_le_def phase_le_step [unfolded phase_le_def])

lemma boot_inv: "lc_inv boot"
  by (simp add: lc_inv_def boot_def)

subsection \<open>Progress\<close>

text \<open>
  The own steps a caller still needs: each access of its own that is not a spurious failure
  lowers the rank, whatever the others do.
\<close>

fun rank :: "caller \<Rightarrow> nat" where
  "rank (Loading target) = target + 2"
| "rank (Looping target observed) = target - observed + 1"
| "rank (Returned target result) = 0"

definition own_steps :: "nat \<Rightarrow> lc_event list \<Rightarrow> nat" where
  "own_steps i es = length (filter (\<lambda>e. e = Step i False) es)"

lemma rank_own: "caller_ok p c \<Longrightarrow> rank (snd (advance_step False p c)) \<le> rank c - 1"
  by (cases c) auto

lemma rank_spurious: "caller_ok p c \<Longrightarrow> rank (snd (advance_step b p c)) \<le> rank c"
  by (cases c) auto

lemma lc_step_rank:
  assumes "lc_inv s" "i < length (sy_callers s)"
  shows "i < length (sy_callers (lc_step s e)) \<and>
    rank (sy_callers (lc_step s e) ! i) \<le> rank (sy_callers s ! i) - (if e = Step i False then 1 else 0)"
proof (cases e)
  case (Step j b)
  have ok: "caller_ok (sy_phase s) (sy_callers s ! i)" using assms by (simp add: lc_inv_def list_all_length)
  show ?thesis
    using rank_own [OF ok] rank_spurious [OF ok, of b] assms(2) Step
    by (cases b) (auto simp: split_def Let_def nth_list_update)
qed (use assms in \<open>simp_all add: nth_append\<close>)

lemma run_rank:
  assumes "lc_inv s" "i < length (sy_callers s)"
  shows "i < length (sy_callers (foldl lc_step s es)) \<and>
    rank (sy_callers (foldl lc_step s es) ! i) \<le> rank (sy_callers s ! i) - own_steps i es"
  using assms
proof (induction es arbitrary: s)
  case (Cons e es)
  have "lc_inv (lc_step s e)" using Cons.prems(1) by (rule lc_inv_step)
  then show ?case
    using Cons.IH [of "lc_step s e"] lc_step_rank [OF Cons.prems, of e]
    by (auto simp: own_steps_def split: if_splits)
qed (simp add: own_steps_def)

lemma rank_zero: "rank c = 0 \<Longrightarrow> \<exists>target result. c = Returned target result"
  by (cases c) auto

lemma rank_le: "caller_ok p c \<Longrightarrow> rank c \<le> 5"
  by (cases c) auto

section \<open>Middleware\<close>

record 'u app_state =
  ap_auth :: auth_config
  ap_lifecycle :: lifecycle
  ap_admission :: "'u controller"
  ap_instance_id :: string

type_synonym 'u service = "'u app_state \<Rightarrow> http_request \<Rightarrow> 'u app_state \<times> bool \<times> response"

definition draining_response :: "string \<Rightarrow> phase \<Rightarrow> response" where
  "draining_response instance_id p = \<lparr>rs_status = 503,
     rs_headers = [(''content-type'', ''application/json''), (''cache-control'', ''no-store''), (''retry-after'', ''1'')],
     rs_body = JObject [(''error'', JString ''This IronCrew instance is draining and cannot accept mutations''),
       (''code'', JString ''instance_draining''), (''lifecycle_state'', JString (phase_str p)),
       (''instance_id'', JString instance_id)]\<rparr>"

definition lifecycle_class :: "http_request \<Rightarrow> mutation_class option" where
  "lifecycle_class request =
     (case classify_mutation (rq_method request) (rq_path request) of
        Some Observation \<Rightarrow> None | c \<Rightarrow> c)"

definition harden_unavailable :: "response \<Rightarrow> response" where
  "harden_unavailable r =
    (if rs_status r = 503 then
       (let r1 = header_insert ''cache-control'' ''no-store'' r
        in if contains_header ''retry-after'' r1 then r1 else header_insert ''retry-after'' ''1'' r1)
     else r)"

text \<open>The boolean tells whether the request reached the handlers.\<close>

definition enforce_mutation_lifecycle :: "'u service \<Rightarrow> 'u service" where
  "enforce_mutation_lifecycle next_run st request =
    (let ph = current_phase (ap_lifecycle st);
         (st', reached, response) =
           (case lifecycle_class request of
              Some cls \<Rightarrow>
                if ph \<noteq> Accepting
                then (st\<lparr>ap_lifecycle := record_rejection cls (ap_lifecycle st)\<rparr>, False,
                      draining_response (ap_instance_id st) ph)
                else next_run st request
            | None \<Rightarrow> next_run st request)
     in (st', reached, harden_unavailable response))"

text \<open>
  The handlers behind the middleware see the application state as it is when they run and
  may change it: \<open>GET /capabilities\<close> and \<open>GET /metrics\<close>, for instance, report the phase.
\<close>

type_synonym 'u handler = "'u app_state \<Rightarrow> http_request \<Rightarrow> 'u app_state \<times> response"

definition admission_layer :: "nat \<Rightarrow> 'u handler \<Rightarrow> 'u service" where
  "admission_layer now handler st request =
    (case rq_principal request of
       None \<Rightarrow> (st, False, \<lparr>rs_status = 500, rs_headers = [], rs_body = JString ''Missing request extension''\<rparr>)
     | Some p \<Rightarrow>
        (let (c, reached, r) = enforce_mutation_admission (ap_admission st) now (pr_id p) request
               (\<lambda>c q. snd (handler (st\<lparr>ap_admission := c\<rparr>) q));
             st1 = st\<lparr>ap_admission := c\<rparr>
         in (if reached then fst (handler st1 request) else st1, reached, r)))"

definition attach_instance_id :: "header_codec \<Rightarrow> 'u service \<Rightarrow>
    'u app_state \<Rightarrow> http_request \<Rightarrow> 'u app_state \<times> bool \<times> response option" where
  "attach_instance_id codec next_run st request =
    (let authenticated = (case rq_principal request of None \<Rightarrow> False | Some p \<Rightarrow> pr_authenticated p);
         (st', reached, response) = next_run st request
     in if authenticated then
          (st', reached, map_option (\<lambda>v. header_insert ''x-ironcrew-instance-id'' v response)
             (value_from_str codec (ap_instance_id st')))
        else (st', reached, Some response))"

text \<open>The protected router: authentication outermost, then the instance header, drain, admission.\<close>

definition protected_router :: "crypto \<Rightarrow> header_codec \<Rightarrow> nat \<Rightarrow> 'u handler \<Rightarrow>
    'u app_state \<Rightarrow> http_request \<Rightarrow> 'u app_state \<times> bool \<times> response option" where
  "protected_router cr codec now handler st request =
    (case bearer_auth cr codec (ap_auth st) request of
       Panicked \<Rightarrow> (st, False, None)
     | Respond r \<Rightarrow> (st, False, Some r)
     | Forward q \<Rightarrow> attach_instance_id codec
         (enforce_mutation_lifecycle (admission_layer now handler)) st q)"

lemma lifecycle_class_mutation:
  "rq_method q \<in> {POST, DELETE} \<Longrightarrow> \<exists>cls. lifecycle_class q = Some cls \<and> cls \<noteq> Observation"
  by (auto simp: lifecycle_class_def classify_mutation_def)

lemma enforce_lifecycle_draining:
  assumes "lifecycle_class q = Some cls" "current_phase (ap_lifecycle st) \<noteq> Accepting"
  shows "enforce_mutation_lifecycle k st q =
    (st\<lparr>ap_lifecycle := record_rejection cls (ap_lifecycle st)\<rparr>, False,
     harden_unavailable (draining_response (ap_instance_id st) (current_phase (ap_lifecycle st))))"
  using assms by (simp add: enforce_mutation_lifecycle_def)

lemma enforce_lifecycle_passes:
  assumes "lifecycle_class q = None \<or> current_phase (ap_lifecycle st) = Accepting"
  shows "enforce_mutation_lifecycle k st q =
    (fst (k st q), fst (snd (k st q)), harden_unavailable (snd (snd (k st q))))"
  using assms by (auto simp: enforce_mutation_lifecycle_def Let_def split_def split: option.splits)

lemma bearer_auth_method: "bearer_auth cr codec cfg request = Forward q \<Longrightarrow> rq_method q = rq_method request \<and> rq_path q = rq_path request"
  by (auto simp: bearer_auth_def split: sum.splits if_splits option.splits)

lemma bearer_auth_principal: "bearer_auth cr codec cfg request = Forward q \<Longrightarrow> \<exists>p. rq_principal q = Some p"
  by (auto simp: bearer_auth_def split: sum.splits if_splits option.splits)

text \<open>What the two inner layers do with a request that is not a mutation.\<close>

lemma admission_layer_reached:
  "rq_principal q = Some p \<Longrightarrow>
   fst (snd (admission_layer now handler st q)) =
     (case classify_mutation (rq_method q) (rq_path q) of
        None \<Rightarrow> True | Some cls \<Rightarrow> is_ok (snd (admit_principal (ap_admission st) now (pr_id p) cls)))"
  by (simp add: admission_layer_def Let_def split_def enforce_reached)

lemma admission_layer_unclassified:
  "rq_principal q = Some p \<Longrightarrow> classify_mutation (rq_method q) (rq_path q) = None \<Longrightarrow>
   admission_layer now handler st q =
     (fst (handler st q), True, harden_downstream_rate_response (snd (handler st q)))"
  by (simp add: admission_layer_def enforce_mutation_admission_def)

section \<open>Properties\<close>

text \<open>
  C16. The process phase is monotone under every interleaving of concurrent \<open>begin_fencing\<close>,
  \<open>mark_draining\<close> and \<open>mark_stopping\<close> calls, with spurious failures of the weak exchange: it only
  moves forward, a process that left \<open>Accepting\<close> never accepts again, and a call that has returned
  reported a phase at least its target and at most the current one.\<close>

theorem lifecycle_never_reopens:
  "sy_phase (foldl lc_step boot es) \<le> sy_phase (foldl lc_step boot (es @ fs)) \<and>
   (from_u8 (sy_phase (foldl lc_step boot es)) \<noteq> Accepting \<longrightarrow>
     from_u8 (sy_phase (foldl lc_step boot (es @ fs))) \<noteq> Accepting) \<and>
   (\<forall>target result. Returned target result \<in> set (sy_callers (foldl lc_step boot es)) \<longrightarrow>
     from_u8 target \<le> result \<and> result \<le> from_u8 (sy_phase (foldl lc_step boot es)))"
proof -
  let ?s = "foldl lc_step boot es"
  have inv: "lc_inv ?s" using boot_inv by (rule lc_run.inv_run)
  have le: "sy_phase ?s \<le> sy_phase (foldl lc_step boot (es @ fs))"
    using lc_mono.below_run [of ?s fs] inv by (simp add: phase_le_def)
  then have "from_u8 (sy_phase ?s) \<le> from_u8 (sy_phase (foldl lc_step boot (es @ fs)))" by (rule from_u8_mono)
  then have "from_u8 (sy_phase ?s) \<noteq> Accepting \<longrightarrow> from_u8 (sy_phase (foldl lc_step boot (es @ fs))) \<noteq> Accepting"
    by (cases "from_u8 (sy_phase ?s)") (auto simp: less_eq_phase_def)
  moreover have "from_u8 target \<le> result \<and> result \<le> from_u8 (sy_phase ?s)"
    if "Returned target result \<in> set (sy_callers ?s)" for target result
  proof -
    have "caller_ok (sy_phase ?s) (Returned target result)" "sy_phase ?s \<le> 3"
      using inv that by (auto simp: lc_inv_def list_all_iff)
    then show ?thesis by (simp add: less_eq_phase_def from_u8_inverse)
  qed
  ultimately show ?thesis using le by blast
qed

theorem lifecycle_never_reopens_witness:
  "from_u8 (sy_phase (foldl lc_step boot ([CallDraining, Step 0 False, Step 0 False] @ [CallFencing, Step 1 False, Step 1 False])))
     \<noteq> Accepting"
proof -
  have "from_u8 (sy_phase (foldl lc_step boot [CallDraining, Step 0 False, Step 0 False])) \<noteq> Accepting"
    by (simp add: boot_def mark_draining_def from_u8_def)
  then show ?thesis
    using lifecycle_never_reopens [of "[CallDraining, Step 0 False, Step 0 False]" "[CallFencing, Step 1 False, Step 1 False]"]
    by blast
qed

text \<open>
  C17. The compare-exchange loop ends: under any interference, a call that has been made returns
  once it has had five accesses of its own that did not fail spuriously; the phase can only
  overtake it three times.\<close>

theorem lifecycle_calls_return:
  assumes "i < length (sy_callers (foldl lc_step boot es))" and "5 \<le> own_steps i fs"
  shows "\<exists>target result. sy_callers (foldl lc_step boot (es @ fs)) ! i = Returned target result"
proof -
  let ?s = "foldl lc_step boot es"
  have inv: "lc_inv ?s" using boot_inv by (rule lc_run.inv_run)
  then have "caller_ok (sy_phase ?s) (sy_callers ?s ! i)" using assms(1) by (simp add: lc_inv_def list_all_length)
  then have "rank (sy_callers ?s ! i) \<le> 5" by (rule rank_le)
  then have "rank (sy_callers (foldl lc_step ?s fs) ! i) = 0"
    using run_rank [OF inv assms(1), of fs] assms(2) by linarith
  then show ?thesis using rank_zero by simp
qed

theorem lifecycle_calls_return_witness:
  "\<exists>target result. sy_callers (foldl lc_step boot ([CallStopping] @ replicate 5 (Step 0 False))) ! 0 = Returned target result"
  by (rule lifecycle_calls_return) (simp_all add: boot_def own_steps_def)

text \<open>
  C18. A draining server: once the phase has left \<open>Accepting\<close>, a POST or DELETE through the protected
  router never reaches a handler and consumes no admission token; an authenticated one is counted
  as a rejection of its class and answered 503 with \<open>Retry-After\<close>. The phase refuses nothing else:
  any other authenticated request reaches its handler unless it is a polling request that
  the rate limit refuses, and one that no rate limit applies to is answered with what its
  handler, which may look at the phase, makes of the current state.\<close>

theorem draining_server_refuses_mutations:
  assumes "current_phase (ap_lifecycle st) \<noteq> Accepting"
  shows "(rq_method request \<in> {POST, DELETE} \<longrightarrow>
      (case protected_router cr codec now handler st request of (st', reached, response) \<Rightarrow>
         \<not> reached \<and> ap_admission st' = ap_admission st \<and>
         (\<forall>q r. bearer_auth cr codec (ap_auth st) request = Forward q \<and> response = Some r \<longrightarrow>
            rs_status r = 503 \<and> contains_header ''retry-after'' r \<and>
            (\<exists>cls. cls \<noteq> Observation \<and> ap_lifecycle st' = record_rejection cls (ap_lifecycle st))))) \<and>
    (rq_method request \<notin> {POST, DELETE} \<longrightarrow>
      (\<forall>q. bearer_auth cr codec (ap_auth st) request = Forward q \<longrightarrow>
        (\<exists>p. rq_principal q = Some p \<and>
           fst (snd (protected_router cr codec now handler st request)) =
             (case classify_mutation (rq_method q) (rq_path q) of
                None \<Rightarrow> True | Some cls \<Rightarrow> is_ok (snd (admit_principal (ap_admission st) now (pr_id p) cls)))) \<and>
        (classify_mutation (rq_method q) (rq_path q) = None \<longrightarrow>
           protected_router cr codec now handler st request =
           attach_instance_id codec (\<lambda>s q. (fst (handler s q), True,
              harden_unavailable (harden_downstream_rate_response (snd (handler s q))))) st q)))"
proof (intro conjI impI allI)
  assume m: "rq_method request \<in> {POST, DELETE}"
  show "case protected_router cr codec now handler st request of (st', reached, response) \<Rightarrow>
     \<not> reached \<and> ap_admission st' = ap_admission st \<and>
     (\<forall>q r. bearer_auth cr codec (ap_auth st) request = Forward q \<and> response = Some r \<longrightarrow>
        rs_status r = 503 \<and> contains_header ''retry-after'' r \<and>
        (\<exists>cls. cls \<noteq> Observation \<and> ap_lifecycle st' = record_rejection cls (ap_lifecycle st)))"
  proof (cases "bearer_auth cr codec (ap_auth st) request")
    case (Forward q)
    then have "rq_method q \<in> {POST, DELETE}" using bearer_auth_method m by metis
    then obtain cls where cls: "lifecycle_class q = Some cls" "cls \<noteq> Observation"
      using lifecycle_class_mutation by blast
    let ?r = "harden_unavailable (draining_response (ap_instance_id st) (current_phase (ap_lifecycle st)))"
    have "rs_status ?r = 503" "contains_header ''retry-after'' ?r"
      by (simp_all add: harden_unavailable_def draining_response_def contains_header_def Let_def)
    then show ?thesis
      using enforce_lifecycle_draining [OF cls(1) assms] cls(2)
      by (auto simp: protected_router_def Forward attach_instance_id_def Let_def contains_header_def split: if_splits)
  qed (simp_all add: protected_router_def)
next
  fix q
  assume m: "rq_method request \<notin> {POST, DELETE}" and q: "bearer_auth cr codec (ap_auth st) request = Forward q"
  obtain p where p: "rq_principal q = Some p" using bearer_auth_principal [OF q] by blast
  have "rq_method q \<notin> {POST, DELETE}" using bearer_auth_method [OF q] m by metis
  then have l: "lifecycle_class q = None" by (auto simp: lifecycle_class_def classify_mutation_def)
  note router = protected_router_def q attach_instance_id_def enforce_lifecycle_passes [OF disjI1 [OF l]] Let_def
  show "\<exists>p. rq_principal q = Some p \<and>
      fst (snd (protected_router cr codec now handler st request)) =
        (case classify_mutation (rq_method q) (rq_path q) of
           None \<Rightarrow> True | Some cls \<Rightarrow> is_ok (snd (admit_principal (ap_admission st) now (pr_id p) cls)))"
    using p admission_layer_reached [OF p] by (simp add: router)
  assume "classify_mutation (rq_method q) (rq_path q) = None"
  then show "protected_router cr codec now handler st request =
      attach_instance_id codec (\<lambda>s q. (fst (handler s q), True,
        harden_unavailable (harden_downstream_rate_response (snd (handler s q))))) st q"
    by (simp add: router admission_layer_unclassified [OF p])
qed

definition demo_state :: "nat app_state" where
  "demo_state = \<lparr>ap_auth = demo_config, ap_lifecycle = new_lifecycle\<lparr>lc_phase := 2\<rparr>,
     ap_admission = new_controller default_config, ap_instance_id = ''node-1''\<rparr>"

theorem draining_server_refuses_mutations_witness:
  "\<not> fst (snd (protected_router demo_crypto demo_codec 0 (\<lambda>s _. (s, \<lparr>rs_status = 200, rs_headers = [], rs_body = JNull\<rparr>)) demo_state
       \<lparr>rq_method = POST, rq_path = ''/flows/a/run'', rq_headers = [], rq_principal = None\<rparr>))"
proof -
  have "current_phase (ap_lifecycle demo_state) \<noteq> Accepting"
    by (simp add: demo_state_def current_phase_def from_u8_def)
  from draining_server_refuses_mutations [OF this, of "\<lparr>rq_method = POST, rq_path = ''/flows/a/run'', rq_headers = [], rq_principal = None\<rparr>"
      demo_crypto demo_codec 0 "\<lambda>s _. (s, \<lparr>rs_status = 200, rs_headers = [], rs_body = JNull\<rparr>)"]
  show ?thesis by (simp add: split_def)
qed

end
