(* ===== verification/Chat_History.thy ===== *)
theory Chat_History
  imports Prelude
begin

text \<open>
  \<open>src/src/llm/provider.rs\<close>: chat messages, their memory estimate, the tool-call protocol a
  history has to follow, and trimming of a history to its budgets by whole user turns.

  The estimate counts allocated capacities, which are not a function of the contents: strings and
  vectors carry their capacity (\<open>buf\<close>, \<open>vec\<close>). The sizes of the Rust types are a \<open>layout\<close>
  parameter, as the compiler chooses them.
\<close>

section \<open>Data\<close>

record buf =
  chars :: string
  cap :: nat

record 'a vec =
  items :: "'a list"
  vcap :: nat

datatype jvalue =
    VNull | VBool bool | VNumber string | VString buf | VArray "jvalue list" nat | VObject "(buf \<times> jvalue) list"

record layout =
  sz_string :: nat
  sz_vec :: nat
  sz_map :: nat
  sz_value :: nat
  sz_message :: nat
  sz_tool_call :: nat
  sz_image :: nat

record image_input =
  im_mime_type :: buf
  im_data :: buf

record tool_call =
  tc_id :: buf
  tc_call_type :: buf
  tc_name :: buf
  tc_arguments :: buf

record chat_message =
  role :: buf
  content :: "buf option"
  tool_call_id :: "buf option"
  tool_calls :: "tool_call vec option"
  images :: "image_input vec option"
  raw_blocks :: "jvalue vec option"

definition role_is :: "string \<Rightarrow> chat_message \<Rightarrow> bool" where
  "role_is r m = (chars (role m) = r)"

lemma role_is_unique: "role_is r m \<Longrightarrow> role_is q m \<Longrightarrow> r = q"
  by (simp add: role_is_def)

definition sat_mul :: "nat \<Rightarrow> nat \<Rightarrow> nat" where
  "sat_mul a b = min (a * b) u64_max"

definition chat_history_max_bytes :: "env \<Rightarrow> nat" where
  "chat_history_max_bytes env = positive_limit env ''IRONCREW_CHAT_HISTORY_MAX_BYTES'' 33554432 268435456"

definition max_reasoning_bytes :: "env \<Rightarrow> nat" where
  "max_reasoning_bytes env = positive_limit env ''IRONCREW_MAX_REASONING_BYTES'' 1048576 16777216"

section \<open>Constructors\<close>

text \<open>\<open>into()\<close> and \<open>clone()\<close> allocate the exact length.\<close>

definition exact_buf :: "string \<Rightarrow> buf" where
  "exact_buf s = \<lparr>chars = s, cap = length s\<rparr>"

definition system_message :: "string \<Rightarrow> chat_message" where
  "system_message text = \<lparr>role = exact_buf ''system'', content = Some (exact_buf text), tool_call_id = None,
     tool_calls = None, images = None, raw_blocks = None\<rparr>"

definition user_message :: "string \<Rightarrow> chat_message" where
  "user_message text = \<lparr>role = exact_buf ''user'', content = Some (exact_buf text), tool_call_id = None,
     tool_calls = None, images = None, raw_blocks = None\<rparr>"

definition assistant_with_blocks :: "buf option \<Rightarrow> tool_call vec option \<Rightarrow> jvalue vec option \<Rightarrow> chat_message" where
  "assistant_with_blocks text calls blocks = \<lparr>role = exact_buf ''assistant'', content = text, tool_call_id = None,
     tool_calls = calls, images = None, raw_blocks = blocks\<rparr>"

definition assistant_message :: "buf option \<Rightarrow> tool_call vec option \<Rightarrow> chat_message" where
  "assistant_message text calls = assistant_with_blocks text calls None"

definition tool_message :: "string \<Rightarrow> string \<Rightarrow> chat_message" where
  "tool_message call_id text = \<lparr>role = exact_buf ''tool'', content = Some (exact_buf text),
     tool_call_id = Some (exact_buf call_id), tool_calls = None, images = None, raw_blocks = None\<rparr>"

definition user_with_images :: "string \<Rightarrow> image_input vec \<Rightarrow> chat_message" where
  "user_with_images text imgs = (user_message text)\<lparr>images := (if items imgs = [] then None else Some imgs)\<rparr>"

section \<open>Memory estimate\<close>

fun estimated_json_bytes :: "layout \<Rightarrow> jvalue \<Rightarrow> nat" where
  "estimated_json_bytes ly VNull = 4"
| "estimated_json_bytes ly (VBool b) = 5"
| "estimated_json_bytes ly (VNumber n) = 32"
| "estimated_json_bytes ly (VString s) = saturating_add (cap s) (sz_string ly)"
| "estimated_json_bytes ly (VArray vs c) =
     foldl saturating_add (saturating_add (sz_vec ly) (sat_mul c (sz_value ly))) (map (estimated_json_bytes ly) vs)"
| "estimated_json_bytes ly (VObject kvs) =
     foldl (\<lambda>t (k, n). saturating_add (saturating_add (saturating_add t (sz_string ly)) k) n)
       (sz_map ly) (map (\<lambda>(k, v). (cap k, estimated_json_bytes ly v)) kvs)"

definition opt_cap :: "buf option \<Rightarrow> nat \<Rightarrow> nat" where
  "opt_cap b acc = (case b of None \<Rightarrow> acc | Some s \<Rightarrow> saturating_add acc (cap s))"

definition tool_call_bytes :: "nat \<Rightarrow> tool_call \<Rightarrow> nat" where
  "tool_call_bytes t c = saturating_add (saturating_add (saturating_add (saturating_add t
     (cap (tc_id c))) (cap (tc_call_type c))) (cap (tc_name c))) (cap (tc_arguments c))"

definition image_bytes :: "nat \<Rightarrow> image_input \<Rightarrow> nat" where
  "image_bytes t i = saturating_add (saturating_add t (cap (im_mime_type i))) (cap (im_data i))"

definition vec_bytes :: "nat \<Rightarrow> (nat \<Rightarrow> 'a \<Rightarrow> nat) \<Rightarrow> 'a vec option \<Rightarrow> nat \<Rightarrow> nat" where
  "vec_bytes sz f v t = (case v of None \<Rightarrow> t
     | Some xs \<Rightarrow> foldl f (saturating_add t (sat_mul (vcap xs) sz)) (items xs))"

definition estimated_bytes :: "layout \<Rightarrow> chat_message \<Rightarrow> nat" where
  "estimated_bytes ly m =
     vec_bytes (sz_value ly) (\<lambda>t b. saturating_add t (estimated_json_bytes ly b)) (raw_blocks m)
    (vec_bytes (sz_image ly) image_bytes (images m)
    (vec_bytes (sz_tool_call ly) tool_call_bytes (tool_calls m)
    (opt_cap (tool_call_id m) (opt_cap (content m)
      (saturating_add (sz_message ly) (cap (role m)))))))"

definition history_bytes_from :: "layout \<Rightarrow> nat \<Rightarrow> chat_message list \<Rightarrow> nat" where
  "history_bytes_from ly start ms = foldl (\<lambda>t m. saturating_add t (estimated_bytes ly m)) start ms"

definition chat_history_estimated_bytes :: "layout \<Rightarrow> chat_message list \<Rightarrow> nat" where
  "chat_history_estimated_bytes ly ms = history_bytes_from ly (sz_vec ly) ms"

section \<open>The tool-call protocol\<close>

definition at_index :: "string \<Rightarrow> nat \<Rightarrow> string \<Rightarrow> iron_error" where
  "at_index before i after_text = Validation (before @ dec i @ after_text)"

fun collect_ids :: "nat \<Rightarrow> string set \<Rightarrow> tool_call list \<Rightarrow> (iron_error, string set) result" where
  "collect_ids i ids [] = Inr ids"
| "collect_ids i ids (c # cs) =
    (if chars (tc_id c) = [] \<or> chars (tc_id c) \<in> ids
     then Inl (at_index ''assistant message at index '' i '' has an empty or duplicate tool call id'')
     else collect_ids i (insert (chars (tc_id c)) ids) cs)"

definition pending_open :: "string set option \<Rightarrow> bool" where
  "pending_open p = (case p of None \<Rightarrow> False | Some ids \<Rightarrow> ids \<noteq> {})"

definition system_step :: "nat \<Rightarrow> chat_message \<Rightarrow> string set option \<times> bool \<Rightarrow> (iron_error, string set option \<times> bool) result" where
  "system_step i m st =
    (if i \<noteq> 0 then Inl (at_index ''chat history contains a system message at index '' i [])
     else if content m = None then Inl (Validation ''system message must contain text'')
     else if tool_call_id m \<noteq> None \<or> tool_calls m \<noteq> None \<or> images m \<noteq> None \<or> raw_blocks m \<noteq> None
     then Inl (Validation ''system message contains fields reserved for another role'')
     else Inr st)"

definition user_step :: "nat \<Rightarrow> chat_message \<Rightarrow> string set option \<times> bool \<Rightarrow> (iron_error, string set option \<times> bool) result" where
  "user_step i m st =
    (if pending_open (fst st)
     then Inl (at_index ''chat history starts a user turn at index '' i '' before all tool results were recorded'')
     else if tool_call_id m \<noteq> None \<or> tool_calls m \<noteq> None \<or> raw_blocks m \<noteq> None
     then Inl (at_index ''user message at index '' i '' contains fields reserved for another role'')
     else if content m = None \<and> images m = None
     then Inl (at_index ''user message at index '' i '' has no content'')
     else Inr (None, True))"

definition assistant_step :: "nat \<Rightarrow> chat_message \<Rightarrow> string set option \<times> bool \<Rightarrow> (iron_error, string set option \<times> bool) result" where
  "assistant_step i m st =
    (if \<not> snd st
     then Inl (at_index ''assistant message at index '' i '' appears before the first user turn'')
     else if pending_open (fst st)
     then Inl (at_index ''chat history contains an assistant message at index '' i '' before all tool results were recorded'')
     else if tool_call_id m \<noteq> None \<or> images m \<noteq> None
     then Inl (at_index ''assistant message at index '' i '' contains fields reserved for another role'')
     else if content m = None \<and> tool_calls m = None \<and> raw_blocks m = None
     then Inl (at_index ''assistant message at index '' i '' has no content'')
     else (case tool_calls m of
         None \<Rightarrow> Inr (None, snd st)
       | Some calls \<Rightarrow>
          (if items calls = [] then Inl (at_index ''assistant message at index '' i '' has an empty tool_calls list'')
           else if 256 < length (items calls)
           then Inl (at_index ''assistant message at index '' i ('' contains '' @ dec (length (items calls)) @
               '' tool calls, exceeding the hard limit of 256''))
           else and_then (collect_ids i {} (items calls)) (\<lambda>ids. Inr (Some ids, snd st)))))"

definition tool_step :: "nat \<Rightarrow> chat_message \<Rightarrow> string set option \<times> bool \<Rightarrow> (iron_error, string set option \<times> bool) result" where
  "tool_step i m st =
    (if tool_calls m \<noteq> None \<or> images m \<noteq> None \<or> raw_blocks m \<noteq> None
     then Inl (at_index ''tool message at index '' i '' contains fields reserved for another role'')
     else if content m = None then Inl (at_index ''tool message at index '' i '' has no content'')
     else (case tool_call_id m of
         None \<Rightarrow> Inl (at_index ''tool message at index '' i '' is missing tool_call_id'')
       | Some call_id \<Rightarrow>
          (case fst st of
             None \<Rightarrow> Inl (at_index ''orphaned tool message at index '' i [])
           | Some ids \<Rightarrow>
              (if chars call_id \<notin> ids
               then Inl (at_index ''tool message at index '' i '' has an unknown or duplicate tool_call_id'')
               else (let rest = ids - {chars call_id}
                     in Inr (if rest = {} then None else Some rest, snd st))))))"

definition protocol_step :: "nat \<Rightarrow> chat_message \<Rightarrow> string set option \<times> bool \<Rightarrow> (iron_error, string set option \<times> bool) result" where
  "protocol_step i m st =
    (if role_is ''system'' m then system_step i m st
     else if role_is ''user'' m then user_step i m st
     else if role_is ''assistant'' m then assistant_step i m st
     else if role_is ''tool'' m then tool_step i m st
     else Inl (at_index (''chat history contains unsupported role '' @ quoted (chars (role m)) @ '' at index '') i []))"

fun protocol_from :: "nat \<Rightarrow> string set option \<times> bool \<Rightarrow> chat_message list \<Rightarrow> (iron_error, string set option \<times> bool) result" where
  "protocol_from i st [] = Inr st"
| "protocol_from i st (m # ms) = and_then (protocol_step i m st) (\<lambda>st'. protocol_from (Suc i) st' ms)"

definition validate_history_protocol :: "chat_message list \<Rightarrow> bool \<Rightarrow> (iron_error, unit) result" where
  "validate_history_protocol ms require_complete =
    (case ms of
       [] \<Rightarrow> Inl (Validation ''chat history must contain a system message'')
     | m # _ \<Rightarrow>
        (if \<not> role_is ''system'' m then Inl (Validation ''chat history must start with a system message'')
         else and_then (protocol_from 0 (None, False) ms) (\<lambda>st.
           if require_complete \<and> pending_open (fst st)
           then Inl (Validation ''chat history ends before all tool results were recorded'')
           else Inr ())))"

section \<open>Limits\<close>

definition check_caps :: "nat \<Rightarrow> nat \<Rightarrow> (iron_error, unit) result" where
  "check_caps max_messages max_bytes =
    (if max_messages = 0 \<or> 4096 < max_messages
     then Inl (Validation ''chat history message cap must be between 1 and 4096'')
     else if max_bytes = 0 \<or> 268435456 < max_bytes
     then Inl (Validation ''chat history byte cap must be between 1 and 268435456'')
     else Inr ())"

definition validate_chat_history :: "layout \<Rightarrow> chat_message list \<Rightarrow> nat \<Rightarrow> nat \<Rightarrow> bool \<Rightarrow> (iron_error, unit) result" where
  "validate_chat_history ly ms max_messages max_bytes require_complete =
     and_then (check_caps max_messages max_bytes) (\<lambda>_.
     if max_messages < length ms - 1
     then Inl (Validation (''chat history contains '' @ dec (length ms - 1) @
         '' non-system messages, exceeding the limit of '' @ dec max_messages))
     else if max_bytes < chat_history_estimated_bytes ly ms
     then Inl (Validation (''chat history estimated footprint is '' @ dec (chat_history_estimated_bytes ly ms) @
         '' bytes, exceeding the limit of '' @ dec max_bytes @ '' bytes''))
     else validate_history_protocol ms require_complete)"

lemma dropWhile_shorter: "dropWhile p xs = y # ys \<Longrightarrow> length ys < length xs"
  by (metis length_Cons length_dropWhile_le less_eq_Suc_le)

text \<open>
  The trimming loop. \<open>messages[2..].position(user)\<close> and \<open>drain(1..next_turn)\<close> together drop the
  first turn after the system message.
\<close>

function trim_loop :: "layout \<Rightarrow> nat \<Rightarrow> nat \<Rightarrow> chat_message list \<Rightarrow> chat_message list \<times> (iron_error, unit) result" where
  "trim_loop ly max_messages max_bytes ms =
    (if max_messages < length ms - 1 \<or> max_bytes < chat_history_estimated_bytes ly ms
     then (case ms of
         sys # m # rest \<Rightarrow>
           (if \<not> role_is ''user'' m
            then (ms, Inl (Validation ''chat history cannot be safely trimmed at a complete user-turn boundary''))
            else (case dropWhile (\<lambda>x. \<not> role_is ''user'' x) rest of
                [] \<Rightarrow> (ms, Inl (Validation ''current chat turn exceeds the configured history budget''))
              | u # tail \<Rightarrow> trim_loop ly max_messages max_bytes (sys # u # tail)))
       | _ \<Rightarrow> (ms, Inl (Validation ''chat history cannot be safely trimmed at a complete user-turn boundary'')))
     else (ms, Inr ()))"
  by pat_completeness auto
termination
  by (relation "measure (\<lambda>(_, _, _, ms). length ms)") (auto dest: dropWhile_shorter)

declare trim_loop.simps [simp del]

definition rposition_user :: "chat_message list \<Rightarrow> nat option" where
  "rposition_user ms = (let is = filter (\<lambda>i. role_is ''user'' (ms ! i)) [0..<length ms]
     in if is = [] then None else Some (last is))"

definition enforce_conversation_history_limits ::
    "layout \<Rightarrow> chat_message list \<Rightarrow> nat \<Rightarrow> nat \<Rightarrow> chat_message list \<times> (iron_error, unit) result" where
  "enforce_conversation_history_limits ly ms max_messages max_bytes =
    (if length ms < 2 \<or> \<not> role_is ''system'' (ms ! 0)
     then (ms, validate_chat_history ly ms max_messages max_bytes False)
     else case check_caps max_messages max_bytes of
       Inl e \<Rightarrow> (ms, Inl e)
     | Inr _ \<Rightarrow>
      (case validate_history_protocol ms False of
         Inl e \<Rightarrow> (ms, Inl e)
       | Inr _ \<Rightarrow>
        (case rposition_user ms of
           None \<Rightarrow> (ms, Inl (Validation ''chat history has no user turn''))
         | Some active_start \<Rightarrow>
          (let protected_count = length ms - active_start;
               protected_bytes = history_bytes_from ly (saturating_add (sz_vec ly) (estimated_bytes ly (ms ! 0)))
                 (drop active_start ms)
           in if max_messages < protected_count \<or> max_bytes < protected_bytes
              then (ms, Inl (Validation (''current chat turn exceeds the configured history budget ('' @
                  dec max_messages @ '' messages / '' @ dec max_bytes @ '' bytes)'')))
              else (case trim_loop ly max_messages max_bytes ms of
                  (ms', Inl e) \<Rightarrow> (ms', Inl e)
                | (ms', Inr _) \<Rightarrow> (ms', validate_chat_history ly ms' max_messages max_bytes False))))))"

text \<open>\<open>char_indices\<close> up to the budget: the last character boundary that fits.\<close>

definition append_text_bounded :: "string \<Rightarrow> string \<Rightarrow> nat \<Rightarrow> string \<times> bool" where
  "append_text_bounded target text max_bytes =
    (if text = [] then (target, False)
     else (let remaining = max_bytes - length target in
       if remaining = 0 then (target, True)
       else if length text \<le> remaining then (target @ text, False)
       else (target @ take (char_floor text remaining) text, True)))"

section \<open>Protocol lemmas\<close>

lemmas role_steps = system_step_def user_step_def assistant_step_def tool_step_def

text \<open>A user message is checked independently of the turns before it.\<close>

lemma user_step_reset:
  "user_step i m st = Inr st' \<Longrightarrow> st' = (None, True) \<and> user_step j m (None, b) = Inr (None, True)"
  by (auto simp: user_step_def pending_open_def split: if_splits)

lemma collect_ids_index: "collect_ids i ids cs = Inr r \<Longrightarrow> collect_ids j ids cs = Inr r"
  by (induction cs arbitrary: ids) (auto split: if_splits)

lemma assistant_step_index: "assistant_step i m st = Inr st' \<Longrightarrow> assistant_step j m st = Inr st'"
  using collect_ids_index [of i "{}" _ _ j]
  unfolding assistant_step_def by (auto simp: and_then_Inr_iff split: if_split_asm option.split_asm)

lemma tool_step_index: "tool_step i m st = Inr st' \<Longrightarrow> tool_step j m st = Inr st'"
  unfolding tool_step_def by (auto simp: Let_def split: if_split_asm option.split_asm)

lemma user_step_index: "user_step i m st = Inr st' \<Longrightarrow> user_step j m st = Inr st'"
  unfolding user_step_def by (simp split: if_split_asm)

lemma protocol_step_index: "protocol_step (Suc i) m st = Inr st' \<Longrightarrow> protocol_step (Suc j) m st = Inr st'"
  unfolding protocol_step_def
  by (auto split: if_split_asm simp: system_step_def dest: user_step_index [of "Suc i" _ _ _ "Suc j"]
      assistant_step_index [of "Suc i" _ _ _ "Suc j"] tool_step_index [of "Suc i" _ _ _ "Suc j"])

lemma protocol_from_index:
  "protocol_from (Suc i) st ms = Inr st' \<Longrightarrow> protocol_from (Suc j) st ms = Inr st'"
proof (induction ms arbitrary: i j st)
  case (Cons m ms)
  then obtain s1 where "protocol_step (Suc i) m st = Inr s1" "protocol_from (Suc (Suc i)) s1 ms = Inr st'"
    by (auto simp: and_then_Inr_iff)
  then show ?case using Cons.IH [of "Suc i" s1 "Suc j"] protocol_step_index [of i m st s1 j] by simp
qed simp

lemma protocol_step_user: "role_is ''user'' m \<Longrightarrow> protocol_step i m st = user_step i m st"
  using role_is_unique [of "''user''" m "''system''"] by (auto simp: protocol_step_def)

lemma protocol_from_user:
  assumes "protocol_from (Suc i) st (u # ms) = Inr st'" "role_is ''user'' u"
  shows "protocol_from (Suc j) (None, b) (u # ms) = Inr st'"
proof -
  have step: "protocol_step k u s = user_step k u s" for k s using assms(2) by (rule protocol_step_user)
  obtain s1 where s1: "user_step (Suc i) u st = Inr s1" "protocol_from (Suc (Suc i)) s1 ms = Inr st'"
    using assms(1) by (auto simp: and_then_Inr_iff step)
  then have "s1 = (None, True)" "user_step (Suc j) u (None, b) = Inr (None, True)"
    using user_step_reset by blast+
  then show ?thesis
    using s1(2) protocol_from_index [of "Suc i" _ ms st' "Suc j"] by (simp add: step)
qed

lemma protocol_from_append:
  "protocol_from i st (xs @ ys) = Inr st' \<Longrightarrow>
     \<exists>s1. protocol_from i st xs = Inr s1 \<and> protocol_from (i + length xs) s1 ys = Inr st'"
proof (induction xs arbitrary: i st)
  case (Cons x xs)
  then obtain s0 where "protocol_step i x st = Inr s0" "protocol_from (Suc i) s0 (xs @ ys) = Inr st'"
    by (auto simp: and_then_Inr_iff)
  then show ?case using Cons.IH [of "Suc i" s0] by simp
qed simp

lemma system_first: "protocol_step 0 m st = Inr st' \<Longrightarrow> role_is ''system'' m \<Longrightarrow> st' = st"
  by (auto simp: protocol_step_def system_step_def split: if_split_asm)

text \<open>Only a user message can follow the system message.\<close>

lemma second_is_user:
  "protocol_step (Suc i) m (None, False) = Inr st' \<Longrightarrow> role_is ''user'' m"
  by (auto simp: protocol_step_def role_steps split: if_split_asm option.split_asm)

lemma protocol_drop_turns:
  assumes "validate_history_protocol (sys # pre @ u # tail) c = Inr ()" "role_is ''user'' u"
  shows "validate_history_protocol (sys # u # tail) c = Inr ()"
proof -
  have sys: "role_is ''system'' sys" using assms(1) by (auto simp: validate_history_protocol_def split: if_splits)
  obtain st where st: "protocol_from 0 (None, False) (sys # pre @ u # tail) = Inr st" "\<not> (c \<and> pending_open (fst st))"
    using assms(1) sys by (auto simp: validate_history_protocol_def and_then_Inr_iff split: if_splits)
  then have s0: "protocol_step 0 sys (None, False) = Inr (None, False)" "protocol_from (Suc 0) (None, False) (pre @ u # tail) = Inr st"
    using system_first [OF _ sys] by (auto simp: and_then_Inr_iff)
  obtain s1 where "protocol_from (Suc (length pre)) s1 (u # tail) = Inr st"
    using protocol_from_append [OF s0(2)] by auto
  then have "protocol_from (Suc 0) (None, False) (u # tail) = Inr st" using protocol_from_user assms(2) by blast
  then show ?thesis using s0(1) sys st(2) by (simp add: validate_history_protocol_def)
qed

lemma protocol_second_user:
  "validate_history_protocol (sys # m # rest) c = Inr () \<Longrightarrow> role_is ''user'' m"
proof -
  assume v: "validate_history_protocol (sys # m # rest) c = Inr ()"
  then have sys: "role_is ''system'' sys" by (auto simp: validate_history_protocol_def split: if_splits)
  obtain s0 s1 where "protocol_step 0 sys (None, False) = Inr s0" "protocol_step (Suc 0) m s0 = Inr s1"
    using v sys by (auto simp: validate_history_protocol_def and_then_Inr_iff split: if_splits)
  then show ?thesis using system_first [OF _ sys] second_is_user by blast
qed

section \<open>Trimming lemmas\<close>

definition fits :: "layout \<Rightarrow> nat \<Rightarrow> nat \<Rightarrow> chat_message list \<Rightarrow> bool" where
  "fits ly max_messages max_bytes ms \<longleftrightarrow> length ms - 1 \<le> max_messages \<and> chat_history_estimated_bytes ly ms \<le> max_bytes"

text \<open>
  A history is a system message and turns, each a user message with the messages it caused.
  Trimming drops turns from the front until the rest fits.
\<close>

definition is_turn :: "chat_message list \<Rightarrow> bool" where
  "is_turn t = (case t of [] \<Rightarrow> False | u # rest \<Rightarrow> role_is ''user'' u \<and> list_all (\<lambda>m. \<not> role_is ''user'' m) rest)"

fun drop_turns :: "(chat_message list list \<Rightarrow> bool) \<Rightarrow> chat_message list list \<Rightarrow> chat_message list list" where
  "drop_turns ok [] = []"
| "drop_turns ok (t # ts) = (if ok (t # ts) then t # ts else drop_turns ok ts)"

lemma dropWhile_turn:
  assumes "list_all (\<lambda>m. \<not> role_is ''user'' m) rest" "list_all is_turn ts"
  shows "dropWhile (\<lambda>x. \<not> role_is ''user'' x) (rest @ concat ts) = concat ts"
proof -
  have "dropWhile (\<lambda>x. \<not> role_is ''user'' x) (concat ts) = concat ts"
  proof (cases ts)
    case (Cons t ts')
    with assms(2) show ?thesis by (cases t) (auto simp: is_turn_def)
  qed simp
  then show ?thesis using assms(1) by (induction rest) auto
qed

lemma trim_loop_turns:
  assumes "list_all is_turn ts" "ts \<noteq> []" "fits ly mm mb (sys # last ts)"
  shows "trim_loop ly mm mb (sys # concat ts) =
    (sys # concat (drop_turns (\<lambda>ts. fits ly mm mb (sys # concat ts)) ts), Inr ())"
  using assms
proof (induction ts)
  case (Cons t ts)
  show ?case
  proof (cases "fits ly mm mb (sys # concat (t # ts))")
    case True
    then show ?thesis by (subst trim_loop.simps) (auto simp: fits_def)
  next
    case False
    then have ne: "ts \<noteq> []" using Cons.prems by auto
    obtain u rest where t: "t = u # rest" "role_is ''user'' u" "list_all (\<lambda>m. \<not> role_is ''user'' m) rest"
      using Cons.prems by (cases t) (auto simp: is_turn_def)
    obtain v more where v: "concat ts = v # more" using ne Cons.prems by (cases ts) (auto simp: is_turn_def split: list.splits)
    have dw: "dropWhile (\<lambda>x. \<not> role_is ''user'' x) (rest @ concat ts) = v # more"
      using dropWhile_turn [OF t(3), of ts] Cons.prems v by simp
    have "trim_loop ly mm mb (sys # concat (t # ts)) = trim_loop ly mm mb (sys # concat ts)"
      using False by (subst trim_loop.simps) (auto simp: t v fits_def dw [unfolded v])
    then show ?thesis using Cons.IH Cons.prems ne False by simp
  qed
qed simp

lemma drop_turns_suffix: "\<exists>dropped. ts = dropped @ drop_turns ok ts"
proof (induction ts)
  case (Cons t ts)
  then obtain d where "ts = d @ drop_turns ok ts" by blast
  then show ?case by (cases "ok (t # ts)") (auto intro: exI [of _ "t # d"])
qed simp

lemma drop_turns_last:
  "ts \<noteq> [] \<Longrightarrow> ok [last ts] \<Longrightarrow> drop_turns ok ts \<noteq> [] \<and> last (drop_turns ok ts) = last ts \<and> ok (drop_turns ok ts)"
  by (induction ts) auto

lemma drop_turns_longest:
  "ts = dropped @ kept \<Longrightarrow> length (drop_turns ok ts) < length kept \<Longrightarrow> \<not> ok kept"
proof (induction ts arbitrary: dropped)
  case (Cons t ts)
  show ?case
  proof (cases dropped)
    case Nil
    with Cons.prems show ?thesis by (auto split: if_splits)
  next
    case (Cons d ds)
    with Cons.prems show ?thesis using Cons.IH [of ds] by (auto split: if_splits)
  qed
qed simp

text \<open>The turns of a history.\<close>

function turns :: "chat_message list \<Rightarrow> chat_message list list" where
  "turns [] = []"
| "turns (u # ms) = (u # takeWhile (\<lambda>m. \<not> role_is ''user'' m) ms) # turns (dropWhile (\<lambda>m. \<not> role_is ''user'' m) ms)"
  by pat_completeness auto
termination
  by (relation "measure length") (auto simp: le_imp_less_Suc length_dropWhile_le)

lemma concat_turns [simp]: "concat (turns ms) = ms"
  by (induction ms rule: turns.induct) auto

lemma turns_ne [simp]: "turns ms = [] \<longleftrightarrow> ms = []"
  by (cases ms) auto

lemma turns_are_turns: "ms = [] \<or> role_is ''user'' (hd ms) \<Longrightarrow> list_all is_turn (turns ms)"
proof (induction ms rule: turns.induct)
  case (2 u ms)
  have "dropWhile (\<lambda>m. \<not> role_is ''user'' m) ms = [] \<or> role_is ''user'' (hd (dropWhile (\<lambda>m. \<not> role_is ''user'' m) ms))"
    using hd_dropWhile [of "\<lambda>m. \<not> role_is ''user'' m" ms] by auto
  with 2 show ?case by (simp add: is_turn_def list_all_iff) (blast dest: set_takeWhileD)
qed simp

text \<open>\<open>rposition\<close> finds the start of the last turn.\<close>

lemma rposition_user_last:
  assumes "role_is ''user'' u" "list_all (\<lambda>m. \<not> role_is ''user'' m) rest"
  shows "rposition_user (pre @ u # rest) = Some (length pre)"
proof -
  let ?ms = "pre @ u # rest"
  have split: "[0..<length ?ms] = [0..<length pre] @ length pre # [Suc (length pre)..<length ?ms]"
    by (metis append_Cons append_Nil le_add1 length_append upt_add_eq_append upt_conv_Cons add_0 length_Cons
        less_add_Suc1 add_Suc_right)
  have "filter (\<lambda>i. role_is ''user'' (?ms ! i)) [Suc (length pre)..<length ?ms] = []"
    using assms(2) by (auto simp: filter_empty_conv nth_append nth_Cons' list_all_length)
  then have "filter (\<lambda>i. role_is ''user'' (?ms ! i)) [0..<length ?ms] =
      filter (\<lambda>i. role_is ''user'' (?ms ! i)) [0..<length pre] @ [length pre]"
    using assms(1) by (simp only: split filter_append) simp
  then show ?thesis unfolding rposition_user_def Let_def by (simp only:) simp
qed

lemma enforce_turns:
  assumes "validate_history_protocol (sys # ms) False = Inr ()" "ms \<noteq> []" "check_caps mm mb = Inr ()"
  shows "enforce_conversation_history_limits ly (sys # ms) mm mb =
    (if fits ly mm mb (sys # last (turns ms)) then
       (let ms' = sys # concat (drop_turns (\<lambda>ts. fits ly mm mb (sys # concat ts)) (turns ms))
        in (ms', validate_chat_history ly ms' mm mb False))
     else (sys # ms, Inl (Validation (''current chat turn exceeds the configured history budget ('' @
        dec mm @ '' messages / '' @ dec mb @ '' bytes)''))))"
proof -
  let ?ts = "turns ms"
  obtain m rest where m: "ms = m # rest" using assms(2) by (cases ms) auto
  have user: "role_is ''user'' (hd ms)" using protocol_second_user assms(1) unfolding m by fastforce
  have sys: "role_is ''system'' sys" using assms(1) by (auto simp: validate_history_protocol_def split: if_splits)
  have all: "list_all is_turn ?ts" using turns_are_turns user by blast
  have ne: "?ts \<noteq> []" using assms(2) by simp
  then have "is_turn (last ?ts)" using all by (simp add: list_all_iff)
  then obtain u r where u: "last ?ts = u # r" "role_is ''user'' u" "list_all (\<lambda>m. \<not> role_is ''user'' m) r"
    by (cases "last ?ts") (auto simp: is_turn_def)
  have split: "sys # ms = (sys # concat (butlast ?ts)) @ u # r"
    using u(1) ne concat_turns [of ms] by (metis append_Cons append_butlast_last_id append_Nil2 concat.simps concat_append)
  obtain start where start: "start = length (sys # concat (butlast ?ts))" by blast
  have pos: "rposition_user (sys # ms) = Some start"
    unfolding split start by (rule rposition_user_last) (rule u)+
  have drop: "drop start (sys # ms) = u # r" and len: "length (sys # ms) - start = length (u # r)"
    unfolding split start by simp_all
  have bytes: "history_bytes_from ly (saturating_add (sz_vec ly) (estimated_bytes ly sys)) (u # r) =
      chat_history_estimated_bytes ly (sys # u # r)"
    by (simp add: chat_history_estimated_bytes_def history_bytes_from_def)
  have fit: "fits ly mm mb (sys # last ?ts) \<longleftrightarrow> \<not> (mm < length (u # r) \<or> mb < chat_history_estimated_bytes ly (sys # u # r))"
    by (auto simp: fits_def u(1))
  have "\<not> (length (sys # ms) < 2 \<or> \<not> role_is ''system'' ((sys # ms) ! 0))" using m sys by simp
  then have "enforce_conversation_history_limits ly (sys # ms) mm mb =
      (if mm < length (u # r) \<or> mb < chat_history_estimated_bytes ly (sys # u # r)
       then (sys # ms, Inl (Validation (''current chat turn exceeds the configured history budget ('' @
           dec mm @ '' messages / '' @ dec mb @ '' bytes)'')))
       else case trim_loop ly mm mb (sys # ms) of
           (ms', Inl e) \<Rightarrow> (ms', Inl e)
         | (ms', Inr _) \<Rightarrow> (ms', validate_chat_history ly ms' mm mb False))"
    unfolding enforce_conversation_history_limits_def
    by (simp only: if_False assms(1,3) pos drop len bytes sum.case option.case Let_def nth_Cons_0)
  then show ?thesis
    using trim_loop_turns [OF all ne, of ly mm mb sys] fit by (simp del: length_Cons add: Let_def)
qed

lemma validate_trimmed:
  assumes "validate_history_protocol (sys # ms) False = Inr ()" "ms \<noteq> []" "check_caps mm mb = Inr ()"
    and "turns ms = dropped @ kept" "kept \<noteq> []" "fits ly mm mb (sys # concat kept)"
  shows "validate_chat_history ly (sys # concat kept) mm mb False = Inr ()"
proof -
  obtain m rest where m: "ms = m # rest" using assms(2) by (cases ms) auto
  have "role_is ''user'' (hd ms)" using protocol_second_user assms(1) unfolding m by fastforce
  then have "list_all is_turn kept" using turns_are_turns [of ms] assms(4) by auto
  then obtain u tail where u: "concat kept = u # tail" "role_is ''user'' u"
    using assms(5) by (cases kept) (auto simp: is_turn_def split: list.splits)
  have "ms = concat dropped @ u # tail" using concat_turns [of ms] u(1) by (simp add: assms(4))
  then have "validate_history_protocol (sys # u # tail) False = Inr ()"
    using protocol_drop_turns assms(1) u(2) by metis
  then show ?thesis using assms(3,6) u(1) by (simp add: validate_chat_history_def fits_def)
qed

section \<open>Properties\<close>

text \<open>
  C19. Trimming a conversation that follows the tool-call protocol, with admissible caps, never
  fails halfway: when the current turn fits its budget, the result is the system message and
  the longest run of latest turns that fits, so that whole turns are dropped and no more than
  needed; the result is again a valid history within both caps, and the current turn is in it.
  Otherwise the history is left as it was and the error says so.\<close>

theorem history_trimming_exact:
  assumes "validate_history_protocol (sys # ms) False = Inr ()" and "ms \<noteq> []"
    and "1 \<le> max_messages" and "max_messages \<le> 4096" and "1 \<le> max_bytes" and "max_bytes \<le> 268435456"
  shows "if fits ly max_messages max_bytes (sys # last (turns ms))
    then (\<exists>dropped kept. turns ms = dropped @ kept \<and> kept \<noteq> [] \<and>
      enforce_conversation_history_limits ly (sys # ms) max_messages max_bytes = (sys # concat kept, Inr ()) \<and>
      fits ly max_messages max_bytes (sys # concat kept) \<and>
      validate_chat_history ly (sys # concat kept) max_messages max_bytes False = Inr () \<and>
      (\<forall>d k. turns ms = d @ k \<and> length kept < length k \<longrightarrow> \<not> fits ly max_messages max_bytes (sys # concat k)))
    else (\<exists>e. enforce_conversation_history_limits ly (sys # ms) max_messages max_bytes = (sys # ms, Inl e))"
proof -
  have caps: "check_caps max_messages max_bytes = Inr ()" using assms by (simp add: check_caps_def)
  note E = enforce_turns [OF assms(1,2) caps, of ly]
  show ?thesis
  proof (cases "fits ly max_messages max_bytes (sys # last (turns ms))")
    case False
    then show ?thesis using E by simp
  next
    case True
    let ?ok = "\<lambda>ts. fits ly max_messages max_bytes (sys # concat ts)"
    obtain kept where kept: "kept = drop_turns ?ok (turns ms)" by blast
    obtain dropped where d: "turns ms = dropped @ kept" using drop_turns_suffix unfolding kept by blast
    have k: "kept \<noteq> []" "?ok kept" using drop_turns_last [of "turns ms" ?ok] True assms(2) unfolding kept by auto
    have "validate_chat_history ly (sys # concat kept) max_messages max_bytes False = Inr ()"
      using validate_trimmed [OF assms(1,2) caps d k(1)] k(2) by simp
    moreover have "\<forall>e f. turns ms = e @ f \<and> length kept < length f \<longrightarrow> \<not> ?ok f"
      using drop_turns_longest [of "turns ms" _ _ ?ok] unfolding kept by blast
    moreover have "enforce_conversation_history_limits ly (sys # ms) max_messages max_bytes =
        (sys # concat kept, validate_chat_history ly (sys # concat kept) max_messages max_bytes False)"
      using True E by (simp add: Let_def kept)
    ultimately show ?thesis using True d k by (simp only: if_True) blast
  qed
qed

definition unit_layout :: layout where
  "unit_layout = \<lparr>sz_string = 24, sz_vec = 24, sz_map = 24, sz_value = 32, sz_message = 144, sz_tool_call = 96, sz_image = 48\<rparr>"

theorem history_trimming_exact_witness:
  "\<exists>kept. enforce_conversation_history_limits unit_layout
     [system_message ''s'', user_message ''a'', user_message ''b''] 1 1000 = (system_message ''s'' # concat kept, Inr ())
     \<and> kept \<noteq> []"
proof -
  have v: "validate_history_protocol [system_message ''s'', user_message ''a'', user_message ''b''] False = Inr ()"
    by (simp add: validate_history_protocol_def protocol_step_def system_step_def user_step_def system_message_def
        user_message_def exact_buf_def role_is_def pending_open_def)
  have "fits unit_layout 1 1000 (system_message ''s'' # last (turns [user_message ''a'', user_message ''b'']))"
    by (simp add: fits_def unit_layout_def chat_history_estimated_bytes_def history_bytes_from_def estimated_bytes_def
        vec_bytes_def opt_cap_def saturating_add_def u64_max_def system_message_def user_message_def exact_buf_def role_is_def)
  then show ?thesis using history_trimming_exact [OF v, of 1 1000 unit_layout] by auto
qed

text \<open>
  Bounded appending keeps the accumulator within its byte budget (or as it was, when it was
  already past it), appends a prefix of the text that ends at a character boundary, reports
  omission exactly when something was left out, and omits less than one character that would
  have fit.\<close>

theorem append_text_bounded_exact:
  "\<exists>n. fst (append_text_bounded target text max_bytes) = target @ take n text \<and> n \<le> length text \<and>
     is_char_boundary text n \<and>
     length (fst (append_text_bounded target text max_bytes)) \<le> max (length target) max_bytes \<and>
     (snd (append_text_bounded target text max_bytes) \<longleftrightarrow> n < length text) \<and>
     (\<forall>k. k \<le> length text \<and> is_char_boundary text k \<and> length target + k \<le> max_bytes \<longrightarrow> k \<le> n)"
proof -
  have floor_max: "k \<le> char_floor s j" if "is_char_boundary s k" "k \<le> j" for s k j
    using that by (induction j) (auto simp: le_Suc_eq)
  let ?r = "max_bytes - length target"
  consider (empty) "text = []" | (full) "text \<noteq> []" "?r = 0" | (fit) "text \<noteq> []" "?r \<noteq> 0" "length text \<le> ?r"
    | (cut) "text \<noteq> []" "?r \<noteq> 0" "?r < length text" by linarith
  then show ?thesis
  proof cases
    case cut
    have "char_floor text ?r \<le> ?r" by (rule char_floor_le)
    moreover have "is_char_boundary text (char_floor text ?r)" by (rule char_floor_boundary)
    ultimately show ?thesis
      using cut floor_max [of "text" _ ?r]
      by (intro exI [of _ "char_floor text ?r"]) (auto simp: append_text_bounded_def Let_def)
  next
    case fit
    then show ?thesis
      by (intro exI [of _ "length text"]) (auto simp: append_text_bounded_def Let_def is_char_boundary_def)
  next
    case full
    then show ?thesis
      by (intro exI [of _ 0]) (auto simp: append_text_bounded_def Let_def is_char_boundary_def)
  qed (simp add: append_text_bounded_def is_char_boundary_def)
qed

theorem append_text_bounded_exact_witness:
  "length (fst (append_text_bounded ''ab'' ''cde'' 4)) \<le> max (length ''ab'') 4"
  using append_text_bounded_exact [of "''ab''" "''cde''" 4] by blast

end
