(* ===== verification/Conversation.thy ===== *)
theory Conversation
  imports Chat_History Idempotency Token_Budget
begin

text \<open>
  \<open>src/src/engine/conversation_identity.rs\<close>, \<open>conversation_record.rs\<close>, \<open>sessions.rs\<close> and
  \<open>session_usage.rs\<close>: durable conversation records, their identity and the checks at the storage
  boundary.

  UUID parsing (\<open>uuid\<close>) is a parameter: it returns whether the identifier is nil and its canonical
  hyphenated text. A check that panics returns \<open>None\<close>, as in \<open>Token_Budget\<close>.
\<close>

section \<open>Session identifiers\<close>

definition session_char :: "string \<Rightarrow> bool" where
  "session_char c = (case c of [b] \<Rightarrow> is_ascii_alphanumeric b \<or> b \<in> set ''-_.'' | _ \<Rightarrow> False)"

fun check_session_chars :: "string \<Rightarrow> nat \<Rightarrow> string list \<Rightarrow> (iron_error, unit) result" where
  "check_session_chars ident i [] = Inr ()"
| "check_session_chars ident i (c # cs) =
    (if \<not> session_char c
     then Inl (Validation (''session id '' @ quoted ident @ '' contains invalid character '' @ quoted c @
         '' at position '' @ dec i @ '' (allowed: letters, digits, '' @ quoted ''-'' @ '', '' @ quoted ''_'' @ '', '' @
         quoted ''.'' @ '')''))
     else check_session_chars ident (i + length c) cs)"

definition validate_session_id :: "string \<Rightarrow> (iron_error, unit) result" where
  "validate_session_id ident =
    (if ident = [] then Inl (Validation ''session id must not be empty'')
     else if 128 < length ident
     then Inl (Validation (''session id '' @ quoted ident @ '' is too long (max 128 chars)''))
     else check_session_chars ident 0 (chars_of ident))"

section \<open>Execution identity\<close>

type_synonym uuid_parser = "string \<Rightarrow> (bool \<times> string) option"

record execution =
  schema_version :: nat
  incarnation_id :: string
  source_fingerprint :: string
  definition_fingerprint :: string
  max_history :: nat
  history_max_bytes :: nat

definition conflict :: "string \<Rightarrow> iron_error" where
  "conflict reason = Conflict (''Conversation has a '' @ reason @
     ''; export its history, delete it, and start a new conversation'')"

definition strip_prefix_or_empty :: "string \<Rightarrow> string \<Rightarrow> string" where
  "strip_prefix_or_empty p s = (if take (length p) s = p then drop (length p) s else [])"

definition validate_fingerprint :: "string \<Rightarrow> string \<Rightarrow> (iron_error, unit) result" where
  "validate_fingerprint lbl v =
     ensure (valid_digest (strip_prefix_or_empty ''sha256:'' v)) (conflict (''invalid '' @ lbl @ '' fingerprint''))"

definition validate_execution :: "uuid_parser \<Rightarrow> execution \<Rightarrow> (iron_error, unit) result" where
  "validate_execution uuid e =
    and_then (ensure (schema_version e = 1) (conflict ''legacy or unsupported execution identity'')) (\<lambda>_.
    case uuid (incarnation_id e) of
      None \<Rightarrow> Inl (conflict ''invalid durable incarnation'')
    | Some (nil, hyphenated) \<Rightarrow>
        and_then (ensure (\<not> (nil \<or> hyphenated \<noteq> incarnation_id e)) (conflict ''non-canonical durable incarnation'')) (\<lambda>_.
        and_then (validate_fingerprint ''source'' (source_fingerprint e)) (\<lambda>_.
        and_then (validate_fingerprint ''definition'' (definition_fingerprint e)) (\<lambda>_.
        ensure (\<not> (\<not> (1 \<le> max_history e \<and> max_history e \<le> 4096) \<or>
                   \<not> (1 \<le> history_max_bytes e \<and> history_max_bytes e \<le> 268435456)))
          (conflict ''invalid durable transcript limits'')))))"

text \<open>\<open>fresh\<close> is the random identifier of \<open>Uuid::new_v4\<close>.\<close>

definition new_execution :: "uuid_parser \<Rightarrow> string \<Rightarrow> string \<Rightarrow> string \<Rightarrow> nat \<Rightarrow> nat \<Rightarrow> (iron_error, execution) result" where
  "new_execution uuid fresh source def_fp mh hb =
    (let e = \<lparr>schema_version = 1, incarnation_id = fresh, source_fingerprint = source,
        definition_fingerprint = def_fp, max_history = mh, history_max_bytes = hb\<rparr>
     in and_then (validate_execution uuid e) (\<lambda>_. Inr e))"

definition conversation_mutation_scope :: "string \<Rightarrow> string \<Rightarrow> string \<Rightarrow> string" where
  "conversation_mutation_scope flow ident incarnation =
     ''conversation.message:v2:'' @ flow @ '':'' @ ident @ '':'' @ incarnation"

section \<open>Records\<close>

record conversation =
  cv_usage :: usage_snapshot
  cv_id :: string
  cv_flow_name :: string
  cv_flow_path :: "string option"
  cv_agent_name :: string
  cv_execution :: execution
  cv_messages :: "chat_message list"
  cv_created_at :: string
  cv_updated_at :: string
  cv_revision :: nat

record conversation_summary =
  sm_usage :: usage_snapshot
  sm_id :: string
  sm_flow_path :: "string option"
  sm_agent_name :: string
  sm_created_at :: string
  sm_updated_at :: string
  sm_turn_count :: nat

definition summarize :: "conversation \<Rightarrow> conversation_summary" where
  "summarize r = \<lparr>sm_usage = cv_usage r, sm_id = cv_id r, sm_flow_path = cv_flow_path r,
     sm_agent_name = cv_agent_name r, sm_created_at = cv_created_at r, sm_updated_at = cv_updated_at r,
     sm_turn_count = length (filter (role_is ''user'') (cv_messages r))\<rparr>"

section \<open>Storage boundary\<close>

definition validate_session_usage :: "usage_snapshot \<Rightarrow> (iron_error, unit) result option" where
  "validate_session_usage s =
     map_option (\<lambda>r. case r of
        Inl e \<Rightarrow> Inl (Validation e)
      | Inr _ \<Rightarrow> ensure (s_in_flight s = 0) (Validation ''Session usage checkpoint contains in-flight requests''))
       (validate_snapshot s)"

definition validate_stored_conversation_metadata_bytes :: "string \<Rightarrow> nat \<Rightarrow> (iron_error, unit) result" where
  "validate_stored_conversation_metadata_bytes lbl bytes =
     ensure (\<not> 65536 < bytes) (Validation (''Stored conversation '' @ lbl @ '' exceeds the hard metadata byte limit''))"

definition validate_stored_conversation_execution_bytes :: "nat \<Rightarrow> (iron_error, unit) result" where
  "validate_stored_conversation_execution_bytes bytes =
     ensure (\<not> 16384 < bytes) (Validation ''Stored conversation execution identity exceeds the hard byte limit'')"

definition validate_stored_conversation_messages_envelope :: "nat \<Rightarrow> nat option \<Rightarrow> (iron_error, unit) result" where
  "validate_stored_conversation_messages_envelope bytes message_count =
    (if 268435456 < bytes then Inl (Validation ''Stored conversation messages exceed the hard byte limit'')
     else case message_count of
         None \<Rightarrow> Inl (Validation ''Stored conversation messages must be a JSON array'')
       | Some n \<Rightarrow> ensure (\<not> 4097 < n) (Validation ''Stored conversation message count exceeds the hard limit''))"

definition validate_stored_conversation_envelope :: "nat \<Rightarrow> nat \<Rightarrow> nat option \<Rightarrow> (iron_error, unit) result" where
  "validate_stored_conversation_envelope execution_bytes messages_bytes message_count =
     and_then (validate_stored_conversation_execution_bytes execution_bytes)
       (\<lambda>_. validate_stored_conversation_messages_envelope messages_bytes message_count)"

definition validate_metadata :: "conversation \<Rightarrow> (iron_error, unit) result" where
  "validate_metadata r =
     and_then (try_each (\<lambda>(lbl, v). validate_stored_conversation_metadata_bytes lbl (length v))
       [(''flow name'', cv_flow_name r), (''agent name'', cv_agent_name r),
        (''created timestamp'', cv_created_at r), (''updated timestamp'', cv_updated_at r)])
       (\<lambda>_. validate_optional (\<lambda>p. validate_stored_conversation_metadata_bytes ''flow path'' (length p)) (cv_flow_path r))"

definition validate_persisted_history :: "layout \<Rightarrow> (iron_error \<Rightarrow> string) \<Rightarrow> conversation \<Rightarrow> (iron_error, unit) result" where
  "validate_persisted_history ly show_error r =
    (case validate_chat_history ly (cv_messages r) (max_history (cv_execution r)) (history_max_bytes (cv_execution r)) True of
       Inr _ \<Rightarrow> Inr ()
     | Inl e \<Rightarrow> Inl (Validation (''Conversation '' @ quoted (cv_id r) @ '' has invalid persisted history: '' @ show_error e)))"

definition and_then_opt :: "('e, 'a) result option \<Rightarrow> ('a \<Rightarrow> ('e, 'b) result) \<Rightarrow> ('e, 'b) result option" where
  "and_then_opt r k = map_option (\<lambda>x. and_then x k) r"

definition validate_conversation_record_for_write ::
    "layout \<Rightarrow> (iron_error \<Rightarrow> string) \<Rightarrow> uuid_parser \<Rightarrow> conversation \<Rightarrow> (iron_error, unit) result option" where
  "validate_conversation_record_for_write ly show_error uuid r =
     and_then_opt (validate_session_usage (cv_usage r)) (\<lambda>_.
     and_then (validate_session_id (cv_id r)) (\<lambda>_.
     and_then (validate_metadata r) (\<lambda>_.
     and_then (validate_execution uuid (cv_execution r)) (\<lambda>_.
     validate_persisted_history ly show_error r))))"

definition validate_conversation_record_after_decode ::
    "layout \<Rightarrow> (iron_error \<Rightarrow> string) \<Rightarrow> uuid_parser \<Rightarrow> conversation \<Rightarrow> (iron_error, unit) result option" where
  "validate_conversation_record_after_decode ly show_error uuid r =
     and_then_opt (validate_session_usage (cv_usage r)) (\<lambda>_.
     and_then (validate_session_id (cv_id r)) (\<lambda>_.
     and_then (validate_metadata r) (\<lambda>_.
     if 4097 < length (cv_messages r)
     then Inl (Validation ''Stored conversation message count exceeds the hard limit'')
     else if 268435456 < chat_history_estimated_bytes ly (cv_messages r)
     then Inl (Validation ''Stored conversation history exceeds the hard in-memory byte limit'')
     else if is_ok (validate_execution uuid (cv_execution r)) then validate_persisted_history ly show_error r
     else Inr ())))"

section \<open>Lemmas\<close>

lemma check_session_chars_Inr: "check_session_chars ident i cs = Inr u \<longleftrightarrow> list_all session_char cs"
  by (induction cs arbitrary: i) auto

lemma session_id_no_colon:
  assumes "validate_session_id ident = Inr ()"
  shows "CHR '':'' \<notin> set ident"
proof
  assume "CHR '':'' \<in> set ident"
  then have "CHR '':'' \<in> set (concat (chars_of ident))" by simp
  then obtain c where c: "c \<in> set (chars_of ident)" "CHR '':'' \<in> set c" by (auto simp del: concat_chars_of)
  have "list_all session_char (chars_of ident)"
    using assms by (simp add: validate_session_id_def check_session_chars_Inr split: if_splits)
  then have "session_char c" using c(1) by (simp add: list_all_iff)
  then show False
    using c(2) by (auto simp: session_char_def is_ascii_alphanumeric_def is_ascii_digit_def byte_def split: list.splits)
qed

lemma takeWhile_sep: "x \<notin> set b \<Longrightarrow> takeWhile (\<lambda>y. y \<noteq> x) (b @ x # a) = b"
  by (induction b) auto

lemma split_last_sep:
  assumes "a @ x # b = c @ x # d" "x \<notin> set b" "x \<notin> set d"
  shows "a = c \<and> b = d"
proof -
  have "rev b @ x # rev a = rev d @ x # rev c" using arg_cong [OF assms(1), of rev] by simp
  then have "takeWhile (\<lambda>y. y \<noteq> x) (rev b @ x # rev a) = takeWhile (\<lambda>y. y \<noteq> x) (rev d @ x # rev c)" by (rule arg_cong)
  then have "rev b = rev d" using assms(2,3) by (simp add: takeWhile_sep)
  then show ?thesis using assms(1) by simp
qed

lemma execution_ok_limits:
  "validate_execution uuid e = Inr () \<Longrightarrow>
     1 \<le> max_history e \<and> max_history e \<le> 4096 \<and> 1 \<le> history_max_bytes e \<and> history_max_bytes e \<le> 268435456"
  by (auto simp: validate_execution_def split: option.splits prod.splits)

definition demo_execution :: execution where
  "demo_execution = \<lparr>schema_version = 1, incarnation_id = ''i'', source_fingerprint = ''sha256:'' @ replicate 64 (CHR ''a''),
     definition_fingerprint = ''sha256:'' @ replicate 64 (CHR ''b''), max_history = 2, history_max_bytes = 1024\<rparr>"

definition demo_conversation :: conversation where
  "demo_conversation = \<lparr>cv_usage = default_snapshot, cv_id = ''chat'', cv_flow_name = ''f'', cv_flow_path = Some ''f'',
     cv_agent_name = ''a'', cv_execution = demo_execution, cv_messages = [system_message ''s''],
     cv_created_at = ''t'', cv_updated_at = ''t'', cv_revision = 0\<rparr>"

definition demo_uuid :: uuid_parser where
  "demo_uuid s = Some (False, s)"

lemma demo_execution_ok: "validate_execution demo_uuid demo_execution = Inr ()"
  by (simp add: validate_execution_def demo_execution_def demo_uuid_def validate_fingerprint_def
      strip_prefix_or_empty_def valid_digest_def is_lower_hex_def is_ascii_digit_def byte_def list_all_iff)

lemma demo_conversation_ok:
  "validate_conversation_record_for_write unit_layout (\<lambda>_. []) demo_uuid demo_conversation = Some (Inr ())"
proof -
  have "validate_snapshot default_snapshot = Some (Inr ())"
    by (simp add: validate_snapshot_def default_snapshot_def new_snapshot_def validate_budget_def default_budget_def
        validate_aggregate_def default_aggregate_def checked_add_def u64_max_def ensure_def)
  then have u: "validate_session_usage default_snapshot = Some (Inr ())"
    by (simp add: validate_session_usage_def default_snapshot_def new_snapshot_def)
  have i: "validate_session_id ''chat'' = Inr ()"
    by (simp add: validate_session_id_def session_char_def is_ascii_alphanumeric_def byte_def is_cont_def)
  have m: "validate_metadata demo_conversation = Inr ()"
    by (simp add: validate_metadata_def demo_conversation_def validate_stored_conversation_metadata_bytes_def ensure_def)
  have h: "validate_persisted_history unit_layout (\<lambda>_. []) demo_conversation = Inr ()"
    by (simp add: validate_persisted_history_def demo_conversation_def demo_execution_def validate_chat_history_def
        check_caps_def chat_history_estimated_bytes_def history_bytes_from_def estimated_bytes_def vec_bytes_def
        opt_cap_def saturating_add_def u64_max_def system_message_def exact_buf_def unit_layout_def
        validate_history_protocol_def protocol_step_def system_step_def role_is_def pending_open_def)
  show ?thesis
    using u i m h demo_execution_ok
    by (simp add: validate_conversation_record_for_write_def and_then_opt_def) (simp add: demo_conversation_def)
qed

text \<open>A record that passes the checks before a write passes those after decoding; none of them panics then.\<close>

lemma written_readable:
  assumes "validate_conversation_record_for_write ly show_error uuid r = Some (Inr ())"
  shows "validate_conversation_record_after_decode ly show_error uuid r = Some (Inr ())"
proof -
  have w: "validate_session_usage (cv_usage r) = Some (Inr ())" "validate_session_id (cv_id r) = Inr ()"
    "validate_metadata r = Inr ()" "validate_execution uuid (cv_execution r) = Inr ()"
    "validate_persisted_history ly show_error r = Inr ()"
    using assms by (auto simp: validate_conversation_record_for_write_def and_then_opt_def)
  then have "is_ok (validate_execution uuid (cv_execution r))" by (simp add: is_ok_def)
  moreover have "validate_chat_history ly (cv_messages r) (max_history (cv_execution r))
      (history_max_bytes (cv_execution r)) True = Inr ()"
    using w(5) by (auto simp: validate_persisted_history_def split: sum.splits)
  then have "length (cv_messages r) - 1 \<le> max_history (cv_execution r)"
    "chat_history_estimated_bytes ly (cv_messages r) \<le> history_max_bytes (cv_execution r)"
    by (auto simp: validate_chat_history_def split: if_splits)
  then have "\<not> 4097 < length (cv_messages r)" "\<not> 268435456 < chat_history_estimated_bytes ly (cv_messages r)"
    using execution_ok_limits [OF w(4)] by auto
  ultimately show ?thesis
    using w by (simp add: validate_conversation_record_after_decode_def and_then_opt_def)
qed

section \<open>Properties\<close>

text \<open>
  The exclusive scope of a conversation turn identifies the conversation: for accepted session
  identifiers and canonical incarnations (whose text has no colon), two scopes are equal only
  for the same flow, the same conversation and the same incarnation, although a flow name may
  itself contain colons. So turns of different conversations never block each other.\<close>

theorem mutation_scope_identifies_conversation:
  assumes "validate_session_id id1 = Inr ()" and "validate_session_id id2 = Inr ()"
    and "CHR '':'' \<notin> set inc1" and "CHR '':'' \<notin> set inc2"
  shows "conversation_mutation_scope flow1 id1 inc1 = conversation_mutation_scope flow2 id2 inc2 \<longleftrightarrow>
    flow1 = flow2 \<and> id1 = id2 \<and> inc1 = inc2"
proof
  assume eq: "conversation_mutation_scope flow1 id1 inc1 = conversation_mutation_scope flow2 id2 inc2"
  then have "(flow1 @ '':'' @ id1) @ CHR '':'' # inc1 = (flow2 @ '':'' @ id2) @ CHR '':'' # inc2"
    by (simp add: conversation_mutation_scope_def)
  from split_last_sep [OF this assms(3,4)]
  have "flow1 @ '':'' @ id1 = flow2 @ '':'' @ id2" "inc1 = inc2" by simp_all
  moreover from this(1) have "flow1 = flow2 \<and> id1 = id2"
    using split_last_sep [of flow1 "CHR '':''" id1 flow2 id2] session_id_no_colon assms(1,2) by simp
  ultimately show "flow1 = flow2 \<and> id1 = id2 \<and> inc1 = inc2" by blast
qed simp

theorem mutation_scope_identifies_conversation_witness:
  "conversation_mutation_scope ''a:b'' ''c'' ''1'' \<noteq> conversation_mutation_scope ''a'' ''c'' ''1''"
proof -
  have "validate_session_id ''c'' = Inr ()"
    by (simp add: validate_session_id_def session_char_def is_ascii_alphanumeric_def byte_def)
  then show ?thesis using mutation_scope_identifies_conversation [of "''c''" "''c''" "''1''" "''1''" "''a:b''" "''a''"] by simp
qed

end
