(* ===== verification/Conversation_Json.thy ===== *)
theory Conversation_Json
  imports Prelude
begin

text \<open>
  \<open>src/src/engine/conversation_json.rs\<close> and \<open>conversation_json/number.rs\<close>: the structural check a
  stored conversation has to pass before it is decoded. It scans the text once and bounds
  its size, nesting, number of values and keys, strings and containers.

  The parser's position is the rest of the text. The nesting and the entries of a container are
  counted down from their limits, which are what ends the recursion.
\<close>

section \<open>Numbers\<close>

definition consume_digits :: "string \<Rightarrow> string" where
  "consume_digits cs = dropWhile is_ascii_digit cs"

fun starts_digit :: "string \<Rightarrow> bool" where
  "starts_digit [] = False"
| "starts_digit (c # cs) = is_ascii_digit c"

fun scan_exponent :: "string \<Rightarrow> string option" where
  "scan_exponent [] = Some []"
| "scan_exponent (c # cs) =
    (if c = CHR ''e'' \<or> c = CHR ''E'' then
       (let ds = (case cs of d # rest \<Rightarrow> if d = CHR ''+'' \<or> d = CHR ''-'' then rest else cs | [] \<Rightarrow> cs)
        in if \<not> starts_digit ds then None else Some (consume_digits ds))
     else Some (c # cs))"

fun scan_fraction :: "string \<Rightarrow> string option" where
  "scan_fraction [] = scan_exponent []"
| "scan_fraction (c # cs) =
    (if c = CHR ''.'' then (if \<not> starts_digit cs then None else scan_exponent (consume_digits cs))
     else scan_exponent (c # cs))"

definition number_scan :: "string \<Rightarrow> string option" where
  "number_scan cs =
    (let ds = (case cs of c # rest \<Rightarrow> if c = CHR ''-'' then rest else cs | [] \<Rightarrow> cs)
     in case ds of
          [] \<Rightarrow> None
        | d # rest \<Rightarrow>
           (if d = CHR ''0'' then scan_fraction rest
            else if is_ascii_digit d then scan_fraction (consume_digits ds)
            else None))"

section \<open>The parser\<close>

record json_limits =
  lm_bytes :: nat
  lm_depth :: nat
  lm_nodes :: nat
  lm_string_bytes :: nat
  lm_container_entries :: nat

definition stored_limits :: "nat \<Rightarrow> json_limits" where
  "stored_limits bytes = \<lparr>lm_bytes = bytes, lm_depth = 64, lm_nodes = 262144, lm_string_bytes = min bytes 268435456,
     lm_container_entries = 16384\<rparr>"

definition limit_error :: "string \<Rightarrow> string \<Rightarrow> iron_error" where
  "limit_error label limit = Validation (''Stored conversation '' @ label @ '' exceeds the hard JSON '' @ limit @ '' limit'')"

definition invalid_error :: "string \<Rightarrow> string \<Rightarrow> iron_error" where
  "invalid_error label detail = Validation (''Stored conversation '' @ label @ '' '' @ detail)"

text \<open>What is left of the text and the nodes seen.\<close>

type_synonym json_parser = "string \<times> nat"

definition skip_whitespace :: "string \<Rightarrow> string" where
  "skip_whitespace cs = dropWhile (\<lambda>c. byte c = 32 \<or> byte c = 10 \<or> byte c = 13 \<or> byte c = 9) cs"

definition bump_node :: "string \<Rightarrow> json_limits \<Rightarrow> nat \<Rightarrow> (iron_error, nat) result" where
  "bump_node label lim nodes =
    (let n = saturating_add nodes 1 in if lm_nodes lim < n then Inl (limit_error label ''node'') else Inr n)"

definition is_ascii_hexdigit :: "char \<Rightarrow> bool" where
  "is_ascii_hexdigit c = (is_ascii_digit c \<or> (65 \<le> byte c \<and> byte c \<le> 70) \<or> (97 \<le> byte c \<and> byte c \<le> 102))"

text \<open>
  \<open>n\<close> is the distance from the opening quote; \<open>more\<close> what is taken of the text besides \<open>c\<close>.
\<close>

function parse_string_from :: "string \<Rightarrow> json_limits \<Rightarrow> nat \<Rightarrow> string \<Rightarrow> (iron_error, string) result" where
  "parse_string_from label lim n [] = Inl (invalid_error label ''contains an unterminated string'')"
| "parse_string_from label lim n (c # cs) =
    (if byte c = 34 then Inr cs
     else
       and_then
         (if byte c = 92 then
            (case cs of
               [] \<Rightarrow> Inl (invalid_error label ''contains an unterminated string escape'')
             | e # ds \<Rightarrow>
                (if e = CHR ''u'' then
                   (if length (take 4 ds) = 4 \<and> list_all is_ascii_hexdigit (take 4 ds) then Inr 5
                    else Inl (invalid_error label ''contains an invalid Unicode escape''))
                 else if byte e = 34 \<or> byte e = 92 \<or> e \<in> set ''/bfnrt'' then Inr 1
                 else Inl (invalid_error label ''contains an invalid string escape'')))
          else if byte c < 32 then Inl (invalid_error label ''contains a control byte in a string'')
          else Inr (0 :: nat))
         (\<lambda>more. if lm_string_bytes lim < n + Suc more then Inl (limit_error label ''string-byte'')
            else parse_string_from label lim (n + Suc more) (drop more cs)))"
  by pat_completeness auto
termination by (relation "measure (\<lambda>(label, lim, n, cs). length cs)") auto

definition parse_literal :: "string \<Rightarrow> string \<Rightarrow> string \<Rightarrow> (iron_error, string) result" where
  "parse_literal label literal cs =
    (if take (length literal) cs \<noteq> literal then Inl (invalid_error label ''contains an invalid JSON literal'')
     else Inr (drop (length literal) cs))"

text \<open>
  The loops over the members of an object and the elements of an array; \<open>value\<close> parses a
  value one level deeper.
\<close>

fun parse_members :: "string \<Rightarrow> json_limits \<Rightarrow> (json_parser \<Rightarrow> (iron_error, json_parser) result) \<Rightarrow>
    nat \<Rightarrow> json_parser \<Rightarrow> (iron_error, json_parser) result" where
  "parse_members label lim value entries (cs, nodes) =
    (if entries = 0 then Inl (limit_error label ''container-entry'')
     else
      and_then (bump_node label lim nodes) (\<lambda>n1.
      and_then (if cs = [] \<or> byte (hd cs) \<noteq> 34 then Inl (invalid_error label ''contains a non-string object key'')
                else parse_string_from label lim 0 (tl cs)) (\<lambda>after_key.
      let colon = skip_whitespace after_key in
      and_then (if colon = [] \<or> hd colon \<noteq> CHR '':'' then Inl (invalid_error label ''contains invalid object syntax'')
                else value (skip_whitespace (tl colon), n1)) (\<lambda>(after_value, n2).
      case skip_whitespace after_value of
        [] \<Rightarrow> Inl (invalid_error label ''contains invalid object syntax'')
      | c # rest \<Rightarrow>
         (if c = CHR ''}'' then Inr (rest, n2)
          else if c = CHR '','' then parse_members label lim value (entries - 1) (skip_whitespace rest, n2)
          else Inl (invalid_error label ''contains invalid object syntax''))))))"

fun parse_elements :: "string \<Rightarrow> (json_parser \<Rightarrow> (iron_error, json_parser) result) \<Rightarrow>
    nat \<Rightarrow> json_parser \<Rightarrow> (iron_error, json_parser) result" where
  "parse_elements label value entries (cs, nodes) =
    (if entries = 0 then Inl (limit_error label ''container-entry'')
     else
      and_then (value (cs, nodes)) (\<lambda>(after_value, n).
      case skip_whitespace after_value of
        [] \<Rightarrow> Inl (invalid_error label ''contains invalid array syntax'')
      | c # rest \<Rightarrow>
         (if c = CHR '']'' then Inr (rest, n)
          else if c = CHR '','' then parse_elements label value (entries - 1) (skip_whitespace rest, n)
          else Inl (invalid_error label ''contains invalid array syntax''))))"

text \<open>\<open>levels\<close> is what the nesting limit leaves.\<close>

fun parse_value :: "string \<Rightarrow> json_limits \<Rightarrow> nat \<Rightarrow> json_parser \<Rightarrow> (iron_error, json_parser) result" where
  "parse_value label lim levels (cs, nodes) =
    (if levels = 0 then Inl (limit_error label ''nesting-depth'')
     else
      and_then (bump_node label lim nodes) (\<lambda>n.
      case cs of
        [] \<Rightarrow> Inl (invalid_error label ''contains invalid JSON'')
      | c # rest \<Rightarrow>
         (if c = CHR ''{'' then
            (let body = skip_whitespace rest in
             if body \<noteq> [] \<and> hd body = CHR ''}'' then Inr (tl body, n)
             else parse_members label lim (parse_value label lim (levels - 1)) (lm_container_entries lim) (body, n))
          else if c = CHR ''['' then
            (let body = skip_whitespace rest in
             if body \<noteq> [] \<and> hd body = CHR '']'' then Inr (tl body, n)
             else parse_elements label (parse_value label lim (levels - 1)) (lm_container_entries lim) (body, n))
          else if byte c = 34 then and_then (parse_string_from label lim 0 rest) (\<lambda>r. Inr (r, n))
          else if c = CHR ''t'' then and_then (parse_literal label ''true'' cs) (\<lambda>r. Inr (r, n))
          else if c = CHR ''f'' then and_then (parse_literal label ''false'' cs) (\<lambda>r. Inr (r, n))
          else if c = CHR ''n'' then and_then (parse_literal label ''null'' cs) (\<lambda>r. Inr (r, n))
          else if c = CHR ''-'' \<or> is_ascii_digit c then
            (case number_scan cs of
               None \<Rightarrow> Inl (invalid_error label ''contains an invalid JSON number'')
             | Some r \<Rightarrow> Inr (r, n))
          else Inl (invalid_error label ''contains invalid JSON''))))"

section \<open>Preflight\<close>

datatype json_root = RootObject | RootArray

definition preflight :: "string \<Rightarrow> string \<Rightarrow> json_root \<Rightarrow> json_limits \<Rightarrow> (iron_error, unit) result" where
  "preflight raw label root lim =
    (if lm_bytes lim < length raw then Inl (limit_error label ''byte'')
     else
      (let cs = skip_whitespace raw;
           expected = (case root of RootObject \<Rightarrow> CHR ''{'' | RootArray \<Rightarrow> CHR ''['')
       in if cs = [] \<or> hd cs \<noteq> expected then Inl (invalid_error label ''has the wrong top-level shape'')
          else and_then (parse_value label lim (lm_depth lim) (cs, 0)) (\<lambda>(rest, _).
            if skip_whitespace rest \<noteq> [] then Inl (invalid_error label ''has trailing JSON data'') else Inr ())))"

definition preflight_conversation_record_json :: "string \<Rightarrow> (iron_error, unit) result" where
  "preflight_conversation_record_json raw = preflight raw ''record'' RootObject (stored_limits 268435456)"

definition preflight_conversation_execution_json :: "string \<Rightarrow> (iron_error, unit) result" where
  "preflight_conversation_execution_json raw = preflight raw ''execution identity'' RootObject (stored_limits 16384)"

definition preflight_conversation_messages_json :: "string \<Rightarrow> (iron_error, unit) result" where
  "preflight_conversation_messages_json raw = preflight raw ''messages'' RootArray (stored_limits 268435456)"

lemma preflight_empty_object: "preflight_conversation_record_json ''{}'' = Inr ()"
  by (simp add: preflight_conversation_record_json_def preflight_def stored_limits_def skip_whitespace_def byte_def
      bump_node_def saturating_add_def u64_max_def)

end
