(* ===== verification/Store_Base.thy ===== *)
theory Store_Base
  imports Conversation Conversation_Json Interpolate "HOL-Library.AList" "HOL-Library.List_Lexorder" "HOL-Library.Char_ord"
begin

text \<open>
  Ground of the JSON file store (\<open>src/src/engine/run_history.rs\<close>, \<open>engine/store.rs\<close>): operations as
  state transformers that may fail, the directories as association lists of files, reading and
  atomic writing of records, directory scans, timestamps.

  An operation returns its result and the store it leaves, also when it fails: writes made before
  an error stay. The context \<open>ctx\<close> holds the process environment and everything that is not the
  repository's code: the RFC 3339 parser and printer and the checked addition of \<open>chrono\<close>, the clock
  reading used for lease deadlines, SHA-256, the index \<open>binary_search_by\<close> picks in a sorted vector
  (unspecified among equal elements), and the faults of the file system. A fault is chosen
  per call site (the label) and file; a write may fail before its file is published, or after (the directory
  \<open>sync_all\<close>), when the new contents are in place although the caller sees an error.
\<close>

section \<open>Operations\<close>

type_synonym ('s, 'a) op = "'s \<Rightarrow> (iron_error, 'a) result \<times> 's"

definition ret :: "'a \<Rightarrow> ('s, 'a) op" where
  "ret a s = (Inr a, s)"

definition bnd :: "('s, 'a) op \<Rightarrow> ('a \<Rightarrow> ('s, 'b) op) \<Rightarrow> ('s, 'b) op" where
  "bnd m k s = (case m s of (Inl e, t) \<Rightarrow> (Inl e, t) | (Inr a, t) \<Rightarrow> k a t)"

definition lift :: "(iron_error, 'a) result \<Rightarrow> ('s, 'a) op" where
  "lift r s = (r, s)"

definition failing :: "iron_error \<Rightarrow> ('s, 'a) op" where
  "failing e s = (Inl e, s)"

definition gets :: "('s \<Rightarrow> 'a) \<Rightarrow> ('s, 'a) op" where
  "gets f s = (Inr (f s), s)"

text \<open>\<open>match op { Err(e) => handler, Ok => .. }\<close>\<close>

definition attempt :: "('s, 'a) op \<Rightarrow> ('s, (iron_error, 'a) result) op" where
  "attempt m s = (case m s of (r, t) \<Rightarrow> (Inr r, t))"

text \<open>
  Triples: from a state in \<open>P\<close>, a successful run ends in \<open>Q\<close> of its value, a failing one in \<open>E\<close>.
\<close>

definition triple :: "('s \<Rightarrow> bool) \<Rightarrow> ('s, 'a) op \<Rightarrow> ('a \<Rightarrow> 's \<Rightarrow> bool) \<Rightarrow> ('s \<Rightarrow> bool) \<Rightarrow> bool" where
  "triple P m Q E \<longleftrightarrow> (\<forall>s. P s \<longrightarrow> (case m s of (Inr a, t) \<Rightarrow> Q a t | (Inl e, t) \<Rightarrow> E t))"

definition keeps :: "('s \<Rightarrow> bool) \<Rightarrow> ('s, 'a) op \<Rightarrow> bool" where
  "keeps P m \<longleftrightarrow> (\<forall>s. P s \<longrightarrow> P (snd (m s)))"

named_theorems op_rules \<open>introduction rules for triples and kept predicates\<close>

lemma triple_ret [op_rules]: "(\<And>s. P s \<Longrightarrow> Q a s) \<Longrightarrow> triple P (ret a) Q E"
  by (simp add: triple_def ret_def)

lemma triple_lift [op_rules]:
  "(\<And>s a. P s \<Longrightarrow> r = Inr a \<Longrightarrow> Q a s) \<Longrightarrow> (\<And>s. P s \<Longrightarrow> E s) \<Longrightarrow> triple P (lift r) Q E"
  by (auto simp: triple_def lift_def split: sum.splits)

lemma triple_bnd:
  "triple P m R E \<Longrightarrow> (\<And>a. triple (R a) (k a) Q E) \<Longrightarrow> triple P (bnd m k) Q E"
  by (fastforce simp: triple_def bnd_def split: prod.splits sum.splits)

lemma triple_conseq:
  "triple P m Q E \<Longrightarrow> (\<And>s. P' s \<Longrightarrow> P s) \<Longrightarrow> (\<And>a s. Q a s \<Longrightarrow> Q' a s) \<Longrightarrow> (\<And>s. E s \<Longrightarrow> E' s) \<Longrightarrow> triple P' m Q' E'"
  by (fastforce simp: triple_def split: prod.splits sum.splits)

lemma triple_Inr: "triple P m Q E \<Longrightarrow> P s \<Longrightarrow> m s = (Inr a, t) \<Longrightarrow> Q a t"
  by (fastforce simp: triple_def)

lemma keeps_triple: "triple P m (\<lambda>_. P) P \<longleftrightarrow> keeps P m"
  by (auto simp: triple_def keeps_def split: prod.splits sum.splits) (metis snd_conv sum.exhaust surj_pair)+

lemma keeps_ret [op_rules]: "keeps P (ret a)"
  by (simp add: keeps_def ret_def)

lemma keeps_lift [op_rules]: "keeps P (lift r)"
  by (simp add: keeps_def lift_def)

lemma keeps_failing [op_rules]: "keeps P (failing e)"
  by (simp add: keeps_def failing_def)

lemma keeps_gets [op_rules]: "keeps P (gets f)"
  by (simp add: keeps_def gets_def)

lemma keeps_attempt [op_rules]: "keeps P m \<Longrightarrow> keeps P (attempt m)"
  by (simp add: keeps_def attempt_def split_def)

lemma keeps_bnd [op_rules]: "keeps P m \<Longrightarrow> (\<And>a. keeps P (k a)) \<Longrightarrow> keeps P (bnd m k)"
  by (auto simp: keeps_def bnd_def split: prod.splits sum.splits)

lemma keeps_if [op_rules]: "(b \<Longrightarrow> keeps P m) \<Longrightarrow> (\<not> b \<Longrightarrow> keeps P n) \<Longrightarrow> keeps P (if b then m else n)"
  by simp

lemma keeps_option [op_rules]:
  "(x = None \<Longrightarrow> keeps P m) \<Longrightarrow> (\<And>a. x = Some a \<Longrightarrow> keeps P (k a)) \<Longrightarrow> keeps P (case x of None \<Rightarrow> m | Some a \<Rightarrow> k a)"
  by (cases x) simp_all

lemma keeps_sum [op_rules]:
  "(\<And>e. x = Inl e \<Longrightarrow> keeps P (h e)) \<Longrightarrow> (\<And>a. x = Inr a \<Longrightarrow> keeps P (k a)) \<Longrightarrow> keeps P (case x of Inl e \<Rightarrow> h e | Inr a \<Rightarrow> k a)"
  by (cases x) simp_all

lemma keeps_prod [op_rules]: "(\<And>a b. x = (a, b) \<Longrightarrow> keeps P (k a b)) \<Longrightarrow> keeps P (case x of (a, b) \<Rightarrow> k a b)"
  by (cases x) simp

text \<open>What a successful run of a composed operation did.\<close>

lemma bnd_Inr: "bnd m k s = (Inr b, u) \<longleftrightarrow> (\<exists>a t. m s = (Inr a, t) \<and> k a t = (Inr b, u))"
  by (auto simp: bnd_def split: prod.splits sum.splits)

lemma lift_Inr: "lift r s = (Inr a, t) \<longleftrightarrow> r = Inr a \<and> t = s"
  by (auto simp: lift_def)

lemma ret_Inr: "ret x s = (Inr a, t) \<longleftrightarrow> a = x \<and> t = s"
  by (auto simp: ret_def)

lemmas op_Inr = bnd_Inr lift_Inr ret_Inr

lemma failing_Inr: "failing e s = (Inr a, t) \<longleftrightarrow> False"
  by (simp add: failing_def)

lemma gets_Inr: "gets f s = (Inr a, t) \<longleftrightarrow> a = f s \<and> t = s"
  by (auto simp: gets_def)

lemma attempt_Inr: "attempt m s = (Inr x, t) \<longleftrightarrow> m s = (x, t)"
  by (auto simp: attempt_def split: prod.splits)

lemma case_sum_Inr:
  "(case x of Inl e \<Rightarrow> f e | Inr a \<Rightarrow> g a) s = (Inr b, u) \<longleftrightarrow>
     (\<exists>e. x = Inl e \<and> f e s = (Inr b, u)) \<or> (\<exists>a. x = Inr a \<and> g a s = (Inr b, u))"
  by (cases x) simp_all

lemma case_option_Inr:
  "(case x of None \<Rightarrow> f | Some a \<Rightarrow> g a) s = (Inr b, u) \<longleftrightarrow>
     (x = None \<and> f s = (Inr b, u)) \<or> (\<exists>a. x = Some a \<and> g a s = (Inr b, u))"
  by (cases x) simp_all

lemma if_op_Inr: "(if P then f else g) s = (Inr b, u) \<longleftrightarrow> (P \<and> f s = (Inr b, u)) \<or> (\<not> P \<and> g s = (Inr b, u))"
  by simp

lemma case_prod_Inr: "(case x of (a, b) \<Rightarrow> f a b) s = (Inr c, u) \<longleftrightarrow> (\<exists>a b. x = (a, b) \<and> f a b s = (Inr c, u))"
  by (cases x) simp

lemmas op_success = op_Inr failing_Inr gets_Inr attempt_Inr case_sum_Inr case_option_Inr if_op_Inr case_prod_Inr

section \<open>Context and store\<close>

datatype fault = BeforePublish iron_error | AfterPublish iron_error

record ctx =
  cx_env :: env
  cx_parse :: rfc3339
  cx_format :: "int \<Rightarrow> string"
  cx_add :: "int \<Rightarrow> int \<Rightarrow> int option"
  cx_instance :: string
  cx_ttl :: int
  cx_deadline_now :: string
  cx_fresh :: string
  cx_fault :: "string \<Rightarrow> string \<Rightarrow> fault option"
  cx_sha :: "string \<Rightarrow> string"
  cx_layout :: layout
  cx_show_error :: "iron_error \<Rightarrow> string"
  cx_uuid :: uuid_parser
  cx_panic :: string
  cx_search :: "string list \<Rightarrow> string \<Rightarrow> nat option"
  cx_json :: "conversation \<Rightarrow> string"
  cx_decode :: "string \<Rightarrow> (string, conversation) result"
  cx_show_path :: "string option \<times> string \<Rightarrow> string"

datatype 'a disk_file = Parsed 'a | Unparsable string | Unreadable iron_error

text \<open>
  A conversation file is kept as its text, because a record read back is not the record
  written: the text has the contents of its strings and vectors, and not their capacities.
\<close>

datatype text_file = Text string | TextUnreadable iron_error

datatype run_status = RunRunning | WaitingForInput | Abandoned | Aborted | TimedOut | Success | PartialFailure | Failed

fun show_status :: "run_status \<Rightarrow> string" where
  "show_status RunRunning = ''running''"
| "show_status WaitingForInput = ''waiting_for_input''"
| "show_status Abandoned = ''abandoned''"
| "show_status Aborted = ''aborted''"
| "show_status TimedOut = ''timed_out''"
| "show_status Success = ''success''"
| "show_status PartialFailure = ''partial_failure''"
| "show_status Failed = ''failed''"

definition parse_status :: "string \<Rightarrow> (iron_error, run_status) result" where
  "parse_status s =
    (if s = ''running'' then Inr RunRunning
     else if s = ''waiting_for_input'' then Inr WaitingForInput
     else if s = ''abandoned'' then Inr Abandoned
     else if s = ''aborted'' then Inr Aborted
     else if s = ''timed_out'' then Inr TimedOut
     else if s = ''success'' then Inr Success
     else if s = ''partial_failure'' then Inr PartialFailure
     else if s = ''failed'' then Inr Failed
     else Inl (Validation (''Unknown run status '' @ quoted s @ '' in stored record'')))"

definition run_in_flight :: "run_status \<Rightarrow> bool" where
  "run_in_flight s = (s = RunRunning \<or> s = WaitingForInput)"

definition run_terminal :: "run_status \<Rightarrow> bool" where
  "run_terminal s = (\<not> run_in_flight s)"

record run_record =
  rn_run_id :: string
  rn_flow_name :: string
  rn_flow :: string
  rn_status :: run_status
  rn_started_at :: string
  rn_finished_at :: string
  rn_duration_ms :: nat
  rn_task_results :: "task_result list"
  rn_agent_count :: nat
  rn_task_count :: nat
  rn_usage :: usage_snapshot
  rn_tags :: "string list"
  rn_owner :: string
  rn_lease :: string

type_synonym conversation_path = "string option \<times> string"

record store =
  st_runs :: "(string \<times> run_record disk_file) list"
  st_ledger :: "(string \<times> idem_record disk_file) list"
  st_conversations :: "(conversation_path \<times> text_file) list"
  st_poisoned :: bool

section \<open>Files\<close>

definition lock :: "string \<Rightarrow> (store, unit) op" where
  "lock what s = (if st_poisoned s
     then (Inl (Validation (what @ '': poisoned lock: another task failed inside'')), s) else (Inr (), s))"

definition store_lock :: "(store, unit) op" where
  "store_lock = lock ''JSON store lock error''"

definition run_lock :: "(store, unit) op" where
  "run_lock = lock ''JSON run lock poisoned''"

definition json_scan_max_entries :: "env \<Rightarrow> nat" where
  "json_scan_max_entries env = positive_limit env ''IRONCREW_JSON_STORE_MAX_SCAN_ENTRIES'' 10000 100000"

definition consume_scan_entry :: "env \<Rightarrow> nat \<Rightarrow> (iron_error, nat) result" where
  "consume_scan_entry env scanned =
    (let n = saturating_add scanned 1; limit = json_scan_max_entries env
     in if limit < n
        then Inl (Validation (''JSON store scan exceeds IRONCREW_JSON_STORE_MAX_SCAN_ENTRIES ('' @ dec limit @
          ''); use PostgreSQL for larger stores''))
        else Inr n)"

definition published :: "fault option \<Rightarrow> (store \<Rightarrow> store) \<Rightarrow> (store, unit) op" where
  "published f upd s = (case f of
     None \<Rightarrow> (Inr (), upd s) | Some (BeforePublish e) \<Rightarrow> (Inl e, s) | Some (AfterPublish e) \<Rightarrow> (Inl e, upd s))"

definition write_ledger :: "ctx \<Rightarrow> string \<Rightarrow> string \<Rightarrow> idem_record \<Rightarrow> (store, unit) op" where
  "write_ledger cx lbl stem r =
     published (cx_fault cx lbl stem) (\<lambda>s. s\<lparr>st_ledger := AList.update stem (Parsed r) (st_ledger s)\<rparr>)"

definition create_ledger :: "ctx \<Rightarrow> string \<Rightarrow> string \<Rightarrow> idem_record \<Rightarrow> (store, unit) op" where
  "create_ledger cx lbl stem r s =
    (if map_of (st_ledger s) stem \<noteq> None then (Inl (Io ''File exists''), s) else write_ledger cx lbl stem r s)"

definition remove_ledger :: "ctx \<Rightarrow> string \<Rightarrow> string \<Rightarrow> (store, unit) op" where
  "remove_ledger cx lbl stem s =
    (if map_of (st_ledger s) stem = None then (Inl (Io ''No such file or directory''), s)
     else published (cx_fault cx lbl stem) (\<lambda>s. s\<lparr>st_ledger := AList.delete stem (st_ledger s)\<rparr>) s)"

definition ledger_exists :: "string \<Rightarrow> (store, bool) op" where
  "ledger_exists stem = gets (\<lambda>s. map_of (st_ledger s) stem \<noteq> None)"

definition read_idempotency_record :: "ctx \<Rightarrow> string \<Rightarrow> (store, idem_record) op" where
  "read_idempotency_record cx stem s =
    ((case map_of (st_ledger s) stem of
        None \<Rightarrow> Inl (Io ''No such file or directory'')
      | Some (Unreadable e) \<Rightarrow> Inl e
      | Some (Unparsable e) \<Rightarrow> Inl (Validation (''Failed to parse idempotency record '' @ quoted (stem @ ''.json'') @ '': '' @ e))
      | Some (Parsed r) \<Rightarrow> and_then (validate_record (cx_parse cx) r) (\<lambda>_. Inr r)), s)"

definition idempotency_path :: "string \<Rightarrow> (store, string) op" where
  "idempotency_path key = lift (and_then (validate_digest ''idempotency key hash'' key) (\<lambda>_. Inr key))"

fun visit_stems :: "ctx \<Rightarrow> (string \<Rightarrow> idem_record \<Rightarrow> 'acc \<Rightarrow> (store, 'acc) op) \<Rightarrow> nat \<Rightarrow> string list \<Rightarrow> 'acc \<Rightarrow> (store, 'acc) op" where
  "visit_stems cx f scanned [] acc = ret acc"
| "visit_stems cx f scanned (k # ks) acc =
     bnd (lift (consume_scan_entry (cx_env cx) scanned)) (\<lambda>n.
     bnd (read_idempotency_record cx k) (\<lambda>r.
     bnd (f k r acc) (visit_stems cx f n ks)))"

definition visit_idempotency_records :: "ctx \<Rightarrow> (string \<Rightarrow> idem_record \<Rightarrow> 'acc \<Rightarrow> (store, 'acc) op) \<Rightarrow> 'acc \<Rightarrow> (store, 'acc) op" where
  "visit_idempotency_records cx f acc s = visit_stems cx f 0 (map fst (st_ledger s)) acc s"

definition write_run :: "ctx \<Rightarrow> string \<Rightarrow> string \<Rightarrow> run_record \<Rightarrow> (store, unit) op" where
  "write_run cx lbl stem r =
     published (cx_fault cx lbl stem) (\<lambda>s. s\<lparr>st_runs := AList.update stem (Parsed r) (st_runs s)\<rparr>)"

definition create_run :: "ctx \<Rightarrow> string \<Rightarrow> string \<Rightarrow> run_record \<Rightarrow> (store, unit) op" where
  "create_run cx lbl stem r s =
    (if map_of (st_runs s) stem \<noteq> None then (Inl (Io ''File exists''), s) else write_run cx lbl stem r s)"

definition remove_run :: "ctx \<Rightarrow> string \<Rightarrow> string \<Rightarrow> (store, unit) op" where
  "remove_run cx lbl stem s =
    (if map_of (st_runs s) stem = None then (Inl (Io ''No such file or directory''), s)
     else published (cx_fault cx lbl stem) (\<lambda>s. s\<lparr>st_runs := AList.delete stem (st_runs s)\<rparr>) s)"

definition run_exists :: "string \<Rightarrow> (store, bool) op" where
  "run_exists stem = gets (\<lambda>s. map_of (st_runs s) stem \<noteq> None)"

text \<open>An \<open>std::io::Error\<close> prints its own text, not that of the \<open>IronCrewError\<close> around it.\<close>

definition show_io :: "ctx \<Rightarrow> iron_error \<Rightarrow> string" where
  "show_io cx e = (case e of Io m \<Rightarrow> m | _ \<Rightarrow> cx_show_error cx e)"

text \<open>\<open>read_json_record\<close> and the parse error the caller wraps.\<close>

definition read_run :: "string \<Rightarrow> string \<Rightarrow> (store, run_record) op" where
  "read_run what stem s =
    ((case map_of (st_runs s) stem of
        None \<Rightarrow> Inl (Io ''No such file or directory'')
      | Some (Unreadable e) \<Rightarrow> Inl e
      | Some (Unparsable e) \<Rightarrow> Inl (Validation (what @ '': '' @ e))
      | Some (Parsed r) \<Rightarrow> Inr r), s)"

definition validate_run_id :: "string \<Rightarrow> (iron_error, unit) result" where
  "validate_run_id run_id =
    (if run_id = [] \<or> 128 < length run_id
     then Inl (Validation ''run id must contain between 1 and 128 ASCII characters'')
     else if \<not> list_all (\<lambda>c. is_ascii_alphanumeric c \<or> c \<in> set ''-_.'') run_id
     then Inl (Validation ''run id contains an invalid character'')
     else Inr ())"

section \<open>Conversation files\<close>

definition hex_upper :: "nat \<Rightarrow> char" where
  "hex_upper n = ''0123456789ABCDEF'' ! n"

definition encode_flow_byte :: "char \<Rightarrow> string" where
  "encode_flow_byte c = (if is_ascii_alphanumeric c \<or> c \<in> set ''-_.'' then [c]
     else [CHR ''%'', hex_upper (byte c div 16), hex_upper (byte c mod 16)])"

definition encode_flow_component :: "(string \<Rightarrow> string) \<Rightarrow> string \<Rightarrow> string" where
  "encode_flow_component sha flow =
    (if flow = [] then ''%E''
     else if flow = ''.'' \<or> flow = ''..'' then concat (map (\<lambda>c. if c = CHR ''.'' then ''%2E'' else [c]) flow)
     else (let encoded = concat (map encode_flow_byte flow)
           in if length encoded \<le> 240 then encoded else ''%H'' @ hex_encode (sha flow)))"

definition conversation_file_path :: "ctx \<Rightarrow> string option \<Rightarrow> string \<Rightarrow> conversation_path" where
  "conversation_file_path cx flow ident = (map_option (encode_flow_component (cx_sha cx)) flow, ident)"

definition panic_error :: "ctx \<Rightarrow> iron_error" where
  "panic_error cx = Validation (''JSON store blocking task failed: '' @ cx_panic cx)"

definition lift_panic :: "ctx \<Rightarrow> (iron_error, 'a) result option \<Rightarrow> (iron_error, 'a) result" where
  "lift_panic cx r = (case r of None \<Rightarrow> Inl (panic_error cx) | Some x \<Rightarrow> x)"

definition json_record_max_bytes :: "env \<Rightarrow> nat" where
  "json_record_max_bytes env = positive_limit env ''IRONCREW_JSON_STORE_RECORD_MAX_BYTES'' (64 * 1024 * 1024) (128 * 1024 * 1024)"

definition read_json_record :: "ctx \<Rightarrow> conversation_path \<Rightarrow> text_file \<Rightarrow> (iron_error, string) result" where
  "read_json_record cx path f =
    (case f of
       TextUnreadable e \<Rightarrow> Inl e
     | Text t \<Rightarrow>
        (let max_bytes = json_record_max_bytes (cx_env cx)
         in if max_bytes < length t
            then Inl (Validation (''JSON store record '' @ quoted (cx_show_path cx path) @ '' is '' @ dec (length t) @
              '' bytes, exceeds IRONCREW_JSON_STORE_RECORD_MAX_BYTES ('' @ dec max_bytes @ '')''))
            else Inr t))"

definition load_conversation_file :: "ctx \<Rightarrow> conversation_path \<Rightarrow> string \<Rightarrow> (store, conversation option) op" where
  "load_conversation_file cx path ident s =
    ((case map_of (st_conversations s) path of
        None \<Rightarrow> Inr None
      | Some f \<Rightarrow>
          and_then (read_json_record cx path f) (\<lambda>t.
          and_then (preflight_conversation_record_json t) (\<lambda>_.
          case cx_decode cx t of
            Inl e \<Rightarrow> Inl (Validation (''Failed to parse conversation '' @ quoted ident @ '': '' @ e))
          | Inr r \<Rightarrow>
              and_then (lift_panic cx (validate_conversation_record_after_decode (cx_layout cx) (cx_show_error cx) (cx_uuid cx) r))
                (\<lambda>_. Inr (Some r))))), s)"

text \<open>\<open>serialize_json_record\<close>: the bounded buffer refuses the first byte too many.\<close>

definition serialize_json_record :: "ctx \<Rightarrow> conversation \<Rightarrow> string \<Rightarrow> (iron_error, string) result" where
  "serialize_json_record cx r label =
    (let max_bytes = json_record_max_bytes (cx_env cx); t = cx_json cx r
     in if max_bytes < length t
        then Inl (Validation (''Failed to serialize '' @ label @ '' within IRONCREW_JSON_STORE_RECORD_MAX_BYTES ('' @
          dec max_bytes @ ''): serialized JSON exceeds '' @ dec max_bytes @ '' bytes''))
        else Inr t)"

definition write_conversation :: "ctx \<Rightarrow> conversation_path \<Rightarrow> conversation \<Rightarrow> (store, unit) op" where
  "write_conversation cx path r s =
    (case and_then (serialize_json_record cx r ''conversation'') (\<lambda>t.
            and_then (preflight_conversation_record_json t) (\<lambda>_. Inr t)) of
       Inl e \<Rightarrow> (Inl e, s)
     | Inr t \<Rightarrow> published (cx_fault cx ''conversation'' (snd path))
         (\<lambda>s. s\<lparr>st_conversations := AList.update path (Text t) (st_conversations s)\<rparr>) s)"

definition remove_conversation :: "ctx \<Rightarrow> conversation_path \<Rightarrow> (store, unit) op" where
  "remove_conversation cx path =
     published (cx_fault cx ''remove conversation'' (snd path)) (\<lambda>s. s\<lparr>st_conversations := AList.delete path (st_conversations s)\<rparr>)"

section \<open>Timestamps\<close>

definition parse_idempotency_timestamp :: "ctx \<Rightarrow> string \<Rightarrow> string \<Rightarrow> (iron_error, int) result" where
  "parse_idempotency_timestamp cx lbl v =
     (case cx_parse cx v of Inr t \<Rightarrow> Inr t | Inl e \<Rightarrow> Inl (Validation (lbl @ '' is not RFC3339: '' @ e)))"

definition timestamp_has_passed :: "ctx \<Rightarrow> string \<Rightarrow> string \<Rightarrow> (iron_error, bool) result" where
  "timestamp_has_passed cx deadline now =
     and_then (parse_idempotency_timestamp cx ''idempotency deadline'' deadline) (\<lambda>d.
     and_then (parse_idempotency_timestamp cx ''idempotency current time'' now) (\<lambda>n.
     Inr (d \<le> n)))"

definition earliest_deadline :: "ctx \<Rightarrow> string option \<Rightarrow> string \<Rightarrow> (iron_error, string option) result" where
  "earliest_deadline cx current candidate =
     and_then (parse_idempotency_timestamp cx ''idempotency capacity deadline'' candidate) (\<lambda>candidate_time.
     case current of
       None \<Rightarrow> Inr (Some candidate)
     | Some cur \<Rightarrow>
         and_then (parse_idempotency_timestamp cx ''idempotency capacity deadline'' cur) (\<lambda>current_time.
         Inr (Some (if current_time \<le> candidate_time then cur else candidate))))"

definition i64_max :: int where
  "i64_max = 9223372036854775807"

definition retry_after_seconds :: "ctx \<Rightarrow> string option \<Rightarrow> string \<Rightarrow> (iron_error, nat) result" where
  "retry_after_seconds cx deadline now =
    (case deadline of
       None \<Rightarrow> Inr 60
     | Some d \<Rightarrow>
         and_then (parse_idempotency_timestamp cx ''idempotency capacity deadline'' d) (\<lambda>deadline_time.
         and_then (parse_idempotency_timestamp cx ''idempotency capacity clock'' now) (\<lambda>now_time.
         let milliseconds = max ((deadline_time - now_time) div 1000000) 1
         in Inr (max (nat (min (milliseconds + 999) i64_max div 1000)) 1))))"

definition retention_expiry :: "ctx \<Rightarrow> string \<Rightarrow> nat \<Rightarrow> (iron_error, string) result" where
  "retention_expiry cx now ttl =
     and_then (parse_idempotency_timestamp cx ''idempotency current time'' now) (\<lambda>n.
     if i64_max < int ttl then Inl (Validation ''Idempotency TTL is out of range'')
     else (case cx_add cx n (int ttl * 1000000000) of
         None \<Rightarrow> Inl (Validation ''Idempotency retention expiry overflow'')
       | Some t \<Rightarrow> Inr (cx_format cx t)))"

definition json_recovery_grace_elapsed :: "ctx \<Rightarrow> idem_record \<Rightarrow> string \<Rightarrow> (iron_error, bool) result" where
  "json_recovery_grace_elapsed cx hazard claim_time =
    (let marked_at = (case completed_at hazard of Some t \<Rightarrow> t | None \<Rightarrow> updated_at hazard) in
     and_then (parse_idempotency_timestamp cx ''idempotency hazard time'' marked_at) (\<lambda>m.
     and_then (parse_idempotency_timestamp cx ''idempotency recovery claim time'' claim_time) (\<lambda>c.
     case cx_add cx m (cx_ttl cx) of
       None \<Rightarrow> Inl (Validation ''Idempotency recovery grace deadline overflow'')
     | Some recovery_at \<Rightarrow> Inr (recovery_at \<le> c))))"

definition lease_is_expired :: "ctx \<Rightarrow> string \<Rightarrow> int \<Rightarrow> bool" where
  "lease_is_expired cx lease now =
    (if lease = [] then True else (case cx_parse cx lease of Inr d \<Rightarrow> d \<le> now | Inl _ \<Rightarrow> True))"

definition later_json_lease :: "ctx \<Rightarrow> string \<Rightarrow> string \<Rightarrow> (iron_error, string) result" where
  "later_json_lease cx existing proposed =
    (if existing = [] then Inr proposed
     else
       and_then (parse_idempotency_timestamp cx ''existing run lease expiry'' existing) (\<lambda>e.
       and_then (parse_idempotency_timestamp cx ''proposed run lease expiry'' proposed) (\<lambda>p.
       Inr (if p \<le> e then existing else proposed))))"

definition quota_at_or_above :: "nat \<Rightarrow> nat \<Rightarrow> nat \<Rightarrow> bool" where
  "quota_at_or_above v limit percentage = (saturating_add (min (limit * percentage) u64_max) 99 div 100 \<le> v)"

text \<open>The documented behaviour of \<open>chrono\<close> the proofs use: printing and parsing agree, sums are exact.\<close>

definition chrono_ok :: "ctx \<Rightarrow> bool" where
  "chrono_ok cx \<longleftrightarrow> (\<forall>t d u. cx_add cx t d = Some u \<longrightarrow> u = t + d \<and> cx_parse cx (cx_format cx u) = Inr u)"

section \<open>Lemmas\<close>

lemma keeps_published [op_rules]: "(\<And>s. P s \<Longrightarrow> P (upd s)) \<Longrightarrow> keeps P (published f upd)"
  by (simp add: keeps_def published_def split: option.splits fault.splits)

lemma keeps_lock [op_rules]: "keeps P store_lock" "keeps P run_lock"
  by (simp_all add: keeps_def store_lock_def run_lock_def lock_def)

lemma keeps_reads [op_rules]:
  "keeps P (ledger_exists k)" "keeps P (read_idempotency_record cx k)" "keeps P (idempotency_path k)"
  "keeps P (run_exists k)" "keeps P (read_run w k)" "keeps P (load_conversation_file cx p i)"
  by (simp_all add: keeps_def ledger_exists_def gets_def read_idempotency_record_def idempotency_path_def lift_def
      run_exists_def read_run_def load_conversation_file_def)

lemma read_idempotency_record_Inr:
  "read_idempotency_record cx k s = (Inr r, t) \<Longrightarrow> t = s \<and> map_of (st_ledger s) k = Some (Parsed r) \<and> record_ok (cx_parse cx) r"
  by (auto simp: read_idempotency_record_def and_then_Inr_iff validate_record_iff split: option.splits disk_file.splits)

lemma parse_status_show: "parse_status (show_status s) = Inr s"
  by (cases s) (simp_all add: parse_status_def)

end
