(* ===== verification/Ledger.thy ===== *)
theory Ledger
  imports Store_Base
begin

text \<open>
  The idempotency ledger of the JSON store (\<open>src/src/engine/run_history.rs\<close>): lookup, claim,
  heartbeat, completion, conversation commit, indeterminate marking, release, pruning and usage.
  Every operation runs in one critical section of the store lock, so an operation is one step.
\<close>

section \<open>Classification\<close>

definition expired_terminal :: "ctx \<Rightarrow> idem_record \<Rightarrow> string \<Rightarrow> (iron_error, bool) result" where
  "expired_terminal cx r now =
    (if terminal (state r) then
       (case expires_at r of Some t \<Rightarrow> timestamp_has_passed cx t now | None \<Rightarrow> Inr False)
     else Inr False)"

definition classify_idempotency_record :: "ctx \<Rightarrow> idem_record \<Rightarrow> string \<Rightarrow> string \<Rightarrow> (iron_error, idem_lookup) result" where
  "classify_idempotency_record cx r fingerprint now =
    and_then (validate_digest ''request fingerprint'' fingerprint) (\<lambda>_.
    and_then (parse_idempotency_timestamp cx ''idempotency current time'' now) (\<lambda>_.
    if request_fingerprint r \<noteq> fingerprint then Inr LookupConflict
    else if terminal (state r) \<and>
        (case expires_at r of None \<Rightarrow> False
         | Some t \<Rightarrow> (case timestamp_has_passed cx t now of Inr b \<Rightarrow> b | Inl _ \<Rightarrow> False)) then Inr Miss
    else if state r = Indeterminate then Inr (LookupIndeterminate r)
    else if replayable r then Inr (LookupReplay r)
    else
      and_then (if in_flight (state r) then timestamp_has_passed cx (lease_expires_at r) now else Inr False) (\<lambda>lost.
      if lost then Inr (LookupIndeterminate r)
      else if in_flight (state r) then Inr (LookupInProgress r)
      else Inr (LookupIndeterminate r))))"

definition lookup_idempotency_for_principal ::
    "ctx \<Rightarrow> principal_id \<Rightarrow> string \<Rightarrow> string \<Rightarrow> string \<Rightarrow> (store, idem_lookup) op" where
  "lookup_idempotency_for_principal cx who key fingerprint now =
    bnd (idempotency_path key) (\<lambda>path.
    bnd store_lock (\<lambda>_.
    bnd (ledger_exists path) (\<lambda>present.
    if \<not> present then ret Miss
    else
      bnd (read_idempotency_record cx path) (\<lambda>r.
      if principal_id r \<noteq> who then ret LookupConflict
      else lift (classify_idempotency_record cx r fingerprint now)))))"

section \<open>Pruning and scans\<close>

definition prune_json_idempotency_locked :: "ctx \<Rightarrow> string \<Rightarrow> nat \<Rightarrow> (store, nat) op" where
  "prune_json_idempotency_locked cx now limit =
    bnd (lift (parse_idempotency_timestamp cx ''idempotency prune time'' now)) (\<lambda>_.
    if limit = 0 then ret 0
    else
      bnd (visit_idempotency_records cx (\<lambda>path r acc.
          lift (case expires_at r of
            Some t \<Rightarrow>
              if terminal (state r)
              then and_then (timestamp_has_passed cx t now) (\<lambda>passed. Inr (if passed then acc @ [(t, path)] else acc))
              else Inr acc
          | None \<Rightarrow> Inr acc)) []) (\<lambda>expired.
      let victims = take limit (map snd (sort_key fst expired))
      in bnd (foldr (\<lambda>path k. bnd (remove_ledger cx ''remove expired'' path) (\<lambda>_. k)) victims (ret ()))
           (\<lambda>_. ret (length victims))))"

definition body_len :: "idem_record \<Rightarrow> nat" where
  "body_len r = (case response_body r of None \<Rightarrow> 0 | Some b \<Rightarrow> length b)"

definition add_bytes :: "string \<Rightarrow> nat \<Rightarrow> nat \<Rightarrow> (iron_error, nat) result" where
  "add_bytes msg a b = (case checked_add a b of Some c \<Rightarrow> Inr c | None \<Rightarrow> Inl (Validation msg))"

definition json_idempotency_response_bytes :: "ctx \<Rightarrow> principal_id \<Rightarrow> string option \<Rightarrow> (store, nat \<times> nat) op" where
  "json_idempotency_response_bytes cx who except_key =
    visit_idempotency_records cx (\<lambda>path r (all_bytes, mine).
      lift (if except_key \<noteq> Some (key_hash r) then
          and_then (add_bytes ''Idempotency response byte total overflow'' all_bytes (body_len r)) (\<lambda>a.
          and_then (if principal_id r = who
              then add_bytes ''Principal idempotency response byte total overflow'' mine (body_len r)
              else Inr mine) (\<lambda>m.
          Inr (a, m)))
        else Inr (all_bytes, mine))) (0, 0)"

definition mark_terminal_indeterminate :: "idem_record \<Rightarrow> string \<Rightarrow> string \<Rightarrow> idem_record" where
  "mark_terminal_indeterminate r now expiry =
     r\<lparr>state := Indeterminate, response_status := None, response_body := None, updated_at := now,
       completed_at := Some now, expires_at := Some expiry\<rparr>"

definition terminalize_json_idempotency_indeterminate :: "ctx \<Rightarrow> string \<Rightarrow> idem_record \<Rightarrow> string \<Rightarrow> (store, idem_record) op" where
  "terminalize_json_idempotency_indeterminate cx path r now =
    bnd (lift (retention_expiry cx now (ttl_seconds r))) (\<lambda>expiry.
    let r' = mark_terminal_indeterminate r now expiry
    in bnd (lift (validate_record (cx_parse cx) r')) (\<lambda>_.
       bnd (write_ledger cx ''idempotency record'' path r') (\<lambda>_.
       ret r')))"

definition active_conversation_idempotency_exists :: "ctx \<Rightarrow> string option \<Rightarrow> string \<Rightarrow> (store, bool) op" where
  "active_conversation_idempotency_exists cx flow_path conversation_id =
    visit_idempotency_records cx (\<lambda>path r found.
      ret (found \<or> (operation r = conversation_message_operation \<and>
        scope r = (case flow_path of None \<Rightarrow> [] | Some f \<Rightarrow> f) \<and>
        resource_id r = conversation_id \<and> in_flight (state r)))) False"

definition ensure_idempotency_completion_fence :: "idem_record \<Rightarrow> idem_completion \<Rightarrow> (iron_error, unit) result" where
  "ensure_idempotency_completion_fence r c =
     ensure (principal_id r = cm_principal_id c \<and> request_fingerprint r = cm_request_fingerprint c \<and>
         attempt_id r = cm_attempt_id c \<and> owner_instance_id r = cm_owner_instance_id c)
       (Conflict ''Idempotency operation changed before completion'')"

section \<open>Claims\<close>

text \<open>The record found under the claimed key decides, unless it is an expired terminal one.\<close>

definition claim_existing :: "ctx \<Rightarrow> idem_claim \<Rightarrow> string \<Rightarrow> (store, claim_outcome option) op" where
  "claim_existing cx c path =
    bnd (ledger_exists path) (\<lambda>present.
    if \<not> present then ret None
    else
      bnd (read_idempotency_record cx path) (\<lambda>r.
      bnd (lift (expired_terminal cx r (cl_created_at c))) (\<lambda>gone.
      if gone then bnd (remove_ledger cx ''remove expired claim'' path) (\<lambda>_. ret None)
      else if principal_id r \<noteq> cl_principal_id c \<or> request_fingerprint r \<noteq> cl_request_fingerprint c
      then ret (Some ClaimConflict)
      else if state r = Indeterminate then ret (Some (ClaimIndeterminate r))
      else if replayable r then ret (Some (ClaimReplay r))
      else
        bnd (lift (if in_flight (state r) then timestamp_has_passed cx (lease_expires_at r) (cl_created_at c) else Inr False)) (\<lambda>lost.
        if lost then
          bnd (terminalize_json_idempotency_indeterminate cx path r (cl_created_at c)) (\<lambda>r'.
          ret (Some (ClaimIndeterminate r')))
        else if in_flight (state r) then ret (Some (ClaimInProgress r))
        else ret (Some (ClaimIndeterminate r))))))"

text \<open>
  An exclusive scope admits one turn: in-flight records of the scope make it busy (an expired one
  is first marked), an indeterminate one has to be acknowledged by its key after a grace period.
  \<open>Inl ()\<close> is busy; \<open>Inr\<close> carries the hazard to be retired.
\<close>

definition scope_busy :: "ctx \<Rightarrow> idem_claim \<Rightarrow> string \<Rightarrow> (store, bool) op" where
  "scope_busy cx c xs =
    visit_idempotency_records cx (\<lambda>path r busy.
      if exclusive_scope r \<noteq> Some xs \<or> \<not> in_flight (state r) then ret busy
      else
        bnd (lift (timestamp_has_passed cx (lease_expires_at r) (cl_created_at c))) (\<lambda>lost.
        if lost then
          bnd (terminalize_json_idempotency_indeterminate cx path r (cl_created_at c)) (\<lambda>_. ret True)
        else ret True)) False"

definition scope_hazards :: "ctx \<Rightarrow> string \<Rightarrow> (store, (string \<times> idem_record) list) op" where
  "scope_hazards cx xs =
    visit_idempotency_records cx (\<lambda>path r acc.
      ret (if exclusive_scope r = Some xs \<and> state r = Indeterminate then acc @ [(path, r)] else acc)) []"

definition claim_scope :: "ctx \<Rightarrow> idem_claim \<Rightarrow> (store, (unit, (string \<times> idem_record) option) result) op" where
  "claim_scope cx c =
    (case cl_exclusive_scope c of
       None \<Rightarrow> ret (Inr None)
     | Some xs \<Rightarrow>
        bnd (scope_busy cx c xs) (\<lambda>busy.
        if busy then ret (Inl ())
        else
          bnd (scope_hazards cx xs) (\<lambda>hazards.
          (case hazards of
             [] \<Rightarrow> ret (Inr None)
           | h # rest \<Rightarrow>
              (if \<not> (rest = [] \<and> principal_id (snd h) = cl_principal_id c \<and>
                    cl_recovery_key_hash c = Some (key_hash (snd h)))
               then ret (Inl ())
               else
                 bnd (lift (json_recovery_grace_elapsed cx (snd h) (cl_created_at c))) (\<lambda>elapsed.
                 ret (if \<not> elapsed then Inl () else Inr (Some h))))))))"

definition claim_conversation :: "ctx \<Rightarrow> idem_claim \<Rightarrow> (store, bool) op" where
  "claim_conversation cx c =
    (if cl_operation c \<noteq> conversation_message_operation then ret True
     else
       bnd (lift (validate_session_id (cl_resource_id c))) (\<lambda>_.
       (case cl_base_revision c of
          None \<Rightarrow> failing (Validation ''Conversation idempotency claim has no base revision'')
        | Some expected \<Rightarrow>
           bnd (load_conversation_file cx (conversation_file_path cx (Some (cl_scope c)) (cl_resource_id c)) (cl_resource_id c)) (\<lambda>current.
           ret (case current of
              None \<Rightarrow> False
            | Some cv \<Rightarrow>
                is_ok (validate_execution (cx_uuid cx) (cv_execution cv)) \<and> cv_revision cv = expected \<and>
                cl_exclusive_scope c = Some (conversation_mutation_scope (cl_scope c) (cl_resource_id c)
                  (incarnation_id (cv_execution cv))))))))"

record tally =
  ty_records :: nat
  ty_principal_records :: nat
  ty_principal_in_flight :: nat
  ty_bytes :: nat
  ty_principal_bytes :: nat
  ty_next_global :: "string option"
  ty_next_principal :: "string option"

definition empty_tally :: tally where
  "empty_tally = \<lparr>ty_records = 0, ty_principal_records = 0, ty_principal_in_flight = 0, ty_bytes = 0,
     ty_principal_bytes = 0, ty_next_global = None, ty_next_principal = None\<rparr>"

definition capacity_deadline :: "idem_record \<Rightarrow> string option" where
  "capacity_deadline r = (if in_flight (state r) then Some (lease_expires_at r) else expires_at r)"

definition next_capacity :: "ctx \<Rightarrow> string option \<Rightarrow> string option \<Rightarrow> (iron_error, string option) result" where
  "next_capacity cx current deadline = (case deadline of None \<Rightarrow> Inr current | Some d \<Rightarrow> earliest_deadline cx current d)"

definition tally_record :: "ctx \<Rightarrow> principal_id \<Rightarrow> idem_record \<Rightarrow> tally \<Rightarrow> (iron_error, tally) result" where
  "tally_record cx who r t =
    and_then (add_bytes ''Idempotency response byte total overflow'' (ty_bytes t) (body_len r)) (\<lambda>bytes.
    and_then (next_capacity cx (ty_next_global t) (capacity_deadline r)) (\<lambda>next_global.
    let t1 = t\<lparr>ty_records := saturating_add (ty_records t) 1, ty_bytes := bytes, ty_next_global := next_global\<rparr> in
    if principal_id r = who then
      and_then (add_bytes ''Principal idempotency response byte total overflow'' (ty_principal_bytes t) (body_len r)) (\<lambda>mine.
      and_then (next_capacity cx (ty_next_principal t) (capacity_deadline r)) (\<lambda>next_principal.
      Inr (t1\<lparr>ty_principal_records := saturating_add (ty_principal_records t) 1,
        ty_principal_in_flight := saturating_add (ty_principal_in_flight t) (if in_flight (state r) then 1 else 0),
        ty_principal_bytes := mine, ty_next_principal := next_principal\<rparr>)))
    else Inr t1))"

definition claim_tally :: "ctx \<Rightarrow> principal_id \<Rightarrow> (store, tally) op" where
  "claim_tally cx who = visit_idempotency_records cx (\<lambda>path r t. lift (tally_record cx who r t)) empty_tally"

definition body_fits :: "limits \<Rightarrow> nat \<Rightarrow> nat \<Rightarrow> string \<Rightarrow> bool" where
  "body_fits l all_bytes mine body =
    ((case checked_add all_bytes (length body) of Some n \<Rightarrow> n \<le> global_max_response_bytes l | None \<Rightarrow> False) \<and>
     (case checked_add mine (length body) of Some n \<Rightarrow> n \<le> principal_max_response_bytes l | None \<Rightarrow> False))"

definition filter_body :: "limits \<Rightarrow> nat \<Rightarrow> nat \<Rightarrow> string option \<Rightarrow> string option" where
  "filter_body l all_bytes mine body =
    (case body of None \<Rightarrow> None | Some b \<Rightarrow> if body_fits l all_bytes mine b then Some b else None)"

definition retire_hazard :: "ctx \<Rightarrow> idem_claim \<Rightarrow> string \<Rightarrow> (string \<times> idem_record) option \<Rightarrow> (store, unit) op" where
  "retire_hazard cx c path hazard =
    (case hazard of
       None \<Rightarrow> ret ()
     | Some (hazard_path, h) \<Rightarrow>
        (let h' = h\<lparr>exclusive_scope := None, updated_at := cl_created_at c\<rparr> in
         bnd (lift (validate_record (cx_parse cx) h')) (\<lambda>_.
         bnd (attempt (write_ledger cx ''recovered idempotency hazard'' hazard_path h')) (\<lambda>written.
         (case written of
            Inr _ \<Rightarrow> ret ()
          | Inl recovery_error \<Rightarrow>
             bnd (attempt (remove_ledger cx ''claim rollback'' path)) (\<lambda>claim_rollback.
             bnd (attempt (write_ledger cx ''idempotency hazard recovery rollback'' hazard_path h)) (\<lambda>hazard_rollback.
             (case claim_rollback of
                Inl e \<Rightarrow> failing (Validation (''JSON idempotency hazard recovery failed: '' @ cx_show_error cx recovery_error @
                    ''; claim rollback failed: '' @ show_io cx e))
              | Inr _ \<Rightarrow> (case hazard_rollback of
                  Inl e \<Rightarrow> failing (Validation (''JSON idempotency hazard recovery failed: '' @ cx_show_error cx recovery_error @
                      ''; hazard rollback failed: '' @ cx_show_error cx e))
                | Inr _ \<Rightarrow> failing recovery_error)))))))))"

definition admit_claim :: "ctx \<Rightarrow> idem_claim \<Rightarrow> limits \<Rightarrow> string \<Rightarrow> (string \<times> idem_record) option \<Rightarrow> (store, claim_outcome) op" where
  "admit_claim cx c l path hazard =
    bnd (claim_tally cx (cl_principal_id c)) (\<lambda>t.
    if global_max_records l \<le> ty_records t then
      bnd (lift (retry_after_seconds cx (ty_next_global t) (cl_created_at c))) (\<lambda>n.
      ret (QuotaExceeded GlobalScope Records n))
    else if principal_max_records l \<le> ty_principal_records t then
      bnd (lift (retry_after_seconds cx (ty_next_principal t) (cl_created_at c))) (\<lambda>n.
      ret (QuotaExceeded PrincipalScope Records n))
    else if principal_max_in_flight l \<le> ty_principal_in_flight t then
      bnd (lift (retry_after_seconds cx (ty_next_principal t) (cl_created_at c))) (\<lambda>n.
      ret (QuotaExceeded PrincipalScope InFlight n))
    else
      (let r = (to_record c)\<lparr>response_body := filter_body l (ty_bytes t) (ty_principal_bytes t) (cl_response_body c)\<rparr> in
       bnd (lift (validate_record (cx_parse cx) r)) (\<lambda>_.
       bnd (create_ledger cx ''idempotency claim'' path r) (\<lambda>_.
       bnd (retire_hazard cx c path hazard) (\<lambda>_.
       ret (ClaimClaimed r))))))"

definition claim_idempotency_with_limits :: "ctx \<Rightarrow> idem_claim \<Rightarrow> limits \<Rightarrow> (store, claim_outcome) op" where
  "claim_idempotency_with_limits cx c l =
    bnd (lift (validate_claim (cx_parse cx) c)) (\<lambda>_.
    bnd (lift (validate_limits l)) (\<lambda>_.
    bnd store_lock (\<lambda>_.
    bnd (prune_json_idempotency_locked cx (cl_created_at c) (prune_batch l)) (\<lambda>_.
    bnd (idempotency_path (cl_key_hash c)) (\<lambda>path.
    bnd (claim_existing cx c path) (\<lambda>decided.
    (case decided of
       Some outcome \<Rightarrow> ret outcome
     | None \<Rightarrow>
        bnd (claim_scope cx c) (\<lambda>sc.
        (case sc of
           Inl _ \<Rightarrow> ret ClaimBusy
         | Inr hazard \<Rightarrow>
            bnd (claim_conversation cx c) (\<lambda>valid.
            if \<not> valid then ret ClaimConflict else admit_claim cx c l path hazard))))))))))"

section \<open>Heartbeat, completion, release\<close>

definition heartbeat_idempotency :: "ctx \<Rightarrow> string \<Rightarrow> string \<Rightarrow> string \<Rightarrow> (store, bool) op" where
  "heartbeat_idempotency cx key attempt_name lease =
    bnd (lift (parse_idempotency_timestamp cx ''idempotency lease expiry'' lease)) (\<lambda>_.
    bnd (idempotency_path key) (\<lambda>path.
    bnd store_lock (\<lambda>_.
    bnd (ledger_exists path) (\<lambda>present.
    if \<not> present then ret False
    else
      bnd (read_idempotency_record cx path) (\<lambda>r.
      if attempt_id r \<noteq> attempt_name then failing (Conflict ''Idempotency attempt changed before heartbeat'')
      else if \<not> in_flight (state r) then ret (state r = Completed)
      else
        (let r' = r\<lparr>lease_expires_at := lease\<rparr> in
         bnd (lift (validate_record (cx_parse cx) r')) (\<lambda>_.
         bnd (write_ledger cx ''idempotency heartbeat'' path r') (\<lambda>_. ret True))))))))"

definition completed_record :: "idem_record \<Rightarrow> idem_completion \<Rightarrow> string option \<Rightarrow> idem_record" where
  "completed_record r c body =
     r\<lparr>state := Completed, response_status := Some (cm_response_status c), response_body := body,
       updated_at := cm_completed_at c, completed_at := Some (cm_completed_at c), expires_at := Some (cm_expires_at c)\<rparr>"

definition complete_idempotency_with_limits :: "ctx \<Rightarrow> idem_completion \<Rightarrow> limits \<Rightarrow> (store, completion_outcome) op" where
  "complete_idempotency_with_limits cx c l =
    bnd (lift (validate_completion (cx_parse cx) c)) (\<lambda>_.
    bnd (lift (validate_limits l)) (\<lambda>_.
    bnd (idempotency_path (cm_key_hash c)) (\<lambda>path.
    bnd store_lock (\<lambda>_.
    bnd (ledger_exists path) (\<lambda>present.
    if \<not> present then failing (Validation ''Idempotency claim not found during completion'')
    else
      bnd (read_idempotency_record cx path) (\<lambda>r.
      bnd (lift (ensure_idempotency_completion_fence r c)) (\<lambda>_.
      if state r = Completed then ret \<lparr>co_replayable = replayable r, co_already_completed = True\<rparr>
      else if state r = Indeterminate
      then failing (Conflict ''Indeterminate idempotency outcomes cannot be completed'')
      else
        bnd (json_idempotency_response_bytes cx (cm_principal_id c) (Some (cm_key_hash c))) (\<lambda>(all_bytes, mine).
        let r' = completed_record r c (filter_body l all_bytes mine (cm_response_body c)) in
        bnd (lift (validate_record (cx_parse cx) r')) (\<lambda>_.
        bnd (write_ledger cx ''idempotency completion'' path r') (\<lambda>_.
        ret \<lparr>co_replayable = replayable r', co_already_completed = False\<rparr>)))))))))) "

record conversation_commit =
  cc_revision :: nat
  cc_replayable :: bool
  cc_already_completed :: bool

definition flow_or_empty :: "conversation \<Rightarrow> string" where
  "flow_or_empty cv = (case cv_flow_path cv of None \<Rightarrow> [] | Some f \<Rightarrow> f)"

definition commit_conversation_idempotency_with_limits ::
    "ctx \<Rightarrow> idem_completion \<Rightarrow> conversation \<Rightarrow> limits \<Rightarrow> (store, conversation_commit) op" where
  "commit_conversation_idempotency_with_limits cx c cv l =
    bnd (lift (validate_completion (cx_parse cx) c)) (\<lambda>_.
    bnd (lift (validate_limits l)) (\<lambda>_.
    bnd (lift (lift_panic cx (validate_conversation_record_for_write (cx_layout cx) (cx_show_error cx) (cx_uuid cx) cv))) (\<lambda>_.
    bnd (idempotency_path (cm_key_hash c)) (\<lambda>path.
    bnd store_lock (\<lambda>_.
    bnd (ledger_exists path) (\<lambda>present.
    if \<not> present then failing (Validation ''Idempotency claim not found during conversation commit'')
    else
      bnd (read_idempotency_record cx path) (\<lambda>r.
      bnd (lift (ensure_idempotency_completion_fence r c)) (\<lambda>_.
      if operation r \<noteq> conversation_message_operation \<or> resource_id r \<noteq> cv_id cv \<or> scope r \<noteq> flow_or_empty cv \<or>
         exclusive_scope r \<noteq> Some (conversation_mutation_scope (flow_or_empty cv) (cv_id cv) (incarnation_id (cv_execution cv)))
      then failing (Conflict ''Idempotency claim does not match the conversation scope'')
      else
        (case base_revision r of
           None \<Rightarrow> failing (Validation ''Conversation idempotency claim has no base revision'')
         | Some expected \<Rightarrow>
            (if expected \<noteq> cv_revision cv
             then failing (Conflict (''Conversation '' @ quoted (cv_id cv) @ '' changed before idempotent commit''))
             else if state r = Completed
             then ret \<lparr>cc_revision = saturating_add expected 1, cc_replayable = replayable r, cc_already_completed = True\<rparr>
             else if state r = Indeterminate
             then failing (Conflict ''Indeterminate conversation outcomes cannot be committed'')
             else
               (let cpath = conversation_file_path cx (cv_flow_path cv) (cv_id cv) in
                bnd (load_conversation_file cx cpath (cv_id cv)) (\<lambda>current.
                if \<not> (case current of None \<Rightarrow> False
                      | Some saved \<Rightarrow> cv_revision saved = expected \<and> cv_execution saved = cv_execution cv)
                then failing (Conflict (''Conversation '' @ quoted (cv_id cv) @ '' changed since revision '' @ dec expected))
                else
                  bnd (lift (case checked_add expected 1 of Some n \<Rightarrow> Inr n
                      | None \<Rightarrow> Inl (Validation ''Conversation revision overflow''))) (\<lambda>next_revision.
                  bnd (json_idempotency_response_bytes cx (cm_principal_id c) (Some (cm_key_hash c))) (\<lambda>(all_bytes, mine).
                  let r' = completed_record r c (filter_body l all_bytes mine (cm_response_body c)) in
                  bnd (lift (validate_record (cx_parse cx) r')) (\<lambda>_.
                  bnd (write_conversation cx cpath (cv\<lparr>cv_revision := next_revision\<rparr>)) (\<lambda>_.
                  bnd (write_ledger cx ''idempotency completion'' path r') (\<lambda>_.
                  ret \<lparr>cc_revision = next_revision, cc_replayable = replayable r', cc_already_completed = False\<rparr>)))))))))))))))))"

definition mark_idempotency_indeterminate :: "ctx \<Rightarrow> string \<Rightarrow> string \<Rightarrow> string \<Rightarrow> string \<Rightarrow> (store, bool) op" where
  "mark_idempotency_indeterminate cx key attempt_name now expiry =
    bnd (lift (parse_idempotency_timestamp cx ''idempotency completion time'' now)) (\<lambda>_.
    bnd (lift (parse_idempotency_timestamp cx ''idempotency retention expiry'' expiry)) (\<lambda>_.
    bnd (idempotency_path key) (\<lambda>path.
    bnd store_lock (\<lambda>_.
    bnd (ledger_exists path) (\<lambda>present.
    if \<not> present then ret False
    else
      bnd (read_idempotency_record cx path) (\<lambda>r.
      if attempt_id r \<noteq> attempt_name
      then failing (Conflict ''Idempotency attempt changed before indeterminate transition'')
      else if terminal (state r) then ret False
      else
        (let r' = mark_terminal_indeterminate r now expiry in
         bnd (lift (validate_record (cx_parse cx) r')) (\<lambda>_.
         bnd (write_ledger cx ''indeterminate idempotency record'' path r') (\<lambda>_. ret True)))))))))"

definition release_idempotency :: "ctx \<Rightarrow> string \<Rightarrow> string \<Rightarrow> (store, bool) op" where
  "release_idempotency cx key attempt_name =
    bnd (idempotency_path key) (\<lambda>path.
    bnd store_lock (\<lambda>_.
    bnd (ledger_exists path) (\<lambda>present.
    if \<not> present then ret False
    else
      bnd (read_idempotency_record cx path) (\<lambda>r.
      if attempt_id r \<noteq> attempt_name then failing (Conflict ''Idempotency attempt changed before release'')
      else if \<not> in_flight (state r) then ret False
      else bnd (remove_ledger cx ''release'' path) (\<lambda>_. ret True)))))"

definition prune_idempotency :: "ctx \<Rightarrow> string \<Rightarrow> nat \<Rightarrow> (store, nat) op" where
  "prune_idempotency cx now limit = bnd store_lock (\<lambda>_. prune_json_idempotency_locked cx now limit)"

section \<open>Usage\<close>

definition usage_of_record :: "idem_record \<Rightarrow> (principal_id \<times> nat \<times> nat \<times> nat) list \<Rightarrow>
    (iron_error, (principal_id \<times> nat \<times> nat \<times> nat) list) result" where
  "usage_of_record r by_principal =
    (case (case map_of by_principal (principal_id r) of None \<Rightarrow> (0, 0, 0) | Some u \<Rightarrow> u) of
       (records, flying, bytes) \<Rightarrow>
         and_then (add_bytes ''Idempotency response byte total overflow'' bytes (body_len r)) (\<lambda>bytes'.
         Inr (AList.update (principal_id r)
           (saturating_add records 1, saturating_add flying (if in_flight (state r) then 1 else 0), bytes') by_principal)))"

definition principal_at :: "limits \<Rightarrow> nat \<Rightarrow> nat \<Rightarrow> nat \<Rightarrow> nat \<Rightarrow> nat" where
  "principal_at l records flying bytes threshold =
    (if quota_at_or_above records (principal_max_records l) threshold \<or>
        quota_at_or_above flying (principal_max_in_flight l) threshold \<or>
        quota_at_or_above bytes (principal_max_response_bytes l) threshold then 1 else 0)"

fun sum_usage :: "principal_id \<Rightarrow> limits \<Rightarrow> (principal_id \<times> nat \<times> nat \<times> nat) list \<Rightarrow> ledger_usage \<Rightarrow> (iron_error, ledger_usage) result" where
  "sum_usage who l [] u = Inr u"
| "sum_usage who l ((p, records, flying, bytes) # rest) u =
    and_then (add_bytes ''Idempotency response byte total overflow'' (us_global_response_bytes u) bytes) (\<lambda>total_bytes.
    let u1 = u\<lparr>us_global_records := saturating_add (us_global_records u) records,
          us_global_in_flight := saturating_add (us_global_in_flight u) flying,
          us_global_response_bytes := total_bytes,
          us_max_principal_records := max (us_max_principal_records u) records,
          us_max_principal_in_flight := max (us_max_principal_in_flight u) flying,
          us_max_principal_response_bytes := max (us_max_principal_response_bytes u) bytes\<rparr>;
        u2 = (if p = who then u1\<lparr>us_principal_records := records, us_principal_in_flight := flying,
                us_principal_response_bytes := bytes\<rparr> else u1)
    in sum_usage who l rest (u2\<lparr>us_at_80 := us_at_80 u2 + principal_at l records flying bytes 80,
         us_at_90 := us_at_90 u2 + principal_at l records flying bytes 90,
         us_at_100 := us_at_100 u2 + principal_at l records flying bytes 100\<rparr>))"

definition idempotency_usage :: "ctx \<Rightarrow> principal_id \<Rightarrow> limits \<Rightarrow> (store, ledger_usage) op" where
  "idempotency_usage cx who l =
    bnd (lift (validate_limits l)) (\<lambda>_.
    bnd store_lock (\<lambda>_.
    bnd (visit_idempotency_records cx (\<lambda>path r acc. lift (usage_of_record r acc)) []) (\<lambda>by_principal.
    lift (sum_usage who l by_principal (default_usage\<lparr>us_principal_count := length by_principal\<rparr>)))))"

end
