(* ===== verification/Ledger_Spec.thy ===== *)
theory Ledger_Spec
  imports Ledger
begin

text \<open>
  What the ledger promises, as a step relation on maps from keys to records, and the proof that
  every ledger operation of the JSON store is a sequence of such steps, whatever the file system
  faults. The invariants (one live turn per exclusive scope, quotas, survival of live claims) are
  then proved once, by rule induction on the steps.
\<close>

section \<open>The abstract ledger\<close>

type_synonym ledger = "string \<Rightarrow> idem_record option"

definition same_identity :: "idem_record \<Rightarrow> idem_record \<Rightarrow> bool" where
  "same_identity r r' \<longleftrightarrow> key_hash r' = key_hash r \<and> principal_id r' = principal_id r \<and>
     request_fingerprint r' = request_fingerprint r \<and> operation r' = operation r \<and> scope r' = scope r \<and>
     resource_id r' = resource_id r \<and> attempt_id r' = attempt_id r \<and> owner_instance_id r' = owner_instance_id r"

definition of_principal :: "ledger \<Rightarrow> principal_id \<Rightarrow> string set" where
  "of_principal m who = {k. \<exists>r. m k = Some r \<and> principal_id r = who}"

definition live_of :: "ledger \<Rightarrow> principal_id \<Rightarrow> string set" where
  "live_of m who = {k. \<exists>r. m k = Some r \<and> principal_id r = who \<and> in_flight (state r)}"

definition bytes_in :: "ledger \<Rightarrow> string set \<Rightarrow> nat" where
  "bytes_in m K = (\<Sum>k\<in>K. case m k of None \<Rightarrow> 0 | Some r \<Rightarrow> body_len r)"

text \<open>The body of a new or completed record fits, next to the other bodies, or is no longer than before.\<close>

definition body_admissible :: "limits \<Rightarrow> ledger \<Rightarrow> string \<Rightarrow> idem_record \<Rightarrow> bool" where
  "body_admissible l m k r \<longleftrightarrow>
     body_len r \<le> (case m k of None \<Rightarrow> 0 | Some r0 \<Rightarrow> body_len r0) \<or>
     bytes_in m (dom m - {k}) + body_len r \<le> global_max_response_bytes l \<and>
     bytes_in m (of_principal m (principal_id r) - {k}) + body_len r \<le> principal_max_response_bytes l"

text \<open>\<open>own\<close>: the keys whose record the operation may remove.\<close>

inductive ledger_step :: "rfc3339 \<Rightarrow> limits \<Rightarrow> string set \<Rightarrow> ledger \<Rightarrow> ledger \<Rightarrow> bool"
  for parse :: rfc3339 and l :: limits and own :: "string set" where
  remove: "m k = Some r \<Longrightarrow> k \<in> own \<Longrightarrow> ledger_step parse l own m (m(k := None))"
| renew: "m k = Some r \<Longrightarrow> in_flight (state r) \<Longrightarrow> in_flight (state r') \<Longrightarrow> same_identity r r' \<Longrightarrow>
    exclusive_scope r' = exclusive_scope r \<Longrightarrow> body_len r' \<le> body_len r \<Longrightarrow> record_ok parse r' \<Longrightarrow>
    ledger_step parse l own m (m(k \<mapsto> r'))"
| finish: "m k = Some r \<Longrightarrow> in_flight (state r) \<Longrightarrow> terminal (state r') \<Longrightarrow> same_identity r r' \<Longrightarrow>
    body_admissible l m k r' \<Longrightarrow> record_ok parse r' \<Longrightarrow> ledger_step parse l own m (m(k \<mapsto> r'))"
| amend: "m k = Some r \<Longrightarrow> state r = Indeterminate \<Longrightarrow> terminal (state r') \<Longrightarrow> same_identity r r' \<Longrightarrow>
    body_len r' \<le> body_len r \<Longrightarrow> record_ok parse r' \<Longrightarrow> ledger_step parse l own m (m(k \<mapsto> r'))"
| insert: "m k = None \<Longrightarrow> key_hash r = k \<Longrightarrow> state r = Claimed \<Longrightarrow> record_ok parse r \<Longrightarrow>
    (\<And>k' r'. m k' = Some r' \<Longrightarrow> in_flight (state r') \<Longrightarrow> exclusive_scope r \<noteq> None \<Longrightarrow> exclusive_scope r' \<noteq> exclusive_scope r) \<Longrightarrow>
    card (dom m) < global_max_records l \<Longrightarrow> card (of_principal m (principal_id r)) < principal_max_records l \<Longrightarrow>
    card (live_of m (principal_id r)) < principal_max_in_flight l \<Longrightarrow> body_admissible l m k r \<Longrightarrow>
    ledger_step parse l own m (m(k \<mapsto> r))"

abbreviation ledger_steps :: "rfc3339 \<Rightarrow> limits \<Rightarrow> string set \<Rightarrow> ledger \<Rightarrow> ledger \<Rightarrow> bool" where
  "ledger_steps parse l own \<equiv> (ledger_step parse l own)\<^sup>*\<^sup>*"

section \<open>Invariants of the steps\<close>

definition scopes_exclusive :: "ledger \<Rightarrow> bool" where
  "scopes_exclusive m \<longleftrightarrow> (\<forall>k1 k2 r1 r2. m k1 = Some r1 \<and> m k2 = Some r2 \<and> in_flight (state r1) \<and> in_flight (state r2) \<and>
     exclusive_scope r1 \<noteq> None \<and> exclusive_scope r1 = exclusive_scope r2 \<longrightarrow> k1 = k2)"

definition records_valid :: "rfc3339 \<Rightarrow> ledger \<Rightarrow> bool" where
  "records_valid parse m \<longleftrightarrow> (\<forall>k r. m k = Some r \<longrightarrow> record_ok parse r \<and> key_hash r = k)"

definition within_quota :: "limits \<Rightarrow> ledger \<Rightarrow> bool" where
  "within_quota l m \<longleftrightarrow> finite (dom m) \<and> card (dom m) \<le> global_max_records l \<and>
     (\<forall>who. card (of_principal m who) \<le> principal_max_records l) \<and>
     (\<forall>who. card (live_of m who) \<le> principal_max_in_flight l) \<and>
     bytes_in m (dom m) \<le> global_max_response_bytes l \<and>
     (\<forall>who. bytes_in m (of_principal m who) \<le> principal_max_response_bytes l)"

lemma records_valid_step: "ledger_step parse l own m m' \<Longrightarrow> records_valid parse m \<Longrightarrow> records_valid parse m'"
  by (induction rule: ledger_step.induct) (auto simp: records_valid_def same_identity_def)

lemma not_terminal: "terminal s \<Longrightarrow> \<not> in_flight s"
  by (simp add: terminal_def)

lemma scopes_exclusive_step: "ledger_step parse l own m m' \<Longrightarrow> scopes_exclusive m \<Longrightarrow> scopes_exclusive m'"
proof (induction rule: ledger_step.induct)
  case (renew m k r r')
  then show ?case unfolding scopes_exclusive_def by (auto split: if_splits) metis+
next
  case (finish m k r r')
  then show ?case unfolding scopes_exclusive_def by (auto split: if_splits dest: not_terminal)
next
  case (amend m k r r')
  then show ?case unfolding scopes_exclusive_def by (auto split: if_splits dest: not_terminal)
next
  case (insert m k r)
  then show ?case unfolding scopes_exclusive_def by (auto split: if_splits) metis+
qed (auto simp: scopes_exclusive_def)

text \<open>Sums and cardinalities under an update of one key.\<close>

lemma of_principal_subset: "of_principal m who \<subseteq> dom m" "live_of m who \<subseteq> of_principal m who"
  by (auto simp: of_principal_def live_of_def)

lemma bytes_in_cong: "(\<And>k. k \<in> K \<Longrightarrow> m k = m' k) \<Longrightarrow> bytes_in m K = bytes_in m' K"
  by (simp add: bytes_in_def)

lemma bytes_in_split: "finite K \<Longrightarrow> k \<in> K \<Longrightarrow> bytes_in m K = (case m k of None \<Rightarrow> 0 | Some r \<Rightarrow> body_len r) + bytes_in m (K - {k})"
  by (simp add: bytes_in_def sum.remove)

lemma bytes_in_mono: "finite L \<Longrightarrow> K \<subseteq> L \<Longrightarrow> bytes_in m K \<le> bytes_in m L"
  by (simp add: bytes_in_def sum_mono2)

lemma bytes_in_update:
  assumes "finite K"
  shows "bytes_in (m(k \<mapsto> r)) K = (if k \<in> K then body_len r + bytes_in m (K - {k}) else bytes_in m K)"
proof (cases "k \<in> K")
  case True
  then have "bytes_in (m(k \<mapsto> r)) K = body_len r + bytes_in (m(k \<mapsto> r)) (K - {k})"
    using bytes_in_split [OF assms True, of "m(k \<mapsto> r)"] by simp
  also have "bytes_in (m(k \<mapsto> r)) (K - {k}) = bytes_in m (K - {k})" by (rule bytes_in_cong) simp
  finally show ?thesis by (simp only: True if_True)
next
  case False
  then show ?thesis by (auto intro: bytes_in_cong)
qed

lemma within_quota_remove: "within_quota l m \<Longrightarrow> within_quota l (m(k := None))"
proof -
  assume q: "within_quota l m"
  let ?m = "m(k := None)"
  have fin: "finite (dom m)" using q by (simp add: within_quota_def)
  have sub: "dom ?m \<subseteq> dom m" "of_principal ?m who \<subseteq> of_principal m who" "live_of ?m who \<subseteq> live_of m who" for who
    by (auto simp: of_principal_def live_of_def split: if_splits)
  have finp: "finite (of_principal m who)" "finite (live_of m who)" for who
    using fin of_principal_subset finite_subset by metis+
  have same: "bytes_in ?m K = bytes_in m K" if "k \<notin> K" for K using that by (auto intro: bytes_in_cong)
  have "bytes_in ?m (dom ?m) \<le> bytes_in m (dom m)"
    using same [of "dom ?m"] bytes_in_mono [OF fin sub(1)] by simp
  moreover have "bytes_in ?m (of_principal ?m who) \<le> bytes_in m (of_principal m who)" for who
  proof -
    have "k \<notin> of_principal ?m who" by (simp add: of_principal_def)
    then show ?thesis using same bytes_in_mono [OF finp(1) sub(2)] by simp
  qed
  moreover have "card (dom ?m) \<le> card (dom m)" "card (of_principal ?m who) \<le> card (of_principal m who)"
    "card (live_of ?m who) \<le> card (live_of m who)" for who
    using card_mono [OF fin sub(1)] card_mono [OF finp(1) sub(2)] card_mono [OF finp(2) sub(3)] by blast+
  ultimately show ?thesis
    using q unfolding within_quota_def by (meson finite_subset le_trans sub(1) fin)
qed

text \<open>Replacing a record of the same principal, not turning a finished one live again.\<close>

lemma within_quota_replace:
  assumes q: "within_quota l m" and old: "m k = Some r" and "principal_id r' = principal_id r"
    and live: "in_flight (state r') \<Longrightarrow> in_flight (state r)" and adm: "body_admissible l m k r'"
  shows "within_quota l (m(k \<mapsto> r'))"
proof -
  let ?m = "m(k \<mapsto> r')"
  have fin: "finite (dom m)" using q by (simp add: within_quota_def)
  have D: "dom ?m = dom m" "of_principal ?m who = of_principal m who" "live_of ?m who \<subseteq> live_of m who" for who
    using old assms(3) live by (auto simp: of_principal_def live_of_def split: if_splits)
  have finp: "finite (of_principal m who)" "finite (live_of m who)" for who
    using fin of_principal_subset finite_subset by metis+
  have kin: "k \<in> dom m" "k \<in> of_principal m who \<longleftrightarrow> who = principal_id r" for who
    using old by (auto simp: of_principal_def)
  have bound: "bytes_in ?m K \<le> b" if "bytes_in m K \<le> b" "k \<in> K \<Longrightarrow> body_len r' \<le> body_len r \<or> bytes_in m (K - {k}) + body_len r' \<le> b"
    "finite K" for K b
    using that bytes_in_split [OF \<open>finite K\<close>, of k m] old by (auto simp: bytes_in_update)
  have "bytes_in ?m (dom m) \<le> global_max_response_bytes l"
    using q adm fin old by (intro bound) (auto simp: within_quota_def body_admissible_def)
  moreover have "bytes_in ?m (of_principal m who) \<le> principal_max_response_bytes l" for who
    using q adm finp(1) old kin(2) assms(3) by (intro bound) (auto simp: within_quota_def body_admissible_def)
  moreover have "card (live_of ?m who) \<le> principal_max_in_flight l" for who
    using card_mono [OF finp(2) D(3), of who] q by (meson le_trans within_quota_def)
  ultimately show ?thesis using q D by (auto simp: within_quota_def)
qed

lemma within_quota_insert:
  assumes q: "within_quota l m" and new: "m k = None"
    and "card (dom m) < global_max_records l" "card (of_principal m (principal_id r)) < principal_max_records l"
    "card (live_of m (principal_id r)) < principal_max_in_flight l" and adm: "body_admissible l m k r"
  shows "within_quota l (m(k \<mapsto> r))"
proof -
  let ?m = "m(k \<mapsto> r)" and ?p = "principal_id r"
  have fin: "finite (dom m)" using q by (simp add: within_quota_def)
  have finp: "finite (of_principal m who)" "finite (live_of m who)" for who
    using fin of_principal_subset finite_subset by metis+
  have D: "dom ?m = insert k (dom m)"
    "of_principal ?m who = (if who = ?p then insert k (of_principal m who) else of_principal m who)"
    "live_of ?m who \<subseteq> (if who = ?p then insert k (live_of m who) else live_of m who)" for who
    using new by (auto simp: of_principal_def live_of_def split: if_splits)
  have nin: "k \<notin> dom m" "k \<notin> of_principal m who" "k \<notin> live_of m who" for who
    using new by (auto simp: of_principal_def live_of_def)
  have b: "bytes_in ?m (insert k K) = body_len r + bytes_in m K" if "finite K" "k \<notin> K" for K
    using that by (simp add: bytes_in_update)
  have same: "bytes_in ?m K = bytes_in m K" if "k \<notin> K" for K using that by (auto intro: bytes_in_cong)
  have "bytes_in ?m (dom ?m) \<le> global_max_response_bytes l"
    using q adm new b [OF fin nin(1)] nin by (auto simp: D within_quota_def body_admissible_def)
  moreover have "bytes_in ?m (of_principal ?m who) \<le> principal_max_response_bytes l" for who
    using q adm new b [OF finp(1) nin(2), of who] same [OF nin(2), of who] nin
    by (auto simp: D within_quota_def body_admissible_def)
  moreover have "card (of_principal ?m who) \<le> principal_max_records l" for who
    using q assms(4) finp nin by (auto simp: D within_quota_def)
  moreover have "card (live_of ?m who) \<le> principal_max_in_flight l" for who
  proof (cases "who = ?p")
    case True
    then have "card (live_of ?m who) \<le> card (insert k (live_of m who))" using D(3) [of who] finp by (intro card_mono) auto
    then show ?thesis using True assms(5) finp nin by simp
  next
    case False
    then have "card (live_of ?m who) \<le> card (live_of m who)" using D(3) [of who] finp by (intro card_mono) auto
    then show ?thesis using q by (meson le_trans within_quota_def)
  qed
  ultimately show ?thesis using assms(3) fin nin by (simp add: within_quota_def D)
qed

lemma body_shorter: "m k = Some r \<Longrightarrow> body_len r' \<le> body_len r \<Longrightarrow> body_admissible l m k r'"
  by (simp add: body_admissible_def)

lemma within_quota_step: "ledger_step parse l own m m' \<Longrightarrow> within_quota l m \<Longrightarrow> within_quota l m'"
proof (induction rule: ledger_step.induct)
  case (renew m k r r')
  then show ?case by (intro within_quota_replace [where r = r]) (auto simp: same_identity_def intro: body_shorter)
next
  case (finish m k r r')
  then show ?case by (intro within_quota_replace [where r = r]) (auto simp: same_identity_def)
next
  case (amend m k r r')
  then show ?case
    by (intro within_quota_replace [where r = r]) (auto simp: same_identity_def dest: not_terminal intro: body_shorter)
next
  case (insert m k r)
  then show ?case by (intro within_quota_insert)
qed (simp_all add: within_quota_remove)

lemma steps_invariant:
  assumes "ledger_steps parse l own m m'"
    and "\<And>a b. ledger_step parse l own a b \<Longrightarrow> P a \<Longrightarrow> P b" and "P m"
  shows "P m'"
  using assms(1,3) by (induction rule: rtranclp_induct) (auto intro: assms(2))

text \<open>
  A record whose key the operation may not remove survives, with its identity; once finished it
  stays finished, and a completed one does not change any more.
\<close>

definition evolves :: "idem_record \<Rightarrow> idem_record \<Rightarrow> bool" where
  "evolves r r' \<longleftrightarrow> same_identity r r' \<and> (terminal (state r) \<longrightarrow> terminal (state r')) \<and> (state r = Completed \<longrightarrow> r' = r)"

lemma same_identity_refl [simp]: "same_identity r r"
  by (simp add: same_identity_def)

lemma evolves_trans: "evolves a b \<Longrightarrow> evolves b c \<Longrightarrow> evolves a c"
  by (auto simp: evolves_def same_identity_def)

lemma evolves_refl [simp]: "evolves r r"
  by (simp add: evolves_def same_identity_def)

lemma evolves_live: "in_flight (state r) \<Longrightarrow> same_identity r r' \<Longrightarrow> evolves r r'"
  by (auto simp: evolves_def terminal_def)

lemma evolves_hazard: "state r = Indeterminate \<Longrightarrow> terminal (state r') \<Longrightarrow> same_identity r r' \<Longrightarrow> evolves r r'"
  by (simp add: evolves_def)

lemma steps_survive:
  assumes "ledger_steps parse l own m m'" and "k \<notin> own" and "m k = Some r"
  shows "\<exists>r'. m' k = Some r' \<and> evolves r r'"
proof -
  have "\<exists>r'. b k = Some r' \<and> evolves r r'"
    if "ledger_step parse l own a b" "\<exists>r'. a k = Some r' \<and> evolves r r'" for a b
    using that assms(2) by (induction rule: ledger_step.induct) (auto intro: evolves_trans evolves_live evolves_hazard)
  then show ?thesis using steps_invariant [OF assms(1), of "\<lambda>m. \<exists>r'. m k = Some r' \<and> evolves r r'"] assms(3)
    by auto
qed

section \<open>Stores that implement the ledger\<close>

text \<open>
  A store is an implementation of the abstract ledger when each of its calls is a sequence of steps
  that removes only records it may remove. The invariants of whole histories follow.
\<close>

locale ledger_store =
  fixes parse :: rfc3339 and l :: limits and view :: "'s \<Rightarrow> ledger" and good :: "'s \<Rightarrow> bool"
    and exec :: "'c \<Rightarrow> 's \<Rightarrow> 's" and removes :: "'c \<Rightarrow> ledger \<Rightarrow> string set"
  assumes good_exec: "good s \<Longrightarrow> good (exec c s)"
    and refines: "good s \<Longrightarrow> ledger_steps parse l (removes c (view s)) (view s) (view (exec c s))"
    and valid: "good s \<Longrightarrow> records_valid parse (view s)"
begin

lemma history_keeps:
  assumes "\<And>own a b. ledger_step parse l own a b \<Longrightarrow> P a \<Longrightarrow> P b" and "good s" and "P (view s)"
  shows "good (fold exec cs s) \<and> P (view (fold exec cs s))"
  using assms(2,3)
proof (induction cs arbitrary: s)
  case (Cons c cs)
  have "P (view (exec c s))" using steps_invariant [OF refines [OF Cons.prems(1)]] assms(1) Cons.prems(2) by blast
  then show ?case using Cons.IH good_exec [OF Cons.prems(1)] by simp
qed simp

lemma history_invariant:
  assumes "good s" "scopes_exclusive (view s)" "within_quota l (view s)"
  shows "good (fold exec cs s) \<and> records_valid parse (view (fold exec cs s)) \<and>
    scopes_exclusive (view (fold exec cs s)) \<and> within_quota l (view (fold exec cs s))"
proof -
  have "good (fold exec cs s) \<and> scopes_exclusive (view (fold exec cs s))"
    by (rule history_keeps [where P = scopes_exclusive]) (auto intro: scopes_exclusive_step assms)
  moreover have "good (fold exec cs s) \<and> within_quota l (view (fold exec cs s))"
    by (rule history_keeps [where P = "within_quota l"]) (auto intro: within_quota_step assms)
  ultimately show ?thesis using valid by blast
qed

lemma call_survives:
  "good s \<Longrightarrow> view s k = Some r \<Longrightarrow> k \<notin> removes c (view s) \<Longrightarrow> \<exists>r'. view (exec c s) k = Some r' \<and> evolves r r'"
  using steps_survive [OF refines] by blast

end

section \<open>Abstraction of the store\<close>

definition ledger_of :: "store \<Rightarrow> ledger" where
  "ledger_of s k = (case map_of (st_ledger s) k of Some (Parsed r) \<Rightarrow> Some r | _ \<Rightarrow> None)"

definition clean :: "rfc3339 \<Rightarrow> store \<Rightarrow> bool" where
  "clean parse s \<longleftrightarrow> distinct (map fst (st_ledger s)) \<and>
     (\<forall>k f. map_of (st_ledger s) k = Some f \<longrightarrow> (\<exists>r. f = Parsed r \<and> record_ok parse r \<and> key_hash r = k))"

lemma ledger_of_update [simp]:
  "ledger_of (s\<lparr>st_ledger := AList.update k (Parsed r) (st_ledger s)\<rparr>) = (ledger_of s)(k \<mapsto> r)"
  by (rule ext) (simp add: ledger_of_def update_conv')

lemma ledger_of_delete [simp]: "ledger_of (s\<lparr>st_ledger := AList.delete k (st_ledger s)\<rparr>) = (ledger_of s)(k := None)"
  by (rule ext) (simp add: ledger_of_def delete_conv')

lemma ledger_of_frame [simp]:
  "ledger_of (s\<lparr>st_conversations := c\<rparr>) = ledger_of s" "ledger_of (s\<lparr>st_runs := rs\<rparr>) = ledger_of s"
  by (rule ext, simp add: ledger_of_def)+

lemma clean_frame [simp]:
  "clean parse (s\<lparr>st_conversations := c\<rparr>) = clean parse s" "clean parse (s\<lparr>st_runs := rs\<rparr>) = clean parse s"
  by (simp_all add: clean_def)

lemma clean_update:
  "clean parse s \<Longrightarrow> record_ok parse r \<Longrightarrow> key_hash r = k \<Longrightarrow>
     clean parse (s\<lparr>st_ledger := AList.update k (Parsed r) (st_ledger s)\<rparr>)"
  by (auto simp: clean_def update_conv' distinct_update)

lemma clean_delete: "clean parse s \<Longrightarrow> clean parse (s\<lparr>st_ledger := AList.delete k (st_ledger s)\<rparr>)"
  by (auto simp: clean_def delete_conv' distinct_delete split: if_splits)

lemma clean_records: "clean parse s \<Longrightarrow> ledger_of s k = Some r \<Longrightarrow> record_ok parse r \<and> key_hash r = k"
  by (auto simp: clean_def ledger_of_def split: option.splits disk_file.splits)

lemma clean_present: "clean parse s \<Longrightarrow> map_of (st_ledger s) k \<noteq> None \<longleftrightarrow> ledger_of s k \<noteq> None"
proof (cases "map_of (st_ledger s) k")
  case (Some f)
  assume "clean parse s"
  then obtain r where "f = Parsed r" using Some unfolding clean_def by blast
  then show ?thesis using Some by (simp add: ledger_of_def)
qed (simp add: ledger_of_def)

lemma dom_ledger_of: "clean parse s \<Longrightarrow> dom (ledger_of s) = set (map fst (st_ledger s))"
  using clean_present [of parse s] by (auto simp: dom_def map_of_eq_None_iff)

lemma read_ledger_of: "read_idempotency_record cx k s = (Inr r, t) \<Longrightarrow> t = s \<and> ledger_of s k = Some r \<and> record_ok (cx_parse cx) r"
  using read_idempotency_record_Inr [of cx k s r t] by (simp add: ledger_of_def)

section \<open>Runs of operations as steps\<close>

definition moves :: "rfc3339 \<Rightarrow> limits \<Rightarrow> string set \<Rightarrow> (store, 'a) op \<Rightarrow> store \<Rightarrow> bool" where
  "moves parse l own m s \<longleftrightarrow> (clean parse s \<longrightarrow>
     clean parse (snd (m s)) \<and> ledger_steps parse l own (ledger_of s) (ledger_of (snd (m s))))"

definition pure_op :: "(store, 'a) op \<Rightarrow> bool" where
  "pure_op m \<longleftrightarrow> (\<forall>s. snd (m s) = s)"

named_theorems move_rules \<open>introduction rules for runs of operations\<close>

lemma pure_intros [op_rules]:
  "pure_op (ret a)" "pure_op (lift r)" "pure_op (failing e)" "pure_op (gets f)" "pure_op store_lock" "pure_op run_lock"
  "pure_op (ledger_exists k)" "pure_op (read_idempotency_record cx k)" "pure_op (idempotency_path k)"
  "pure_op (run_exists k)" "pure_op (read_run w k)" "pure_op (load_conversation_file cx p i)"
  by (simp_all add: pure_op_def ret_def lift_def failing_def gets_def store_lock_def run_lock_def lock_def ledger_exists_def
      read_idempotency_record_def idempotency_path_def run_exists_def read_run_def load_conversation_file_def)

lemma pure_bnd [op_rules]: "pure_op m \<Longrightarrow> (\<And>a. pure_op (k a)) \<Longrightarrow> pure_op (bnd m k)"
  by (auto simp: pure_op_def bnd_def split: prod.splits sum.splits) (metis snd_conv)+

lemma pure_if [op_rules]: "pure_op m \<Longrightarrow> pure_op n \<Longrightarrow> pure_op (if b then m else n)"
  by simp

lemma moves_pure [move_rules]: "pure_op m \<Longrightarrow> moves parse l own m s"
  by (simp add: moves_def pure_op_def)

lemma moves_bnd:
  assumes "moves parse l own m s"
    and "\<And>a t. m s = (Inr a, t) \<Longrightarrow> clean parse t \<Longrightarrow> ledger_steps parse l own (ledger_of s) (ledger_of t) \<Longrightarrow> moves parse l own (k a) t"
  shows "moves parse l own (bnd m k) s"
proof (cases "m s")
  case (Pair r t)
  show ?thesis
  proof (cases r)
    case (Inl e)
    then show ?thesis using assms(1) Pair by (simp add: moves_def bnd_def)
  next
    case (Inr a)
    have "moves parse l own (k a) t" if "clean parse s"
      using assms Pair Inr that by (simp add: moves_def)
    then show ?thesis using assms(1) Pair Inr by (auto simp: moves_def bnd_def intro: rtranclp_trans)
  qed
qed

lemma moves_pure_bnd [move_rules]:
  "pure_op m \<Longrightarrow> (\<And>a. m s = (Inr a, s) \<Longrightarrow> moves parse l own (k a) s) \<Longrightarrow> moves parse l own (bnd m k) s"
  by (rule moves_bnd) (auto intro: moves_pure simp: pure_op_def dest: arg_cong [where f = snd])

lemma moves_if [move_rules]:
  "(b \<Longrightarrow> moves parse l own m s) \<Longrightarrow> (\<not> b \<Longrightarrow> moves parse l own n s) \<Longrightarrow> moves parse l own (if b then m else n) s"
  by simp

lemma moves_option [move_rules]:
  "(x = None \<Longrightarrow> moves parse l own m s) \<Longrightarrow> (\<And>a. x = Some a \<Longrightarrow> moves parse l own (k a) s) \<Longrightarrow>
     moves parse l own (case x of None \<Rightarrow> m | Some a \<Rightarrow> k a) s"
  by (cases x) simp_all

lemma moves_sum [move_rules]:
  "(\<And>e. x = Inl e \<Longrightarrow> moves parse l own (h e) s) \<Longrightarrow> (\<And>a. x = Inr a \<Longrightarrow> moves parse l own (k a) s) \<Longrightarrow>
     moves parse l own (case x of Inl e \<Rightarrow> h e | Inr a \<Rightarrow> k a) s"
  by (cases x) simp_all

lemma moves_prod [move_rules]:
  "(\<And>a b. x = (a, b) \<Longrightarrow> moves parse l own (k a b) s) \<Longrightarrow> moves parse l own (case x of (a, b) \<Rightarrow> k a b) s"
  by (cases x) simp

lemma moves_attempt: "moves parse l own m s \<Longrightarrow> moves parse l own (attempt m) s"
  by (simp add: moves_def attempt_def split_def)

lemma moves_published:
  assumes "clean parse s \<Longrightarrow> clean parse (upd s) \<and> ledger_steps parse l own (ledger_of s) (ledger_of (upd s))"
  shows "moves parse l own (published f upd) s"
  using assms by (auto simp: moves_def published_def split: option.splits fault.splits)

lemma moves_write_ledger:
  assumes "clean parse s \<Longrightarrow> ledger_step parse l own (ledger_of s) ((ledger_of s)(k \<mapsto> r)) \<and> record_ok parse r \<and> key_hash r = k"
  shows "moves parse l own (write_ledger cx lbl k r) s"
  unfolding write_ledger_def using assms by (intro moves_published) (auto intro: clean_update)

lemma moves_create_ledger:
  assumes "clean parse s \<Longrightarrow> ledger_step parse l own (ledger_of s) ((ledger_of s)(k \<mapsto> r)) \<and> record_ok parse r \<and> key_hash r = k"
  shows "moves parse l own (create_ledger cx lbl k r) s"
  using moves_write_ledger [OF assms, of cx lbl] by (simp add: moves_def create_ledger_def)

lemma moves_remove_ledger: "k \<in> own \<Longrightarrow> moves parse l own (remove_ledger cx lbl k) s"
proof -
  assume own: "k \<in> own"
  show ?thesis
  proof (cases "map_of (st_ledger s) k = None")
    case True
    then show ?thesis by (simp add: moves_def remove_ledger_def)
  next
    case False
    have "moves parse l own (published (cx_fault cx lbl k) (\<lambda>s. s\<lparr>st_ledger := AList.delete k (st_ledger s)\<rparr>)) s"
    proof (rule moves_published)
      assume c: "clean parse s"
      then obtain r where "ledger_of s k = Some r" using False clean_present by blast
      then show "clean parse (s\<lparr>st_ledger := AList.delete k (st_ledger s)\<rparr>) \<and>
          ledger_steps parse l own (ledger_of s) (ledger_of (s\<lparr>st_ledger := AList.delete k (st_ledger s)\<rparr>))"
        using c own by (auto intro: clean_delete r_into_rtranclp ledger_step.remove)
    qed
    then show ?thesis using False by (simp add: moves_def remove_ledger_def)
  qed
qed

end
