(* ===== verification/Ledger_Refine.thy ===== *)
theory Ledger_Refine
  imports Ledger_Spec
begin

text \<open>
  Every ledger operation of the JSON store is a sequence of steps of the abstract ledger: what
  directory scans compute, and the refinement lemma of each operation.
\<close>

section \<open>Directory scans\<close>

fun fold_result :: "('a \<Rightarrow> 'acc \<Rightarrow> (iron_error, 'acc) result) \<Rightarrow> 'a list \<Rightarrow> 'acc \<Rightarrow> (iron_error, 'acc) result" where
  "fold_result g [] acc = Inr acc"
| "fold_result g (x # xs) acc = and_then (g x acc) (fold_result g xs)"

lemma pure_visit_stems: "(\<And>k r acc. pure_op (f k r acc)) \<Longrightarrow> pure_op (visit_stems cx f n ks acc)"
proof (induction ks arbitrary: n acc)
  case (Cons k ks)
  then show ?case by (auto intro!: pure_bnd pure_intros)
qed (simp add: pure_intros)

lemma pure_visit [op_rules]: "(\<And>k r acc. pure_op (f k r acc)) \<Longrightarrow> pure_op (visit_idempotency_records cx f acc)"
  using pure_visit_stems [of f cx] by (simp add: pure_op_def visit_idempotency_records_def)

lemma scan_limit_le: "consume_scan_entry env n = Inr m \<Longrightarrow> n < 100000 \<and> m = Suc n"
proof -
  have "json_scan_max_entries env \<le> 100000"
    unfolding json_scan_max_entries_def by (rule positive_limit_le) simp
  then show "consume_scan_entry env n = Inr m \<Longrightarrow> n < 100000 \<and> m = Suc n"
    by (auto simp: consume_scan_entry_def Let_def saturating_add_def u64_max_def split: if_splits)
qed

text \<open>A successful pure scan folds over the records, and there are no more than the scan limit.\<close>

lemma visit_stems_fold:
  assumes "visit_stems cx (\<lambda>k r acc. lift (g k r acc)) n ks acc s = (Inr a, t)" "n \<le> 100000"
  shows "t = s \<and> n + length ks \<le> 100000 \<and> (\<forall>k \<in> set ks. ledger_of s k \<noteq> None) \<and>
    fold_result (\<lambda>k acc. g k (the (ledger_of s k)) acc) ks acc = Inr a"
  using assms
proof (induction ks arbitrary: n acc)
  case (Cons k ks)
  from Cons.prems(1) obtain m r acc' where m: "consume_scan_entry (cx_env cx) n = Inr m"
    and r: "read_idempotency_record cx k s = (Inr r, s)" and g: "g k r acc = Inr acc'"
    and rest: "visit_stems cx (\<lambda>k r acc. lift (g k r acc)) m ks acc' s = (Inr a, t)"
    by (auto simp: op_Inr dest: read_ledger_of)
  have "n < 100000" "m = Suc n" using scan_limit_le [OF m] by auto
  then show ?case using Cons.IH [OF rest] read_ledger_of [OF r] g by auto
qed (simp add: ret_Inr)

lemma visit_fold:
  assumes "visit_idempotency_records cx (\<lambda>k r acc. lift (g k r acc)) acc s = (Inr a, t)"
  shows "t = s \<and> length (st_ledger s) \<le> 100000 \<and>
    fold_result (\<lambda>k acc. g k (the (ledger_of s k)) acc) (map fst (st_ledger s)) acc = Inr a"
  using visit_stems_fold [of cx g 0] assms by (fastforce simp: visit_idempotency_records_def)

lemma ret_is_lift: "ret x = lift (Inr x)"
  by (rule ext) (simp add: ret_def lift_def)

lemma moves_visit_stems:
  assumes "\<And>k r acc t. clean parse t \<Longrightarrow> ledger_of t k = Some r \<Longrightarrow> moves parse l own (f k r acc) t"
  shows "moves parse l own (visit_stems cx f n ks acc) s"
proof (induction ks arbitrary: n acc s)
  case (Cons k ks)
  have read: "pure_op (read_idempotency_record cx k)" by (rule pure_intros)
  have step: "moves parse l own (bnd (read_idempotency_record cx k) (\<lambda>r. bnd (f k r acc) (visit_stems cx f m ks))) s" for m s
  proof (rule moves_pure_bnd [OF read])
    fix r
    assume r: "read_idempotency_record cx k s = (Inr r, s)"
    have "moves parse l own (f k r acc) s"
      using assms [of s k r acc] read_ledger_of [OF r] by (cases "clean parse s") (simp_all add: moves_def)
    then show "moves parse l own (bnd (f k r acc) (visit_stems cx f m ks)) s" by (rule moves_bnd) (rule Cons.IH)
  qed
  show ?case unfolding visit_stems.simps by (rule moves_pure_bnd) (rule pure_intros, rule step)
qed (simp add: moves_pure pure_intros)

lemma moves_visit:
  assumes "\<And>k r acc t. clean parse t \<Longrightarrow> ledger_of t k = Some r \<Longrightarrow> moves parse l own (f k r acc) t"
  shows "moves parse l own (visit_idempotency_records cx f acc) s"
  using moves_visit_stems [of parse l own f, OF assms, of cx 0 "map fst (st_ledger s)" acc s]
  by (simp add: moves_def visit_idempotency_records_def)

section \<open>What the scans compute\<close>

lemma add_bytes_Inr: "add_bytes msg a b = Inr c \<Longrightarrow> c = a + b"
  by (auto simp: add_bytes_def checked_add_def split: option.splits if_splits)

lemma tally_fold:
  assumes "fold_result (\<lambda>k t. tally_record cx who (rec k) t) ks t0 = Inr t"
    and "ty_records t0 + length ks \<le> u64_max" "ty_principal_records t0 \<le> ty_records t0"
    "ty_principal_in_flight t0 \<le> ty_records t0"
  shows "ty_records t = ty_records t0 + length ks \<and>
    ty_principal_records t = ty_principal_records t0 + length (filter (\<lambda>k. principal_id (rec k) = who) ks) \<and>
    ty_principal_in_flight t = ty_principal_in_flight t0 +
      length (filter (\<lambda>k. principal_id (rec k) = who \<and> in_flight (state (rec k))) ks) \<and>
    ty_bytes t = ty_bytes t0 + sum_list (map (\<lambda>k. body_len (rec k)) ks) \<and>
    ty_principal_bytes t = ty_principal_bytes t0 +
      sum_list (map (\<lambda>k. body_len (rec k)) (filter (\<lambda>k. principal_id (rec k) = who) ks))"
  using assms
proof (induction ks arbitrary: t0)
  case (Cons k ks)
  then obtain t1 where t1: "tally_record cx who (rec k) t0 = Inr t1" "fold_result (\<lambda>k t. tally_record cx who (rec k) t) ks t1 = Inr t"
    by (auto simp: and_then_Inr_iff)
  have "ty_records t1 = ty_records t0 + 1 \<and>
    ty_principal_records t1 = ty_principal_records t0 + (if principal_id (rec k) = who then 1 else 0) \<and>
    ty_principal_in_flight t1 = ty_principal_in_flight t0 + (if principal_id (rec k) = who \<and> in_flight (state (rec k)) then 1 else 0) \<and>
    ty_bytes t1 = ty_bytes t0 + body_len (rec k) \<and>
    ty_principal_bytes t1 = ty_principal_bytes t0 + (if principal_id (rec k) = who then body_len (rec k) else 0)"
    using t1(1) Cons.prems(2-)
    by (cases "principal_id (rec k) = who")
      (auto simp: tally_record_def and_then_Inr_iff Let_def saturating_add_def dest!: add_bytes_Inr)
  then show ?case using Cons.IH [OF t1(2)] Cons.prems(2-) by auto
qed simp

lemma sum_list_bytes: "distinct ks \<Longrightarrow> \<forall>k \<in> set ks. m k \<noteq> None \<Longrightarrow> sum_list (map (\<lambda>k. body_len (the (m k))) ks) = bytes_in m (set ks)"
  unfolding bytes_in_def
  by (subst sum_list_distinct_conv_sum_set) (auto intro!: sum.cong split: option.splits)

lemma ledger_counts:
  assumes "clean parse s"
  defines "ks \<equiv> map fst (st_ledger s)"
  shows "card (dom (ledger_of s)) = length ks"
    and "card (of_principal (ledger_of s) who) = length (filter (\<lambda>k. principal_id (the (ledger_of s k)) = who) ks)"
    and "card (live_of (ledger_of s) who) = length (filter (\<lambda>k. principal_id (the (ledger_of s k)) = who \<and> in_flight (state (the (ledger_of s k)))) ks)"
    and "bytes_in (ledger_of s) (dom (ledger_of s)) = sum_list (map (\<lambda>k. body_len (the (ledger_of s k))) ks)"
    and "bytes_in (ledger_of s) (of_principal (ledger_of s) who) =
      sum_list (map (\<lambda>k. body_len (the (ledger_of s k))) (filter (\<lambda>k. principal_id (the (ledger_of s k)) = who) ks))"
proof -
  have d: "distinct ks" using assms by (simp add: clean_def)
  have D: "dom (ledger_of s) = set ks" using dom_ledger_of [OF assms(1)] by (simp add: ks_def)
  then have P: "of_principal (ledger_of s) who = set (filter (\<lambda>k. principal_id (the (ledger_of s k)) = who) ks)"
    and L: "live_of (ledger_of s) who = set (filter (\<lambda>k. principal_id (the (ledger_of s k)) = who \<and> in_flight (state (the (ledger_of s k)))) ks)"
    by (fastforce simp: of_principal_def live_of_def dom_def)+
  show "card (dom (ledger_of s)) = length ks" using d D by (simp add: distinct_card)
  show "card (of_principal (ledger_of s) who) = length (filter (\<lambda>k. principal_id (the (ledger_of s k)) = who) ks)"
    unfolding P by (rule distinct_card) (simp add: d)
  show "card (live_of (ledger_of s) who) = length (filter (\<lambda>k. principal_id (the (ledger_of s k)) = who \<and> in_flight (state (the (ledger_of s k)))) ks)"
    unfolding L by (rule distinct_card) (simp add: d)
  have some: "\<forall>k \<in> set ks. ledger_of s k \<noteq> None" using D by auto
  show "bytes_in (ledger_of s) (dom (ledger_of s)) = sum_list (map (\<lambda>k. body_len (the (ledger_of s k))) ks)"
    unfolding D using sum_list_bytes [OF d some] by simp
  show "bytes_in (ledger_of s) (of_principal (ledger_of s) who) =
      sum_list (map (\<lambda>k. body_len (the (ledger_of s k))) (filter (\<lambda>k. principal_id (the (ledger_of s k)) = who) ks))"
    unfolding P by (rule sum_list_bytes [symmetric]) (use d some in auto)
qed

lemma claim_tally_Inr:
  assumes "claim_tally cx who s = (Inr t, u)" "clean parse s"
  shows "u = s \<and> ty_records t = card (dom (ledger_of s)) \<and> ty_principal_records t = card (of_principal (ledger_of s) who) \<and>
    ty_principal_in_flight t = card (live_of (ledger_of s) who) \<and> ty_bytes t = bytes_in (ledger_of s) (dom (ledger_of s)) \<and>
    ty_principal_bytes t = bytes_in (ledger_of s) (of_principal (ledger_of s) who)"
proof -
  have v: "u = s" "length (st_ledger s) \<le> 100000"
    "fold_result (\<lambda>k t. tally_record cx who (the (ledger_of s k)) t) (map fst (st_ledger s)) empty_tally = Inr t"
    using visit_fold [of cx "\<lambda>k r t. tally_record cx who r t" empty_tally s t u] assms(1)
    unfolding claim_tally_def by simp_all
  have "ty_records empty_tally + length (map fst (st_ledger s)) \<le> u64_max"
    using v(2) by (simp add: empty_tally_def u64_max_def)
  from tally_fold [OF v(3) this] show ?thesis
    using v(1) ledger_counts [OF assms(2)] by (simp add: empty_tally_def)
qed

text \<open>The bytes of all records but the one being completed.\<close>

lemma bytes_fold:
  assumes "fold_result (\<lambda>k (a, m). if ex \<noteq> Some (key_hash (rec k)) then
        and_then (add_bytes m1 a (body_len (rec k))) (\<lambda>a. and_then (if principal_id (rec k) = who
          then add_bytes m2 m (body_len (rec k)) else Inr m) (\<lambda>m. Inr (a, m))) else Inr (a, m)) ks (a0, b0) = Inr (a, b)"
    and "\<forall>k \<in> set ks. key_hash (rec k) = k"
  shows "a = a0 + sum_list (map (\<lambda>k. body_len (rec k)) (filter (\<lambda>k. ex \<noteq> Some k) ks)) \<and>
    b = b0 + sum_list (map (\<lambda>k. body_len (rec k)) (filter (\<lambda>k. principal_id (rec k) = who \<and> ex \<noteq> Some k) ks))"
  using assms
proof (induction ks arbitrary: a0 b0)
  case (Cons k ks)
  show ?case
  proof (cases "ex = Some k")
    case True
    then show ?thesis using Cons by (auto simp: and_then_Inr_iff)
  next
    case False
    have hk: "key_hash (rec k) = k" using Cons.prems(2) by simp
    show ?thesis
    proof (cases "principal_id (rec k) = who")
      case True
      then show ?thesis using Cons.prems False hk Cons.IH [of "a0 + body_len (rec k)" "b0 + body_len (rec k)"]
        by (auto simp: and_then_Inr_iff dest!: add_bytes_Inr)
    next
      case p: False
      then show ?thesis using Cons.prems False hk Cons.IH [of "a0 + body_len (rec k)" b0]
        by (auto simp: and_then_Inr_iff dest!: add_bytes_Inr)
    qed
  qed
qed simp

lemma json_bytes_Inr:
  assumes "json_idempotency_response_bytes cx who (Some k) s = (Inr (a, b), t)" "clean parse s"
  shows "t = s \<and> a = bytes_in (ledger_of s) (dom (ledger_of s) - {k}) \<and>
    b = bytes_in (ledger_of s) (of_principal (ledger_of s) who - {k})"
proof -
  let ?m = "ledger_of s" and ?ks = "map fst (st_ledger s)"
  let ?g = "\<lambda>r (a, m). if Some k \<noteq> Some (key_hash r) then
        and_then (add_bytes ''Idempotency response byte total overflow'' a (body_len r)) (\<lambda>a.
        and_then (if principal_id r = who then add_bytes ''Principal idempotency response byte total overflow'' m (body_len r)
          else Inr m) (\<lambda>m. Inr (a, m))) else Inr (a, m)"
  have eq: "json_idempotency_response_bytes cx who (Some k) = visit_idempotency_records cx (\<lambda>path r acc. lift (?g r acc)) (0, 0)"
    unfolding json_idempotency_response_bytes_def by (rule arg_cong2 [where f = "visit_idempotency_records cx"]) (auto simp: fun_eq_iff)
  have v: "t = s" "fold_result (\<lambda>k acc. ?g (the (?m k)) acc) ?ks (0, 0) = Inr (a, b)"
    using visit_fold [of cx "\<lambda>k r acc. ?g r acc" "(0, 0)" s "(a, b)" t] assms(1) unfolding eq by simp_all
  have some: "\<forall>k \<in> set ?ks. ?m k \<noteq> None" using dom_ledger_of [OF assms(2)] by auto
  have "\<forall>k \<in> set ?ks. key_hash (the (?m k)) = k" using some clean_records [OF assms(2)] by fastforce
  from bytes_fold [OF v(2) this]
  have ab: "a = sum_list (map (\<lambda>j. body_len (the (?m j))) (filter (\<lambda>j. Some k \<noteq> Some j) ?ks))"
    "b = sum_list (map (\<lambda>j. body_len (the (?m j))) (filter (\<lambda>j. principal_id (the (?m j)) = who \<and> Some k \<noteq> Some j) ?ks))"
    by simp_all
  have d: "distinct ?ks" using assms(2) by (simp add: clean_def)
  have "set (filter (\<lambda>j. Some k \<noteq> Some j) ?ks) = dom ?m - {k}" using dom_ledger_of [OF assms(2)] by auto
  moreover have "set (filter (\<lambda>j. principal_id (the (?m j)) = who \<and> Some k \<noteq> Some j) ?ks) = of_principal ?m who - {k}"
    using dom_ledger_of [OF assms(2)] by (fastforce simp: of_principal_def dom_def)
  moreover have "sum_list (map (\<lambda>j. body_len (the (?m j))) (filter P ?ks)) = bytes_in ?m (set (filter P ?ks))" for P
    by (rule sum_list_bytes) (use d some in auto)
  ultimately show ?thesis using v(1) ab by simp
qed

lemma body_fits_le:
  "body_fits l a b body \<Longrightarrow> a + length body \<le> global_max_response_bytes l \<and> b + length body \<le> principal_max_response_bytes l"
  by (auto simp: body_fits_def checked_add_def split: option.splits if_splits)

lemma filter_body_admissible:
  assumes "response_body r = filter_body l a b body"
    and "a = bytes_in m (dom m - {k})" "b = bytes_in m (of_principal m (principal_id r) - {k})"
  shows "body_admissible l m k r"
  using assms by (auto simp: body_admissible_def filter_body_def body_len_def split: option.splits if_splits dest!: body_fits_le)

section \<open>Pruning\<close>

text \<open>A finished record whose retention is over at \<open>now\<close>.\<close>

definition record_expired :: "ctx \<Rightarrow> string \<Rightarrow> idem_record \<Rightarrow> bool" where
  "record_expired cx now r \<longleftrightarrow> terminal (state r) \<and> (\<exists>t. expires_at r = Some t \<and> timestamp_has_passed cx t now = Inr True)"

definition expired_keys :: "ctx \<Rightarrow> string \<Rightarrow> ledger \<Rightarrow> string set" where
  "expired_keys cx now m = {k. \<exists>r. m k = Some r \<and> record_expired cx now r}"

definition shrinks :: "(store, 'a) op \<Rightarrow> bool" where
  "shrinks m \<longleftrightarrow> (\<forall>s k. ledger_of (snd (m s)) k = None \<or> ledger_of (snd (m s)) k = ledger_of s k)"

lemma shrinks_pure: "pure_op m \<Longrightarrow> shrinks m"
  by (simp add: pure_op_def shrinks_def)

lemma shrinks_bnd: "shrinks m \<Longrightarrow> (\<And>a. shrinks (k a)) \<Longrightarrow> shrinks (bnd m k)"
proof -
  assume m: "shrinks m" and k: "\<And>a. shrinks (k a)"
  show ?thesis unfolding shrinks_def
  proof (intro allI)
    fix s j
    obtain r t where t: "m s = (r, t)" by (cases "m s")
    have 1: "ledger_of t j = None \<or> ledger_of t j = ledger_of s j" using m t by (simp add: shrinks_def) (metis snd_conv)
    show "ledger_of (snd (bnd m k s)) j = None \<or> ledger_of (snd (bnd m k s)) j = ledger_of s j"
    proof (cases r)
      case (Inr a)
      have "ledger_of (snd (k a t)) j = None \<or> ledger_of (snd (k a t)) j = ledger_of t j" using k by (simp add: shrinks_def)
      then show ?thesis using 1 t Inr by (auto simp: bnd_def)
    qed (use 1 t in \<open>simp add: bnd_def\<close>)
  qed
qed

lemma shrinks_remove: "shrinks (remove_ledger cx lbl k)"
  by (simp add: shrinks_def remove_ledger_def published_def split: option.splits fault.splits)

lemma removes_moves: "set ks \<subseteq> own \<Longrightarrow>
    moves parse l own (foldr (\<lambda>path k. bnd (remove_ledger cx lbl path) (\<lambda>_. k)) ks (ret ())) s"
  by (induction ks arbitrary: s) (auto intro: moves_bnd moves_remove_ledger moves_pure pure_intros)

lemma removes_shrinks: "shrinks (foldr (\<lambda>path k. bnd (remove_ledger cx lbl path) (\<lambda>_. k)) ks (ret ()))"
  by (induction ks) (auto intro: shrinks_bnd shrinks_remove shrinks_pure pure_intros)

lemma prune_moves:
  assumes "expired_keys cx now (ledger_of s) \<subseteq> own"
  shows "moves parse l own (prune_json_idempotency_locked cx now limit) s"
proof -
  define g :: "string \<Rightarrow> idem_record \<Rightarrow> (string \<times> string) list \<Rightarrow> (iron_error, (string \<times> string) list) result"
    where "g = (\<lambda>path r acc. case expires_at r of
      Some t \<Rightarrow> if terminal (state r)
        then and_then (timestamp_has_passed cx t now) (\<lambda>passed. Inr (if passed then acc @ [(t, path)] else acc)) else Inr acc
    | None \<Rightarrow> Inr acc)"
  have "set (map snd expired) \<subseteq> expired_keys cx now (ledger_of s) \<union> set (map snd acc)"
    if "fold_result (\<lambda>k acc. g k (the (ledger_of s k)) acc) ks acc = Inr expired" "\<forall>k \<in> set ks. ledger_of s k \<noteq> None" for ks acc expired
    using that
  proof (induction ks arbitrary: acc)
    case (Cons k ks)
    then obtain acc1 where a1: "g k (the (ledger_of s k)) acc = Inr acc1"
      "fold_result (\<lambda>k acc. g k (the (ledger_of s k)) acc) ks acc1 = Inr expired" by (auto simp: and_then_Inr_iff)
    have "set (map snd acc1) \<subseteq> expired_keys cx now (ledger_of s) \<union> set (map snd acc)"
      using a1(1) Cons.prems(2) by (auto simp: g_def and_then_Inr_iff expired_keys_def record_expired_def image_iff split: option.splits if_splits) force
    moreover have "set (map snd expired) \<subseteq> expired_keys cx now (ledger_of s) \<union> set (map snd acc1)"
      using Cons.IH [OF a1(2)] Cons.prems(2) by simp
    ultimately show ?case by blast
  qed simp
  note collected = this
  have pure: "pure_op (visit_idempotency_records cx (\<lambda>path r acc. lift (g path r acc)) [])"
    by (intro pure_visit pure_intros)
  have body: "moves parse l own (bnd (visit_idempotency_records cx (\<lambda>path r acc. lift (g path r acc)) []) (\<lambda>expired.
      let victims = take limit (map snd (sort_key fst expired))
      in bnd (foldr (\<lambda>path k. bnd (remove_ledger cx ''remove expired'' path) (\<lambda>_. k)) victims (ret ()))
           (\<lambda>_. ret (length victims)))) s"
  proof (cases "clean parse s")
    case True
    show ?thesis
    proof (rule moves_pure_bnd [OF pure])
      fix expired
      assume "visit_idempotency_records cx (\<lambda>path r acc. lift (g path r acc)) [] s = (Inr expired, s)"
      then have "fold_result (\<lambda>k acc. g k (the (ledger_of s k)) acc) (map fst (st_ledger s)) [] = Inr expired"
        by (rule visit_fold [THEN conjunct2, THEN conjunct2])
      moreover have "\<forall>k \<in> set (map fst (st_ledger s)). ledger_of s k \<noteq> None" using dom_ledger_of [OF True] by auto
      ultimately have "set (map snd expired) \<subseteq> own" using collected [of _ "[]"] assms by fastforce
      then have "set (take limit (map snd (sort_key fst expired))) \<subseteq> own"
        by (auto dest!: in_set_takeD)
      then show "moves parse l own (let victims = take limit (map snd (sort_key fst expired))
          in bnd (foldr (\<lambda>path k. bnd (remove_ledger cx ''remove expired'' path) (\<lambda>_. k)) victims (ret ()))
            (\<lambda>_. ret (length victims))) s"
        unfolding Let_def by (intro moves_bnd removes_moves moves_pure pure_intros)
    qed
  qed (simp add: moves_def)
  show ?thesis unfolding prune_json_idempotency_locked_def
    by (rule moves_pure_bnd, rule pure_intros, rule moves_if, rule moves_pure, rule pure_intros)
      (rule body [unfolded g_def])
qed

lemma prune_shrinks: "shrinks (prune_json_idempotency_locked cx now limit)"
proof -
  have if_shrinks: "shrinks m \<Longrightarrow> shrinks n \<Longrightarrow> shrinks (if b then m else n)" for b and m n :: "(store, 'x) op" by simp
  show ?thesis unfolding prune_json_idempotency_locked_def Let_def
    by (intro shrinks_bnd if_shrinks removes_shrinks shrinks_pure pure_visit pure_intros)
qed


section \<open>Rewriting one record\<close>

lemmas moves_steps = pure_intros [THEN moves_pure_bnd] moves_if moves_option moves_sum moves_prod
lemmas moves_ends = pure_intros [THEN moves_pure]

lemma moves_rewrite:
  assumes "\<And>m. m = ledger_of s \<Longrightarrow> record_ok (cx_parse cx) r' \<Longrightarrow> ledger_step (cx_parse cx) l own m (m(k \<mapsto> r'))"
    and "clean (cx_parse cx) s \<Longrightarrow> key_hash r' = k"
  shows "moves (cx_parse cx) l own (bnd (lift (validate_record (cx_parse cx) r')) (\<lambda>_. bnd (write_ledger cx lbl k r') (\<lambda>_. ret x))) s"
proof (rule moves_pure_bnd, rule pure_intros)
  fix u
  assume "lift (validate_record (cx_parse cx) r') s = (Inr u, s)"
  then have "record_ok (cx_parse cx) r'" by (simp add: lift_Inr validate_record_iff)
  then show "moves (cx_parse cx) l own (bnd (write_ledger cx lbl k r') (\<lambda>_. ret x)) s"
    using assms by (intro moves_bnd moves_write_ledger moves_pure pure_intros) auto
qed

lemma mark_terminal_indeterminate_simps [simp]:
  "state (mark_terminal_indeterminate r now expiry) = Indeterminate"
  "body_len (mark_terminal_indeterminate r now expiry) = 0"
  "key_hash (mark_terminal_indeterminate r now expiry) = key_hash r"
  "same_identity r (mark_terminal_indeterminate r now expiry)"
  by (simp_all add: mark_terminal_indeterminate_def body_len_def same_identity_def)

lemma terminal_simps [simp]: "terminal Indeterminate" "terminal Completed" "\<not> terminal Claimed" "\<not> terminal Running"
  by (simp_all add: terminal_def in_flight_def)

lemma no_body_admissible: "body_len r = 0 \<Longrightarrow> body_admissible l m k r"
  by (simp add: body_admissible_def)

lemma mark_step:
  "m k = Some r \<Longrightarrow> in_flight (state r) \<Longrightarrow> record_ok parse (mark_terminal_indeterminate r now expiry) \<Longrightarrow>
     ledger_step parse l own m (m(k \<mapsto> mark_terminal_indeterminate r now expiry))"
  by (rule ledger_step.finish [where r = r]) (simp_all add: no_body_admissible)

lemma terminalize_moves:
  assumes "ledger_of s k = Some r" "in_flight (state r)"
  shows "moves (cx_parse cx) l own (terminalize_json_idempotency_indeterminate cx k r now) s"
  unfolding terminalize_json_idempotency_indeterminate_def Let_def
  using assms clean_records [of "cx_parse cx" s k r]
  by (intro moves_pure_bnd [OF pure_intros(2)] moves_rewrite) (auto intro: mark_step)

section \<open>Claims\<close>

text \<open>The keys whose record a claim of \<open>key\<close> may remove: expired ones, and its own new one.\<close>

definition removable :: "ctx \<Rightarrow> string \<Rightarrow> ledger \<Rightarrow> string \<Rightarrow> string set" where
  "removable cx now m key = {k. case m k of None \<Rightarrow> k = key | Some r \<Rightarrow> record_expired cx now r}"

lemma removable_expired: "expired_keys cx now m \<subseteq> removable cx now m key"
  by (auto simp: expired_keys_def removable_def)

lemma expired_terminal_Inr: "expired_terminal cx r now = Inr True \<Longrightarrow> record_expired cx now r"
  by (auto simp: expired_terminal_def record_expired_def split: if_splits option.splits)

lemma claim_existing_moves:
  assumes "expired_keys cx (cl_created_at c) (ledger_of s) \<subseteq> own"
  shows "moves (cx_parse cx) l own (claim_existing cx c k) s"
proof -
  have gone: "moves (cx_parse cx) l own (bnd (remove_ledger cx lbl k) (\<lambda>_. ret x)) s"
    if "ledger_of s k = Some r" "lift (expired_terminal cx r (cl_created_at c)) s = (Inr True, s)" for r lbl and x :: "claim_outcome option"
    using that assms by (intro moves_bnd moves_remove_ledger moves_pure pure_intros)
      (auto simp: lift_Inr expired_keys_def dest!: expired_terminal_Inr)
  have lost: "moves (cx_parse cx) l own (bnd (terminalize_json_idempotency_indeterminate cx k r now) f) s"
    if "ledger_of s k = Some r" "in_flight (state r)" "\<And>r'. pure_op (f r')" for r now and f :: "idem_record \<Rightarrow> (store, claim_outcome option) op"
    using that by (intro moves_bnd terminalize_moves moves_pure)
  show ?thesis unfolding claim_existing_def
    by (intro moves_steps moves_ends; (rule gone | rule lost))
      (auto simp: lift_Inr dest!: read_ledger_of split: if_splits intro: pure_intros)
qed

text \<open>When nothing is decided by the record found, there is none (any more) and the rest is as it was.\<close>

lemma claim_existing_None:
  assumes "claim_existing cx c k s = (Inr None, t)" "clean (cx_parse cx) s"
  shows "ledger_of t = (ledger_of s)(k := None)"
proof (cases "map_of (st_ledger s) k = None")
  case True
  then have "t = s" using assms(1) by (auto simp: claim_existing_def bnd_Inr ret_Inr ledger_exists_def gets_def)
  then show ?thesis using True by (auto simp: ledger_of_def fun_eq_iff)
next
  case False
  with assms(1) obtain r where "remove_ledger cx ''remove expired claim'' k s = (Inr (), t)"
    by (auto simp: claim_existing_def op_Inr ledger_exists_def gets_def split: if_splits dest!: read_ledger_of)
  then show ?thesis using False
    by (auto simp: remove_ledger_def published_def split: option.splits fault.splits)
qed

lemma scope_busy_moves: "moves (cx_parse cx) l own (scope_busy cx c xs) s"
  unfolding scope_busy_def
  by (rule moves_visit) (auto intro!: moves_steps moves_ends moves_bnd [OF terminalize_moves])

lemma visit_stems_unset:
  assumes "\<And>k r b s u. f k r b s = (Inr False, u) \<Longrightarrow> \<not> b \<and> u = s \<and> P r"
  shows "visit_stems cx f n ks b s = (Inr False, t) \<Longrightarrow>
    \<not> b \<and> t = s \<and> (\<forall>k \<in> set ks. \<forall>r. ledger_of s k = Some r \<longrightarrow> P r)"
proof (induction ks arbitrary: n b s)
  case (Cons k ks)
  from Cons.prems obtain m r b' v u where r: "read_idempotency_record cx k s = (Inr r, v)"
    and f: "f k r b v = (Inr b', u)" and rest: "visit_stems cx f m ks b' u = (Inr False, t)"
    by (auto simp: op_Inr)
  have "\<not> b'" "t = u" "\<forall>k \<in> set ks. \<forall>r. ledger_of u k = Some r \<longrightarrow> P r" using Cons.IH [OF rest] by auto
  moreover have "\<not> b \<and> u = v \<and> P r" using assms [of k r b v u] f \<open>\<not> b'\<close> by simp
  ultimately show ?case using read_ledger_of [OF r] by auto
qed (simp add: ret_Inr)

lemma scope_busy_False:
  assumes "scope_busy cx c xs s = (Inr False, t)" "clean parse s"
  shows "t = s \<and> (\<forall>k r. ledger_of s k = Some r \<longrightarrow> in_flight (state r) \<longrightarrow> exclusive_scope r \<noteq> Some xs)"
proof -
  obtain f where f: "scope_busy cx c xs = visit_idempotency_records cx f False"
    and unset: "\<And>k r b s u. f k r b s = (Inr False, u) \<Longrightarrow> \<not> b \<and> u = s \<and> (in_flight (state r) \<longrightarrow> exclusive_scope r \<noteq> Some xs)"
    by (rule that [OF scope_busy_def]) (auto simp: op_Inr split: if_splits)
  have "visit_stems cx f 0 (map fst (st_ledger s)) False s = (Inr False, t)"
    using assms(1) by (simp add: f visit_idempotency_records_def)
  then have "\<not> False \<and> t = s \<and> (\<forall>k \<in> set (map fst (st_ledger s)). \<forall>r. ledger_of s k = Some r \<longrightarrow>
      (in_flight (state r) \<longrightarrow> exclusive_scope r \<noteq> Some xs))"
    by (rule visit_stems_unset [rotated]) (erule unset)
  then show ?thesis using dom_ledger_of [OF assms(2)] by blast
qed

lemma scope_hazards_Inr:
  assumes "scope_hazards cx xs s = (Inr hs, t)" "clean parse s"
  shows "t = s \<and> (\<forall>(k, r) \<in> set hs. ledger_of s k = Some r \<and> state r = Indeterminate)"
proof -
  define g :: "string \<Rightarrow> idem_record \<Rightarrow> (string \<times> idem_record) list \<Rightarrow> (string \<times> idem_record) list"
    where "g = (\<lambda>k r acc. if exclusive_scope r = Some xs \<and> state r = Indeterminate then acc @ [(k, r)] else acc)"
  have v: "t = s" "fold_result (\<lambda>k acc. Inr (g k (the (ledger_of s k)) acc)) (map fst (st_ledger s)) [] = Inr hs"
    using visit_fold [of cx "\<lambda>k r acc. Inr (g k r acc)" "[]" s hs t] assms(1)
    unfolding scope_hazards_def ret_is_lift g_def by simp_all
  have step: "\<forall>(k, r) \<in> set (g k (the (ledger_of s k)) acc). ledger_of s k = Some r \<and> state r = Indeterminate"
    if "ledger_of s k \<noteq> None" "\<forall>(k, r) \<in> set acc. ledger_of s k = Some r \<and> state r = Indeterminate" for k acc
    using that by (auto simp: g_def)
  have "\<forall>(k, r) \<in> set hs. ledger_of s k = Some r \<and> state r = Indeterminate"
    if "fold_result (\<lambda>k acc. Inr (g k (the (ledger_of s k)) acc)) ks acc = Inr hs" "\<forall>k \<in> set ks. ledger_of s k \<noteq> None"
      "\<forall>(k, r) \<in> set acc. ledger_of s k = Some r \<and> state r = Indeterminate" for ks acc
    using that
  proof (induction ks arbitrary: acc)
    case (Cons k ks)
    show ?case by (rule Cons.IH [OF _ _ step]) (use Cons.prems in auto)
  qed simp
  from this [OF v(2)] show ?thesis using v(1) dom_ledger_of [OF assms(2)] by auto
qed

text \<open>A scope is granted with no live turn in it; the hazard handed on is an indeterminate record.\<close>

definition hazard_of :: "ledger \<Rightarrow> (string \<times> idem_record) option \<Rightarrow> bool" where
  "hazard_of m hazard \<longleftrightarrow> (\<forall>k r. hazard = Some (k, r) \<longrightarrow> m k = Some r \<and> state r = Indeterminate)"

definition scope_free :: "ledger \<Rightarrow> string option \<Rightarrow> bool" where
  "scope_free m xs \<longleftrightarrow> (\<forall>k r. m k = Some r \<longrightarrow> in_flight (state r) \<longrightarrow> xs \<noteq> None \<longrightarrow> exclusive_scope r \<noteq> xs)"

lemma claim_scope_moves: "moves (cx_parse cx) l own (claim_scope cx c) s"
proof -
  have hz: "pure_op (scope_hazards cx xs)" for xs unfolding scope_hazards_def by (intro pure_visit pure_intros)
  show ?thesis unfolding claim_scope_def
    by (auto split: option.split list.split intro!: moves_ends moves_bnd [OF scope_busy_moves] moves_pure_bnd [OF hz] moves_steps)
qed

lemma pick_hazard:
  "(case hs of [] \<Rightarrow> ret (Inr None) | h # rest \<Rightarrow> if P h rest then ret (Inl ())
     else bnd (lift (e h)) (\<lambda>elapsed. ret (if \<not> elapsed then Inl () else Inr (Some h)))) v = (Inr (Inr hazard), t) \<Longrightarrow>
   t = v \<and> (hazard = None \<or> (\<exists>h. hazard = Some h \<and> h \<in> set hs))"
  by (cases hs) (auto simp: op_Inr split: if_split_asm)

lemma claim_scope_Inr:
  assumes "claim_scope cx c s = (Inr (Inr hazard), t)" "clean parse s"
  shows "t = s \<and> scope_free (ledger_of s) (cl_exclusive_scope c) \<and> hazard_of (ledger_of s) hazard"
proof (cases "cl_exclusive_scope c")
  case None
  then show ?thesis using assms(1) by (auto simp: claim_scope_def ret_Inr scope_free_def hazard_of_def)
next
  case (Some xs)
  from assms(1) obtain u v hs where b: "scope_busy cx c xs s = (Inr False, u)" and h: "scope_hazards cx xs u = (Inr hs, v)"
    and t: "t = v" "hazard = None \<or> (\<exists>h. hazard = Some h \<and> h \<in> set hs)"
    by (auto simp: claim_scope_def Some bnd_Inr ret_Inr split: if_split_asm dest!: pick_hazard)
  note free = scope_busy_False [OF b assms(2)]
  have "v = u \<and> (\<forall>(k, r) \<in> set hs. ledger_of s k = Some r \<and> state r = Indeterminate)"
    using scope_hazards_Inr [OF h, of parse] free assms(2) by simp
  then show ?thesis using free t Some by (auto simp: scope_free_def hazard_of_def)
qed

lemma amend_step:
  "m k = Some r \<Longrightarrow> state r = Indeterminate \<Longrightarrow> record_ok parse r' \<Longrightarrow> state r' = state r \<Longrightarrow> same_identity r r' \<Longrightarrow>
     response_body r' = response_body r \<Longrightarrow> ledger_step parse l own m (m(k \<mapsto> r'))"
  by (rule ledger_step.amend [where r = r]) (simp_all add: body_len_def)

lemma retire_hazard_moves:
  assumes "hazard_of (ledger_of s) hazard" "path \<in> own" "\<And>k r. hazard = Some (k, r) \<Longrightarrow> k \<noteq> path"
  shows "moves (cx_parse cx) l own (retire_hazard cx c path hazard) s"
proof (cases hazard)
  case None
  then show ?thesis by (simp add: retire_hazard_def moves_ends)
next
  case (Some kh)
  obtain k h where kh: "kh = (k, h)" by (cases kh)
  define h' where "h' = h\<lparr>exclusive_scope := None, updated_at := cl_created_at c\<rparr>"
  have h: "ledger_of s k = Some h" "state h = Indeterminate" "k \<noteq> path" using assms Some kh by (auto simp: hazard_of_def)
  have h'_simps: "state h' = state h" "same_identity h h'" "same_identity h' h" "response_body h' = response_body h" "key_hash h' = key_hash h"
    by (simp_all add: h'_def same_identity_def)
  have rewr: "moves (cx_parse cx) l own (attempt (write_ledger cx lbl k r')) t"
    if "ledger_of t k = Some r" "r \<in> {h, h'}" "r' \<in> {h, h'}" "record_ok (cx_parse cx) r'" "key_hash r' = k" for t r r' lbl
    using that h(2) h'_simps by (intro moves_attempt moves_write_ledger) (auto intro: amend_step)
  have kept: "\<exists>r \<in> {h, h'}. ledger_of t k = Some r"
    if "attempt (write_ledger cx lbl k h') s = (Inr x, t)" for x t lbl
    using that h(1) by (auto simp: attempt_def write_ledger_def published_def split: option.splits fault.splits prod.splits)
  have kept': "\<exists>r \<in> {h, h'}. ledger_of u k = Some r"
    if "attempt (remove_ledger cx lbl path) t = (Inr x, u)" "\<exists>r \<in> {h, h'}. ledger_of t k = Some r" for x t u lbl
    using that h(3) by (auto simp: attempt_def remove_ledger_def published_def split: option.splits fault.splits prod.splits if_splits)
  show ?thesis
  proof (cases "clean (cx_parse cx) s")
    case True
    note ok = clean_records [OF True h(1)]
    have undo: "moves (cx_parse cx) l own (bnd (attempt (write_ledger cx lbl k h)) f) u"
      if ex: "\<exists>r \<in> {h, h'}. ledger_of u k = Some r" and pure: "\<And>x. pure_op (f x)"
      for u lbl and f :: "(iron_error, unit) result \<Rightarrow> (store, unit) op"
    proof -
      obtain r where r: "r \<in> {h, h'}" "ledger_of u k = Some r" using ex by blast
      have "moves (cx_parse cx) l own (attempt (write_ledger cx lbl k h)) u"
        by (rule rewr [OF r(2,1) _ ok [THEN conjunct1] ok [THEN conjunct2]]) simp
      then show ?thesis by (rule moves_bnd) (rule moves_pure [OF pure])
    qed
    show ?thesis unfolding Some kh retire_hazard_def option.case prod.case Let_def h'_def [symmetric]
    proof (rule moves_pure_bnd, rule pure_intros)
      fix x
      assume "lift (validate_record (cx_parse cx) h') s = (Inr x, s)"
      then have ok': "record_ok (cx_parse cx) h'" by (simp add: lift_Inr validate_record_iff)
      have hk': "key_hash h' = k" using ok h'_simps by simp
      show "moves (cx_parse cx) l own (bnd (attempt (write_ledger cx ''recovered idempotency hazard'' k h')) (\<lambda>written. case written of
            Inl recovery_error \<Rightarrow>
             bnd (attempt (remove_ledger cx ''claim rollback'' path)) (\<lambda>claim_rollback.
             bnd (attempt (write_ledger cx ''idempotency hazard recovery rollback'' k h)) (\<lambda>hazard_rollback.
             (case claim_rollback of
                Inl e \<Rightarrow> failing (Validation (''JSON idempotency hazard recovery failed: '' @ cx_show_error cx recovery_error @
                    ''; claim rollback failed: '' @ show_io cx e))
              | Inr _ \<Rightarrow> (case hazard_rollback of
                  Inl e \<Rightarrow> failing (Validation (''JSON idempotency hazard recovery failed: '' @ cx_show_error cx recovery_error @
                      ''; hazard rollback failed: '' @ cx_show_error cx e))
                | Inr _ \<Rightarrow> failing recovery_error))))
          | Inr _ \<Rightarrow> ret ())) s"
        by (rule moves_bnd, rule rewr [OF h(1) _ _ ok' hk'], simp, simp, rule moves_sum, rule moves_bnd, rule moves_attempt,
            rule moves_remove_ledger, rule assms(2), rule undo, erule kept', erule kept)
          (auto intro: pure_intros moves_ends split: sum.split)
    qed
  qed (simp add: moves_def)
qed

lemma create_ledger_Inr: "create_ledger cx lbl k r s = (Inr u, t) \<Longrightarrow> ledger_of t = (ledger_of s)(k \<mapsto> r)"
  by (auto simp: create_ledger_def write_ledger_def published_def split: if_splits option.splits fault.splits)

lemma admit_claim_moves:
  assumes "ledger_of s (cl_key_hash c) = None" "scope_free (ledger_of s) (cl_exclusive_scope c)"
    "hazard_of (ledger_of s) hazard" "cl_key_hash c \<in> own"
  shows "moves (cx_parse cx) l own (admit_claim cx c l (cl_key_hash c) hazard) s"
proof (cases "clean (cx_parse cx) s")
  case True
  let ?m = "ledger_of s" and ?k = "cl_key_hash c"
  have tally: "pure_op (claim_tally cx who)" for who unfolding claim_tally_def by (intro pure_visit pure_intros)
  have create: "moves (cx_parse cx) l own (bnd (create_ledger cx lbl ?k r) (\<lambda>_. bnd (retire_hazard cx c ?k hazard) (\<lambda>_. ret x))) s"
    if r: "r = (to_record c)\<lparr>response_body := filter_body l (ty_bytes t) (ty_principal_bytes t) (cl_response_body c)\<rparr>"
      and t: "claim_tally cx (cl_principal_id c) s = (Inr t, s)"
      and quota: "\<not> global_max_records l \<le> ty_records t" "\<not> principal_max_records l \<le> ty_principal_records t"
        "\<not> principal_max_in_flight l \<le> ty_principal_in_flight t"
      and valid: "lift (validate_record (cx_parse cx) r) s = (Inr u, s)" for r lbl t u and x :: claim_outcome
  proof (rule moves_bnd)
    note counts = claim_tally_Inr [OF t True]
    have none: "?k \<notin> dom ?m" "?k \<notin> of_principal ?m who" for who using assms(1) by (auto simp: of_principal_def)
    have "body_admissible l ?m ?k r"
      by (rule filter_body_admissible [of r l "ty_bytes t" "ty_principal_bytes t" "cl_response_body c"])
        (use counts none in \<open>simp_all add: r\<close>)
    then have step: "ledger_step (cx_parse cx) l own ?m (?m(?k \<mapsto> r))" if "record_ok (cx_parse cx) r"
      using that assms(1,2) counts quota by (intro ledger_step.insert) (auto simp: r scope_free_def)
    have "record_ok (cx_parse cx) r" using valid by (simp add: lift_Inr validate_record_iff)
    then show "moves (cx_parse cx) l own (create_ledger cx lbl ?k r) s"
      using step by (intro moves_create_ledger) (simp add: r)
    fix v w
    assume "create_ledger cx lbl ?k r s = (Inr v, w)"
    then have "ledger_of w = ?m(?k \<mapsto> r)" by (rule create_ledger_Inr)
    then show "moves (cx_parse cx) l own (bnd (retire_hazard cx c ?k hazard) (\<lambda>_. ret x)) w"
      using assms by (intro moves_bnd [OF retire_hazard_moves] moves_ends) (auto simp: hazard_of_def)
  qed
  show ?thesis unfolding admit_claim_def Let_def
    by (rule moves_pure_bnd [OF tally], intro moves_steps moves_ends) (rule create [OF refl]; assumption)
qed (simp add: moves_def)

lemma expired_keys_shrink:
  assumes "shrinks m" "m s = (x, t)"
  shows "expired_keys cx now (ledger_of t) \<subseteq> expired_keys cx now (ledger_of s)"
proof
  fix k
  have "ledger_of t k = None \<or> ledger_of t k = ledger_of s k"
    using assms unfolding shrinks_def by (metis snd_conv)
  then show "k \<in> expired_keys cx now (ledger_of t) \<Longrightarrow> k \<in> expired_keys cx now (ledger_of s)" by (auto simp: expired_keys_def)
qed

lemma claim_removable:
  assumes "clean (cx_parse cx) s" and t: "prune_json_idempotency_locked cx (cl_created_at c) n s = (Inr x, t)"
    and u: "claim_existing cx c k t = (Inr None, u)"
  shows "ledger_of u k = None \<and> k \<in> removable cx (cl_created_at c) (ledger_of s) k"
proof -
  let ?T = "expired_keys cx (cl_created_at c) (ledger_of s)" and ?l = "undefined :: limits"
  have 1: "clean (cx_parse cx) t" "ledger_steps (cx_parse cx) ?l ?T (ledger_of s) (ledger_of t)"
    using prune_moves [of cx "cl_created_at c" s ?T "cx_parse cx" ?l n] assms(1) t by (simp_all add: moves_def)
  have "expired_keys cx (cl_created_at c) (ledger_of t) \<subseteq> ?T" by (rule expired_keys_shrink [OF prune_shrinks t])
  then have "ledger_steps (cx_parse cx) ?l ?T (ledger_of t) (ledger_of u)"
    using claim_existing_moves [of cx c t ?T ?l k] u 1(1) by (simp add: moves_def)
  with 1 have steps: "ledger_steps (cx_parse cx) ?l ?T (ledger_of s) (ledger_of u)" by (meson rtranclp_trans)
  have none: "ledger_of u k = None" using claim_existing_None [OF u 1(1)] by simp
  then have "k \<in> ?T \<or> ledger_of s k = None" using steps_survive [OF steps, of k] by (cases "ledger_of s k") auto
  then show ?thesis using none by (auto simp: expired_keys_def removable_def)
qed

lemma claim_moves:
  "moves (cx_parse cx) l (removable cx (cl_created_at c) (ledger_of s) (cl_key_hash c)) (claim_idempotency_with_limits cx c l) s"
proof (cases "clean (cx_parse cx) s")
  case True
  let ?own = "removable cx (cl_created_at c) (ledger_of s) (cl_key_hash c)" and ?k = "cl_key_hash c"
  have conv: "pure_op (claim_conversation cx c)"
    unfolding claim_conversation_def by (auto split: option.split intro!: pure_intros pure_bnd)
  have admitted: "moves (cx_parse cx) l ?own (bnd (claim_conversation cx c) (\<lambda>valid. if \<not> valid then ret ClaimConflict
      else admit_claim cx c l ?k hazard)) v"
    if "claim_scope cx c u = (Inr (Inr hazard), v)" "clean (cx_parse cx) u" "ledger_of u ?k = None" "?k \<in> ?own" for hazard u v
    using that claim_scope_Inr [OF that(1,2)] by (intro moves_pure_bnd [OF conv] moves_if moves_ends admit_claim_moves) auto
  have decide: "moves (cx_parse cx) l ?own (case decided of
       Some outcome \<Rightarrow> ret outcome
     | None \<Rightarrow> bnd (claim_scope cx c) (\<lambda>sc. case sc of
           Inl _ \<Rightarrow> ret ClaimBusy
         | Inr hazard \<Rightarrow> bnd (claim_conversation cx c) (\<lambda>valid.
            if \<not> valid then ret ClaimConflict else admit_claim cx c l ?k hazard))) u"
    if "prune_json_idempotency_locked cx (cl_created_at c) (prune_batch l) s = (Inr n, t)"
      "claim_existing cx c ?k t = (Inr decided, u)" "clean (cx_parse cx) u" for n t u decided
    using that claim_removable [OF True that(1), of ?k u]
    by (intro moves_option moves_ends moves_bnd [OF claim_scope_moves] moves_sum) (auto intro: admitted)
  have existing: "moves (cx_parse cx) l ?own (claim_existing cx c ?k) t"
    if "prune_json_idempotency_locked cx (cl_created_at c) (prune_batch l) s = (Inr n, t)" for n t
    by (rule claim_existing_moves) (use expired_keys_shrink [OF prune_shrinks that] removable_expired in blast)
  have body: "moves (cx_parse cx) l ?own (bnd (prune_json_idempotency_locked cx (cl_created_at c) (prune_batch l)) (\<lambda>_.
      bnd (idempotency_path ?k) (\<lambda>path. bnd (claim_existing cx c path) (\<lambda>decided. case decided of
       Some outcome \<Rightarrow> ret outcome
     | None \<Rightarrow> bnd (claim_scope cx c) (\<lambda>sc. case sc of
           Inl _ \<Rightarrow> ret ClaimBusy
         | Inr hazard \<Rightarrow> bnd (claim_conversation cx c) (\<lambda>valid.
            if \<not> valid then ret ClaimConflict else admit_claim cx c l path hazard)))))) s"
    by (rule moves_bnd, rule prune_moves, rule removable_expired, rule moves_pure_bnd, rule pure_intros)
      (auto simp: idempotency_path_def lift_Inr and_then_Inr_iff intro!: moves_bnd [OF existing] decide)
  show ?thesis unfolding claim_idempotency_with_limits_def by (intro moves_steps body)
qed (simp add: moves_def)

section \<open>The other operations\<close>

lemma live_or: "state r \<noteq> Completed \<Longrightarrow> state r \<noteq> Indeterminate \<Longrightarrow> in_flight (state r)"
  by (cases "state r") (simp_all add: in_flight_def)

lemma idempotency_path_moves:
  assumes "moves parse l own (k key) s"
  shows "moves parse l own (bnd (idempotency_path key) k) s"
  using assms by (intro moves_pure_bnd pure_intros) (auto simp: idempotency_path_def lift_Inr and_then_Inr_iff)

lemma read_moves:
  assumes "\<And>r. ledger_of s k = Some r \<Longrightarrow> clean parse s \<Longrightarrow> key_hash r = k \<Longrightarrow> moves parse l own (f r) s"
  shows "moves parse l own (bnd (read_idempotency_record cx k) f) s"
proof (rule moves_pure_bnd, rule pure_intros)
  fix r
  assume "read_idempotency_record cx k s = (Inr r, s)"
  from read_ledger_of [OF this] show "moves parse l own (f r) s"
    using assms [of r] clean_records [of parse s k r] by (cases "clean parse s") (simp_all add: moves_def)
qed

lemmas moves_safe = idempotency_path_moves read_moves moves_steps moves_ends

lemma heartbeat_moves: "moves (cx_parse cx) l own (heartbeat_idempotency cx key att lease) s"
  unfolding heartbeat_idempotency_def Let_def
  by (intro moves_rewrite moves_safe) (auto intro!: ledger_step.renew simp: same_identity_def body_len_def)

lemma mark_moves: "moves (cx_parse cx) l own (mark_idempotency_indeterminate cx key att now expiry) s"
  unfolding mark_idempotency_indeterminate_def Let_def
  by (intro moves_rewrite moves_safe) (auto intro!: mark_step simp: terminal_def)

lemma release_moves: "key \<in> own \<Longrightarrow> moves (cx_parse cx) l own (release_idempotency cx key att) s"
  unfolding release_idempotency_def by (intro moves_safe moves_bnd [OF moves_remove_ledger])

lemma completed_record_simps [simp]:
  "state (completed_record r c body) = Completed" "response_body (completed_record r c body) = body"
  "key_hash (completed_record r c body) = key_hash r" "principal_id (completed_record r c body) = principal_id r"
  "same_identity r (completed_record r c body)"
  by (simp_all add: completed_record_def same_identity_def)

lemma complete_step:
  assumes "ledger_of s k = Some r" "in_flight (state r)" "principal_id r = who" "clean parse s"
    "json_idempotency_response_bytes cx who (Some k) s = (Inr (a, b), s)"
    "record_ok parse (completed_record r c (filter_body l a b body))"
  shows "ledger_step parse l own (ledger_of s) ((ledger_of s)(k \<mapsto> completed_record r c (filter_body l a b body)))"
  using json_bytes_Inr [OF assms(5,4)] assms
  by (intro ledger_step.finish [where r = r]) (auto intro!: filter_body_admissible [of _ l a b body])

lemma bytes_pure: "pure_op (json_idempotency_response_bytes cx who ex)"
  unfolding json_idempotency_response_bytes_def split_def by (intro pure_visit pure_intros)

lemma complete_moves: "moves (cx_parse cx) l own (complete_idempotency_with_limits cx c l) s"
  unfolding complete_idempotency_with_limits_def Let_def
  by (intro moves_rewrite moves_safe moves_pure_bnd [OF bytes_pure])
    (auto simp: lift_Inr ensure_idempotency_completion_fence_def ensure_Inr intro!: complete_step live_or)

lemma write_conversation_frame:
  "moves parse l own (write_conversation cx p cv) s"
  "write_conversation cx p cv s = (x, t) \<Longrightarrow> ledger_of t = ledger_of s"
  by (auto simp: moves_def write_conversation_def published_def split: option.splits fault.splits sum.splits)

text \<open>The commit writes the conversation before the completed record.\<close>

lemma commit_rewrite:
  assumes "record_ok (cx_parse cx) r' \<Longrightarrow> ledger_step (cx_parse cx) l own (ledger_of s) ((ledger_of s)(k \<mapsto> r'))" "key_hash r' = k"
  shows "moves (cx_parse cx) l own (bnd (lift (validate_record (cx_parse cx) r')) (\<lambda>_. bnd (write_conversation cx p cv) (\<lambda>_.
    bnd (write_ledger cx lbl k r') (\<lambda>_. ret x)))) s"
proof (rule moves_pure_bnd, rule pure_intros, rule moves_bnd [OF write_conversation_frame(1)])
  fix u v t
  assume "lift (validate_record (cx_parse cx) r') s = (Inr u, s)"
  then have "record_ok (cx_parse cx) r'" by (simp add: lift_Inr validate_record_iff)
  moreover assume "write_conversation cx p cv s = (Inr v, t)"
  then have "ledger_of t = ledger_of s" by (rule write_conversation_frame(2))
  ultimately show "moves (cx_parse cx) l own (bnd (write_ledger cx lbl k r') (\<lambda>_. ret x)) t"
    using assms by (intro moves_bnd moves_write_ledger moves_pure pure_intros) auto
qed

lemma commit_moves: "moves (cx_parse cx) l own (commit_conversation_idempotency_with_limits cx c cv l) s"
  unfolding commit_conversation_idempotency_with_limits_def Let_def
  by (intro commit_rewrite moves_safe moves_pure_bnd [OF bytes_pure])
    (auto simp: lift_Inr ensure_idempotency_completion_fence_def ensure_Inr intro!: complete_step live_or)

lemma prune_idempotency_moves:
  "expired_keys cx now (ledger_of s) \<subseteq> own \<Longrightarrow> moves parse l own (prune_idempotency cx now n) s"
  unfolding prune_idempotency_def by (intro moves_steps prune_moves)

lemma reads_pure: "pure_op (lookup_idempotency_for_principal cx who key fp now)" "pure_op (idempotency_usage cx who l)"
  unfolding lookup_idempotency_for_principal_def idempotency_usage_def
  by (intro pure_bnd pure_if pure_visit pure_intros)+

end
