(* ===== verification/Run_Store.thy ===== *)
theory Run_Store
  imports Ledger
begin

text \<open>
  Run records and conversations of the JSON store (\<open>src/src/engine/run_history.rs\<close>): publishing and
  hydrating a run intent, completion, status updates, heartbeats, reconciliation of abandoned runs,
  listing, deletion; saving, reading, listing and deleting conversations. A run operation also moves
  the idempotency records linked to the run.
\<close>

section \<open>Run data\<close>

record run_summary =
  su_run_id :: string
  su_flow_name :: string
  su_flow :: string
  su_status :: run_status
  su_started_at :: string
  su_finished_at :: string
  su_duration_ms :: nat
  su_agent_count :: nat
  su_task_count :: nat
  su_usage :: usage_snapshot
  su_tags :: "string list"

definition summary_of :: "run_record \<Rightarrow> run_summary" where
  "summary_of r = \<lparr>su_run_id = rn_run_id r, su_flow_name = rn_flow_name r, su_flow = rn_flow r, su_status = rn_status r,
     su_started_at = rn_started_at r, su_finished_at = rn_finished_at r, su_duration_ms = rn_duration_ms r,
     su_agent_count = rn_agent_count r, su_task_count = rn_task_count r, su_usage = rn_usage r, su_tags = rn_tags r\<rparr>"

record list_runs_filter =
  lf_flow :: "string option"
  lf_status :: "string option"
  lf_tag :: "string option"
  lf_since :: "string option"

record run_intent =
  it_suggested_id :: "string option"
  it_flow_name :: string
  it_flow :: string
  it_started_at :: string
  it_agent_count :: nat
  it_task_count :: nat
  it_tags :: "string list"

record run_completion =
  rc_status :: run_status
  rc_finished_at :: string
  rc_duration_ms :: nat
  rc_task_results :: "task_result list"
  rc_usage :: usage_snapshot

datatype run_transition = Applied | AlreadyTerminal run_status

datatype run_fence = FenceOwned | FenceCancelRequested | FenceTerminal run_status | FenceLost

definition validate_usage :: "ctx \<Rightarrow> usage_snapshot \<Rightarrow> (iron_error, unit) result" where
  "validate_usage cx u = lift_panic cx (map_option (\<lambda>r. case r of Inl e \<Rightarrow> Inl (Validation e) | Inr _ \<Rightarrow> Inr ()) (validate_snapshot u))"

fun validate_task_usages :: "ctx \<Rightarrow> task_result list \<Rightarrow> (iron_error, unit) result" where
  "validate_task_usages cx [] = Inr ()"
| "validate_task_usages cx (t # ts) = and_then (validate_usage cx (r_usage t)) (\<lambda>_. validate_task_usages cx ts)"

definition validate_run_completion :: "ctx \<Rightarrow> run_completion \<Rightarrow> (iron_error, unit) result" where
  "validate_run_completion cx c =
    and_then (validate_usage cx (rc_usage c)) (\<lambda>_.
    and_then (validate_task_usages cx (rc_task_results c)) (\<lambda>_.
    ensure (run_terminal (rc_status c))
      (Validation (''Run completion status must be terminal, got '' @ quoted (show_status (rc_status c))))))"

definition filter_matches :: "run_record \<Rightarrow> list_runs_filter \<Rightarrow> bool" where
  "filter_matches r f =
    (if (case lf_flow f of Some flow \<Rightarrow> rn_flow r \<noteq> flow | None \<Rightarrow> False) then False
     else if (case lf_status f of Some st \<Rightarrow> show_status (rn_status r) \<noteq> st | None \<Rightarrow> False) then False
     else if (case lf_tag f of Some tag \<Rightarrow> \<not> list_ex (\<lambda>t. t = tag) (rn_tags r) | None \<Rightarrow> False) then False
     else if (case lf_since f of Some since \<Rightarrow> rn_started_at r < since | None \<Rightarrow> False) then False
     else True)"

section \<open>Ledger records linked to a run\<close>

definition running_record :: "idem_record \<Rightarrow> run_record \<Rightarrow> idem_record" where
  "running_record r run = r\<lparr>state := Running, lease_expires_at := rn_lease run, updated_at := rn_started_at run\<rparr>"

definition transition_json_run_idempotency_to_running :: "ctx \<Rightarrow> run_record \<Rightarrow> (store, unit) op" where
  "transition_json_run_idempotency_to_running cx run =
    visit_idempotency_records cx (\<lambda>path r _.
      if operation r = run_operation \<and> scope r = rn_flow run \<and> resource_id r = rn_run_id run \<and>
         owner_instance_id r = rn_owner run \<and> state r = Claimed
      then
        (let r' = running_record r run in
         bnd (lift (validate_record (cx_parse cx) r')) (\<lambda>_.
         bnd (write_ledger cx ''running idempotency record'' path r') (\<lambda>_. ret ())))
      else ret ()) ()"

definition json_run_hydration_ledger :: "ctx \<Rightarrow> string \<Rightarrow> string \<Rightarrow> string \<Rightarrow> (store, (string \<times> idem_record) option) op" where
  "json_run_hydration_ledger cx run_id flow owner =
    visit_idempotency_records cx (\<lambda>path r matching.
      lift (if operation r = run_operation \<and> scope r = flow \<and> resource_id r = run_id \<and> owner_instance_id r = owner \<and>
          (state r = Running \<or> state r = Completed)
        then (if matching \<noteq> None
              then Inl (Validation (''Run '' @ quoted run_id @ '' has multiple matching idempotency ledgers''))
              else Inr (Some (path, r)))
        else Inr matching)) None"

definition run_completed_record :: "idem_record \<Rightarrow> string \<Rightarrow> string \<Rightarrow> idem_record" where
  "run_completed_record r done_at expiry =
     r\<lparr>state := Completed, lease_expires_at := [], updated_at := done_at, completed_at := Some done_at, expires_at := Some expiry\<rparr>"

definition open_run_record :: "idem_record \<Rightarrow> bool" where
  "open_run_record r = (operation r = run_operation \<and> (state r = Claimed \<or> state r = Running \<or> state r = Indeterminate))"

definition close_run_record :: "ctx \<Rightarrow> string \<Rightarrow> string \<Rightarrow> idem_record \<Rightarrow> string \<Rightarrow> (store, unit) op" where
  "close_run_record cx lbl path r done_at =
    bnd (lift (retention_expiry cx done_at (ttl_seconds r))) (\<lambda>expiry.
    let r' = run_completed_record r done_at expiry in
    bnd (lift (validate_record (cx_parse cx) r')) (\<lambda>_.
    bnd (write_ledger cx lbl path r') (\<lambda>_. ret ())))"

definition complete_json_run_idempotency :: "ctx \<Rightarrow> string \<Rightarrow> string \<Rightarrow> (store, unit) op" where
  "complete_json_run_idempotency cx run_id done_at =
    bnd (lift (parse_idempotency_timestamp cx ''run idempotency completion time'' done_at)) (\<lambda>_.
    visit_idempotency_records cx (\<lambda>path r _.
      if open_run_record r \<and> resource_id r = run_id
      then close_run_record cx ''completed run idempotency record'' path r done_at
      else ret ()) ())"

section \<open>Run intents\<close>

definition duplicate_run :: "string \<Rightarrow> iron_error" where
  "duplicate_run run_id = Validation (''Run '' @ quoted run_id @ '' already exists'')"

definition hydrate_run :: "ctx \<Rightarrow> run_intent \<Rightarrow> string \<Rightarrow> (store, string) op" where
  "hydrate_run cx intent run_id =
    bnd (read_run ''Failed to parse existing run'' run_id) (\<lambda>existing.
    if \<not> run_in_flight (rn_status existing) \<or> rn_owner existing \<noteq> cx_instance cx \<or> rn_flow existing \<noteq> it_flow intent
    then failing (duplicate_run run_id)
    else
      bnd (json_run_hydration_ledger cx run_id (it_flow intent) (cx_instance cx)) (\<lambda>found.
      (case found of
         None \<Rightarrow> failing (duplicate_run run_id)
       | Some (ledger_path, ledger) \<Rightarrow>
          bnd (lift (later_json_lease cx (rn_lease existing) (cx_deadline_now cx))) (\<lambda>lease.
          bnd (if state ledger = Running then
                 bnd (lift (later_json_lease cx lease (lease_expires_at ledger))) (\<lambda>later.
                 let ledger' = ledger\<lparr>lease_expires_at := later\<rparr> in
                 bnd (lift (validate_record (cx_parse cx) ledger')) (\<lambda>_.
                 bnd (write_ledger cx ''hydrated run idempotency lease'' ledger_path ledger') (\<lambda>_. ret later)))
               else ret lease) (\<lambda>lease'.
          bnd (write_run cx ''hydrated run record'' run_id
                (existing\<lparr>rn_flow_name := it_flow_name intent, rn_agent_count := it_agent_count intent,
                  rn_task_count := it_task_count intent, rn_tags := it_tags intent, rn_lease := lease'\<rparr>)) (\<lambda>_.
          ret run_id))))))"

definition intent_record :: "ctx \<Rightarrow> run_intent \<Rightarrow> string \<Rightarrow> run_record" where
  "intent_record cx intent run_id =
    \<lparr>rn_run_id = run_id, rn_flow_name = it_flow_name intent, rn_flow = it_flow intent, rn_status = RunRunning,
     rn_started_at = it_started_at intent, rn_finished_at = [], rn_duration_ms = 0, rn_task_results = [],
     rn_agent_count = it_agent_count intent, rn_task_count = it_task_count intent, rn_usage = unavailable_snapshot,
     rn_tags = it_tags intent, rn_owner = cx_instance cx, rn_lease = cx_deadline_now cx\<rparr>"

definition publish_run :: "ctx \<Rightarrow> run_record \<Rightarrow> string \<Rightarrow> (store, string) op" where
  "publish_run cx run run_id =
    bnd (attempt (create_run cx ''run intent'' run_id run)) (\<lambda>created.
    (case created of
       Inl e \<Rightarrow> failing (if e = Io ''File exists'' then duplicate_run run_id else e)
     | Inr _ \<Rightarrow>
        bnd (attempt (transition_json_run_idempotency_to_running cx run)) (\<lambda>moved.
        (case moved of
           Inr _ \<Rightarrow> ret run_id
         | Inl transition_error \<Rightarrow>
            bnd (attempt (remove_run cx ''run intent rollback'' run_id)) (\<lambda>rollback.
            (case rollback of
               Inl e \<Rightarrow> failing (Validation (''JSON run idempotency transition failed: '' @ cx_show_error cx transition_error @
                  ''; run rollback failed: '' @ show_io cx e))
             | Inr _ \<Rightarrow> failing transition_error))))))"

definition save_run_intent :: "ctx \<Rightarrow> run_intent \<Rightarrow> (store, string) op" where
  "save_run_intent cx intent =
    bnd (lift (case it_suggested_id intent of None \<Rightarrow> Inr () | Some i \<Rightarrow> validate_run_id i)) (\<lambda>_.
    bnd run_lock (\<lambda>_.
    let run_id = (case it_suggested_id intent of None \<Rightarrow> cx_fresh cx | Some i \<Rightarrow> i) in
    bnd (run_exists run_id) (\<lambda>present.
    if present then
      (if it_suggested_id intent = None then failing (duplicate_run run_id) else hydrate_run cx intent run_id)
    else publish_run cx (intent_record cx intent run_id) run_id)))"

section \<open>Completion, status, heartbeats\<close>

definition foreign_run :: "ctx \<Rightarrow> string \<Rightarrow> run_record \<Rightarrow> iron_error" where
  "foreign_run cx run_id r = Validation (''Run '' @ quoted run_id @ '' is owned by instance '' @ quoted (rn_owner r) @
     '', not '' @ quoted (cx_instance cx))"

definition update_run_completion :: "ctx \<Rightarrow> string \<Rightarrow> run_completion \<Rightarrow> (store, run_transition) op" where
  "update_run_completion cx run_id c =
    bnd (lift (validate_run_id run_id)) (\<lambda>_.
    bnd (lift (validate_run_completion cx c)) (\<lambda>_.
    bnd run_lock (\<lambda>_.
    bnd (run_exists run_id) (\<lambda>present.
    if \<not> present then failing (Validation (''Run '' @ quoted run_id @ '' not found (update_run_completion)''))
    else
      bnd (read_run ''Failed to parse run'' run_id) (\<lambda>r.
      bnd (if run_terminal (rn_status r) then ret (AlreadyTerminal (rn_status r), r)
           else if rn_owner r \<noteq> cx_instance cx then failing (foreign_run cx run_id r)
           else
             (let r' = r\<lparr>rn_status := rc_status c, rn_finished_at := rc_finished_at c, rn_duration_ms := rc_duration_ms c,
                rn_task_results := rc_task_results c, rn_usage := rc_usage c, rn_lease := []\<rparr> in
              bnd (write_run cx ''completed run record'' run_id r') (\<lambda>_. ret (Applied, r')))) (\<lambda>(transition, r').
      bnd (complete_json_run_idempotency cx run_id (rn_finished_at r')) (\<lambda>_.
      ret transition)))))))"

definition update_run_status :: "ctx \<Rightarrow> string \<Rightarrow> run_status \<Rightarrow> (store, unit) op" where
  "update_run_status cx run_id st =
    bnd (lift (validate_run_id run_id)) (\<lambda>_.
    if \<not> run_in_flight st
    then failing (Validation (''update_run_status requires an in-flight status, got '' @ quoted (show_status st)))
    else
      bnd run_lock (\<lambda>_.
      bnd (run_exists run_id) (\<lambda>present.
      if \<not> present then failing (Validation (''Run '' @ quoted run_id @ '' not found (update_run_status)''))
      else
        bnd (read_run ''Failed to parse run'' run_id) (\<lambda>r.
        if \<not> run_in_flight (rn_status r)
        then failing (Validation (''Run '' @ quoted run_id @ '' is not in an in-flight state (status='' @ show_status (rn_status r) @ '')''))
        else if rn_owner r \<noteq> cx_instance cx then failing (foreign_run cx run_id r)
        else write_run cx ''run status'' run_id (r\<lparr>rn_status := st\<rparr>)))))"

text \<open>A scan of the run directory: unreadable files fail it, files that do not parse are passed over.\<close>

definition peek_run :: "string \<Rightarrow> (store, run_record option) op" where
  "peek_run stem s =
    ((case map_of (st_runs s) stem of
        None \<Rightarrow> Inl (Io ''No such file or directory'')
      | Some (Unreadable e) \<Rightarrow> Inl e
      | Some (Unparsable e) \<Rightarrow> Inr None
      | Some (Parsed r) \<Rightarrow> Inr (Some r)), s)"

fun scan_runs :: "ctx \<Rightarrow> (string \<Rightarrow> run_record \<Rightarrow> 'acc \<Rightarrow> (store, 'acc) op) \<Rightarrow> nat \<Rightarrow> string list \<Rightarrow> 'acc \<Rightarrow> (store, 'acc) op" where
  "scan_runs cx f scanned [] acc = ret acc"
| "scan_runs cx f scanned (k # ks) acc =
     bnd (lift (consume_scan_entry (cx_env cx) scanned)) (\<lambda>n.
     bnd (peek_run k) (\<lambda>r.
     bnd (case r of None \<Rightarrow> ret acc | Some run \<Rightarrow> f k run acc) (scan_runs cx f n ks)))"

definition visit_runs :: "ctx \<Rightarrow> (string \<Rightarrow> run_record \<Rightarrow> 'acc \<Rightarrow> (store, 'acc) op) \<Rightarrow> 'acc \<Rightarrow> (store, 'acc) op" where
  "visit_runs cx f acc s = scan_runs cx f 0 (map fst (st_runs s)) acc s"

definition link_candidate :: "ctx \<Rightarrow> idem_record \<Rightarrow> (string \<times> string \<times> bool) list \<Rightarrow> (string \<times> string \<times> bool) list" where
  "link_candidate cx r cs =
    (if operation r = run_operation then
       (case cx_search cx (map fst cs) (resource_id r) of
          None \<Rightarrow> cs
        | Some i \<Rightarrow> cs[i := (fst (cs ! i), fst (snd (cs ! i)), True)])
     else cs)"

fun renew_runs :: "ctx \<Rightarrow> (string \<times> string \<times> bool) list \<Rightarrow> (store, nat) op" where
  "renew_runs cx [] = ret 0"
| "renew_runs cx ((run_id, path, linked) # rest) =
    (if linked then renew_runs cx rest
     else
       bnd (peek_run path) (\<lambda>r.
       (case r of
          None \<Rightarrow> renew_runs cx rest
        | Some run \<Rightarrow>
           bnd (write_run cx ''renewed run record'' path (run\<lparr>rn_lease := cx_deadline_now cx\<rparr>)) (\<lambda>_.
           bnd (renew_runs cx rest) (\<lambda>n. ret (n + 1))))))"

definition heartbeat_owned_runs :: "ctx \<Rightarrow> (store, nat) op" where
  "heartbeat_owned_runs cx =
    bnd run_lock (\<lambda>_.
    bnd (visit_runs cx (\<lambda>path r acc.
        ret (if \<not> run_in_flight (rn_status r) \<or> rn_owner r \<noteq> cx_instance cx then acc
             else acc @ [(rn_run_id r, path, False)])) []) (\<lambda>candidates.
    bnd (visit_idempotency_records cx (\<lambda>_ r cs. ret (link_candidate cx r cs)) (sort_key fst candidates)) (\<lambda>linked.
    renew_runs cx linked)))"

definition heartbeat_idempotent_run :: "ctx \<Rightarrow> string \<Rightarrow> string \<Rightarrow> string \<Rightarrow> string \<Rightarrow> (store, run_fence) op" where
  "heartbeat_idempotent_run cx run_id key attempt_name lease =
    bnd (lift (validate_run_id run_id)) (\<lambda>_.
    bnd (lift (parse_idempotency_timestamp cx ''idempotency run lease expiry'' lease)) (\<lambda>_.
    bnd (idempotency_path key) (\<lambda>path.
    bnd store_lock (\<lambda>_.
    bnd (ledger_exists path) (\<lambda>present.
    if \<not> present then ret FenceLost
    else
      bnd (read_idempotency_record cx path) (\<lambda>ledger.
      if attempt_id ledger \<noteq> attempt_name then failing (Conflict ''Idempotency attempt changed before run heartbeat'')
      else if operation ledger \<noteq> run_operation \<or> resource_id ledger \<noteq> run_id \<or> owner_instance_id ledger \<noteq> cx_instance cx
      then ret FenceLost
      else
        bnd (run_exists run_id) (\<lambda>published.
        let ledger' = ledger\<lparr>lease_expires_at := lease\<rparr> in
        if \<not> published then
          (if state ledger \<noteq> Claimed then ret FenceLost
           else
             bnd (lift (validate_record (cx_parse cx) ledger')) (\<lambda>_.
             bnd (write_ledger cx ''claimed run idempotency heartbeat'' path ledger') (\<lambda>_. ret FenceOwned)))
        else
          bnd (read_run ''Failed to parse heartbeat run'' run_id) (\<lambda>run.
          if rn_owner run \<noteq> owner_instance_id ledger then ret FenceLost
          else if run_terminal (rn_status run)
          then ret (if state ledger = Indeterminate then FenceLost else FenceTerminal (rn_status run))
          else if state ledger \<noteq> Running then ret FenceLost
          else
            bnd (lift (validate_record (cx_parse cx) ledger')) (\<lambda>_.
            bnd (write_run cx ''run heartbeat'' run_id (run\<lparr>rn_lease := lease\<rparr>)) (\<lambda>_.
            bnd (attempt (write_ledger cx ''running run idempotency heartbeat'' path ledger')) (\<lambda>written.
            (case written of
               Inr _ \<Rightarrow> ret FenceOwned
             | Inl heartbeat_error \<Rightarrow>
                bnd (attempt (write_run cx ''run heartbeat rollback'' run_id run)) (\<lambda>rollback.
                (case rollback of
                   Inl e \<Rightarrow> failing (Validation (''JSON idempotent run heartbeat failed: '' @ cx_show_error cx heartbeat_error @
                      ''; run rollback failed: '' @ cx_show_error cx e))
                 | Inr _ \<Rightarrow> failing heartbeat_error))))))))))))))"

section \<open>Reconciliation\<close>

definition fallback_run :: "idem_record \<Rightarrow> string \<Rightarrow> run_record" where
  "fallback_run r now =
    \<lparr>rn_run_id = resource_id r, rn_flow_name = scope r, rn_flow = scope r, rn_status = Abandoned,
     rn_started_at = created_at r, rn_finished_at = now, rn_duration_ms = 0, rn_task_results = [], rn_agent_count = 0,
     rn_task_count = 0, rn_usage = unavailable_snapshot, rn_tags = [], rn_owner = owner_instance_id r, rn_lease = []\<rparr>"

text \<open>First pass: expired claims. A claimed run that was never published becomes an observable abandoned run.\<close>

definition reconcile_claim :: "ctx \<Rightarrow> string \<Rightarrow> string \<Rightarrow> idem_record \<Rightarrow> nat \<Rightarrow> (store, nat) op" where
  "reconcile_claim cx now path r n =
    bnd (lift (if \<not> in_flight (state r) then Inr False else timestamp_has_passed cx (lease_expires_at r) now)) (\<lambda>lost.
    if \<not> lost then ret n
    else if operation r = run_operation \<and> state r = Claimed then
      bnd (lift (validate_run_id (resource_id r))) (\<lambda>_.
      bnd (run_exists (resource_id r)) (\<lambda>present.
      if present then ret n
      else
        bnd (create_run cx ''abandoned idempotent run fallback'' (resource_id r) (fallback_run r now)) (\<lambda>_.
        ret (saturating_add n 1))))
    else if operation r = conversation_message_operation then
      bnd (terminalize_json_idempotency_indeterminate cx path r now) (\<lambda>_. ret n)
    else ret n)"

text \<open>Second pass: runs whose lease expired; the terminal runs are collected by id.\<close>

definition reconcile_run :: "ctx \<Rightarrow> string \<Rightarrow> int \<Rightarrow> string \<Rightarrow> run_record \<Rightarrow> nat \<times> (string \<rightharpoonup> string) \<Rightarrow>
    (store, nat \<times> (string \<rightharpoonup> string)) op" where
  "reconcile_run cx now now_parsed path r acc =
    (case acc of (n, terminal_runs) \<Rightarrow>
      if run_in_flight (rn_status r) \<and> lease_is_expired cx (rn_lease r) now_parsed then
        bnd (write_run cx ''abandoned run record'' path (r\<lparr>rn_status := Abandoned, rn_finished_at := now, rn_lease := []\<rparr>)) (\<lambda>_.
        ret (saturating_add n 1, terminal_runs(rn_run_id r \<mapsto> now)))
      else if run_terminal (rn_status r) then ret (n, terminal_runs(rn_run_id r \<mapsto> rn_finished_at r))
      else ret (n, terminal_runs))"

definition reconcile_ledger :: "ctx \<Rightarrow> (string \<rightharpoonup> string) \<Rightarrow> string \<Rightarrow> idem_record \<Rightarrow> unit \<Rightarrow> (store, unit) op" where
  "reconcile_ledger cx terminal_runs path r _ =
    (if \<not> open_run_record r then ret ()
     else
       (case terminal_runs (resource_id r) of
          None \<Rightarrow> ret ()
        | Some finished_at \<Rightarrow>
           bnd (lift (parse_idempotency_timestamp cx ''run idempotency completion time'' finished_at)) (\<lambda>_.
           close_run_record cx ''reconciled run idempotency'' path r finished_at)))"

definition reconcile_abandoned_runs :: "ctx \<Rightarrow> string \<Rightarrow> (store, nat) op" where
  "reconcile_abandoned_runs cx now =
    bnd (lift (case cx_parse cx now of Inr t \<Rightarrow> Inr t | Inl e \<Rightarrow> Inl (Validation (''Invalid reconciliation timestamp: '' @ e)))) (\<lambda>now_parsed.
    bnd run_lock (\<lambda>_.
    bnd (visit_idempotency_records cx (reconcile_claim cx now) 0) (\<lambda>n.
    bnd (visit_runs cx (reconcile_run cx now now_parsed) (n, Map.empty)) (\<lambda>(n', terminal_runs).
    bnd (visit_idempotency_records cx (reconcile_ledger cx terminal_runs) ()) (\<lambda>_.
    ret n')))))"

section \<open>Reading and deleting runs\<close>

definition get_run :: "string \<Rightarrow> (store, run_record) op" where
  "get_run run_id =
    bnd (lift (validate_run_id run_id)) (\<lambda>_.
    bnd (run_exists run_id) (\<lambda>present.
    if \<not> present then failing (Validation (''Run '' @ quoted run_id @ '' not found''))
    else read_run ''Failed to parse run'' run_id))"

text \<open>Stable, largest first: \<open>sort_by(|a, b| b.key.cmp(&a.key))\<close>.\<close>

definition sort_newest :: "('a \<Rightarrow> string) \<Rightarrow> 'a list \<Rightarrow> 'a list" where
  "sort_newest key xs = rev (sort_key key (rev xs))"

definition page :: "nat \<Rightarrow> nat \<Rightarrow> 'a list \<Rightarrow> 'a list" where
  "page limit offset xs =
    (let rest = drop (min offset (length xs)) xs
     in if 0 < limit \<and> limit < length rest then take limit rest else rest)"

definition list_runs_summary :: "ctx \<Rightarrow> list_runs_filter \<Rightarrow> nat \<Rightarrow> nat \<Rightarrow> (store, run_summary list) op" where
  "list_runs_summary cx f limit offset =
    bnd (visit_runs cx (\<lambda>_ r acc. ret (if filter_matches r f then acc @ [summary_of r] else acc)) []) (\<lambda>summaries.
    ret (page limit offset (sort_newest su_started_at summaries)))"

definition count_runs :: "ctx \<Rightarrow> list_runs_filter \<Rightarrow> (store, nat) op" where
  "count_runs cx f = visit_runs cx (\<lambda>_ r acc. ret (if filter_matches r f then acc + 1 else acc)) 0"

definition delete_run :: "ctx \<Rightarrow> string \<Rightarrow> (store, unit) op" where
  "delete_run cx run_id =
    bnd (lift (validate_run_id run_id)) (\<lambda>_.
    bnd (run_exists run_id) (\<lambda>present.
    if \<not> present then failing (Validation (''Run '' @ quoted run_id @ '' not found''))
    else remove_run cx ''delete run'' run_id))"

section \<open>Conversations\<close>

definition save_conversation :: "ctx \<Rightarrow> conversation \<Rightarrow> (store, nat) op" where
  "save_conversation cx cv =
    bnd (lift (lift_panic cx (validate_conversation_record_for_write (cx_layout cx) (cx_show_error cx) (cx_uuid cx) cv))) (\<lambda>_.
    bnd store_lock (\<lambda>_.
    bnd (active_conversation_idempotency_exists cx (cv_flow_path cv) (cv_id cv)) (\<lambda>active.
    if active then failing (Conflict (''Conversation '' @ quoted (cv_id cv) @ '' has an active idempotent message operation''))
    else
      (let path = conversation_file_path cx (cv_flow_path cv) (cv_id cv) in
       bnd (load_conversation_file cx path (cv_id cv)) (\<lambda>current.
       if (case current of
             Some saved \<Rightarrow> cv_revision saved \<noteq> cv_revision cv \<or> cv_execution saved \<noteq> cv_execution cv
           | None \<Rightarrow> cv_revision cv \<noteq> 0)
       then failing (Conflict (''Conversation '' @ quoted (cv_id cv) @ '' changed since revision '' @ dec (cv_revision cv) @
         ''; reopen it before saving''))
       else
         bnd (lift (case checked_add (cv_revision cv) 1 of Some n \<Rightarrow> Inr n
             | None \<Rightarrow> Inl (Validation ''Conversation revision overflow''))) (\<lambda>next_revision.
         bnd (write_conversation cx path (cv\<lparr>cv_revision := next_revision\<rparr>)) (\<lambda>_.
         ret next_revision)))))))"

definition read_record_for_walk :: "ctx \<Rightarrow> conversation_path \<Rightarrow> text_file \<Rightarrow> (iron_error, conversation option) result" where
  "read_record_for_walk cx path f =
    (case and_then (read_json_record cx path f) (\<lambda>t. and_then (preflight_conversation_record_json t) (\<lambda>_. Inr t)) of
       Inl _ \<Rightarrow> Inr None
     | Inr t \<Rightarrow>
        (case cx_decode cx t of
           Inl _ \<Rightarrow> Inr None
         | Inr r \<Rightarrow>
            (case validate_conversation_record_after_decode (cx_layout cx) (cx_show_error cx) (cx_uuid cx) r of
               None \<Rightarrow> Inl (panic_error cx)
             | Some (Inl _) \<Rightarrow> Inr None
             | Some (Inr _) \<Rightarrow> Inr (Some r))))"

definition flow_filter_matches :: "conversation \<Rightarrow> string option \<Rightarrow> bool" where
  "flow_filter_matches cv flow = (case flow of Some f \<Rightarrow> cv_flow_path cv = Some f | None \<Rightarrow> True)"

fun walk_files :: "ctx \<Rightarrow> string option \<Rightarrow> nat \<Rightarrow> (conversation_path \<times> text_file) list \<Rightarrow>
    (iron_error, conversation list) result" where
  "walk_files cx flow scanned [] = Inr []"
| "walk_files cx flow scanned ((p, f) # fs) =
    and_then (consume_scan_entry (cx_env cx) scanned) (\<lambda>n.
    and_then (read_record_for_walk cx p f) (\<lambda>r.
    and_then (walk_files cx flow n fs) (\<lambda>rest.
    Inr (case r of None \<Rightarrow> rest | Some cv \<Rightarrow> if flow_filter_matches cv flow then cv # rest else rest))))"

definition walk_conversation_records :: "ctx \<Rightarrow> string option \<Rightarrow> (store, conversation list) op" where
  "walk_conversation_records cx flow s = (walk_files cx flow 0 (st_conversations s), s)"

definition get_conversation :: "ctx \<Rightarrow> string option \<Rightarrow> string \<Rightarrow> (store, conversation option) op" where
  "get_conversation cx flow ident =
    bnd (lift (validate_session_id ident)) (\<lambda>_.
    (case flow of
       Some requested \<Rightarrow>
        bnd (load_conversation_file cx (conversation_file_path cx (Some requested) ident) ident) (\<lambda>found.
        ret (case found of
            None \<Rightarrow> None
          | Some cv \<Rightarrow> if cv_flow_path cv \<noteq> Some requested then None else Some cv))
     | None \<Rightarrow>
        bnd (walk_conversation_records cx None) (\<lambda>cvs.
        ret (List.find (\<lambda>cv. cv_id cv = ident) cvs))))"

definition conversation_exists :: "conversation_path \<Rightarrow> (store, bool) op" where
  "conversation_exists path = gets (\<lambda>s. map_of (st_conversations s) path \<noteq> None)"

definition delete_conversation :: "ctx \<Rightarrow> string option \<Rightarrow> string \<Rightarrow> (store, unit) op" where
  "delete_conversation cx flow ident =
    bnd (lift (validate_session_id ident)) (\<lambda>_.
    bnd store_lock (\<lambda>_.
    bnd (active_conversation_idempotency_exists cx flow ident) (\<lambda>active.
    if active then failing (Conflict (''Conversation '' @ quoted ident @ '' has an active idempotent message operation''))
    else
      (let path = conversation_file_path cx flow ident in
       bnd (conversation_exists path) (\<lambda>present.
       if \<not> present then ret ()
       else
         bnd (case flow of
                None \<Rightarrow> ret False
              | Some requested \<Rightarrow>
                 bnd (load_conversation_file cx path ident) (\<lambda>found.
                 ret (case found of None \<Rightarrow> False | Some cv \<Rightarrow> cv_flow_path cv \<noteq> Some requested))) (\<lambda>foreign.
         if foreign then ret () else remove_conversation cx path))))))"

definition list_conversations :: "ctx \<Rightarrow> string option \<Rightarrow> nat \<Rightarrow> nat \<Rightarrow> (store, conversation_summary list) op" where
  "list_conversations cx flow limit offset =
    bnd (walk_conversation_records cx flow) (\<lambda>cvs.
    ret (page limit offset (sort_newest sm_updated_at (map summarize cvs))))"

definition count_conversations :: "ctx \<Rightarrow> string option \<Rightarrow> (store, nat) op" where
  "count_conversations cx flow = bnd (walk_conversation_records cx flow) (\<lambda>cvs. ret (length cvs))"

end
