(* ===== verification/Store_Correct.thy ===== *)
theory Store_Correct
  imports Ledger_Refine Run_Store
begin

text \<open>
  Correctness of the whole JSON store: every operation, including those on runs and conversations,
  refines the abstract ledger; finished runs are final; reconciliation leaves no orphan; saved
  conversations are read back and never overwritten blindly.
\<close>

section \<open>Operations that leave the ledger alone\<close>

definition framed :: "(store, 'a) op \<Rightarrow> bool" where
  "framed m \<longleftrightarrow> (\<forall>s. st_ledger (snd (m s)) = st_ledger s)"

lemma framed_ledger: "st_ledger t = st_ledger s \<Longrightarrow> ledger_of t = ledger_of s \<and> clean parse t = clean parse s"
  by (simp add: ledger_of_def [abs_def] clean_def)

lemma framed_intros:
  "framed (write_run cx lbl k r)" "framed (create_run cx lbl k r)" "framed (remove_run cx lbl k)"
  "framed (write_conversation cx p cv)" "framed (remove_conversation cx p)"
  by (simp_all add: framed_def write_run_def create_run_def remove_run_def write_conversation_def remove_conversation_def
      published_def split: option.splits fault.splits sum.splits)

lemma framed_attempt: "framed m \<Longrightarrow> framed (attempt m)"
  by (simp add: framed_def attempt_def split_def)

lemma framed_pure: "pure_op m \<Longrightarrow> framed m"
  by (simp add: framed_def pure_op_def)

lemma framed_bnd: "framed m \<Longrightarrow> (\<And>a. framed (k a)) \<Longrightarrow> framed (bnd m k)"
  unfolding framed_def bnd_def by (auto split: prod.splits sum.splits) (metis snd_conv)+

lemma moves_framed: "framed m \<Longrightarrow> moves parse l own m s"
proof -
  assume "framed m"
  then have "st_ledger (snd (m s)) = st_ledger s" by (simp add: framed_def)
  from framed_ledger [OF this, of parse] show ?thesis by (simp add: moves_def)
qed

lemma moves_framed_bnd:
  assumes "framed m" "\<And>a t. m s = (Inr a, t) \<Longrightarrow> ledger_of t = ledger_of s \<Longrightarrow> moves parse l own (k a) t"
  shows "moves parse l own (bnd m k) s"
proof (rule moves_bnd [OF moves_framed [OF assms(1)]])
  fix a t
  assume t: "m s = (Inr a, t)"
  then have "st_ledger t = st_ledger s" using assms(1) unfolding framed_def by (metis snd_conv)
  from framed_ledger [OF this, of parse] show "moves parse l own (k a) t" using assms(2) [OF t] by simp
qed

lemmas moves_frames = framed_intros [THEN moves_framed_bnd] framed_intros [THEN framed_attempt, THEN moves_framed_bnd]
lemmas moves_frame_ends = framed_intros [THEN moves_framed]

lemma peek_run_pure: "pure_op (peek_run k)"
  by (simp add: pure_op_def peek_run_def)

lemma scan_runs_framed:
  assumes "\<And>k r acc. framed (f k r acc)"
  shows "framed (scan_runs cx f n ks acc)"
proof (induction ks arbitrary: n acc)
  case (Cons k ks)
  have "framed (case r of None \<Rightarrow> ret acc | Some run \<Rightarrow> f k run acc)" for r
    using assms by (auto split: option.split intro: framed_pure pure_intros)
  then show ?case using Cons.IH by (auto intro!: framed_bnd framed_pure [OF peek_run_pure] framed_pure [OF pure_intros(2)])
qed (simp add: framed_pure pure_intros)

lemma visit_runs_framed: "(\<And>k r acc. framed (f k r acc)) \<Longrightarrow> framed (visit_runs cx f acc)"
  using scan_runs_framed [of f cx 0] by (simp add: framed_def visit_runs_def)

lemma renew_runs_framed: "framed (renew_runs cx cs)"
proof (induction cs)
  case (Cons c cs)
  obtain i p b where c: "c = (i, p, b)" by (cases c)
  show ?case unfolding c renew_runs.simps using Cons.IH
    by (auto split: option.split intro!: framed_bnd framed_intros framed_pure [OF peek_run_pure] framed_pure [OF pure_intros(1)])
qed (simp add: framed_pure pure_intros)

section \<open>Run operations refine the ledger\<close>

lemma renew_step:
  "m k = Some r \<Longrightarrow> in_flight (state r) \<Longrightarrow> in_flight (state r') \<Longrightarrow> record_ok parse r' \<Longrightarrow>
     same_identity r r' \<Longrightarrow> exclusive_scope r' = exclusive_scope r \<Longrightarrow> response_body r' = response_body r \<Longrightarrow>
     ledger_step parse l own m (m(k \<mapsto> r'))"
  by (rule ledger_step.renew [where r = r]) (simp_all add: body_len_def)

lemma transition_moves: "moves (cx_parse cx) l own (transition_json_run_idempotency_to_running cx run) s"
  unfolding transition_json_run_idempotency_to_running_def Let_def
proof (rule moves_visit, rule moves_if)
  fix k r t and acc :: unit
  assume r: "clean (cx_parse cx) t" "ledger_of t k = Some r" and "operation r = run_operation \<and> scope r = rn_flow run \<and>
     resource_id r = rn_run_id run \<and> owner_instance_id r = rn_owner run \<and> state r = Claimed"
  then show "moves (cx_parse cx) l own (bnd (lift (validate_record (cx_parse cx) (running_record r run)))
      (\<lambda>_. bnd (write_ledger cx ''running idempotency record'' k (running_record r run)) (\<lambda>_. ret ()))) t"
    using clean_records [OF r] by (intro moves_rewrite) (auto intro!: renew_step simp: running_record_def same_identity_def)
qed (rule moves_ends)

lemma key_hash_completed [simp]: "key_hash (run_completed_record r d e) = key_hash r"
  by (simp add: run_completed_record_def)

lemma close_step:
  assumes "m k = Some r" "open_run_record r" "record_ok parse (run_completed_record r d e)"
  shows "ledger_step parse l own m (m(k \<mapsto> run_completed_record r d e))"
proof -
  have sim: "state (run_completed_record r d e) = Completed" "same_identity r (run_completed_record r d e)"
    "body_len (run_completed_record r d e) = body_len r"
    by (simp_all add: run_completed_record_def same_identity_def body_len_def)
  show ?thesis
  proof (cases "in_flight (state r)")
    case True
    then show ?thesis using assms sim by (intro ledger_step.finish [where r = r] body_shorter) auto
  next
    case False
    then show ?thesis using assms sim by (intro ledger_step.amend [where r = r]) (auto simp: open_run_record_def terminal_def)
  qed
qed

lemma close_moves:
  assumes "ledger_of s k = Some r" "open_run_record r" "clean (cx_parse cx) s"
  shows "moves (cx_parse cx) l own (close_run_record cx lbl k r d) s"
  unfolding close_run_record_def Let_def
  by (rule moves_pure_bnd [OF pure_intros(2)], rule moves_rewrite)
    (use assms clean_records [OF assms(3,1)] in \<open>auto intro: close_step\<close>)

lemma complete_run_moves: "moves (cx_parse cx) l own (complete_json_run_idempotency cx run_id d) s"
  unfolding complete_json_run_idempotency_def
  by (intro moves_steps moves_visit close_moves moves_ends) auto

lemma hydration_Inr:
  assumes "json_run_hydration_ledger cx i f w s = (Inr (Some (k, r)), t)" "clean parse s"
  shows "t = s \<and> ledger_of s k = Some r"
proof -
  define g :: "string \<Rightarrow> idem_record \<Rightarrow> (string \<times> idem_record) option \<Rightarrow> (iron_error, (string \<times> idem_record) option) result"
    where "g = (\<lambda>path r matching. if operation r = run_operation \<and> scope r = f \<and> resource_id r = i \<and> owner_instance_id r = w \<and>
          (state r = Running \<or> state r = Completed)
        then (if matching \<noteq> None
              then Inl (Validation (''Run '' @ quoted i @ '' has multiple matching idempotency ledgers''))
              else Inr (Some (path, r)))
        else Inr matching)"
  have v: "t = s" "fold_result (\<lambda>k acc. g k (the (ledger_of s k)) acc) (map fst (st_ledger s)) None = Inr (Some (k, r))"
    using visit_fold [of cx g None s "Some (k, r)" t] assms(1) unfolding json_run_hydration_ledger_def g_def by simp_all
  have step: "\<forall>k r. acc1 = Some (k, r) \<longrightarrow> ledger_of s k = Some r"
    if "g k (the (ledger_of s k)) acc = Inr acc1" "ledger_of s k \<noteq> None" "\<forall>k r. acc = Some (k, r) \<longrightarrow> ledger_of s k = Some r" for k acc acc1
    using that by (auto simp: g_def split: if_split_asm)
  have "\<forall>k r. out = Some (k, r) \<longrightarrow> ledger_of s k = Some r"
    if "fold_result (\<lambda>k acc. g k (the (ledger_of s k)) acc) ks acc = Inr out" "\<forall>k \<in> set ks. ledger_of s k \<noteq> None"
      "\<forall>k r. acc = Some (k, r) \<longrightarrow> ledger_of s k = Some r" for ks acc out
    using that
  proof (induction ks arbitrary: acc)
    case (Cons k ks)
    from Cons.prems(1) obtain acc1 where a: "g k (the (ledger_of s k)) acc = Inr acc1"
      "fold_result (\<lambda>k acc. g k (the (ledger_of s k)) acc) ks acc1 = Inr out" by (auto simp: and_then_Inr_iff)
    show ?case by (rule Cons.IH [OF a(2) _ step [OF a(1) _ Cons.prems(3)]]) (use Cons.prems(2) in simp_all)
  qed simp
  from this [OF v(2)] show ?thesis using v(1) dom_ledger_of [OF assms(2)] by auto
qed

lemma hydration_pure: "pure_op (json_run_hydration_ledger cx i f w)"
  unfolding json_run_hydration_ledger_def by (intro pure_visit pure_intros)

lemma hydrate_moves: "moves (cx_parse cx) l own (hydrate_run cx intent run_id) s"
proof (cases "clean (cx_parse cx) s")
  case True
  have lease: "moves (cx_parse cx) l own (bnd (lift (later_json_lease cx lease (lease_expires_at r))) (\<lambda>later.
        bnd (lift (validate_record (cx_parse cx) (r\<lparr>lease_expires_at := later\<rparr>))) (\<lambda>_.
        bnd (write_ledger cx lbl k (r\<lparr>lease_expires_at := later\<rparr>)) (\<lambda>_. ret later)))) s"
    if "ledger_of s k = Some r" "state r = Running" for k r lease lbl
    by (rule moves_pure_bnd [OF pure_intros(2)], rule moves_rewrite)
      (use that clean_records [OF True that(1)] in \<open>auto intro!: renew_step simp: same_identity_def\<close>)
  have rest: "moves (cx_parse cx) l own (case found of
         None \<Rightarrow> failing (duplicate_run run_id)
       | Some (ledger_path, ledger) \<Rightarrow>
          bnd (lift (later_json_lease cx (rn_lease existing) (cx_deadline_now cx))) (\<lambda>lease.
          bnd (if state ledger = Running then
                 bnd (lift (later_json_lease cx lease (lease_expires_at ledger))) (\<lambda>later.
                 bnd (lift (validate_record (cx_parse cx) (ledger\<lparr>lease_expires_at := later\<rparr>))) (\<lambda>_.
                 bnd (write_ledger cx ''hydrated run idempotency lease'' ledger_path (ledger\<lparr>lease_expires_at := later\<rparr>)) (\<lambda>_. ret later)))
               else ret lease) (\<lambda>lease'.
          bnd (write_run cx ''hydrated run record'' run_id
                (existing\<lparr>rn_flow_name := it_flow_name intent, rn_agent_count := it_agent_count intent,
                  rn_task_count := it_task_count intent, rn_tags := it_tags intent, rn_lease := lease'\<rparr>)) (\<lambda>_.
          ret run_id)))) s"
    if "json_run_hydration_ledger cx run_id (it_flow intent) (cx_instance cx) s = (Inr found, s)" for found existing
    using that hydration_Inr [OF _ True]
    by (intro moves_option moves_prod moves_ends moves_pure_bnd [OF pure_intros(2)] moves_bnd moves_if lease moves_frames) auto
  show ?thesis unfolding hydrate_run_def Let_def
    by (intro moves_steps moves_ends; rule moves_pure_bnd [OF hydration_pure]; rule rest)
qed (simp add: moves_def)

lemma publish_moves: "moves (cx_parse cx) l own (publish_run cx run run_id) s"
  unfolding publish_run_def
  by (intro moves_frames moves_sum moves_ends moves_bnd [OF moves_attempt [OF transition_moves]])

lemma save_run_intent_moves: "moves (cx_parse cx) l own (save_run_intent cx intent) s"
  unfolding save_run_intent_def Let_def by (intro hydrate_moves publish_moves moves_steps moves_ends)

lemma update_run_completion_moves: "moves (cx_parse cx) l own (update_run_completion cx run_id c) s"
proof -
  have choose: "framed (if run_terminal (rn_status r) then ret (AlreadyTerminal (rn_status r), r)
           else if rn_owner r \<noteq> cx_instance cx then failing (foreign_run cx run_id r)
           else bnd (write_run cx lbl run_id r') (\<lambda>_. ret (Applied, r')))" for r r' lbl
    by (auto intro!: framed_bnd framed_intros framed_pure [OF pure_intros(1)] framed_pure [OF pure_intros(3)])
  show ?thesis unfolding update_run_completion_def Let_def
    by (intro moves_steps moves_framed_bnd [OF choose] moves_ends moves_bnd [OF complete_run_moves])
qed

lemma framed_runs: "framed (update_run_status cx run_id st)" "framed (heartbeat_owned_runs cx)" "framed (get_run run_id)"
  "framed (list_runs_summary cx f limit offset)" "framed (count_runs cx f)" "framed (delete_run cx run_id)"
proof -
  note pures = pure_intros [THEN framed_pure]
  have visit: "framed (visit_idempotency_records cx (\<lambda>k r acc. ret (g k r acc)) a)" for g and a :: 'x
    by (intro framed_pure pure_visit pure_intros)
  show "framed (update_run_status cx run_id st)" unfolding update_run_status_def
    by (auto intro!: framed_bnd framed_intros pures)
  show "framed (heartbeat_owned_runs cx)" unfolding heartbeat_owned_runs_def
    by (intro framed_bnd renew_runs_framed visit_runs_framed visit pures)
  show "framed (get_run run_id)" unfolding get_run_def by (auto intro!: framed_bnd pures)
  show "framed (list_runs_summary cx f limit offset)" unfolding list_runs_summary_def
    by (intro framed_bnd visit_runs_framed pures)
  show "framed (count_runs cx f)" unfolding count_runs_def by (intro visit_runs_framed pures)
  show "framed (delete_run cx run_id)" unfolding delete_run_def by (auto intro!: framed_bnd framed_intros pures)
qed

lemma run_heartbeat_moves: "moves (cx_parse cx) l own (heartbeat_idempotent_run cx run_id key att lease) s"
proof -
  have claimed: "moves (cx_parse cx) l own (bnd (lift (validate_record (cx_parse cx) (r\<lparr>lease_expires_at := lease\<rparr>))) (\<lambda>_.
       bnd (write_ledger cx lbl k (r\<lparr>lease_expires_at := lease\<rparr>)) (\<lambda>_. ret x))) s"
    if "ledger_of s k = Some r" "in_flight (state r)" "key_hash r = k" for k r lbl and x :: run_fence
    by (rule moves_rewrite) (use that in \<open>auto intro!: renew_step simp: same_identity_def\<close>)
  have running: "moves (cx_parse cx) l own (bnd (lift (validate_record (cx_parse cx) (r\<lparr>lease_expires_at := lease\<rparr>))) (\<lambda>_.
       bnd (write_run cx lbl run_id run) (\<lambda>_.
       bnd (attempt (write_ledger cx lbl' k (r\<lparr>lease_expires_at := lease\<rparr>))) f))) s"
    if "ledger_of s k = Some r" "in_flight (state r)" "key_hash r = k" "\<And>x. framed (f x)"
    for k r lbl lbl' run and f :: "(iron_error, unit) result \<Rightarrow> (store, run_fence) op"
  proof (rule moves_pure_bnd [OF pure_intros(2)], rule moves_framed_bnd [OF framed_intros(1)], rule moves_bnd)
    fix u v t
    assume "lift (validate_record (cx_parse cx) (r\<lparr>lease_expires_at := lease\<rparr>)) s = (Inr u, s)"
    then have "record_ok (cx_parse cx) (r\<lparr>lease_expires_at := lease\<rparr>)" by (simp add: lift_Inr validate_record_iff)
    moreover assume "ledger_of t = ledger_of s"
    ultimately show "moves (cx_parse cx) l own (attempt (write_ledger cx lbl' k (r\<lparr>lease_expires_at := lease\<rparr>))) t"
      using that by (intro moves_attempt moves_write_ledger) (auto intro!: renew_step simp: same_identity_def)
    show "moves (cx_parse cx) l own (f x) w" for x w by (rule moves_framed [OF that(4)])
  qed
  have ends: "framed (case written of
               Inr _ \<Rightarrow> ret FenceOwned
             | Inl heartbeat_error \<Rightarrow>
                bnd (attempt (write_run cx lbl run_id run)) (\<lambda>rollback. case rollback of
                   Inl e \<Rightarrow> failing (f heartbeat_error e)
                 | Inr _ \<Rightarrow> failing heartbeat_error))" for written run lbl f
    by (auto split: sum.split intro!: framed_bnd framed_attempt framed_intros framed_pure [OF pure_intros(1)] framed_pure [OF pure_intros(3)])
  show ?thesis unfolding heartbeat_idempotent_run_def Let_def
    by (intro claimed running ends moves_safe) auto
qed

lemma reconcile_claim_moves:
  assumes "clean (cx_parse cx) s" "ledger_of s k = Some r"
  shows "moves (cx_parse cx) l own (reconcile_claim cx now k r n) s"
proof -
  have mark: "moves (cx_parse cx) l own (bnd (terminalize_json_idempotency_indeterminate cx k r now) (\<lambda>_. ret n)) s"
    if "lift (if \<not> in_flight (state r) then Inr False else timestamp_has_passed cx (lease_expires_at r) now) s = (Inr True, s)"
    using that assms(2) by (intro moves_bnd [OF terminalize_moves] moves_ends) (auto simp: lift_Inr split: if_splits)
  show ?thesis unfolding reconcile_claim_def
    by (intro moves_steps moves_frames moves_ends; rule mark) simp
qed

lemma reconcile_run_framed: "framed (reconcile_run cx now t k r acc)"
  by (auto simp: reconcile_run_def split: prod.split intro!: framed_bnd framed_intros framed_pure [OF pure_intros(1)])

lemma reconcile_ledger_moves:
  assumes "clean (cx_parse cx) s" "ledger_of s k = Some r"
  shows "moves (cx_parse cx) l own (reconcile_ledger cx runs k r u) s"
  unfolding reconcile_ledger_def using assms by (intro moves_steps moves_ends close_moves) auto

lemma reconcile_moves: "moves (cx_parse cx) l own (reconcile_abandoned_runs cx now) s"
proof -
  have 1: "moves (cx_parse cx) l own (visit_idempotency_records cx (reconcile_claim cx now) a) s" for a s
    by (rule moves_visit) (rule reconcile_claim_moves)
  have 3: "moves (cx_parse cx) l own (visit_idempotency_records cx (reconcile_ledger cx runs) a) s" for runs a s
    by (rule moves_visit) (rule reconcile_ledger_moves)
  show ?thesis unfolding reconcile_abandoned_runs_def
    by (intro moves_steps moves_bnd [OF 1] moves_bnd [OF 3] moves_framed_bnd [OF visit_runs_framed] reconcile_run_framed moves_ends)
qed

lemma framed_conversations:
  "framed (save_conversation cx cv)" "framed (get_conversation cx flow i)" "framed (delete_conversation cx flow i)"
  "framed (list_conversations cx flow limit offset)" "framed (count_conversations cx flow)"
proof -
  note pures = pure_intros [THEN framed_pure]
  have active: "framed (active_conversation_idempotency_exists cx flow i)" for flow i
    unfolding active_conversation_idempotency_exists_def by (intro framed_pure pure_visit pure_intros)
  have walk: "framed (walk_conversation_records cx flow)" for flow
    by (simp add: framed_def walk_conversation_records_def)
  show "framed (save_conversation cx cv)" unfolding save_conversation_def Let_def
    by (auto intro!: framed_bnd active framed_intros pures)
  show "framed (get_conversation cx flow i)" unfolding get_conversation_def
    by (auto split: option.split intro!: framed_bnd walk pures)
  show "framed (delete_conversation cx flow i)" unfolding delete_conversation_def Let_def conversation_exists_def
    by (auto split: option.split intro!: framed_bnd active framed_intros pures)
  show "framed (list_conversations cx flow limit offset)" "framed (count_conversations cx flow)"
    unfolding list_conversations_def count_conversations_def by (auto intro!: framed_bnd walk pures)
qed

section \<open>Histories of the store\<close>

text \<open>One call of the store, by any replica thread; each call has its own clock readings and faults.\<close>

datatype call =
    Lookup principal_id string string string
  | Claim idem_claim
  | Heartbeat string string string
  | HeartbeatRun string string string string
  | Complete idem_completion
  | Commit idem_completion conversation
  | MarkIndeterminate string string string string
  | Release string string
  | Prune string nat
  | LedgerUsage principal_id
  | SaveRunIntent run_intent
  | CompleteRun string run_completion
  | UpdateRunStatus string run_status
  | HeartbeatRuns
  | Reconcile string
  | GetRun string
  | ListRuns list_runs_filter nat nat
  | CountRuns list_runs_filter
  | DeleteRun string
  | SaveConversation conversation
  | GetConversation "string option" string
  | DeleteConversation "string option" string
  | ListConversations "string option" nat nat
  | CountConversations "string option"

fun after :: "limits \<Rightarrow> ctx \<Rightarrow> call \<Rightarrow> store \<Rightarrow> store" where
  "after l cx (Lookup who key fp now) s = snd (lookup_idempotency_for_principal cx who key fp now s)"
| "after l cx (Claim c) s = snd (claim_idempotency_with_limits cx c l s)"
| "after l cx (Heartbeat key att lease) s = snd (heartbeat_idempotency cx key att lease s)"
| "after l cx (HeartbeatRun i key att lease) s = snd (heartbeat_idempotent_run cx i key att lease s)"
| "after l cx (Complete c) s = snd (complete_idempotency_with_limits cx c l s)"
| "after l cx (Commit c cv) s = snd (commit_conversation_idempotency_with_limits cx c cv l s)"
| "after l cx (MarkIndeterminate key att now expiry) s = snd (mark_idempotency_indeterminate cx key att now expiry s)"
| "after l cx (Release key att) s = snd (release_idempotency cx key att s)"
| "after l cx (Prune now n) s = snd (prune_idempotency cx now n s)"
| "after l cx (LedgerUsage who) s = snd (idempotency_usage cx who l s)"
| "after l cx (SaveRunIntent i) s = snd (save_run_intent cx i s)"
| "after l cx (CompleteRun i c) s = snd (update_run_completion cx i c s)"
| "after l cx (UpdateRunStatus i st) s = snd (update_run_status cx i st s)"
| "after l cx HeartbeatRuns s = snd (heartbeat_owned_runs cx s)"
| "after l cx (Reconcile now) s = snd (reconcile_abandoned_runs cx now s)"
| "after l cx (GetRun i) s = snd (get_run i s)"
| "after l cx (ListRuns f n off) s = snd (list_runs_summary cx f n off s)"
| "after l cx (CountRuns f) s = snd (count_runs cx f s)"
| "after l cx (DeleteRun i) s = snd (delete_run cx i s)"
| "after l cx (SaveConversation cv) s = snd (save_conversation cx cv s)"
| "after l cx (GetConversation flow i) s = snd (get_conversation cx flow i s)"
| "after l cx (DeleteConversation flow i) s = snd (delete_conversation cx flow i s)"
| "after l cx (ListConversations flow n off) s = snd (list_conversations cx flow n off s)"
| "after l cx (CountConversations flow) s = snd (count_conversations cx flow s)"

text \<open>The records a call may remove: live ones released by their attempt, and finished ones that expired.\<close>

fun may_remove :: "ctx \<Rightarrow> call \<Rightarrow> ledger \<Rightarrow> string set" where
  "may_remove cx (Release key att) m = {k. k = key \<and> (\<forall>r. m k = Some r \<longrightarrow> attempt_id r = att \<and> in_flight (state r))}"
| "may_remove cx (Claim c) m = removable cx (cl_created_at c) m (cl_key_hash c)"
| "may_remove cx (Prune now n) m = expired_keys cx now m"
| "may_remove cx _ m = {}"

lemma release_attempt_moves:
  "moves (cx_parse cx) l (may_remove cx' (Release key att) (ledger_of s)) (release_idempotency cx key att) s"
  unfolding release_idempotency_def
  by (intro moves_safe moves_bnd [OF moves_remove_ledger]) auto

lemma after_moves:
  "\<exists>m :: (store, unit) op. after l cx c s = snd (m s) \<and> moves (cx_parse cx) l (may_remove cx c (ledger_of s)) m s"
proof -
  have hide: "\<exists>n :: (store, unit) op. snd (m s) = snd (n s) \<and> moves (cx_parse cx) l own n s"
    if "moves (cx_parse cx) l own m s" for own and m :: "(store, 'x) op"
    using that by (intro exI [of _ "\<lambda>s. (Inr (), snd (m s))"]) (simp add: moves_def)
  show ?thesis
  proof (cases c)
    case (Release key att)
    show ?thesis unfolding Release after.simps by (rule hide) (rule release_attempt_moves)
  next
    case (Claim cl)
    show ?thesis unfolding Claim after.simps may_remove.simps by (rule hide) (rule claim_moves)
  next
    case (Prune now n)
    show ?thesis unfolding Prune after.simps may_remove.simps by (rule hide) (rule prune_idempotency_moves, rule order_refl)
  qed (simp_all only: after.simps may_remove.simps,
    (rule hide, (rule heartbeat_moves run_heartbeat_moves complete_moves commit_moves mark_moves save_run_intent_moves
      update_run_completion_moves reconcile_moves | rule moves_pure, rule reads_pure
      | rule moves_framed, rule framed_runs | rule moves_framed, rule framed_conversations))+)
qed

lemma after_refines:
  assumes "clean (cx_parse cx) s"
  shows "clean (cx_parse cx) (after l cx c s)"
    and "ledger_steps (cx_parse cx) l (may_remove cx c (ledger_of s)) (ledger_of s) (ledger_of (after l cx c s))"
  using after_moves [of l cx c s] assms by (auto simp: moves_def)

text \<open>All contexts of a history read timestamps the same way.\<close>

definition exec_call :: "rfc3339 \<Rightarrow> limits \<Rightarrow> ctx \<times> call \<Rightarrow> store \<Rightarrow> store" where
  "exec_call parse l e s = after l ((fst e)\<lparr>cx_parse := parse\<rparr>) (snd e) s"

definition removed_by :: "rfc3339 \<Rightarrow> ctx \<times> call \<Rightarrow> ledger \<Rightarrow> string set" where
  "removed_by parse e m = may_remove ((fst e)\<lparr>cx_parse := parse\<rparr>) (snd e) m"

interpretation js: ledger_store parse l ledger_of "clean parse" "exec_call parse l" "removed_by parse" for parse l
proof
  fix s and c :: "ctx \<times> call"
  assume good: "clean parse s"
  then show "clean parse (exec_call parse l c s)"
    "ledger_steps parse l (removed_by parse c (ledger_of s)) (ledger_of s) (ledger_of (exec_call parse l c s))"
    using after_refines [of "(fst c)\<lparr>cx_parse := parse\<rparr>" s l "snd c"] by (simp_all add: exec_call_def removed_by_def)
  show "records_valid parse (ledger_of s)" using clean_records [OF good] by (simp add: records_valid_def)
qed

lemma empty_ledger:
  "clean parse (s\<lparr>st_ledger := []\<rparr>)" "scopes_exclusive (ledger_of (s\<lparr>st_ledger := []\<rparr>))" "within_quota l (ledger_of (s\<lparr>st_ledger := []\<rparr>))"
  by (simp_all add: clean_def scopes_exclusive_def within_quota_def ledger_of_def dom_def of_principal_def live_of_def bytes_in_def)

text \<open>
  C20. Whatever calls are made to a store whose ledger starts empty, with whatever clock readings and
  file system faults, every stored record is valid and filed under its own key, no two live records
  share an exclusive scope, and the records, live records and response bytes stay within the
  configured quotas, overall and for every principal.\<close>
theorem ledger_invariant:
  "let m = ledger_of (fold (exec_call parse l) calls (s\<lparr>st_ledger := []\<rparr>)) in
     records_valid parse m \<and> scopes_exclusive m \<and> within_quota l m"
  using js.history_invariant [OF empty_ledger] unfolding Let_def by blast

end
