(* ===== verification/Store_Properties.thy ===== *)
theory Store_Properties
  imports Store_Correct
begin

text \<open>
  What the clients of the JSON store rely on: claims are granted once, records survive until they
  are released or expire, completed requests are replayed, finished runs are final, reconciliation
  leaves no orphan, conversations are read back as saved and never overwritten blindly.
\<close>

section \<open>Granted claims\<close>

lemma write_ledger_Inr: "write_ledger cx lbl k r s = (Inr u, t) \<Longrightarrow> t = s\<lparr>st_ledger := AList.update k (Parsed r) (st_ledger s)\<rparr>"
  by (auto simp: write_ledger_def published_def split: option.splits fault.splits)

lemma claim_existing_refuses: "claim_existing cx c k s = (Inr (Some d), t) \<Longrightarrow> d \<noteq> ClaimClaimed r"
  by (auto simp: claim_existing_def op_Inr ledger_exists_def gets_def split: if_split_asm)

lemma retire_hazard_Inr:
  assumes "retire_hazard cx c path hazard s = (Inr u, t)" "hazard_of (ledger_of s) hazard"
  shows "\<exists>k h. (t = s \<or> (ledger_of t = (ledger_of s)(k \<mapsto> h) \<and> \<not> in_flight (state h) \<and> (\<exists>h0. hazard = Some (k, h0))))"
proof (cases hazard)
  case None
  then show ?thesis using assms(1) by (simp add: retire_hazard_def ret_Inr)
next
  case (Some kh)
  obtain k h where kh: "kh = (k, h)" by (cases kh)
  let ?h = "h\<lparr>exclusive_scope := None, updated_at := cl_created_at c\<rparr>"
  have "write_ledger cx ''recovered idempotency hazard'' k ?h s = (Inr (), t)"
    using assms(1) unfolding retire_hazard_def Some kh Let_def
    by (auto simp: op_success)
  from write_ledger_Inr [OF this] have "ledger_of t = (ledger_of s)(k \<mapsto> ?h)" by simp
  then show ?thesis using assms(2) Some kh by (intro exI [of _ k] exI [of _ ?h]) (auto simp: hazard_of_def)
qed

lemma admit_claim_Inr:
  assumes "admit_claim cx c l path hazard s = (Inr (ClaimClaimed r), t)" "hazard_of (ledger_of s) hazard"
    "ledger_of s path = None"
  shows "ledger_of t path = Some r \<and> (\<exists>body. r = (to_record c)\<lparr>response_body := body\<rparr>) \<and>
    (\<forall>k r'. k \<noteq> path \<longrightarrow> ledger_of t k = Some r' \<longrightarrow> in_flight (state r') \<longrightarrow> ledger_of s k = Some r')"
proof -
  have tally: "claim_tally cx who s = (Inr x, u) \<Longrightarrow> u = s" for who x u
    using visit_fold [of cx "\<lambda>k r t. tally_record cx who r t" empty_tally s x u] by (simp add: claim_tally_def)
  from assms(1) obtain body u where u: "create_ledger cx ''idempotency claim'' path r s = (Inr (), u)"
    and r: "r = (to_record c)\<lparr>response_body := body\<rparr>" and h: "retire_hazard cx c path hazard u = (Inr (), t)"
    unfolding admit_claim_def Let_def by (auto simp: op_Inr split: if_split_asm dest!: tally)
  have m: "ledger_of u = (ledger_of s)(path \<mapsto> r)" by (rule create_ledger_Inr [OF u])
  have "hazard_of (ledger_of u) hazard" using assms(2,3) m by (auto simp: hazard_of_def)
  from retire_hazard_Inr [OF h this] obtain k x where
    t: "t = u \<or> (ledger_of t = (ledger_of u)(k \<mapsto> x) \<and> \<not> in_flight (state x) \<and> (\<exists>h0. hazard = Some (k, h0)))" by blast
  have "\<exists>h0. hazard = Some (k, h0) \<Longrightarrow> k \<noteq> path" using assms(2,3) by (auto simp: hazard_of_def)
  then show ?thesis using t m r by (auto split: if_split_asm)
qed

lemma claim_Claimed:
  assumes "claim_idempotency_with_limits cx c l s = (Inr (ClaimClaimed r), t)" "clean (cx_parse cx) s"
  shows "\<exists>u hazard. ledger_of u (cl_key_hash c) = None \<and> cl_key_hash c \<in> removable cx (cl_created_at c) (ledger_of s) (cl_key_hash c) \<and>
    scope_free (ledger_of u) (cl_exclusive_scope c) \<and> hazard_of (ledger_of u) hazard \<and>
    admit_claim cx c l (cl_key_hash c) hazard u = (Inr (ClaimClaimed r), t)"
proof -
  let ?k = "cl_key_hash c"
  have conv: "claim_conversation cx c v = (Inr b, w) \<Longrightarrow> w = v" for v b w
    by (auto simp: claim_conversation_def op_Inr failing_Inr load_conversation_file_def split: if_split_asm option.split_asm)
  have lock: "store_lock v = (Inr x, w) \<Longrightarrow> w = v" for v x w
    by (auto simp: store_lock_def lock_def split: if_split_asm)
  from assms(1) obtain n t1 d u where p: "prune_json_idempotency_locked cx (cl_created_at c) (prune_batch l) s = (Inr n, t1)"
    and e: "claim_existing cx c ?k t1 = (Inr d, u)" and rest: "(case d of
       Some outcome \<Rightarrow> ret outcome
     | None \<Rightarrow> bnd (claim_scope cx c) (\<lambda>sc. case sc of
           Inl _ \<Rightarrow> ret ClaimBusy
         | Inr hazard \<Rightarrow> bnd (claim_conversation cx c) (\<lambda>valid.
            if \<not> valid then ret ClaimConflict else admit_claim cx c l ?k hazard))) u = (Inr (ClaimClaimed r), t)"
    unfolding claim_idempotency_with_limits_def
    by (auto simp: op_Inr idempotency_path_def and_then_Inr_iff dest!: lock)
  have d: "d = None" using rest e by (cases d) (auto simp: ret_Inr dest: claim_existing_refuses)
  have r: "ledger_of u ?k = None \<and> ?k \<in> removable cx (cl_created_at c) (ledger_of s) ?k"
    by (rule claim_removable [OF assms(2) p]) (use e d in simp)
  have cl: "clean (cx_parse cx) t1" using prune_moves [OF order_refl, of "cx_parse cx" l cx "cl_created_at c" s "prune_batch l"] p assms(2)
    by (simp add: moves_def)
  have cu: "clean (cx_parse cx) u" using claim_existing_moves [OF order_refl, of cx l c t1 ?k] e cl by (simp add: moves_def)
  from rest d obtain hazard v b w where sc: "claim_scope cx c u = (Inr (Inr hazard), v)"
    and cc: "claim_conversation cx c v = (Inr b, w)" and ad: "admit_claim cx c l ?k hazard w = (Inr (ClaimClaimed r), t)"
    by (auto simp: op_success)
  have "v = u \<and> scope_free (ledger_of u) (cl_exclusive_scope c) \<and> hazard_of (ledger_of u) hazard"
    by (rule claim_scope_Inr [OF sc cu])
  then show ?thesis using r conv [OF cc] ad by blast
qed

text \<open>Sample data: a timestamp is one character, its time the code of the character.\<close>

definition demo_parse :: rfc3339 where
  "demo_parse s = (case s of [c] \<Rightarrow> Inr (int (byte c)) | _ \<Rightarrow> Inl ''bad'')"

text \<open>A decoder that allocates more than the contents need.\<close>

definition demo_decoded :: conversation where
  "demo_decoded = demo_conversation\<lparr>cv_revision := 1,
     cv_messages := [(system_message ''s'')\<lparr>role := \<lparr>chars = ''system'', cap = 8\<rparr>\<rparr>]\<rparr>"

definition demo_ctx :: ctx where
  "demo_ctx = \<lparr>cx_env = (\<lambda>_. NotPresent), cx_parse = demo_parse, cx_format = (\<lambda>_. ''z''), cx_add = (\<lambda>t d. Some (t + d)),
     cx_instance = ''i'', cx_ttl = 0, cx_deadline_now = ''9'', cx_fresh = ''fresh'', cx_fault = (\<lambda>_ _. None), cx_sha = (\<lambda>s. s),
     cx_layout = unit_layout, cx_show_error = (\<lambda>_. []), cx_uuid = demo_uuid, cx_panic = [], cx_search = (\<lambda>_ _. None),
     cx_json = (\<lambda>_. ''{}''), cx_decode = (\<lambda>_. Inr demo_decoded), cx_show_path = snd\<rparr>"

definition demo_claim :: idem_claim where
  "demo_claim = \<lparr>cl_key_hash = replicate 64 (CHR ''a''), cl_principal_id = replicate 64 (CHR ''b''), cl_recovery_key_hash = None,
     cl_request_fingerprint = replicate 64 (CHR ''c''), cl_operation = run_operation, cl_scope = ''flow'', cl_resource_id = ''run'',
     cl_exclusive_scope = None, cl_attempt_id = ''att'', cl_owner_instance_id = ''i'', cl_base_revision = None,
     cl_response_status = None, cl_response_body = None, cl_max_total_response_bytes = 100, cl_lease_expires_at = ''5'',
     cl_created_at = ''1'', cl_ttl_seconds = 60\<rparr>"

definition demo_limits :: limits where
  "demo_limits = \<lparr>global_max_records = 4, principal_max_records = 4, principal_max_in_flight = 2, global_max_response_bytes = 100,
     principal_max_response_bytes = 100, prune_batch = 4\<rparr>"

definition demo_store :: "(string \<times> idem_record disk_file) list \<Rightarrow> store" where
  "demo_store files = \<lparr>st_runs = [], st_ledger = files, st_conversations = [], st_poisoned = False\<rparr>"

lemmas demo_text = valid_digest_def is_lower_hex_def valid_printable_def is_ascii_digit_def byte_def list_all_iff

lemma demo_times: "demo_parse ''1'' = Inr 49" "demo_parse ''2'' = Inr 50" "demo_parse ''5'' = Inr 53" "demo_parse ''9'' = Inr 57"
  by (simp_all add: demo_parse_def byte_def)

lemma demo_claim_valid: "validate_record demo_parse (to_record demo_claim) = Inr ()" "validate_claim demo_parse demo_claim = Inr ()"
proof -
  show r: "validate_record demo_parse (to_record demo_claim) = Inr ()"
    unfolding validate_record_iff by (simp add: record_ok_def to_record_def demo_claim_def demo_text run_operation_def
        conversation_message_operation_def is_time_def demo_times max_ttl_seconds_def)
  then show "validate_claim demo_parse demo_claim = Inr ()"
    by (simp add: validate_claim_def) (simp add: demo_claim_def)
qed

lemma demo_limits_valid: "validate_limits demo_limits = Inr ()"
  by (simp add: validate_limits_def demo_limits_def ensure_def)

lemma demo_ctx_simps [simp]:
  "cx_parse demo_ctx = demo_parse" "cx_fault demo_ctx lbl k = None" "cx_env demo_ctx x = NotPresent"
  by (simp_all add: demo_ctx_def)

lemmas demo_ops = bnd_def lift_def ret_def failing_def gets_def store_lock_def lock_def ledger_exists_def idempotency_path_def
  visit_idempotency_records_def parse_idempotency_timestamp_def published_def Let_def

lemma demo_claim_runs:
  "claim_idempotency_with_limits demo_ctx demo_claim demo_limits (demo_store []) =
     (Inr (ClaimClaimed (to_record demo_claim)), demo_store [(cl_key_hash demo_claim, Parsed (to_record demo_claim))])"
proof -
  have k: "validate_digest lbl (cl_key_hash demo_claim) = Inr ()" for lbl
    by (simp add: validate_digest_def demo_claim_def demo_text)
  have f: "cl_created_at demo_claim = ''1''" "cl_exclusive_scope demo_claim = None" "cl_operation demo_claim = run_operation"
    "cl_response_body demo_claim = None" "prune_batch demo_limits = 4" by (simp_all add: demo_claim_def demo_limits_def)
  have r: "to_record demo_claim\<lparr>response_body := None\<rparr> = to_record demo_claim" by (simp add: to_record_def demo_claim_def)
  show ?thesis
    by (simp add: claim_idempotency_with_limits_def demo_ops demo_claim_valid demo_limits_valid prune_json_idempotency_locked_def
        claim_existing_def claim_scope_def claim_conversation_def admit_claim_def claim_tally_def empty_tally_def filter_body_def
        retire_hazard_def create_ledger_def write_ledger_def demo_store_def f k r demo_times)
      (simp add: demo_limits_def run_operation_def conversation_message_operation_def demo_claim_valid r demo_ops create_ledger_def write_ledger_def)
qed

lemma demo_clean: "clean demo_parse (demo_store [])"
  by (simp add: clean_def demo_store_def)

text \<open>
  C21. A claim is granted only when the key has no record, or only a finished one whose retention is
  over; the granted record is stored under the key with the identity of the claim, and no other
  live record shares its exclusive scope. So a request is never executed twice while its record is
  retained.\<close>
theorem claim_granted_once:
  assumes "clean (cx_parse cx) s" "claim_idempotency_with_limits cx c l s = (Inr (ClaimClaimed r), t)"
  shows "(\<forall>r0. ledger_of s (cl_key_hash c) = Some r0 \<longrightarrow> record_expired cx (cl_created_at c) r0) \<and>
    ledger_of t (cl_key_hash c) = Some r \<and> (\<exists>body. r = (to_record c)\<lparr>response_body := body\<rparr>) \<and>
    (\<forall>k r'. ledger_of t k = Some r' \<longrightarrow> k \<noteq> cl_key_hash c \<longrightarrow> in_flight (state r') \<longrightarrow> cl_exclusive_scope c \<noteq> None \<longrightarrow>
       exclusive_scope r' \<noteq> cl_exclusive_scope c)"
proof -
  obtain u hazard where u: "ledger_of u (cl_key_hash c) = None"
    "cl_key_hash c \<in> removable cx (cl_created_at c) (ledger_of s) (cl_key_hash c)" "scope_free (ledger_of u) (cl_exclusive_scope c)"
    "hazard_of (ledger_of u) hazard" "admit_claim cx c l (cl_key_hash c) hazard u = (Inr (ClaimClaimed r), t)"
    using claim_Claimed [OF assms(2,1)] by blast
  show ?thesis using admit_claim_Inr [OF u(5,4,1)] u(2,3) by (auto simp: removable_def scope_free_def)
qed

theorem claim_granted_once_witness:
  "ledger_of (demo_store [(cl_key_hash demo_claim, Parsed (to_record demo_claim))]) (cl_key_hash demo_claim) = Some (to_record demo_claim)"
  using claim_granted_once [of demo_ctx "demo_store []" demo_claim demo_limits] demo_claim_runs demo_clean
  by (simp add: demo_ctx_def)

section \<open>Survival of records\<close>

text \<open>The time at which a call prunes.\<close>

fun prune_time :: "call \<Rightarrow> string option" where
  "prune_time (Claim c) = Some (cl_created_at c)"
| "prune_time (Prune now n) = Some now"
| "prune_time _ = None"

lemma not_removed:
  assumes "m k = Some r" "call \<noteq> Release k (attempt_id r)" "\<And>now. prune_time call = Some now \<Longrightarrow> \<not> record_expired cx now r"
  shows "k \<notin> may_remove cx call m"
  using assms by (cases call) (auto simp: removable_def expired_keys_def)

text \<open>
  C22. No call of the store loses a record: unless the call is the release of the record by its own
  attempt, or prunes at a time when the finished record has expired, the record is still there
  afterwards, with the same principal, request, resource, attempt and owner; a finished record
  stays finished, and a completed one is unchanged, so the same response is replayed.\<close>
theorem record_survives:
  assumes "clean (cx_parse cx) s" "ledger_of s k = Some r" "call \<noteq> Release k (attempt_id r)"
    "\<And>now. prune_time call = Some now \<Longrightarrow> \<not> record_expired cx now r"
  shows "\<exists>r'. ledger_of (after l cx call s) k = Some r' \<and> same_identity r r' \<and>
    (terminal (state r) \<longrightarrow> terminal (state r')) \<and> (state r = Completed \<longrightarrow> r' = r)"
proof -
  have "\<exists>r'. ledger_of (after l cx call s) k = Some r' \<and> evolves r r'"
    using js.call_survives [of "cx_parse cx" s k r "(cx, call)" l] assms(1,2)
      not_removed [of "ledger_of s" k r call cx] assms(3,4) by (simp add: exec_call_def removed_by_def)
  then show ?thesis by (simp add: evolves_def)
qed

lemma demo_claimed_clean: "clean demo_parse (demo_store [(cl_key_hash demo_claim, Parsed (to_record demo_claim))])"
  using after_refines(1) [of demo_ctx "demo_store []" demo_limits "Claim demo_claim"] demo_clean demo_claim_runs
  by (simp add: demo_ctx_def)

theorem record_survives_witness:
  "\<exists>r'. ledger_of (after demo_limits demo_ctx (Prune ''9'' 10) (demo_store [(cl_key_hash demo_claim, Parsed (to_record demo_claim))]))
      (cl_key_hash demo_claim) = Some r' \<and> same_identity (to_record demo_claim) r'"
proof -
  have "\<not> record_expired demo_ctx now (to_record demo_claim)" for now by (simp add: record_expired_def)
  moreover have "ledger_of (demo_store [(cl_key_hash demo_claim, Parsed (to_record demo_claim))]) (cl_key_hash demo_claim) = Some (to_record demo_claim)"
    by (simp add: ledger_of_def demo_store_def)
  moreover have "cx_parse demo_ctx = demo_parse" by (simp add: demo_ctx_def)
  ultimately show ?thesis
    using record_survives [of demo_ctx "demo_store [(cl_key_hash demo_claim, Parsed (to_record demo_claim))]" "cl_key_hash demo_claim"
        "to_record demo_claim" "Prune ''9'' 10" demo_limits] demo_claimed_clean by fastforce
qed

section \<open>Replay\<close>

lemma complete_Inr:
  assumes "complete_idempotency_with_limits cx c l s = (Inr out, t)" "\<not> co_already_completed out" "clean (cx_parse cx) s"
  shows "\<exists>r a b. let r' = completed_record r c (filter_body l a b (cm_response_body c)) in
    ledger_of s (cm_key_hash c) = Some r \<and> principal_id r = cm_principal_id c \<and> request_fingerprint r = cm_request_fingerprint c \<and>
    record_ok (cx_parse cx) r' \<and> t = s\<lparr>st_ledger := AList.update (cm_key_hash c) (Parsed r') (st_ledger s)\<rparr> \<and>
    co_replayable out = replayable r' \<and> valid_digest (cm_key_hash c) \<and> valid_digest (cm_request_fingerprint c) \<and> \<not> st_poisoned s"
proof -
  have lock: "store_lock v = (Inr x, w) \<longleftrightarrow> w = v \<and> \<not> st_poisoned v" for v w and x :: unit
    by (auto simp: store_lock_def lock_def)
  have bytes: "json_idempotency_response_bytes cx who ex v = (Inr x, w) \<Longrightarrow> w = v" for who ex v x w
    using bytes_pure [of cx who ex] unfolding pure_op_def by (metis snd_conv)
  have exists: "ledger_exists k v = (Inr x, w) \<Longrightarrow> w = v" for k v x w by (auto simp: ledger_exists_def gets_def)
  have comp: "validate_completion (cx_parse cx) c = Inr () \<Longrightarrow> valid_digest (cm_key_hash c) \<and> valid_digest (cm_request_fingerprint c)"
    by (simp add: validate_completion_def validate_digest_def)
  from assms(1,2) obtain r a b where r: "ledger_of s (cm_key_hash c) = Some r"
    "validate_completion (cx_parse cx) c = Inr ()" "ensure_idempotency_completion_fence r c = Inr ()" "\<not> st_poisoned s"
    and v: "validate_record (cx_parse cx) (completed_record r c (filter_body l a b (cm_response_body c))) = Inr ()"
    and t: "write_ledger cx ''idempotency completion'' (cm_key_hash c) (completed_record r c (filter_body l a b (cm_response_body c))) s = (Inr (), t)"
    and o: "co_replayable out = replayable (completed_record r c (filter_body l a b (cm_response_body c)))"
    unfolding complete_idempotency_with_limits_def Let_def
    by (auto simp: op_success lock idempotency_path_def and_then_Inr_iff split: prod.split_asm
        dest!: read_ledger_of exists bytes)
  show ?thesis using r v o comp write_ledger_Inr [OF t]
    by (intro exI [of _ r] exI [of _ a] exI [of _ b])
      (auto simp: Let_def ensure_idempotency_completion_fence_def ensure_Inr validate_record_iff)
qed

lemma body_kept: "replayable (completed_record r c (filter_body l a b body)) \<Longrightarrow> filter_body l a b body = body \<and> body \<noteq> None"
  by (auto simp: replayable_def filter_body_def split: option.split_asm if_split_asm)

text \<open>
  C23. A request whose completion was reported as replayable is replayed: until the recorded expiry,
  a lookup by the same principal with the same fingerprint returns the stored record, with the
  status and the body that were given at completion.\<close>
theorem completed_request_replayed:
  assumes "clean (cx_parse cx) s" "complete_idempotency_with_limits cx c l s = (Inr out, t)"
    "co_replayable out" "\<not> co_already_completed out"
    "cx_parse cx' = cx_parse cx" "timestamp_has_passed cx' (cm_expires_at c) now = Inr False"
  shows "\<exists>r. lookup_idempotency_for_principal cx' (cm_principal_id c) (cm_key_hash c) (cm_request_fingerprint c) now t =
      (Inr (LookupReplay r), t) \<and> response_status r = Some (cm_response_status c) \<and> response_body r = cm_response_body c \<and>
    response_body r \<noteq> None"
proof -
  obtain r a b r' where r': "r' = completed_record r c (filter_body l a b (cm_response_body c))"
    and r: "principal_id r = cm_principal_id c" "request_fingerprint r = cm_request_fingerprint c"
      "record_ok (cx_parse cx) r'" "t = s\<lparr>st_ledger := AList.update (cm_key_hash c) (Parsed r') (st_ledger s)\<rparr>"
      "replayable r'" "valid_digest (cm_key_hash c)" "valid_digest (cm_request_fingerprint c)" "\<not> st_poisoned s"
    using complete_Inr [OF assms(2,4,1)] assms(3) unfolding Let_def by blast
  have f: "map_of (st_ledger t) (cm_key_hash c) = Some (Parsed r')" "\<not> st_poisoned t" using r by (simp_all add: update_conv')
  have "\<exists>n. parse_idempotency_timestamp cx' ''idempotency current time'' now = Inr n"
    using assms(6) by (auto simp: timestamp_has_passed_def and_then_Inr_iff)
  then have "classify_idempotency_record cx' r' (cm_request_fingerprint c) now = Inr (LookupReplay r')"
    using r assms(6) by (auto simp: classify_idempotency_record_def validate_digest_def ensure_def r' completed_record_def)
  then have "lookup_idempotency_for_principal cx' (cm_principal_id c) (cm_key_hash c) (cm_request_fingerprint c) now t = (Inr (LookupReplay r'), t)"
    using f r assms(5) validate_record_iff [of "cx_parse cx" r' "()"]
    by (simp add: lookup_idempotency_for_principal_def bnd_def lift_def store_lock_def lock_def ledger_exists_def gets_def ret_def
        idempotency_path_def validate_digest_def ensure_def read_idempotency_record_def) (simp add: r')
  then show ?thesis using body_kept [of r c l a b "cm_response_body c"] r(5) r' by (auto simp: completed_record_def)
qed

definition demo_completion :: idem_completion where
  "demo_completion = \<lparr>cm_key_hash = cl_key_hash demo_claim, cm_principal_id = cl_principal_id demo_claim,
     cm_request_fingerprint = cl_request_fingerprint demo_claim, cm_attempt_id = ''att'', cm_owner_instance_id = ''i'',
     cm_response_status = 200, cm_response_body = Some ''ok'', cm_completed_at = ''2'', cm_expires_at = ''9''\<rparr>"

definition demo_completed :: idem_record where
  "demo_completed = completed_record (to_record demo_claim) demo_completion (Some ''ok'')"

lemma demo_completes:
  "complete_idempotency_with_limits demo_ctx demo_completion demo_limits (demo_store [(cl_key_hash demo_claim, Parsed (to_record demo_claim))]) =
     (Inr \<lparr>co_replayable = True, co_already_completed = False\<rparr>, demo_store [(cl_key_hash demo_claim, Parsed demo_completed)])"
proof -
  have k: "validate_digest lbl (cl_key_hash demo_claim) = Inr ()" "cm_key_hash demo_completion = cl_key_hash demo_claim" for lbl
    by (simp_all add: validate_digest_def demo_claim_def demo_text demo_completion_def)
  have v: "validate_record demo_parse demo_completed = Inr ()"
    unfolding validate_record_iff by (simp add: record_ok_def demo_completed_def completed_record_def demo_completion_def to_record_def
        demo_claim_def demo_text run_operation_def conversation_message_operation_def is_time_def demo_times max_ttl_seconds_def hard_response_bytes_def)
  have c: "validate_completion demo_parse demo_completion = Inr ()"
    by (simp add: validate_completion_def validators demo_completion_def demo_claim_def demo_text ensure_def is_time_def demo_times
        hard_response_bytes_def)
  have f: "ensure_idempotency_completion_fence (to_record demo_claim) demo_completion = Inr ()"
    by (simp add: ensure_idempotency_completion_fence_def ensure_def demo_completion_def to_record_def demo_claim_def)
  have b: "filter_body demo_limits 0 0 (cm_response_body demo_completion) = Some ''ok''"
    by (simp add: filter_body_def body_fits_def demo_limits_def demo_completion_def checked_add_def u64_max_def)
  have p: "replayable demo_completed" by (simp add: replayable_def demo_completed_def completed_record_def)
  have e: "consume_scan_entry (cx_env demo_ctx) 0 = Inr 1"
    by (simp add: consume_scan_entry_def json_scan_max_entries_def positive_limit_def saturating_add_def u64_max_def demo_ctx_def env_ok_def Let_def)
  show ?thesis
    by (simp add: complete_idempotency_with_limits_def demo_ops c demo_limits_valid k f read_idempotency_record_def demo_claim_valid
        json_idempotency_response_bytes_def demo_store_def e)
      (simp add: b v p demo_completed_def [symmetric] write_ledger_def demo_ops)
qed

theorem completed_request_replayed_witness:
  "\<exists>r. lookup_idempotency_for_principal demo_ctx (cm_principal_id demo_completion) (cm_key_hash demo_completion)
      (cm_request_fingerprint demo_completion) ''5'' (demo_store [(cl_key_hash demo_claim, Parsed demo_completed)]) =
      (Inr (LookupReplay r), demo_store [(cl_key_hash demo_claim, Parsed demo_completed)]) \<and> response_body r = Some ''ok''"
proof -
  have "timestamp_has_passed demo_ctx (cm_expires_at demo_completion) ''5'' = Inr False"
    by (simp add: timestamp_has_passed_def parse_idempotency_timestamp_def demo_completion_def demo_times)
  then show ?thesis
    using completed_request_replayed [of demo_ctx "demo_store [(cl_key_hash demo_claim, Parsed (to_record demo_claim))]" demo_completion
        demo_limits "\<lparr>co_replayable = True, co_already_completed = False\<rparr>" "demo_store [(cl_key_hash demo_claim, Parsed demo_completed)]"
        demo_ctx "''5''"] demo_completes demo_claimed_clean
    by (auto simp: demo_completion_def)
qed

end
