(* ===== verification/Run_Properties.thy ===== *)
theory Run_Properties
  imports Store_Properties
begin

text \<open>Runs and conversations of the JSON store: finished runs are final, reconciliation, saved conversations.\<close>

section \<open>Finished runs are final\<close>

abbreviation holds_run :: "string \<Rightarrow> run_record \<Rightarrow> store \<Rightarrow> bool" where
  "holds_run i r s \<equiv> map_of (st_runs s) i = Some (Parsed r)"

lemma keeps_ledger_ops:
  "keeps (holds_run i r) (write_ledger cx lbl k x)" "keeps (holds_run i r) (create_ledger cx lbl k x)"
  "keeps (holds_run i r) (remove_ledger cx lbl k)" "keeps (holds_run i r) (write_conversation cx p cv)"
  "keeps (holds_run i r) (remove_conversation cx p)" "keeps (holds_run i r) (create_run cx lbl k x')"
  by (auto simp: keeps_def write_ledger_def create_ledger_def remove_ledger_def write_conversation_def remove_conversation_def
      create_run_def write_run_def published_def update_conv' split: option.splits fault.splits sum.splits)

lemma keeps_run_ops:
  "k \<noteq> i \<Longrightarrow> keeps (holds_run i r) (write_run cx lbl k x)" "k \<noteq> i \<Longrightarrow> keeps (holds_run i r) (remove_run cx lbl k)"
  by (auto simp: keeps_def write_run_def remove_run_def published_def update_conv' delete_conv' split: option.splits fault.splits)

text \<open>Reading the run itself, or looking for it, tells the continuation what is stored.\<close>

lemma keeps_learn:
  assumes "pure_op m" "\<And>s x. P s \<Longrightarrow> m s = (Inr x, s) \<Longrightarrow> Q x" "\<And>x. Q x \<Longrightarrow> keeps P (f x)"
  shows "keeps P (bnd m f)"
  unfolding keeps_def
proof (intro allI impI)
  fix s
  assume s: "P s"
  obtain y where y: "m s = (y, s)" using assms(1) unfolding pure_op_def by (metis surjective_pairing)
  show "P (snd (bnd m f s))"
  proof (cases y)
    case (Inr x)
    then have "keeps P (f x)" using assms(2,3) s y by blast
    then show ?thesis using s y Inr by (simp add: bnd_def keeps_def)
  qed (use s y in \<open>simp add: bnd_def\<close>)
qed

lemma keeps_read_run:
  "(\<And>x. (k = i \<longrightarrow> x = r) \<Longrightarrow> keeps (holds_run i r) (f x)) \<Longrightarrow> keeps (holds_run i r) (bnd (read_run w k) f)"
  by (rule keeps_learn [where Q = "\<lambda>x. k = i \<longrightarrow> x = r"]) (auto intro: pure_intros simp: read_run_def)

lemma keeps_run_exists:
  "(\<And>x. (k = i \<longrightarrow> x) \<Longrightarrow> keeps (holds_run i r) (f x)) \<Longrightarrow> keeps (holds_run i r) (bnd (run_exists k) f)"
  by (rule keeps_learn [where Q = "\<lambda>x. k = i \<longrightarrow> x"]) (auto intro: pure_intros simp: run_exists_def gets_def)

lemma keeps_peek_run:
  "(\<And>x. (k = i \<longrightarrow> x = Some r) \<Longrightarrow> keeps (holds_run i r) (f x)) \<Longrightarrow> keeps (holds_run i r) (bnd (peek_run k) f)"
  by (rule keeps_learn [where Q = "\<lambda>x. k = i \<longrightarrow> x = Some r"]) (auto intro: peek_run_pure simp: peek_run_def)

lemma keeps_visit: "(\<And>k x acc. keeps P (f k x acc)) \<Longrightarrow> keeps P (visit_idempotency_records cx f acc)"
proof -
  assume f: "\<And>k x acc. keeps P (f k x acc)"
  have "keeps P (visit_stems cx f n ks acc)" for n ks acc
    by (induction ks arbitrary: n acc) (auto intro!: op_rules f)
  then show ?thesis by (simp add: keeps_def visit_idempotency_records_def)
qed

lemma keeps_visit_runs:
  "(\<And>k x acc. (k = i \<longrightarrow> x = r) \<Longrightarrow> keeps (holds_run i r) (f k x acc)) \<Longrightarrow> keeps (holds_run i r) (visit_runs cx f acc)"
proof -
  assume f: "\<And>k x acc. (k = i \<longrightarrow> x = r) \<Longrightarrow> keeps (holds_run i r) (f k x acc)"
  have "keeps (holds_run i r) (scan_runs cx f n ks acc)" for n ks acc
  proof (induction ks arbitrary: n acc)
    case (Cons k ks)
    have "keeps (holds_run i r) (bnd (case x of None \<Rightarrow> ret acc | Some run \<Rightarrow> f k run acc) (scan_runs cx f m ks))"
      if "k = i \<longrightarrow> x = Some r" for x m
      using that Cons.IH by (intro keeps_bnd keeps_option f keeps_ret) auto
    then show ?case unfolding scan_runs.simps by (intro keeps_bnd [OF keeps_lift] keeps_peek_run)
  qed (simp add: keeps_ret)
  then show ?thesis by (simp add: keeps_def visit_runs_def)
qed

lemmas keeps_rules = keeps_ledger_ops keeps_ret keeps_lift keeps_failing keeps_gets keeps_attempt keeps_lock keeps_reads
lemmas keeps_steps = keeps_read_run keeps_run_exists keeps_bnd keeps_if keeps_option keeps_sum keeps_prod keeps_visit keeps_rules

lemma keeps_terminalize: "keeps (holds_run i r) (terminalize_json_idempotency_indeterminate cx k x now)"
  unfolding terminalize_json_idempotency_indeterminate_def Let_def by (intro keeps_steps)

lemma keeps_prune: "keeps (holds_run i r) (prune_json_idempotency_locked cx now n)"
proof -
  have "keeps (holds_run i r) (foldr (\<lambda>path k. bnd (remove_ledger cx lbl path) (\<lambda>_. k)) ks (ret ()))" for lbl ks
    by (induction ks) (auto intro!: keeps_steps)
  then show ?thesis unfolding prune_json_idempotency_locked_def Let_def by (intro keeps_steps)
qed

lemma keeps_pure: "pure_op m \<Longrightarrow> keeps P m"
  by (simp add: keeps_def pure_op_def)

lemma keeps_claim: "keeps (holds_run i r) (claim_idempotency_with_limits cx c l)"
proof -
  have conv: "pure_op (claim_conversation cx c)"
    unfolding claim_conversation_def by (auto split: option.split intro!: pure_intros pure_bnd)
  have scope: "keeps (holds_run i r) (claim_scope cx c)"
    unfolding claim_scope_def scope_busy_def scope_hazards_def
    by (auto split: option.split list.split intro!: keeps_steps keeps_terminalize)
  have existing: "keeps (holds_run i r) (claim_existing cx c k)" for k
    unfolding claim_existing_def by (intro keeps_terminalize keeps_steps)
  have admit: "keeps (holds_run i r) (admit_claim cx c l k h)" for k h
    unfolding admit_claim_def claim_tally_def retire_hazard_def Let_def by (intro keeps_steps)
  show ?thesis unfolding claim_idempotency_with_limits_def
    by (intro keeps_prune existing scope keeps_pure [OF conv] admit keeps_steps)
qed

lemma keeps_bytes: "keeps P (json_idempotency_response_bytes cx who ex)"
  by (rule keeps_pure [OF bytes_pure])

lemma keeps_ledger_calls:
  "keeps (holds_run i r) (heartbeat_idempotency cx key att lease)"
  "keeps (holds_run i r) (complete_idempotency_with_limits cx c l)"
  "keeps (holds_run i r) (commit_conversation_idempotency_with_limits cx c cv l)"
  "keeps (holds_run i r) (mark_idempotency_indeterminate cx key att now expiry)"
  "keeps (holds_run i r) (release_idempotency cx key att)"
  "keeps (holds_run i r) (prune_idempotency cx now n)"
  unfolding heartbeat_idempotency_def complete_idempotency_with_limits_def commit_conversation_idempotency_with_limits_def
    mark_idempotency_indeterminate_def release_idempotency_def prune_idempotency_def Let_def
  by (intro keeps_bytes keeps_prune keeps_steps)+

lemma keeps_close: "keeps (holds_run i r) (close_run_record cx lbl k x d)"
  unfolding close_run_record_def Let_def by (intro keeps_steps)

lemma keeps_complete_run: "keeps (holds_run i r) (complete_json_run_idempotency cx run_id d)"
  unfolding complete_json_run_idempotency_def by (intro keeps_close keeps_steps)

text \<open>The operations that write run records do so only to a run in flight.\<close>

lemma keeps_save_run_intent:
  assumes "run_terminal (rn_status r)"
  shows "keeps (holds_run i r) (save_run_intent cx intent)"
proof -
  have hydrate: "keeps (holds_run i r) (hydrate_run cx intent run_id)" for run_id
    unfolding hydrate_run_def json_run_hydration_ledger_def Let_def
    by (rule keeps_read_run) (use assms in \<open>auto intro!: keeps_steps keeps_run_ops simp: run_terminal_def\<close>)
  have publish: "keeps (holds_run i r) (publish_run cx run run_id)" if "run_id \<noteq> i" for run run_id
    unfolding publish_run_def transition_json_run_idempotency_to_running_def Let_def
    using that by (intro keeps_run_ops keeps_steps)
  show ?thesis unfolding save_run_intent_def Let_def
    by (intro keeps_bnd [OF keeps_lift] keeps_bnd [OF keeps_lock(2)] keeps_run_exists keeps_if keeps_failing hydrate publish) auto
qed

lemma keeps_update_runs:
  assumes "run_terminal (rn_status r)"
  shows "keeps (holds_run i r) (update_run_completion cx run_id c)" "keeps (holds_run i r) (update_run_status cx run_id st)"
    "keeps (holds_run i r) (heartbeat_idempotent_run cx run_id key att lease)"
proof -
  have w: "keeps (holds_run i r) (write_run cx lbl k x)" if "k = i \<longrightarrow> x0 = r" "run_in_flight (rn_status x0)" for lbl k x x0
    using that assms by (intro keeps_run_ops) (auto simp: run_terminal_def)
  show "keeps (holds_run i r) (update_run_completion cx run_id c)" unfolding update_run_completion_def Let_def
    by (intro keeps_complete_run w keeps_steps) (auto simp: run_terminal_def)
  show "keeps (holds_run i r) (update_run_status cx run_id st)" unfolding update_run_status_def
    by (intro w keeps_steps) auto
  show "keeps (holds_run i r) (heartbeat_idempotent_run cx run_id key att lease)" unfolding heartbeat_idempotent_run_def Let_def
    by (intro w keeps_steps) (auto simp: run_terminal_def)
qed

lemma visit_result:
  assumes "visit_idempotency_records cx (\<lambda>k x acc. ret (g k x acc)) acc s = (Inr out, t)" "I acc" "\<And>k x acc. I acc \<Longrightarrow> I (g k x acc)"
  shows "I out"
proof -
  have "I out" if "visit_stems cx (\<lambda>k x acc. ret (g k x acc)) n ks acc s = (Inr out, t)" "I acc" for n ks acc s
    using that by (induction ks arbitrary: n acc s) (auto simp: op_Inr dest: assms(3) dest!: read_ledger_of)
  then show ?thesis using assms(1,2) by (simp add: visit_idempotency_records_def)
qed

lemma scan_result:
  assumes "visit_runs cx (\<lambda>k x acc. ret (g k x acc)) acc s = (Inr out, t)" "I acc"
    "\<And>k x acc. holds_run k x s \<Longrightarrow> I acc \<Longrightarrow> I (g k x acc)"
  shows "I out"
proof -
  have "I out" if "scan_runs cx (\<lambda>k x acc. ret (g k x acc)) n ks acc s = (Inr out, t)" "I acc" for n ks acc
    using that
  proof (induction ks arbitrary: n acc)
    case (Cons k ks)
    then obtain m x acc' where x: "peek_run k s = (Inr x, s)" and r: "scan_runs cx (\<lambda>k x acc. ret (g k x acc)) m ks acc' s = (Inr out, t)"
      and a: "acc' = (case x of None \<Rightarrow> acc | Some run \<Rightarrow> g k run acc)"
      by (auto simp: op_success peek_run_def split: option.splits)
    have "I acc'" using Cons.prems(2) x a assms(3) by (auto simp: peek_run_def split: option.splits disk_file.splits)
    then show ?case using Cons.IH r by blast
  qed (simp add: ret_Inr)
  then show ?thesis using assms(1,2) by (simp add: visit_runs_def)
qed

abbreviation paths :: "(string \<times> string \<times> bool) list \<Rightarrow> string set" where
  "paths cs \<equiv> set (map (\<lambda>c. fst (snd c)) cs)"

lemma paths_update: "map (\<lambda>c. fst (snd c)) (cs[n := (a, fst (snd (cs ! n)), b)]) = map (\<lambda>c. fst (snd c)) cs"
proof (cases "n < length cs")
  case True
  then show ?thesis using list_update_id [of "map (\<lambda>c. fst (snd c)) cs" n] by (simp add: map_update)
qed (simp add: list_update_beyond)

lemma paths_link: "map (\<lambda>c. fst (snd c)) (link_candidate cx r cs) = map (\<lambda>c. fst (snd c)) cs"
  by (simp add: link_candidate_def paths_update split: option.split)

lemma keeps_renew: "i \<notin> paths cs \<Longrightarrow> keeps (holds_run i r) (renew_runs cx cs)"
proof (induction cs)
  case (Cons c cs)
  obtain j p b where c: "c = (j, p, b)" by (cases c)
  show ?case unfolding c renew_runs.simps using Cons c
    by (intro keeps_if keeps_bnd keeps_option keeps_run_ops keeps_ret keeps_pure [OF peek_run_pure]) auto
qed (simp add: keeps_ret)

lemma scan_pure: "pure_op (visit_runs cx (\<lambda>k x acc. ret (g k x acc)) a)"
proof -
  have "pure_op (scan_runs cx (\<lambda>k x acc. ret (g k x acc)) n ks a)" for n ks a
    by (induction ks arbitrary: n a) (auto split: option.split intro!: pure_bnd pure_intros peek_run_pure)
  then show ?thesis by (simp add: pure_op_def visit_runs_def)
qed

lemma keeps_heartbeat_runs:
  assumes "run_terminal (rn_status r)"
  shows "keeps (holds_run i r) (heartbeat_owned_runs cx)"
proof -
  let ?g = "\<lambda>path x acc. if \<not> run_in_flight (rn_status x) \<or> rn_owner x \<noteq> cx_instance cx then acc else acc @ [(rn_run_id x, path, False)]"
  show ?thesis unfolding heartbeat_owned_runs_def
  proof (rule keeps_bnd [OF keeps_lock(2)], rule keeps_learn [OF scan_pure, where Q = "\<lambda>cs. i \<notin> paths cs"])
    fix s cs
    assume "holds_run i r s" and v: "visit_runs cx (\<lambda>path x acc. ret (?g path x acc)) [] s = (Inr cs, s)"
    then show "i \<notin> paths cs"
      by (intro scan_result [OF v, where I = "\<lambda>cs. i \<notin> paths cs"]) (use assms in \<open>auto simp: run_terminal_def split: if_splits\<close>)
  next
    fix cs :: "(string \<times> string \<times> bool) list"
    assume c: "i \<notin> paths cs"
    have "pure_op (visit_idempotency_records cx (\<lambda>_ x cs. ret (link_candidate cx x cs)) (sort_key fst cs))"
      by (intro pure_visit pure_intros)
    then show "keeps (holds_run i r) (bnd (visit_idempotency_records cx (\<lambda>_ x cs. ret (link_candidate cx x cs)) (sort_key fst cs)) (renew_runs cx))"
    proof (rule keeps_learn [where Q = "\<lambda>cs. i \<notin> paths cs"])
      fix s out
      assume v: "visit_idempotency_records cx (\<lambda>_ x cs. ret (link_candidate cx x cs)) (sort_key fst cs) s = (Inr out, s)"
      show "i \<notin> paths out" by (rule visit_result [OF v, where I = "\<lambda>cs. i \<notin> paths cs"]) (use c in \<open>simp_all only: paths_link not_False_eq_True set_map set_sort\<close>)
    qed (rule keeps_renew)
  qed
qed

lemma keeps_reconcile:
  assumes "run_terminal (rn_status r)"
  shows "keeps (holds_run i r) (reconcile_abandoned_runs cx now)"
proof -
  have claim: "keeps (holds_run i r) (reconcile_claim cx now k x n)" for k x n
    unfolding reconcile_claim_def by (intro keeps_terminalize keeps_steps)
  have run: "keeps (holds_run i r) (reconcile_run cx now t k x acc)" if "k = i \<longrightarrow> x = r" for t k x acc
    using that assms unfolding reconcile_run_def
    by (intro keeps_prod keeps_if keeps_bnd keeps_run_ops keeps_ret) (auto simp: run_terminal_def)
  have ledger: "keeps (holds_run i r) (reconcile_ledger cx runs k x u)" for runs k x u
    unfolding reconcile_ledger_def by (intro keeps_close keeps_steps)
  show ?thesis unfolding reconcile_abandoned_runs_def
    by (intro keeps_visit_runs run claim ledger keeps_bnd keeps_prod keeps_visit keeps_rules)
qed

lemma keeps_conversations:
  "keeps (holds_run i r) (save_conversation cx cv)" "keeps (holds_run i r) (delete_conversation cx flow j)"
proof -
  have active: "keeps (holds_run i r) (active_conversation_idempotency_exists cx flow j)" for flow j
    unfolding active_conversation_idempotency_exists_def by (intro keeps_pure pure_visit pure_intros)
  show "keeps (holds_run i r) (save_conversation cx cv)" "keeps (holds_run i r) (delete_conversation cx flow j)"
    unfolding save_conversation_def delete_conversation_def conversation_exists_def Let_def
    by (intro active keeps_steps)+
qed

lemma call_pures:
  "pure_op (get_run run_id)" "pure_op (list_runs_summary cx f limit offset)" "pure_op (count_runs cx f)"
  "pure_op (get_conversation cx flow j)" "pure_op (list_conversations cx flow limit offset)" "pure_op (count_conversations cx flow)"
proof -
  have walk: "pure_op (walk_conversation_records cx flow)" for flow by (simp add: pure_op_def walk_conversation_records_def)
  show "pure_op (get_run run_id)" "pure_op (list_runs_summary cx f limit offset)" "pure_op (count_runs cx f)"
    unfolding get_run_def list_runs_summary_def count_runs_def by (intro pure_bnd pure_if scan_pure pure_intros)+
  show "pure_op (get_conversation cx flow j)" "pure_op (list_conversations cx flow limit offset)" "pure_op (count_conversations cx flow)"
    unfolding get_conversation_def list_conversations_def count_conversations_def
    by (auto split: option.split intro!: pure_bnd walk pure_intros)
qed

text \<open>
  C24. A finished run is final: no call of the store other than its deletion changes or removes the
  record of a run in a terminal state, whatever the clock readings and the file system faults.\<close>
theorem finished_run_final:
  assumes "map_of (st_runs s) run_id = Some (Parsed r)" "run_terminal (rn_status r)" "call \<noteq> DeleteRun run_id"
  shows "map_of (st_runs (after l cx call s)) run_id = Some (Parsed r)"
proof -
  have kept: "map_of (st_runs (snd (m s))) run_id = Some (Parsed r)" if "keeps (holds_run run_id r) m" for m :: "(store, 'x) op"
    using that assms(1) by (simp add: keeps_def)
  show ?thesis
  proof (cases call)
    case (DeleteRun j)
    then have "j \<noteq> run_id" using assms(3) by simp
    then show ?thesis unfolding DeleteRun after.simps delete_run_def
      by (intro kept keeps_run_ops keeps_steps)
  next
    case (SaveRunIntent x)
    show ?thesis unfolding SaveRunIntent after.simps by (rule kept) (rule keeps_save_run_intent [OF assms(2)])
  qed (simp_all only: after.simps, (rule kept, (rule keeps_claim keeps_ledger_calls keeps_update_runs [OF assms(2)]
      keeps_heartbeat_runs [OF assms(2)] keeps_reconcile [OF assms(2)] keeps_conversations | rule keeps_pure, rule reads_pure call_pures))+)
qed

definition demo_run :: run_record where
  "demo_run = \<lparr>rn_run_id = ''run'', rn_flow_name = ''f'', rn_flow = ''f'', rn_status = Success, rn_started_at = ''1'', rn_finished_at = ''2'',
     rn_duration_ms = 1, rn_task_results = [], rn_agent_count = 1, rn_task_count = 1, rn_usage = unavailable_snapshot, rn_tags = [],
     rn_owner = ''i'', rn_lease = []\<rparr>"

theorem finished_run_final_witness:
  "map_of (st_runs (after demo_limits demo_ctx (Reconcile ''9'') (demo_store []\<lparr>st_runs := [(''run'', Parsed demo_run)]\<rparr>))) ''run'' =
     Some (Parsed demo_run)"
  by (rule finished_run_final) (simp_all add: demo_run_def run_terminal_def run_in_flight_def)

section \<open>Reconciliation\<close>

text \<open>What reconciliation makes of a run record.\<close>

definition abandon :: "ctx \<Rightarrow> string \<Rightarrow> int \<Rightarrow> run_record \<Rightarrow> run_record" where
  "abandon cx now t r = (if run_in_flight (rn_status r) \<and> lease_is_expired cx (rn_lease r) t
     then r\<lparr>rn_status := Abandoned, rn_finished_at := now, rn_lease := []\<rparr> else r)"

fun map_file :: "('a \<Rightarrow> 'a) \<Rightarrow> 'a disk_file \<Rightarrow> 'a disk_file" where
  "map_file f (Parsed r) = Parsed (f r)"
| "map_file f x = x"

lemma reconcile_run_Inr:
  assumes "reconcile_run cx now t k r acc s = (Inr out, u)" "map_of (st_runs s) k = Some (Parsed r)"
  shows "map_of (st_runs u) = (map_of (st_runs s))(k \<mapsto> Parsed (abandon cx now t r))"
proof -
  have "u = s \<and> abandon cx now t r = r \<or> st_runs u = AList.update k (Parsed (abandon cx now t r)) (st_runs s)"
    using assms(1) by (auto simp: reconcile_run_def abandon_def op_success write_run_def published_def
        split: prod.split_asm if_split_asm option.split_asm fault.split_asm)
  then show ?thesis using assms(2) by (auto simp: update_conv' fun_eq_iff)
qed

lemma scan_reconcile:
  assumes "scan_runs cx (reconcile_run cx now t) n ks acc s = (Inr out, u)" "distinct ks"
  shows "map_of (st_runs u) i =
    (if i \<in> set ks then map_option (map_file (abandon cx now t)) (map_of (st_runs s) i) else map_of (st_runs s) i)"
  using assms
proof (induction ks arbitrary: n acc s)
  case (Cons k ks)
  from Cons.prems(1) obtain m x acc' v where x: "peek_run k s = (Inr x, s)"
    and v: "(case x of None \<Rightarrow> ret acc | Some run \<Rightarrow> reconcile_run cx now t k run acc) s = (Inr acc', v)"
    and rest: "scan_runs cx (reconcile_run cx now t) m ks acc' v = (Inr out, u)"
    by (auto simp: bnd_Inr lift_Inr peek_run_def)
  have "map_of (st_runs v) = (map_of (st_runs s))(k := map_option (map_file (abandon cx now t)) (map_of (st_runs s) k))"
  proof (cases x)
    case None
    then obtain e where "map_of (st_runs s) k = Some (Unparsable e)" using x by (auto simp: peek_run_def split: option.splits disk_file.splits)
    then show ?thesis using v None by (auto simp: ret_Inr fun_eq_iff)
  next
    case (Some run)
    then have "map_of (st_runs s) k = Some (Parsed run)" using x by (auto simp: peek_run_def split: option.splits disk_file.splits)
    then show ?thesis using reconcile_run_Inr v Some by fastforce
  qed
  then show ?case using Cons.IH [OF rest] Cons.prems(2) by auto
qed (simp add: ret_Inr)

text \<open>The first pass only adds abandoned runs; the last one does not touch the runs.\<close>

definition only_fallbacks :: "store \<Rightarrow> store \<Rightarrow> bool" where
  "only_fallbacks s u \<longleftrightarrow> distinct (map fst (st_runs u)) \<and> (\<forall>i f. map_of (st_runs s) i = Some f \<longrightarrow> map_of (st_runs u) i = Some f) \<and>
     (\<forall>i f. map_of (st_runs s) i = None \<longrightarrow> map_of (st_runs u) i = Some f \<longrightarrow> (\<exists>r. f = Parsed r \<and> rn_status r = Abandoned))"

lemma fallback_added:
  "only_fallbacks s u \<Longrightarrow> map_of (st_runs u) j = None \<Longrightarrow>
     only_fallbacks s (u\<lparr>st_runs := AList.update j (Parsed (fallback_run r now)) (st_runs u)\<rparr>)"
  unfolding only_fallbacks_def
  by (auto simp: update_conv' distinct_update fallback_run_def simp del: map_of_eq_Some_iff split: if_split_asm)

lemma keeps_fallbacks: "keeps (only_fallbacks s) (reconcile_claim cx now k r n)"
proof -
  have create: "keeps (only_fallbacks s) (create_run cx lbl j (fallback_run r now))" for lbl j
    by (simp add: keeps_def create_run_def write_run_def published_def fallback_added split: option.splits fault.splits)
  have "keeps (only_fallbacks s) (write_ledger cx lbl j x)" for lbl j x
    by (auto simp: keeps_def only_fallbacks_def write_ledger_def published_def split: option.splits fault.splits)
  then have "keeps (only_fallbacks s) (terminalize_json_idempotency_indeterminate cx k r now)"
    unfolding terminalize_json_idempotency_indeterminate_def Let_def by (intro keeps_bnd keeps_lift keeps_ret)
  then show ?thesis unfolding reconcile_claim_def by (intro create keeps_bnd keeps_if keeps_lift keeps_ret keeps_reads)
qed

lemma keeps_runs: "keeps (\<lambda>u. st_runs u = rs) (visit_idempotency_records cx (reconcile_ledger cx runs) a)"
proof -
  have "keeps (\<lambda>u. st_runs u = rs) (write_ledger cx lbl k x)" for lbl k x
    by (auto simp: keeps_def write_ledger_def published_def split: option.splits fault.splits)
  then have "keeps (\<lambda>u. st_runs u = rs) (close_run_record cx lbl k x d)" for lbl k x d
    unfolding close_run_record_def Let_def by (intro keeps_bnd keeps_lift keeps_ret)
  then show ?thesis unfolding reconcile_ledger_def
    by (intro keeps_visit keeps_if keeps_option keeps_bnd keeps_lift keeps_ret)
qed

lemma reconcile_Inr:
  assumes "reconcile_abandoned_runs cx now s = (Inr n, t)" "cx_parse cx now = Inr time" "distinct (map fst (st_runs s))"
  shows "\<exists>u. only_fallbacks s u \<and> map_of (st_runs t) = map_option (map_file (abandon cx now time)) \<circ> map_of (st_runs u)"
proof -
  have lock: "run_lock v = (Inr x, w) \<Longrightarrow> w = v" for v w and x :: unit by (auto simp: run_lock_def lock_def split: if_split_asm)
  from assms(1,2) obtain m u out v where 1: "visit_idempotency_records cx (reconcile_claim cx now) 0 s = (Inr m, u)"
    and 2: "visit_runs cx (reconcile_run cx now time) (m, Map.empty) u = (Inr out, v)"
    and 3: "visit_idempotency_records cx (reconcile_ledger cx (snd out)) () v = (Inr (), t)"
    unfolding reconcile_abandoned_runs_def by (auto simp: op_Inr dest!: lock)
  have "only_fallbacks s s" using assms(3) by (simp add: only_fallbacks_def)
  moreover have "keeps (only_fallbacks s) (visit_idempotency_records cx (reconcile_claim cx now) 0)"
    by (rule keeps_visit) (rule keeps_fallbacks)
  ultimately have u: "only_fallbacks s u" using 1 unfolding keeps_def by (metis snd_conv)
  have "st_runs t = st_runs v" using keeps_runs [of "st_runs v" cx "snd out" "()"] 3 unfolding keeps_def by (metis snd_conv)
  moreover have "map_of (st_runs v) i = map_option (map_file (abandon cx now time)) (map_of (st_runs u) i)" for i
  proof -
    have "distinct (map fst (st_runs u))" using u by (simp add: only_fallbacks_def)
    note scanned = scan_reconcile [OF 2 [unfolded visit_runs_def] this, of i]
    have "i \<notin> set (map fst (st_runs u)) \<Longrightarrow> map_of (st_runs u) i = None" by (simp add: map_of_eq_None_iff)
    then show ?thesis using scanned by (cases "i \<in> set (map fst (st_runs u))") simp_all
  qed
  ultimately show ?thesis using u by (intro exI [of _ u]) (simp add: fun_eq_iff)
qed

lemma abandon_expired: "run_in_flight (rn_status (abandon cx now t r)) \<Longrightarrow> \<not> lease_is_expired cx (rn_lease (abandon cx now t r)) t"
  by (auto simp: abandon_def run_in_flight_def split: if_split_asm)

text \<open>
  C25. A successful reconciliation at a time leaves no orphaned run: every run still in flight has a
  lease that ends later. Runs whose lease was over, and only those, are rewritten, as abandoned at
  that time; every other stored run is unchanged; and a run that appears is an abandoned one.\<close>
theorem reconcile_leaves_no_orphan:
  assumes "reconcile_abandoned_runs cx now s = (Inr n, t)" "cx_parse cx now = Inr time" "distinct (map fst (st_runs s))"
  shows "(\<forall>i r. map_of (st_runs t) i = Some (Parsed r) \<longrightarrow> run_in_flight (rn_status r) \<longrightarrow> \<not> lease_is_expired cx (rn_lease r) time) \<and>
    (\<forall>i r. map_of (st_runs s) i = Some (Parsed r) \<longrightarrow> map_of (st_runs t) i = Some (Parsed
       (if run_in_flight (rn_status r) \<and> lease_is_expired cx (rn_lease r) time
        then r\<lparr>rn_status := Abandoned, rn_finished_at := now, rn_lease := []\<rparr> else r))) \<and>
    (\<forall>i r. map_of (st_runs s) i = None \<longrightarrow> map_of (st_runs t) i = Some (Parsed r) \<longrightarrow> rn_status r = Abandoned)"
proof -
  obtain u where u: "only_fallbacks s u" "map_of (st_runs t) = map_option (map_file (abandon cx now time)) \<circ> map_of (st_runs u)"
    using reconcile_Inr [OF assms] by blast
  have parsed: "map_of (st_runs t) i = Some (Parsed r) \<longleftrightarrow> (\<exists>r0. map_of (st_runs u) i = Some (Parsed r0) \<and> r = abandon cx now time r0)" for i r
    unfolding u(2) by (cases "map_of (st_runs u) i") (auto elim: map_file.elims)
  have old: "map_of (st_runs s) i = Some f \<Longrightarrow> map_of (st_runs u) i = Some f"
    and new: "map_of (st_runs s) i = None \<Longrightarrow> map_of (st_runs u) i = Some (Parsed r) \<Longrightarrow> rn_status r = Abandoned" for i f r
    using u(1) unfolding only_fallbacks_def by blast+
  have "\<forall>i r. map_of (st_runs t) i = Some (Parsed r) \<longrightarrow> run_in_flight (rn_status r) \<longrightarrow> \<not> lease_is_expired cx (rn_lease r) time"
    unfolding parsed using abandon_expired by blast
  moreover have "\<forall>i r. map_of (st_runs s) i = Some (Parsed r) \<longrightarrow> map_of (st_runs t) i = Some (Parsed (abandon cx now time r))"
    unfolding parsed using old by blast
  moreover have "rn_status (abandon cx now time r) = Abandoned" if "rn_status r = Abandoned" for r
    using that by (simp add: abandon_def run_in_flight_def)
  then have "\<forall>i r. map_of (st_runs s) i = None \<longrightarrow> map_of (st_runs t) i = Some (Parsed r) \<longrightarrow> rn_status r = Abandoned"
    unfolding parsed using new by blast
  ultimately show ?thesis unfolding abandon_def by (intro conjI)
qed

definition demo_orphan :: run_record where
  "demo_orphan = demo_run\<lparr>rn_status := RunRunning, rn_lease := ''2''\<rparr>"

theorem reconcile_leaves_no_orphan_witness:
  "map_of (st_runs (snd (reconcile_abandoned_runs demo_ctx ''5'' (demo_store []\<lparr>st_runs := [(''run'', Parsed demo_orphan)]\<rparr>)))) ''run'' =
     Some (Parsed (demo_orphan\<lparr>rn_status := Abandoned, rn_finished_at := ''5'', rn_lease := []\<rparr>))"
proof -
  let ?s = "demo_store []\<lparr>st_runs := [(''run'', Parsed demo_orphan)]\<rparr>"
  have e: "consume_scan_entry (cx_env demo_ctx) 0 = Inr 1"
    by (simp add: consume_scan_entry_def json_scan_max_entries_def positive_limit_def saturating_add_def u64_max_def demo_ctx_def env_ok_def Let_def)
  have x: "run_in_flight (rn_status demo_orphan)" "lease_is_expired demo_ctx (rn_lease demo_orphan) 53"
    by (simp_all add: demo_orphan_def run_in_flight_def lease_is_expired_def demo_times)
  have "\<exists>n t. reconcile_abandoned_runs demo_ctx ''5'' ?s = (Inr n, t)"
    by (simp add: reconcile_abandoned_runs_def demo_ops run_lock_def demo_times visit_runs_def peek_run_def e demo_store_def
        reconcile_run_def write_run_def x)
  then obtain n t where "reconcile_abandoned_runs demo_ctx ''5'' ?s = (Inr n, t)" by blast
  then show ?thesis using reconcile_leaves_no_orphan [of demo_ctx "''5''" ?s n t 53] x by (simp add: demo_times)
qed

end
