(* ===== verification/Conversation_Store.thy ===== *)
theory Conversation_Store
  imports Store_Properties
begin

text \<open>
  Conversations in the JSON store: flow names become distinct directory names, a saved conversation
  is read back when the decoded record is within its byte limit and refused otherwise, a stale
  writer is refused, and flows do not see each other's conversations.
\<close>

section \<open>Directory names of flows\<close>

text \<open>The inverse of the percent encoding; \<open>None\<close> on names it never produces.\<close>

definition hex_value :: "char \<Rightarrow> nat option" where
  "hex_value c = (if c \<in> set ''0123456789ABCDEF'' then Some (length (takeWhile (\<lambda>d. d \<noteq> c) ''0123456789ABCDEF'')) else None)"

fun unescape :: "string \<Rightarrow> string option" where
  "unescape [] = Some []"
| "unescape (c # cs) =
    (if c = CHR ''%'' then
       (case cs of
          h # l # rest \<Rightarrow>
            (case (hex_value h, hex_value l) of
               (Some a, Some b) \<Rightarrow> map_option (\<lambda>s. char_of (16 * a + b) # s) (unescape rest)
             | _ \<Rightarrow> None)
        | _ \<Rightarrow> None)
     else map_option (\<lambda>s. c # s) (unescape cs))"

lemma hex_value_upper: "n < 16 \<Longrightarrow> hex_value (hex_upper n) = Some n"
proof -
  assume "n < 16"
  then have "n \<in> {0, 1, 2, 3, 4, 5, 6, 7, 8, 9, 10, 11, 12, 13, 14, 15}" by simp arith
  then show ?thesis by (auto simp: hex_value_def hex_upper_def)
qed

lemma unescape_encode_byte: "unescape (encode_flow_byte c @ rest) = map_option (\<lambda>s. c # s) (unescape rest)"
proof (cases "is_ascii_alphanumeric c \<or> c \<in> set ''-_.''")
  case True
  then have "c \<noteq> CHR ''%''" by (auto simp: is_ascii_alphanumeric_def is_ascii_digit_def byte_def)
  then show ?thesis using True by (simp add: encode_flow_byte_def)
next
  case False
  have "byte c div 16 < 16" "byte c mod 16 < 16" using byte_lt [of c] by auto
  moreover have "char_of (16 * (byte c div 16) + byte c mod 16) = c" by (simp add: byte_def)
  ultimately show ?thesis using False by (simp add: encode_flow_byte_def hex_value_upper)
qed

lemma unescape_encode: "unescape (concat (map encode_flow_byte flow)) = Some flow"
  by (induction flow) (simp_all add: unescape_encode_byte)

lemma char_dot: "char_of (46 :: nat) = CHR ''.''"
  using char_of_char [of "CHR ''.''"] by simp

lemma component_cases:
  obtains (empty) "flow = []" "encode_flow_component sha flow = ''%E''"
    | (escaped) "unescape (encode_flow_component sha flow) = Some flow"
    | (hashed) "flow \<noteq> []" "encode_flow_component sha flow = ''%H'' @ hex_encode (sha flow)"
proof (cases "flow = [] \<or> flow = ''.'' \<or> flow = ''..''")
  case True
  then show ?thesis by (auto simp: encode_flow_component_def hex_value_def char_dot intro: that)
next
  case False
  then show ?thesis using that unescape_encode [of flow]
    by (cases "length (concat (map encode_flow_byte flow)) \<le> 240") (simp_all add: encode_flow_component_def Let_def)
qed

lemma unescape_reserved: "unescape ''%E'' = None" "unescape (''%H'' @ x) = None"
  by (simp, cases x) (simp_all add: hex_value_def)

lemma component_inj:
  assumes "encode_flow_component sha f = encode_flow_component sha g" "sha f = sha g \<Longrightarrow> f = g"
  shows "f = g"
proof (cases rule: component_cases [of f sha])
  case empty
  then show ?thesis using assms(1) unescape_reserved by (cases rule: component_cases [of g sha]) auto
next
  case escaped
  then show ?thesis using assms(1) unescape_reserved by (cases rule: component_cases [of g sha]) auto
next
  case hashed
  show ?thesis
  proof (cases rule: component_cases [of g sha])
    case h: hashed
    then have "hex_encode (sha f) = hex_encode (sha g)" using assms(1) hashed by simp
    then show ?thesis using hex_encode_inj assms(2) by blast
  qed (use hashed assms(1) unescape_reserved in auto)
qed

lemma conversation_path_inj:
  "conversation_file_path cx (Some f) i = conversation_file_path cx (Some g) j \<Longrightarrow> (cx_sha cx f = cx_sha cx g \<Longrightarrow> f = g) \<Longrightarrow> f = g \<and> i = j"
  using component_inj [of "cx_sha cx" f g] by (auto simp: conversation_file_path_def)

section \<open>What the text of a record keeps\<close>

text \<open>A record without the capacities of its strings and vectors, which JSON does not carry.\<close>

definition plain_buf :: "buf \<Rightarrow> buf" where
  "plain_buf b = b\<lparr>cap := 0\<rparr>"

definition plain_vec :: "('a \<Rightarrow> 'a) \<Rightarrow> 'a vec \<Rightarrow> 'a vec" where
  "plain_vec f v = \<lparr>items = map f (items v), vcap = 0\<rparr>"

fun plain_value :: "jvalue \<Rightarrow> jvalue" where
  "plain_value (VString s) = VString (plain_buf s)"
| "plain_value (VArray vs c) = VArray (map plain_value vs) 0"
| "plain_value (VObject kvs) = VObject (map (\<lambda>(k, v). (plain_buf k, plain_value v)) kvs)"
| "plain_value v = v"

definition plain_call :: "tool_call \<Rightarrow> tool_call" where
  "plain_call c = \<lparr>tc_id = plain_buf (tc_id c), tc_call_type = plain_buf (tc_call_type c), tc_name = plain_buf (tc_name c),
     tc_arguments = plain_buf (tc_arguments c)\<rparr>"

definition plain_image :: "image_input \<Rightarrow> image_input" where
  "plain_image i = \<lparr>im_mime_type = plain_buf (im_mime_type i), im_data = plain_buf (im_data i)\<rparr>"

definition plain_message :: "chat_message \<Rightarrow> chat_message" where
  "plain_message m = \<lparr>role = plain_buf (role m), content = map_option plain_buf (content m),
     tool_call_id = map_option plain_buf (tool_call_id m), tool_calls = map_option (plain_vec plain_call) (tool_calls m),
     images = map_option (plain_vec plain_image) (images m), raw_blocks = map_option (plain_vec plain_value) (raw_blocks m)\<rparr>"

definition same_content :: "conversation \<Rightarrow> conversation \<Rightarrow> bool" where
  "same_content d r \<longleftrightarrow>
     d\<lparr>cv_messages := map plain_message (cv_messages d)\<rparr> = r\<lparr>cv_messages := map plain_message (cv_messages r)\<rparr>"

text \<open>
  What \<open>serde_json\<close> does with the text of a record: it decodes to a record with the same contents.
\<close>

definition serde_round_trip :: "ctx \<Rightarrow> conversation \<Rightarrow> bool" where
  "serde_round_trip cx r \<longleftrightarrow> (case cx_decode cx (cx_json cx r) of Inl _ \<Rightarrow> False | Inr d \<Rightarrow> same_content d r)"

lemma same_content_fields:
  assumes "same_content d r"
  shows "cv_usage d = cv_usage r" "cv_id d = cv_id r" "cv_flow_path d = cv_flow_path r" "cv_execution d = cv_execution r"
    "cv_revision d = cv_revision r" "validate_metadata d = validate_metadata r"
    "map plain_message (cv_messages d) = map plain_message (cv_messages r)"
  using assms by (cases d; cases r; simp add: same_content_def validate_metadata_def)+

text \<open>The protocol looks at the contents only.\<close>

lemma collect_ids_plain: "collect_ids i ids (map plain_call cs) = collect_ids i ids cs"
  by (induction cs arbitrary: ids) (simp_all add: plain_call_def plain_buf_def)

lemma role_is_plain: "role_is r (plain_message m) = role_is r m"
  by (simp add: role_is_def plain_message_def plain_buf_def)

lemma protocol_step_plain: "protocol_step i (plain_message m) st = protocol_step i m st"
proof -
  have none: "content (plain_message m) = None \<longleftrightarrow> content m = None" "tool_call_id (plain_message m) = None \<longleftrightarrow> tool_call_id m = None"
    "tool_calls (plain_message m) = None \<longleftrightarrow> tool_calls m = None" "images (plain_message m) = None \<longleftrightarrow> images m = None"
    "raw_blocks (plain_message m) = None \<longleftrightarrow> raw_blocks m = None"
    by (simp_all add: plain_message_def)
  have "system_step i (plain_message m) st = system_step i m st" "user_step i (plain_message m) st = user_step i m st"
    by (simp_all add: system_step_def user_step_def none)
  moreover have "assistant_step i (plain_message m) st = assistant_step i m st"
    unfolding assistant_step_def none
    by (cases "tool_calls m") (simp_all add: plain_message_def plain_vec_def collect_ids_plain)
  moreover have "tool_step i (plain_message m) st = tool_step i m st"
    unfolding tool_step_def none
    by (cases "tool_call_id m"; cases "fst st") (simp_all add: plain_message_def plain_buf_def)
  moreover have "chars (role (plain_message m)) = chars (role m)" by (simp add: plain_message_def plain_buf_def)
  ultimately show ?thesis by (simp add: protocol_step_def role_is_plain)
qed

lemma protocol_from_plain: "protocol_from i st (map plain_message ms) = protocol_from i st ms"
  by (induction ms arbitrary: i st) (simp_all add: protocol_step_plain)

lemma protocol_plain: "validate_history_protocol (map plain_message ms) c = validate_history_protocol ms c"
  using protocol_from_plain [of 0 "(None, False)" ms]
  by (cases ms) (simp_all add: validate_history_protocol_def role_is_plain)

text \<open>So a record that may be written may be read exactly when the decoded one is not too large.\<close>

definition fits :: "ctx \<Rightarrow> conversation \<Rightarrow> bool" where
  "fits cx d \<longleftrightarrow> chat_history_estimated_bytes (cx_layout cx) (cv_messages d) \<le> history_max_bytes (cv_execution d)"

lemma written_record:
  assumes "validate_conversation_record_for_write ly show_error uuid r = Some (Inr ())"
  shows "validate_session_usage (cv_usage r) = Some (Inr ())" "validate_session_id (cv_id r) = Inr ()"
    "validate_metadata r = Inr ()" "validate_execution uuid (cv_execution r) = Inr ()"
    "check_caps (max_history (cv_execution r)) (history_max_bytes (cv_execution r)) = Inr ()"
    "length (cv_messages r) - 1 \<le> max_history (cv_execution r)" "validate_history_protocol (cv_messages r) True = Inr ()"
proof -
  show e: "validate_session_usage (cv_usage r) = Some (Inr ())" "validate_session_id (cv_id r) = Inr ()"
    "validate_metadata r = Inr ()" "validate_execution uuid (cv_execution r) = Inr ()"
    using assms by (auto simp: validate_conversation_record_for_write_def and_then_opt_def)
  have "validate_persisted_history ly show_error r = Inr ()"
    using assms e by (auto simp: validate_conversation_record_for_write_def and_then_opt_def)
  then have "validate_chat_history ly (cv_messages r) (max_history (cv_execution r)) (history_max_bytes (cv_execution r)) True = Inr ()"
    by (auto simp: validate_persisted_history_def split: sum.splits)
  then show "check_caps (max_history (cv_execution r)) (history_max_bytes (cv_execution r)) = Inr ()"
    "length (cv_messages r) - 1 \<le> max_history (cv_execution r)" "validate_history_protocol (cv_messages r) True = Inr ()"
    by (auto simp: validate_chat_history_def and_then_Inr_iff split: if_splits)
qed

lemma decoded_readable:
  assumes "validate_conversation_record_for_write (cx_layout cx) show_error uuid r = Some (Inr ())" "same_content d (r\<lparr>cv_revision := n\<rparr>)"
  shows "if fits cx d then validate_conversation_record_after_decode (cx_layout cx) show_error uuid d = Some (Inr ())
    else \<exists>e. validate_conversation_record_after_decode (cx_layout cx) show_error uuid d = Some (Inl (Validation e))"
proof -
  let ?c = "chat_history_estimated_bytes (cx_layout cx) (cv_messages d)"
  note w = written_record [OF assms(1)] and f = same_content_fields [OF assms(2), simplified]
  have meta: "validate_metadata (r\<lparr>cv_revision := n\<rparr>) = Inr ()" using w(3) by (simp add: validate_metadata_def)
  have len: "length (cv_messages d) = length (cv_messages r)" using arg_cong [OF f(7), of length] by simp
  have prot: "validate_history_protocol (cv_messages d) True = Inr ()"
    using w(7) protocol_plain [of "cv_messages d" True] protocol_plain [of "cv_messages r" True] f(7) by simp
  have lim: "1 \<le> max_history (cv_execution r)" "max_history (cv_execution r) \<le> 4096" "history_max_bytes (cv_execution r) \<le> 268435456"
    using execution_ok_limits [OF w(4)] by simp_all
  have count: "\<not> 4097 < length (cv_messages d)" using w(6) lim len by simp
  have ok: "is_ok (validate_execution uuid (cv_execution d))" using w(4) f(4) by (simp add: is_ok_def)
  have hist: "validate_chat_history (cx_layout cx) (cv_messages d) (max_history (cv_execution d)) (history_max_bytes (cv_execution d)) True =
      (if history_max_bytes (cv_execution r) < ?c then Inl (Validation (''chat history estimated footprint is '' @ dec ?c @
         '' bytes, exceeding the limit of '' @ dec (history_max_bytes (cv_execution r)) @ '' bytes'')) else Inr ())"
    using w(5,6) prot len f(4) by (simp add: validate_chat_history_def)
  show ?thesis
    using w(1,2) f meta count ok hist lim(3)
    by (auto simp: validate_conversation_record_after_decode_def and_then_opt_def validate_persisted_history_def fits_def)
qed

section \<open>Saving and reading\<close>

lemma active_pure: "pure_op (active_conversation_idempotency_exists cx flow i)"
  unfolding active_conversation_idempotency_exists_def by (intro pure_visit pure_intros)

lemma save_Inr:
  assumes "save_conversation cx cv s = (Inr n, t)"
  shows "validate_conversation_record_for_write (cx_layout cx) (cx_show_error cx) (cx_uuid cx) cv = Some (Inr ()) \<and> n = cv_revision cv + 1 \<and>
    t = s\<lparr>st_conversations := AList.update (conversation_file_path cx (cv_flow_path cv) (cv_id cv)) (Text (cx_json cx (cv\<lparr>cv_revision := n\<rparr>))) (st_conversations s)\<rparr> \<and>
    length (cx_json cx (cv\<lparr>cv_revision := n\<rparr>)) \<le> json_record_max_bytes (cx_env cx) \<and>
    preflight_conversation_record_json (cx_json cx (cv\<lparr>cv_revision := n\<rparr>)) = Inr () \<and>
    (\<exists>current. load_conversation_file cx (conversation_file_path cx (cv_flow_path cv) (cv_id cv)) (cv_id cv) s = (Inr current, s) \<and>
      (\<forall>saved. current = Some saved \<longrightarrow> cv_revision saved = cv_revision cv \<and> cv_execution saved = cv_execution cv))"
proof -
  have active: "active_conversation_idempotency_exists cx flow i v = (Inr b, w) \<Longrightarrow> w = v" for flow i v b w
    using active_pure [of cx flow i] unfolding pure_op_def by (metis snd_conv)
  have lock: "store_lock v = (Inr x, w) \<Longrightarrow> w = v" for v w and x :: unit
    by (auto simp: store_lock_def lock_def split: if_split_asm)
  have panic: "lift_panic cx r = Inr () \<Longrightarrow> r = Some (Inr ())" for r by (auto simp: lift_panic_def split: option.split_asm)
  let ?p = "conversation_file_path cx (cv_flow_path cv) (cv_id cv)"
  from assms obtain current u where v: "lift_panic cx (validate_conversation_record_for_write (cx_layout cx) (cx_show_error cx) (cx_uuid cx) cv) = Inr ()"
    and l: "load_conversation_file cx ?p (cv_id cv) s = (Inr current, u)"
    and c: "\<not> (case current of Some saved \<Rightarrow> cv_revision saved \<noteq> cv_revision cv \<or> cv_execution saved \<noteq> cv_execution cv
           | None \<Rightarrow> cv_revision cv \<noteq> 0)"
    and n: "(case checked_add (cv_revision cv) 1 of Some n \<Rightarrow> Inr n
             | None \<Rightarrow> Inl (Validation ''Conversation revision overflow'')) = Inr n"
    and w: "write_conversation cx ?p (cv\<lparr>cv_revision := n\<rparr>) u = (Inr (), t)"
    unfolding save_conversation_def Let_def by (auto simp: op_Inr if_op_Inr failing_Inr dest!: active lock)
  have "u = s" using l by (simp add: load_conversation_file_def)
  moreover have "n = cv_revision cv + 1" using n by (auto simp: checked_add_def split: option.split_asm if_split_asm)
  moreover have "t = u\<lparr>st_conversations := AList.update ?p (Text (cx_json cx (cv\<lparr>cv_revision := n\<rparr>))) (st_conversations u)\<rparr> \<and>
      length (cx_json cx (cv\<lparr>cv_revision := n\<rparr>)) \<le> json_record_max_bytes (cx_env cx) \<and>
      preflight_conversation_record_json (cx_json cx (cv\<lparr>cv_revision := n\<rparr>)) = Inr ()"
    using w by (auto simp: write_conversation_def published_def serialize_json_record_def Let_def and_then_Inr_iff
        split: option.split_asm fault.split_asm sum.split_asm if_split_asm)
  ultimately show ?thesis using panic [OF v] l c by auto
qed

text \<open>
  C26. What happens to a conversation saved under a flow. It is stored with the next revision,
  and its text decodes to a record with the same contents. If the memory estimate of the decoded
  record, which depends on the capacities the decoder allocates, is within the limit of the
  conversation, reading returns that record, and nobody who still holds another revision of
  it, or another execution identity, can overwrite it. If it is beyond the limit, every read of
  the conversation and every later save of it is refused, although the save succeeded.\<close>
theorem saved_conversation_read_back:
  assumes "save_conversation cx cv s = (Inr n, t)" "cv_flow_path cv = Some flow"
    and "serde_round_trip cx (cv\<lparr>cv_revision := n\<rparr>)"
  shows "n = cv_revision cv + 1 \<and>
    (\<exists>d. cx_decode cx (cx_json cx (cv\<lparr>cv_revision := n\<rparr>)) = Inr d \<and> same_content d (cv\<lparr>cv_revision := n\<rparr>) \<and>
      (if fits cx d then
         get_conversation cx (Some flow) (cv_id cv) t = (Inr (Some d), t) \<and>
         (\<forall>cv' m u. cv_id cv' = cv_id cv \<longrightarrow> cv_flow_path cv' = Some flow \<longrightarrow>
            cv_revision cv' \<noteq> n \<or> cv_execution cv' \<noteq> cv_execution cv \<longrightarrow> save_conversation cx cv' t \<noteq> (Inr m, u))
       else
         (\<exists>e. get_conversation cx (Some flow) (cv_id cv) t = (Inl (Validation e), t)) \<and>
         (\<forall>cv' m u. cv_id cv' = cv_id cv \<longrightarrow> cv_flow_path cv' = Some flow \<longrightarrow> save_conversation cx cv' t \<noteq> (Inr m, u))))"
proof -
  let ?p = "conversation_file_path cx (Some flow) (cv_id cv)" and ?cv = "cv\<lparr>cv_revision := n\<rparr>"
  obtain d where d: "cx_decode cx (cx_json cx ?cv) = Inr d" "same_content d ?cv"
    using assms(3) by (auto simp: serde_round_trip_def split: sum.split_asm)
  have w: "validate_conversation_record_for_write (cx_layout cx) (cx_show_error cx) (cx_uuid cx) cv = Some (Inr ())" "n = cv_revision cv + 1"
    "map_of (st_conversations t) ?p = Some (Text (cx_json cx ?cv))"
    "length (cx_json cx ?cv) \<le> json_record_max_bytes (cx_env cx)" "preflight_conversation_record_json (cx_json cx ?cv) = Inr ()"
    using save_Inr [OF assms(1)] assms(2) by (auto simp: update_conv')
  note f = same_content_fields [OF d(2)] and r = decoded_readable [OF w(1) d(2)]
  have load: "load_conversation_file cx ?p i t =
      (and_then (lift_panic cx (validate_conversation_record_after_decode (cx_layout cx) (cx_show_error cx) (cx_uuid cx) d))
        (\<lambda>_. Inr (Some d)), t)" for i
    using w(3-5) d(1) by (simp add: load_conversation_file_def read_json_record_def Let_def)
  have id: "validate_session_id (cv_id cv) = Inr ()" by (rule written_record(2) [OF w(1)])
  have get: "get_conversation cx (Some flow) (cv_id cv) t =
      (case load_conversation_file cx ?p (cv_id cv) t of (Inl e, _) \<Rightarrow> (Inl e, t) | (Inr _, _) \<Rightarrow> (Inr (Some d), t))"
    using assms(2) id f(3) by (auto simp: get_conversation_def bnd_def lift_def ret_def load and_then_Inr_iff split: sum.splits option.splits)
  have refused: "save_conversation cx cv' t \<noteq> (Inr m, u)"
    if "cv_id cv' = cv_id cv" "cv_flow_path cv' = Some flow"
      "\<not> fits cx d \<or> cv_revision cv' \<noteq> n \<or> cv_execution cv' \<noteq> cv_execution cv" for cv' m u
    using save_Inr [of cx cv' t m u] that r load f(4,5) by (auto simp: lift_panic_def split: if_split_asm)
  show ?thesis
  proof (cases "fits cx d")
    case True
    then show ?thesis using w(2) d get r refused by (auto simp: load lift_panic_def)
  next
    case False
    then show ?thesis using w(2) d get r refused by (auto simp: load lift_panic_def)
  qed
qed

lemma demo_saved:
  "\<exists>t. save_conversation demo_ctx demo_conversation (demo_store []) = (Inr 1, t)"
proof -
  have c: "cx_layout demo_ctx = unit_layout" "cx_show_error demo_ctx = (\<lambda>_. [])" "cx_uuid demo_ctx = demo_uuid"
    "cx_json demo_ctx = (\<lambda>_. ''{}'')" "cx_env demo_ctx = (\<lambda>_. NotPresent)" by (simp_all add: demo_ctx_def)
  have r: "cv_revision demo_conversation = 0" by (simp add: demo_conversation_def)
  show ?thesis
    by (simp add: save_conversation_def c demo_conversation_ok lift_panic_def demo_ops active_conversation_idempotency_exists_def
        demo_store_def load_conversation_file_def r checked_add_def u64_max_def write_conversation_def serialize_json_record_def
        json_record_max_bytes_def positive_limit_def env_ok_def preflight_empty_object)
qed

theorem saved_conversation_read_back_witness:
  "get_conversation demo_ctx (Some ''f'') ''chat'' (snd (save_conversation demo_ctx demo_conversation (demo_store []))) =
     (Inr (Some demo_decoded), snd (save_conversation demo_ctx demo_conversation (demo_store [])))"
proof -
  obtain t where "save_conversation demo_ctx demo_conversation (demo_store []) = (Inr 1, t)" using demo_saved by blast
  moreover have "cv_flow_path demo_conversation = Some ''f''" "cv_id demo_conversation = ''chat''" by (simp_all add: demo_conversation_def)
  moreover have dec: "cx_decode demo_ctx x = Inr demo_decoded" for x by (simp add: demo_ctx_def)
  moreover have "same_content demo_decoded (demo_conversation\<lparr>cv_revision := 1\<rparr>)"
    by (simp add: same_content_def demo_decoded_def demo_conversation_def system_message_def exact_buf_def plain_message_def plain_buf_def)
  then have "serde_round_trip demo_ctx (demo_conversation\<lparr>cv_revision := 1\<rparr>)" by (simp add: serde_round_trip_def dec)
  moreover have "fits demo_ctx demo_decoded"
    by (simp add: fits_def demo_decoded_def demo_conversation_def demo_execution_def demo_ctx_def chat_history_estimated_bytes_def
        history_bytes_from_def estimated_bytes_def vec_bytes_def opt_cap_def saturating_add_def u64_max_def system_message_def
        exact_buf_def unit_layout_def)
  ultimately show ?thesis using saved_conversation_read_back [of demo_ctx demo_conversation "demo_store []" 1 t "''f''"] by simp
qed

text \<open>
  C27. Flows do not see each other's conversations: unless SHA-256 maps the two flow names to the same
  digest, saving a conversation of one flow, successfully or not, leaves what any other flow, or
  the same flow under another identifier, reads unchanged.\<close>
theorem conversations_isolated:
  assumes "cv_flow_path cv = Some flow" "(flow', ident) \<noteq> (flow, cv_id cv)" "cx_sha cx flow = cx_sha cx flow' \<Longrightarrow> flow = flow'"
  shows "fst (get_conversation cx (Some flow') ident (snd (save_conversation cx cv s))) = fst (get_conversation cx (Some flow') ident s)"
proof -
  let ?p = "conversation_file_path cx (Some flow') ident"
  have "?p \<noteq> conversation_file_path cx (Some flow) (cv_id cv)" using conversation_path_inj [of cx flow "cv_id cv" flow' ident] assms by auto
  then have w: "keeps (\<lambda>u. map_of (st_conversations u) ?p = f) (write_conversation cx (conversation_file_path cx (Some flow) (cv_id cv)) x)" for f x
    by (auto simp: keeps_def write_conversation_def published_def update_conv' split: option.splits fault.splits sum.splits)
  have a: "keeps P (active_conversation_idempotency_exists cx g i)" for P g i
    using active_pure by (simp add: keeps_def pure_op_def)
  have "keeps (\<lambda>u. map_of (st_conversations u) ?p = f) (save_conversation cx cv)" for f
    unfolding save_conversation_def Let_def assms(1) by (intro w a keeps_bnd keeps_if keeps_lift keeps_ret keeps_failing keeps_lock keeps_reads)
  then have "map_of (st_conversations (snd (save_conversation cx cv s))) ?p = map_of (st_conversations s) ?p" by (simp add: keeps_def)
  then have "fst (load_conversation_file cx ?p ident (snd (save_conversation cx cv s))) = fst (load_conversation_file cx ?p ident s)"
    by (simp add: load_conversation_file_def)
  then show ?thesis by (simp add: get_conversation_def bnd_def lift_def ret_def load_conversation_file_def split: sum.splits)
qed

theorem conversations_isolated_witness:
  "fst (get_conversation demo_ctx (Some ''a?b'') ''chat'' (snd (save_conversation demo_ctx (demo_conversation\<lparr>cv_flow_path := Some ''a+b''\<rparr>) (demo_store [])))) =
     fst (get_conversation demo_ctx (Some ''a?b'') ''chat'' (demo_store []))"
  by (rule conversations_isolated [where flow = "''a+b''"]) (simp_all add: demo_ctx_def)

end
