(* ===== verification/Run_Events.thy ===== *)
theory Run_Events
  imports Store_Base
begin

text \<open>
  The storage-neutral types of the run-event journal (\<open>src/src/engine/run_events.rs\<close>,
  \<open>engine/run_events/terminal.rs\<close>, \<open>engine/run_event_timing.rs\<close>): the configuration and its checks,
  the timing of a write, cursors as clients send them, batches of events to append, the bounds of
  the retained window, gaps and pages.

  A \<open>Duration\<close> is its number of nanoseconds. The text \<open>serde_json\<close> writes for a value and the
  verdict of \<open>chrono\<close> on a time stamp are parameters.
\<close>

section \<open>Durations\<close>

definition nanos_per_sec :: nat where
  "nanos_per_sec = 1000000000"

definition duration_max :: nat where
  "duration_max = u64_max * nanos_per_sec + (nanos_per_sec - 1)"

definition from_secs :: "nat \<Rightarrow> nat" where
  "from_secs n = n * nanos_per_sec"

definition from_millis :: "nat \<Rightarrow> nat" where
  "from_millis n = n * 1000000"

definition as_millis :: "nat \<Rightarrow> nat" where
  "as_millis d = d div 1000000"

definition duration_of :: "nat \<Rightarrow> nat option" where
  "duration_of d = (if d \<le> duration_max then Some d else None)"

definition duration_mul :: "nat \<Rightarrow> nat \<Rightarrow> nat option" where
  "duration_mul d k = duration_of (d * k)"

definition duration_add :: "nat \<Rightarrow> nat \<Rightarrow> nat option" where
  "duration_add d e = duration_of (d + e)"

definition duration_div :: "nat \<Rightarrow> nat \<Rightarrow> nat option" where
  "duration_div d k = (if k = 0 then None else Some (d div k))"

section \<open>Timing of a journal write\<close>

record write_timing =
  wt_attempt :: nat
  wt_database :: nat
  wt_retry_window :: nat
  wt_acknowledgement :: nat

definition append_max_attempts :: nat where
  "append_max_attempts = 3"

text \<open>A shift by 32 or more is \<open>checked_shl\<close>'s \<open>None\<close>; the attempts here never reach it.\<close>

definition retry_backoff_after :: "nat \<Rightarrow> nat option" where
  "retry_backoff_after completed =
    (if completed = 0 \<or> append_max_attempts \<le> completed then None
     else if 32 \<le> completed - 1 then None
     else duration_mul (from_millis 50) (2 ^ (completed - 1)))"

fun add_backoffs :: "nat list \<Rightarrow> nat \<Rightarrow> nat option" where
  "add_backoffs [] w = Some w"
| "add_backoffs (a # as) w =
     Option.bind (retry_backoff_after a) (\<lambda>b. Option.bind (duration_add w b) (add_backoffs as))"

definition write_timing_checked :: "nat \<Rightarrow> write_timing option" where
  "write_timing_checked attempt_timeout =
    (if attempt_timeout = 0 then None
     else
       Option.bind (Option.bind (duration_mul attempt_timeout 4) (\<lambda>d. duration_div d 5)) (\<lambda>database_timeout.
       if database_timeout = 0 \<or> attempt_timeout \<le> database_timeout then None
       else
         Option.bind (duration_mul attempt_timeout append_max_attempts) (\<lambda>w.
         Option.bind (add_backoffs [1..<append_max_attempts] w) (\<lambda>retry_window.
         Option.bind (duration_add retry_window (from_millis 500)) (\<lambda>acknowledgement.
         Some \<lparr>wt_attempt = attempt_timeout, wt_database = database_timeout,
               wt_retry_window = retry_window, wt_acknowledgement = acknowledgement\<rparr>)))))"

section \<open>Configuration\<close>

record journal_config =
  jc_max_events_per_run :: nat
  jc_max_bytes_per_run :: nat
  jc_max_event_bytes :: nat
  jc_retention :: nat
  jc_max_total_events :: nat
  jc_max_total_bytes :: nat
  jc_page_max_events :: nat
  jc_page_max_bytes :: nat
  jc_poll_interval :: nat
  jc_read_timeout :: nat
  jc_write_timeout :: nat
  jc_prune_batch :: nat

definition default_journal_config :: journal_config where
  "default_journal_config =
    \<lparr>jc_max_events_per_run = 1000, jc_max_bytes_per_run = 4 * 1024 * 1024, jc_max_event_bytes = 256 * 1024,
     jc_retention = from_secs 3600, jc_max_total_events = 100000, jc_max_total_bytes = 256 * 1024 * 1024,
     jc_page_max_events = 64, jc_page_max_bytes = 512 * 1024, jc_poll_interval = from_millis 500,
     jc_read_timeout = from_millis 2000, jc_write_timeout = from_millis 1500, jc_prune_batch = 1000\<rparr>"

definition config_error :: "string \<Rightarrow> iron_error" where
  "config_error message = Validation (''Invalid run-event journal configuration: '' @ message)"

definition validate_range :: "string \<Rightarrow> nat \<Rightarrow> nat \<Rightarrow> nat \<Rightarrow> (iron_error, unit) result" where
  "validate_range lbl value lo hi =
     ensure (lo \<le> value \<and> value \<le> hi) (config_error (lbl @ '' must be between '' @ dec lo @ '' and '' @ dec hi))"

definition validate_duration_secs :: "string \<Rightarrow> nat \<Rightarrow> nat \<Rightarrow> nat \<Rightarrow> (iron_error, unit) result" where
  "validate_duration_secs lbl value lo hi =
     and_then (ensure (value mod nanos_per_sec = 0) (config_error (lbl @ '' must use whole seconds'')))
       (\<lambda>_. validate_range lbl (value div nanos_per_sec) lo hi)"

definition validate_duration_millis :: "string \<Rightarrow> nat \<Rightarrow> nat \<Rightarrow> nat \<Rightarrow> (iron_error, unit) result" where
  "validate_duration_millis lbl value lo hi =
     and_then (ensure (as_millis value \<le> u64_max \<and> from_millis (as_millis value) = value)
         (config_error (lbl @ '' must use whole milliseconds'')))
       (\<lambda>_. validate_range lbl (as_millis value) lo hi)"

definition validate_config :: "journal_config \<Rightarrow> (iron_error, unit) result" where
  "validate_config c =
    and_then (validate_range ''max_events_per_run'' (jc_max_events_per_run c) 1 10000) (\<lambda>_.
    and_then (validate_range ''max_bytes_per_run'' (jc_max_bytes_per_run c) 1024 (64 * 1024 * 1024)) (\<lambda>_.
    and_then (validate_range ''max_event_bytes'' (jc_max_event_bytes c) 1024 (16 * 1024 * 1024)) (\<lambda>_.
    and_then (validate_duration_secs ''retention'' (jc_retention c) 60 (30 * 24 * 60 * 60)) (\<lambda>_.
    and_then (validate_range ''max_total_events'' (jc_max_total_events c) 1 10000000) (\<lambda>_.
    and_then (validate_range ''max_total_bytes'' (jc_max_total_bytes c) 1024 (8 * 1024 * 1024 * 1024)) (\<lambda>_.
    and_then (validate_range ''page_max_events'' (jc_page_max_events c) 1 64) (\<lambda>_.
    and_then (validate_range ''page_max_bytes'' (jc_page_max_bytes c) 1024 (64 * 1024 * 1024)) (\<lambda>_.
    and_then (validate_duration_millis ''poll_interval'' (jc_poll_interval c) 100 5000) (\<lambda>_.
    and_then (validate_duration_millis ''read_timeout'' (jc_read_timeout c) 100 30000) (\<lambda>_.
    and_then (validate_duration_millis ''write_timeout'' (jc_write_timeout c) 100 5000) (\<lambda>_.
    and_then (ensure (write_timing_checked (jc_write_timeout c) \<noteq> None)
      (config_error ''write_timeout timing arithmetic overflow'')) (\<lambda>_.
    and_then (validate_range ''prune_batch'' (jc_prune_batch c) 1 10000) (\<lambda>_.
    and_then (ensure (jc_max_event_bytes c \<le> jc_max_bytes_per_run c)
      (config_error ''max_event_bytes cannot exceed max_bytes_per_run'')) (\<lambda>_.
    and_then (ensure (jc_max_event_bytes c \<le> jc_page_max_bytes c)
      (config_error ''page_max_bytes must be at least max_event_bytes'')) (\<lambda>_.
    and_then (ensure (jc_max_events_per_run c \<le> jc_max_total_events c)
      (config_error ''max_events_per_run cannot exceed max_total_events'')) (\<lambda>_.
    and_then (ensure (jc_max_bytes_per_run c \<le> jc_max_total_bytes c)
      (config_error ''max_bytes_per_run cannot exceed max_total_bytes'')) (\<lambda>_.
    and_then (ensure (jc_page_max_events c \<le> jc_max_events_per_run c)
      (config_error ''page_max_events cannot exceed max_events_per_run'')) (\<lambda>_.
    ensure (jc_prune_batch c \<le> jc_max_total_events c)
      (config_error ''prune_batch cannot exceed max_total_events'')))))))))))))))))))"

definition config_from_env :: "env \<Rightarrow> (iron_error, journal_config) result" where
  "config_from_env env =
    and_then (bounded_env env ''IRONCREW_MAX_EVENTS'' 1000 1 10000) (\<lambda>max_events_per_run.
    and_then (bounded_env env ''IRONCREW_EVENT_REPLAY_MAX_BYTES'' (4 * 1024 * 1024) 1024 (64 * 1024 * 1024)) (\<lambda>max_bytes_per_run.
    and_then (bounded_env env ''IRONCREW_EVENT_MAX_BYTES'' (256 * 1024) 1024 (16 * 1024 * 1024)) (\<lambda>max_event_bytes.
    and_then (bounded_env env ''IRONCREW_EVENT_JOURNAL_RETENTION_SECS'' 3600 60 (30 * 24 * 60 * 60)) (\<lambda>retention_secs.
    and_then (bounded_env env ''IRONCREW_EVENT_JOURNAL_MAX_TOTAL_EVENTS'' 100000 1 10000000) (\<lambda>max_total_events.
    and_then (bounded_env env ''IRONCREW_EVENT_JOURNAL_MAX_TOTAL_BYTES'' (256 * 1024 * 1024) 1024 (8 * 1024 * 1024 * 1024)) (\<lambda>max_total_bytes.
    let default_page_bytes = max (512 * 1024) max_event_bytes in
    and_then (bounded_env env ''IRONCREW_EVENT_JOURNAL_PAGE_MAX_BYTES'' default_page_bytes 1024 (64 * 1024 * 1024)) (\<lambda>page_max_bytes.
    and_then (bounded_env env ''IRONCREW_EVENT_JOURNAL_POLL_INTERVAL_MS'' 500 100 5000) (\<lambda>poll_interval_ms.
    and_then (bounded_env env ''IRONCREW_EVENT_JOURNAL_READ_TIMEOUT_MS'' 2000 100 30000) (\<lambda>read_timeout_ms.
    and_then (bounded_env env ''IRONCREW_EVENT_JOURNAL_WRITE_TIMEOUT_MS'' 1500 100 5000) (\<lambda>write_timeout_ms.
    and_then (bounded_env env ''IRONCREW_EVENT_JOURNAL_PRUNE_BATCH'' 1000 1 10000) (\<lambda>prune_batch.
    let config = \<lparr>jc_max_events_per_run = max_events_per_run, jc_max_bytes_per_run = max_bytes_per_run,
      jc_max_event_bytes = max_event_bytes, jc_retention = from_secs retention_secs,
      jc_max_total_events = max_total_events, jc_max_total_bytes = max_total_bytes,
      jc_page_max_events = min max_events_per_run 64, jc_page_max_bytes = page_max_bytes,
      jc_poll_interval = from_millis poll_interval_ms, jc_read_timeout = from_millis read_timeout_ms,
      jc_write_timeout = from_millis write_timeout_ms, jc_prune_batch = prune_batch\<rparr>
    in and_then (validate_config config) (\<lambda>_. Inr config))))))))))))"

section \<open>Bounds of the retained window\<close>

record event_bounds =
  bd_earliest :: "nat option"
  bd_latest :: nat
  bd_dropped :: nat
  bd_events :: nat
  bd_bytes :: nat
  bd_complete :: bool

definition empty_bounds :: event_bounds where
  "empty_bounds = \<lparr>bd_earliest = None, bd_latest = 0, bd_dropped = 0, bd_events = 0, bd_bytes = 0, bd_complete = True\<rparr>"

definition validate_sequence :: "nat \<Rightarrow> (iron_error, unit) result" where
  "validate_sequence n = ensure (n \<noteq> 0) (Validation ''Run-event sequence must be greater than zero'')"

definition validate_bounds :: "event_bounds \<Rightarrow> (iron_error, unit) result" where
  "validate_bounds b =
    and_then (ensure (bd_dropped b \<le> bd_latest b)
      (Validation ''Run-event dropped boundary exceeds the latest sequence'')) (\<lambda>_.
    and_then (case bd_earliest b of
        Some earliest \<Rightarrow>
          and_then (validate_sequence earliest) (\<lambda>_.
          and_then (ensure (bd_events b \<noteq> 0)
            (Validation ''Run-event bounds have an earliest event but zero retained events'')) (\<lambda>_.
          ensure (bd_dropped b < earliest \<and> earliest \<le> bd_latest b)
            (Validation ''Run-event earliest retained sequence is outside its bounds'')))
      | None \<Rightarrow> ensure (bd_events b = 0 \<and> bd_bytes b = 0)
            (Validation ''Run-event empty bounds retain count or bytes'')) (\<lambda>_.
    ensure (\<not> (0 < bd_events b \<and> bd_bytes b = 0))
      (Validation ''Run-event retained entries must account for payload bytes'')))"

section \<open>Cursors\<close>

datatype cursor_error =
    CursorTooLong nat
  | CursorNonAscii
  | CursorMalformed
  | CursorInvalidRunId
  | CursorInvalidSequence
  | CursorNonCanonicalSequence
  | CursorSequenceOverflow
  | CursorZeroSequence
  | CursorCrossRun
  | CursorAhead nat
  | CursorExpired nat

record cursor =
  cu_run_id :: string
  cu_sequence :: nat

definition max_cursor_bytes :: nat where
  "max_cursor_bytes = 128 + 1 + 20"

definition validate_cursor_run_id :: "string \<Rightarrow> (cursor_error, unit) result" where
  "validate_cursor_run_id run_id = (case validate_run_id run_id of Inl _ \<Rightarrow> Inl CursorInvalidRunId | Inr _ \<Rightarrow> Inr ())"

definition new_cursor :: "string \<Rightarrow> nat \<Rightarrow> (cursor_error, cursor) result" where
  "new_cursor run_id sequence =
    and_then (validate_cursor_run_id run_id) (\<lambda>_.
    if sequence = 0 then Inl CursorZeroSequence else Inr \<lparr>cu_run_id = run_id, cu_sequence = sequence\<rparr>)"

text \<open>\<open>str::split_once\<close> at an ASCII character.\<close>

definition split_once :: "char \<Rightarrow> string \<Rightarrow> (string \<times> string) option" where
  "split_once d s = (case dropWhile (\<lambda>c. c \<noteq> d) s of [] \<Rightarrow> None | _ # rest \<Rightarrow> Some (takeWhile (\<lambda>c. c \<noteq> d) s, rest))"

definition parse_cursor :: "string \<Rightarrow> (cursor_error, cursor) result" where
  "parse_cursor value =
    (if max_cursor_bytes < length value then Inl (CursorTooLong max_cursor_bytes)
     else (case split_once (CHR '':'') value of
         None \<Rightarrow> Inl CursorMalformed
       | Some (run_id, raw_sequence) \<Rightarrow>
          (if CHR '':'' \<in> set run_id \<or> CHR '':'' \<in> set raw_sequence \<or> raw_sequence = [] then Inl CursorMalformed
           else
             and_then (validate_cursor_run_id run_id) (\<lambda>_.
             if \<not> list_all is_ascii_digit raw_sequence then Inl CursorInvalidSequence
             else if 1 < length raw_sequence \<and> hd raw_sequence = CHR ''0'' then Inl CursorNonCanonicalSequence
             else (case parse_uint u64_max raw_sequence of
                 None \<Rightarrow> Inl CursorSequenceOverflow
               | Some sequence \<Rightarrow> new_cursor run_id sequence)))))"

definition parse_cursor_for_run :: "string \<Rightarrow> string \<Rightarrow> (cursor_error, cursor) result" where
  "parse_cursor_for_run value expected_run_id =
    and_then (validate_cursor_run_id expected_run_id) (\<lambda>_.
    and_then (parse_cursor value) (\<lambda>cursor.
    if cu_run_id cursor \<noteq> expected_run_id then Inl CursorCrossRun else Inr cursor))"

definition show_cursor :: "cursor \<Rightarrow> string" where
  "show_cursor c = cu_run_id c @ '':'' @ dec (cu_sequence c)"

definition validate_against :: "cursor \<Rightarrow> event_bounds \<Rightarrow> (cursor_error, unit) result" where
  "validate_against c b =
    (if bd_latest b < cu_sequence c then Inl (CursorAhead (bd_latest b))
     else if cu_sequence c < bd_dropped b then Inl (CursorExpired (bd_dropped b))
     else Inr ())"

section \<open>Events and batches\<close>

record append_entry =
  ae_sequence :: nat
  ae_event_type :: string
  ae_payload :: json
  ae_payload_bytes :: nat

definition validate_event_type :: "string \<Rightarrow> (iron_error, unit) result" where
  "validate_event_type event_type =
     ensure (event_type \<noteq> [] \<and> length event_type \<le> 64 \<and>
         list_all (\<lambda>c. 97 \<le> byte c \<and> byte c \<le> 122 \<or> is_ascii_digit c \<or> c = CHR ''_'') event_type)
       (Validation ''Run-event type must be 1-64 lowercase ASCII alphanumeric/underscore bytes'')"

definition as_str :: "json \<Rightarrow> string option" where
  "as_str v = (case v of JString s \<Rightarrow> Some s | _ \<Rightarrow> None)"

definition validate_payload_event_type :: "json \<Rightarrow> string \<Rightarrow> (iron_error, unit) result" where
  "validate_payload_event_type payload event_type =
     ensure (Option.bind (json_get payload ''event'') as_str = Some event_type)
       (Validation ''Run-event payload tag does not match its event type'')"

definition validate_flow :: "string \<Rightarrow> (iron_error, unit) result" where
  "validate_flow flow =
     ensure (flow \<noteq> [] \<and> length flow \<le> 255 \<and> \<not> list_ex is_control (chars_of flow) \<and> flow \<noteq> ''.'' \<and> flow \<noteq> ''..'')
       (Validation (''Run-event flow must be 1-255 non-control UTF-8 bytes and not '' @ quoted ''.'' @ '' or '' @ quoted ''..''))"

definition validate_owner_instance_id :: "string \<Rightarrow> (iron_error, unit) result" where
  "validate_owner_instance_id owner =
     ensure (owner \<noteq> [] \<and> length owner \<le> 255 \<and> list_all (\<lambda>c. 32 \<le> byte c \<and> byte c < 127) owner)
       (Validation ''Run-event owner instance id must be 1-255 printable ASCII bytes'')"

type_synonym json_writer = "json \<Rightarrow> (string, string) result"

definition serialized_json_size :: "json_writer \<Rightarrow> json \<Rightarrow> (iron_error, nat) result" where
  "serialized_json_size ser v = (case ser v of
     Inl e \<Rightarrow> Inl (Validation (''Failed to size run-event payload: '' @ e))
   | Inr out \<Rightarrow> Inr (min (length out) u64_max))"

definition validate_append_entry :: "json_writer \<Rightarrow> nat \<Rightarrow> append_entry \<Rightarrow> (iron_error, unit) result" where
  "validate_append_entry ser max_event_bytes e =
    and_then (validate_sequence (ae_sequence e)) (\<lambda>_.
    and_then (validate_event_type (ae_event_type e)) (\<lambda>_.
    and_then (validate_payload_event_type (ae_payload e) (ae_event_type e)) (\<lambda>_.
    and_then (serialized_json_size ser (ae_payload e)) (\<lambda>actual_bytes.
    and_then (ensure (ae_payload_bytes e = actual_bytes)
      (Validation ''Run-event payload byte count does not match its serialized size'')) (\<lambda>_.
    ensure (actual_bytes \<le> max_event_bytes)
      (Validation (''Run-event payload exceeds the '' @ dec max_event_bytes @ ''-byte limit'')))))))"

definition new_append_entry :: "json_writer \<Rightarrow> nat \<Rightarrow> string \<Rightarrow> json \<Rightarrow> nat \<Rightarrow> (iron_error, append_entry) result" where
  "new_append_entry ser sequence event_type payload max_event_bytes =
    and_then (serialized_json_size ser payload) (\<lambda>payload_bytes.
    let entry = \<lparr>ae_sequence = sequence, ae_event_type = event_type, ae_payload = payload, ae_payload_bytes = payload_bytes\<rparr>
    in and_then (validate_append_entry ser max_event_bytes entry) (\<lambda>_. Inr entry))"

record append_batch =
  ab_run_id :: string
  ab_flow :: string
  ab_owner :: string
  ab_entries :: "append_entry list"

fun validate_batch_entries :: "json_writer \<Rightarrow> nat \<Rightarrow> nat \<Rightarrow> nat \<Rightarrow> append_entry list \<Rightarrow> (iron_error, nat) result" where
  "validate_batch_entries ser max_event_bytes previous total_bytes [] = Inr total_bytes"
| "validate_batch_entries ser max_event_bytes previous total_bytes (e # es) =
     and_then (validate_append_entry ser max_event_bytes e) (\<lambda>_.
     if ae_sequence e \<le> previous
     then Inl (Validation ''Run-event append sequences must be strictly increasing'')
     else (case checked_add total_bytes (ae_payload_bytes e) of
         None \<Rightarrow> Inl (Validation ''Run-event batch size overflow'')
       | Some total_bytes' \<Rightarrow> validate_batch_entries ser max_event_bytes (ae_sequence e) total_bytes' es))"

definition validate_batch :: "json_writer \<Rightarrow> journal_config \<Rightarrow> append_batch \<Rightarrow> (iron_error, unit) result" where
  "validate_batch ser c b =
    and_then (validate_config c) (\<lambda>_.
    and_then (validate_run_id (ab_run_id b)) (\<lambda>_.
    and_then (validate_flow (ab_flow b)) (\<lambda>_.
    and_then (validate_owner_instance_id (ab_owner b)) (\<lambda>_.
    and_then (ensure (ab_entries b \<noteq> [])
      (Validation ''Run-event append batch must contain at least one event'')) (\<lambda>_.
    and_then (ensure (length (ab_entries b) \<le> jc_max_events_per_run c)
      (Validation (''Run-event append batch exceeds the '' @ dec (jc_max_events_per_run c) @ ''-event per-run limit''))) (\<lambda>_.
    and_then (validate_batch_entries ser (jc_max_event_bytes c) 0 0 (ab_entries b)) (\<lambda>total_bytes.
    ensure (total_bytes \<le> jc_max_bytes_per_run c)
      (Validation (''Run-event append batch exceeds the '' @ dec (jc_max_bytes_per_run c) @ ''-byte per-run limit'')))))))))"

section \<open>Gaps, outcomes and pages\<close>

datatype gap_reason = WriterBackpressure | Retention | GlobalCapacity | OwnerLost

record event_gap =
  gp_first :: nat
  gp_last :: nat
  gp_reason :: gap_reason

definition validate_gap :: "event_gap \<Rightarrow> (iron_error, unit) result" where
  "validate_gap g =
    and_then (validate_sequence (gp_first g)) (\<lambda>_.
    and_then (validate_sequence (gp_last g)) (\<lambda>_.
    ensure (gp_first g \<le> gp_last g) (Validation ''Run-event gap starts after it ends'')))"

definition gap_event_count :: "event_gap \<Rightarrow> nat" where
  "gap_event_count g = saturating_add (saturating_sub (gp_last g) (gp_first g)) 1"

record append_outcome =
  ao_appended :: nat
  ao_duplicates :: nat
  ao_evicted_events :: nat
  ao_evicted_bytes :: nat
  ao_gap :: "event_gap option"
  ao_bounds :: event_bounds

definition validate_outcome :: "append_outcome \<Rightarrow> (iron_error, unit) result" where
  "validate_outcome o1 =
    and_then (validate_bounds (ao_bounds o1)) (\<lambda>_.
    case ao_gap o1 of
      None \<Rightarrow> Inr ()
    | Some g \<Rightarrow>
        and_then (validate_gap g) (\<lambda>_.
        ensure (gp_last g \<le> bd_dropped (ao_bounds o1))
          (Validation ''Run-event eviction gap exceeds the dropped boundary'')))"

record event_entry =
  en_sequence :: nat
  en_event_type :: string
  en_payload :: json
  en_payload_bytes :: nat
  en_created_at :: string

definition validate_event_entry ::
  "json_writer \<Rightarrow> (string \<Rightarrow> (string, int) result) \<Rightarrow> journal_config \<Rightarrow> event_entry \<Rightarrow> (iron_error, unit) result" where
  "validate_event_entry ser rfc3339 c e =
    and_then (validate_append_entry ser (jc_max_event_bytes c)
      \<lparr>ae_sequence = en_sequence e, ae_event_type = en_event_type e, ae_payload = en_payload e,
       ae_payload_bytes = en_payload_bytes e\<rparr>) (\<lambda>_.
    case rfc3339 (en_created_at e) of
      Inl err \<Rightarrow> Inl (Validation (''Run-event created_at must be RFC3339: '' @ err))
    | Inr _ \<Rightarrow> Inr ())"

record terminal_state =
  ts_status :: run_status
  ts_duration_ms :: nat
  ts_usage :: usage_snapshot
  ts_event_sequence :: "nat option"

text \<open>\<open>None\<close> is the panic that the validation of the usage aggregate can raise.\<close>

definition validate_terminal_state :: "terminal_state \<Rightarrow> (iron_error, unit) result option" where
  "validate_terminal_state t =
    (case validate_snapshot (ts_usage t) of
       None \<Rightarrow> None
     | Some (Inl e) \<Rightarrow> Some (Inl (Validation e))
     | Some (Inr _) \<Rightarrow> Some
        (and_then (ensure (run_terminal (ts_status t))
          (Validation ''Run-event terminal state must contain a terminal run status'')) (\<lambda>_.
         case ts_event_sequence t of None \<Rightarrow> Inr () | Some n \<Rightarrow> validate_sequence n)))"

record event_page =
  pg_run_id :: string
  pg_after :: nat
  pg_events :: "event_entry list"
  pg_bounds :: event_bounds
  pg_gap :: "event_gap option"
  pg_terminal :: "terminal_state option"

fun validate_page_events ::
  "(event_entry \<Rightarrow> (iron_error, unit) result) \<Rightarrow> nat \<Rightarrow> nat \<Rightarrow> nat \<Rightarrow> event_entry list \<Rightarrow> (iron_error, nat) result" where
  "validate_page_events ok latest previous total_bytes [] = Inr total_bytes"
| "validate_page_events ok latest previous total_bytes (e # es) =
     and_then (ok e) (\<lambda>_.
     if en_sequence e \<noteq> saturating_add previous 1 \<or> latest < en_sequence e
     then Inl (Validation ''Run-event page must contain one contiguous sequence within bounds'')
     else (case checked_add total_bytes (en_payload_bytes e) of
         None \<Rightarrow> Inl (Validation ''Run-event page size overflow'')
       | Some total_bytes' \<Rightarrow> validate_page_events ok latest (en_sequence e) total_bytes' es))"

definition validate_page_body ::
  "json_writer \<Rightarrow> (string \<Rightarrow> (string, int) result) \<Rightarrow> journal_config \<Rightarrow> event_page \<Rightarrow> (iron_error, unit) result" where
  "validate_page_body ser rfc3339 c p =
    and_then (validate_config c) (\<lambda>_.
    and_then (validate_run_id (pg_run_id p)) (\<lambda>_.
    and_then (validate_bounds (pg_bounds p)) (\<lambda>_.
    and_then (ensure (pg_after p \<le> bd_latest (pg_bounds p))
      (Validation ''Run-event page starts ahead of the stream'')) (\<lambda>_.
    and_then (ensure (length (pg_events p) \<le> jc_page_max_events c)
      (Validation (''Run-event page exceeds the '' @ dec (jc_page_max_events c) @ ''-event page limit''))) (\<lambda>_.
    and_then (validate_page_events (validate_event_entry ser rfc3339 c) (bd_latest (pg_bounds p)) (pg_after p) 0 (pg_events p)) (\<lambda>total_bytes.
    and_then (ensure (total_bytes \<le> jc_page_max_bytes c)
      (Validation (''Run-event page exceeds the '' @ dec (jc_page_max_bytes c) @ ''-byte page limit''))) (\<lambda>_.
    and_then (case pg_gap p of
        None \<Rightarrow> Inr ()
      | Some g \<Rightarrow>
          and_then (validate_gap g) (\<lambda>_.
          and_then (ensure (pg_events p = [] \<and> gp_first g = saturating_add (pg_after p) 1)
            (Validation ''Run-event gap pages must contain no events and start immediately after the requested cursor'')) (\<lambda>_.
          ensure (gp_last g \<le> bd_latest (pg_bounds p))
            (Validation ''Run-event page gap exceeds the latest sequence'')))) (\<lambda>_.
    ensure (\<not> (pg_events p = [] \<and> pg_gap p = None \<and> pg_after p < bd_latest (pg_bounds p)))
      (Validation ''Run-event page must expose the next retained event or sequence gap'')))))))))"

definition validate_page ::
  "json_writer \<Rightarrow> (string \<Rightarrow> (string, int) result) \<Rightarrow> journal_config \<Rightarrow> event_page \<Rightarrow> (iron_error, unit) result option" where
  "validate_page ser rfc3339 c p =
    (case validate_page_body ser rfc3339 c p of
       Inl e \<Rightarrow> Some (Inl e)
     | Inr _ \<Rightarrow> (case pg_terminal p of
         None \<Rightarrow> Some (Inr ())
       | Some t \<Rightarrow> (case validate_terminal_state t of
           None \<Rightarrow> None
         | Some (Inl e) \<Rightarrow> Some (Inl e)
         | Some (Inr _) \<Rightarrow> Some (ensure
             (case ts_event_sequence t of None \<Rightarrow> True | Some n \<Rightarrow> n \<le> bd_latest (pg_bounds p))
             (Validation ''Run-event terminal sequence exceeds page bounds'')))))"

section \<open>Cursor round trip\<close>

lemma split_once_append: "d \<notin> set a \<Longrightarrow> split_once d (a @ d # b) = Some (a, b)"
  by (induction a) (auto simp: split_once_def split: list.splits)

lemma split_once_Some: "split_once d s = Some (a, b) \<Longrightarrow> s = a @ d # b \<and> d \<notin> set a"
proof -
  assume s: "split_once d s = Some (a, b)"
  then obtain c where c: "dropWhile (\<lambda>x. x \<noteq> d) s = c # b" "a = takeWhile (\<lambda>x. x \<noteq> d) s"
    by (auto simp: split_once_def split: list.splits)
  then have "c = d" using hd_dropWhile [of "\<lambda>x. x \<noteq> d" s] by simp
  then show ?thesis using c takeWhile_dropWhile_id [of "\<lambda>x. x \<noteq> d" s] by (auto dest: set_takeWhileD)
qed

lemma cursor_run_id_ok:
  "validate_cursor_run_id i = Inr u \<longleftrightarrow>
   i \<noteq> [] \<and> length i \<le> 128 \<and> list_all (\<lambda>c. is_ascii_alphanumeric c \<or> c \<in> set ''-_.'') i"
  by (auto simp: validate_cursor_run_id_def validate_run_id_def)

lemma no_colon: "list_all (\<lambda>c. is_ascii_alphanumeric c \<or> c \<in> set ''-_.'') i \<Longrightarrow> CHR '':'' \<notin> set i"
  by (auto simp: list_all_iff is_ascii_alphanumeric_def is_ascii_digit_def byte_def)

lemma digits_no_colon: "list_all is_ascii_digit s \<Longrightarrow> CHR '':'' \<notin> set s"
  by (auto simp: list_all_iff is_ascii_digit_def byte_def)

lemma parse_uint_digits:
  "list_all is_ascii_digit s \<Longrightarrow> parse_uint m s = (if s \<noteq> [] \<and> dec_val s \<le> m then Some (dec_val s) else None)"
  by (cases s) (auto simp: parse_uint_def is_ascii_digit_def byte_def Let_def)

lemma new_cursor_Inr:
  "new_cursor i n = Inr c \<longleftrightarrow> validate_cursor_run_id i = Inr () \<and> n \<noteq> 0 \<and> c = \<lparr>cu_run_id = i, cu_sequence = n\<rparr>"
  by (auto simp: new_cursor_def rust_result)

lemma dec_u64_length: "n \<le> u64_max \<Longrightarrow> length (dec n) \<le> 20"
  by (rule dec_length) (simp_all add: u64_max_def)

lemma parse_show_cursor:
  assumes new: "new_cursor i n = Inr c" and n: "n \<le> u64_max"
  shows "parse_cursor (show_cursor c) = Inr c"
proof -
  have i: "i \<noteq> []" "length i \<le> 128" "list_all (\<lambda>c. is_ascii_alphanumeric c \<or> c \<in> set ''-_.'') i"
    and c: "c = \<lparr>cu_run_id = i, cu_sequence = n\<rparr>" "n \<noteq> 0" and ok: "validate_cursor_run_id i = Inr ()"
    using new by (simp_all add: new_cursor_Inr cursor_run_id_ok)
  have len: "length (show_cursor c) \<le> max_cursor_bytes"
    using i(2) dec_u64_length [OF n] by (simp add: show_cursor_def c max_cursor_bytes_def)
  have once: "split_once (CHR '':'') (show_cursor c) = Some (i, dec n)"
    using split_once_append [OF no_colon [OF i(3)], of "dec n"] by (simp add: show_cursor_def c)
  have hd: "\<not> (1 < length (dec n) \<and> hd (dec n) = CHR ''0'')" using c(2) by (simp add: dec_hd_zero)
  show ?thesis
    using len once no_colon [OF i(3)] digits_no_colon [OF dec_digits [of n]] ok dec_digits [of n] hd parse_uint_dec [OF n] new
    by (auto simp: parse_cursor_def)
qed

text \<open>
  C28. Cursors survive the trip to a client and back: the text of every cursor the server can
  build is parsed to the same cursor, also when the run is checked, and a text is accepted only
  if it is the text of the cursor it is parsed to, so that no two texts name one position. A
  cursor of another run is refused.
\<close>

theorem cursor_round_trip:
  "(\<forall>i n c. new_cursor i n = Inr c \<longrightarrow> n \<le> u64_max \<longrightarrow>
      parse_cursor (show_cursor c) = Inr c \<and>
      (\<forall>j. validate_cursor_run_id j = Inr () \<longrightarrow>
        parse_cursor_for_run (show_cursor c) j = (if i = j then Inr c else Inl CursorCrossRun))) \<and>
   (\<forall>v c. parse_cursor v = Inr c \<longrightarrow> v = show_cursor c \<and> cu_sequence c \<le> u64_max \<and> new_cursor (cu_run_id c) (cu_sequence c) = Inr c)"
proof (intro conjI allI impI)
  fix i n c assume new: "new_cursor i n = Inr c" and n: "n \<le> u64_max"
  have p: "parse_cursor (show_cursor c) = Inr c" and c: "c = \<lparr>cu_run_id = i, cu_sequence = n\<rparr>"
    using parse_show_cursor [OF new n] new by (simp_all add: new_cursor_Inr)
  show "parse_cursor (show_cursor c) = Inr c" by (rule p)
  show "parse_cursor_for_run (show_cursor c) j = (if i = j then Inr c else Inl CursorCrossRun)"
    if "validate_cursor_run_id j = Inr ()" for j
    using p that by (simp add: parse_cursor_for_run_def c)
next
  fix v c assume p: "parse_cursor v = Inr c"
  then obtain i raw where once: "split_once (CHR '':'') v = Some (i, raw)"
    by (auto simp: parse_cursor_def split: if_splits option.splits)
  from p once have raw: "raw \<noteq> []" "list_all is_ascii_digit raw" "1 < length raw \<Longrightarrow> hd raw \<noteq> CHR ''0''"
    and "\<exists>n. parse_uint u64_max raw = Some n \<and> new_cursor i n = Inr c"
    by (auto simp: parse_cursor_def rust_result split: if_splits option.splits)
  then have le: "dec_val raw \<le> u64_max" and new: "new_cursor i (dec_val raw) = Inr c"
    by (auto simp: parse_uint_digits split: if_splits)
  then have c: "c = \<lparr>cu_run_id = i, cu_sequence = dec_val raw\<rparr>" by (simp add: new_cursor_Inr)
  show "v = show_cursor c" using split_once_Some [OF once] dec_dec_val [OF raw] by (simp add: c show_cursor_def)
  show "cu_sequence c \<le> u64_max" "new_cursor (cu_run_id c) (cu_sequence c) = Inr c" using le new by (simp_all add: c)
qed

theorem cursor_round_trip_witness:
  "parse_cursor (show_cursor \<lparr>cu_run_id = ''run-1'', cu_sequence = 42\<rparr>) = Inr \<lparr>cu_run_id = ''run-1'', cu_sequence = 42\<rparr> \<and>
   parse_cursor_for_run (show_cursor \<lparr>cu_run_id = ''run-1'', cu_sequence = 42\<rparr>) ''run-2'' = Inl CursorCrossRun"
proof -
  have "new_cursor ''run-1'' 42 = Inr \<lparr>cu_run_id = ''run-1'', cu_sequence = 42\<rparr>" "validate_cursor_run_id ''run-2'' = Inr ()"
    by (simp_all add: new_cursor_Inr cursor_run_id_ok is_ascii_alphanumeric_def is_ascii_digit_def byte_def)
  with cursor_round_trip show ?thesis by (force simp: u64_max_def)
qed

end
