(* ===== verification/Journal.thy ===== *)
theory Journal
  imports Run_Events
begin

text \<open>
  The durable run-event journal in PostgreSQL
  (\<open>src/src/engine/postgres_store/run_events/\<close>, tables in \<open>postgres_store/schema/events.rs\<close>).

  The four tables are the fields of \<open>journal\<close>: run records (as far as the journal reads them), event rows of
  all runs, one state row per run and the singleton with the global usage, which a row trigger
  keeps. Columns that a \<open>CHECK\<close> keeps non-negative are naturals, so that \<open>nonnegative_u64\<close> cannot
  fail on them; conversions to \<open>BIGINT\<close> and the constraints of the tables are kept as error
  paths. An operation runs in a transaction: if it fails, no table changes; a failing commit may
  or may not have been applied.

  Parameters, in \<open>jx\<close>: failures of the database per statement, the clock of the server where a
  statement reads it, \<open>serde_json\<close> and the normal form \<open>jsonb\<close> gives a text, the sort key
  of the text collation, \<open>to_char\<close> and the RFC 3339 parser.
  Column type errors of \<open>try_get\<close> do not occur: the columns have the types of the schema.
\<close>

section \<open>Tables\<close>

record event_row =
  er_run :: string
  er_sequence :: nat
  er_event_type :: string
  er_payload :: string
  er_payload_bytes :: nat
  er_accounted :: nat
  er_created_at :: nat
  er_expires_at :: nat

record state_row =
  sr_flow :: string
  sr_owner :: string
  sr_latest :: nat
  sr_dropped :: nat
  sr_events :: nat
  sr_bytes :: nat
  sr_complete :: bool
  sr_reason :: "gap_reason option"
  sr_terminal :: "nat option"

record run_row =
  jr_flow :: string
  jr_owner :: string
  jr_status :: string
  jr_lease :: "nat option"
  jr_duration_ms :: int
  jr_usage :: "usage_snapshot option"

record journal =
  jn_runs :: "string \<rightharpoonup> run_row"
  jn_events :: "event_row list"
  jn_states :: "string \<rightharpoonup> state_row"
  jn_usage :: "(nat \<times> nat) option"

datatype commit_result = Committed | CommitFailed string bool

record jx =
  jx_config :: journal_config
  jx_instance :: string
  jx_fault :: "string \<Rightarrow> string option"
  jx_commit :: commit_result
  jx_row_clock :: "event_row \<Rightarrow> nat"
  jx_now :: nat
  jx_insert_at :: nat
  jx_ser :: json_writer
  jx_jsonb :: "string \<Rightarrow> string option"
  jx_parse_json :: "string \<Rightarrow> (string, json) result"
  jx_parse_usage :: "json \<Rightarrow> usage_snapshot option"
  jx_collate :: "string \<Rightarrow> string"
  jx_to_char :: "nat \<Rightarrow> string"
  jx_rfc3339 :: "string \<Rightarrow> (string, int) result"

definition bigint_max :: nat where
  "bigint_max = 2 ^ 63 - 1"

definition to_bigint :: "string \<Rightarrow> nat \<Rightarrow> (iron_error, nat) result" where
  "to_bigint message n = (if n \<le> bigint_max then Inr n else Inl (Validation message))"

text \<open>A statement that fails when the fault oracle says so, wrapped by its caller's message.\<close>

definition query :: "jx \<Rightarrow> string \<Rightarrow> ('s, unit) op" where
  "query cx what = (case jx_fault cx what of None \<Rightarrow> ret () | Some e \<Rightarrow> failing (Validation (what @ '': '' @ e)))"

definition violated :: "string \<Rightarrow> (iron_error, 'a) result" where
  "violated what = Inl (Validation (what @ '': constraint violation''))"

section \<open>State rows\<close>

definition rows_of :: "string \<Rightarrow> event_row list \<Rightarrow> event_row list" where
  "rows_of run_id rows = filter (\<lambda>r. er_run r = run_id) rows"

text \<open>\<open>SELECT MIN(sequence) .. WHERE run_id = $1\<close>\<close>

definition earliest_of :: "event_row list \<Rightarrow> nat option" where
  "earliest_of rows = (case rows of [] \<Rightarrow> None | _ \<Rightarrow> Some (Min (er_sequence ` set rows)))"

definition lock_run_event_usage :: "jx \<Rightarrow> (journal, nat \<times> nat) op" where
  "lock_run_event_usage cx =
    bnd (query cx ''PostgreSQL run-event global accounting lock failed'') (\<lambda>_.
    bnd (gets jn_usage) (\<lambda>u. case u of
        None \<Rightarrow> failing (Validation ''PostgreSQL run-event global accounting row is missing'')
      | Some row \<Rightarrow> ret row))"

definition run_event_state :: "jx \<Rightarrow> string \<Rightarrow> (journal, state_row option) op" where
  "run_event_state cx run_id =
    bnd (query cx ''PostgreSQL run-event state lookup failed'') (\<lambda>_. gets (\<lambda>j. jn_states j run_id))"

definition run_event_bounds :: "jx \<Rightarrow> string \<Rightarrow> state_row \<Rightarrow> (journal, event_bounds) op" where
  "run_event_bounds cx run_id s =
    bnd (query cx ''PostgreSQL run-event earliest-bound lookup failed'') (\<lambda>_.
    bnd (gets (\<lambda>j. earliest_of (rows_of run_id (jn_events j)))) (\<lambda>earliest.
    let b = \<lparr>bd_earliest = earliest, bd_latest = sr_latest s, bd_dropped = sr_dropped s, bd_events = sr_events s,
             bd_bytes = sr_bytes s, bd_complete = sr_complete s\<rparr>
    in bnd (lift (validate_bounds b)) (\<lambda>_. ret b)))"

text \<open>The \<open>CHECK\<close>s of the state table, and the foreign key to the runs.\<close>

definition state_constraints :: "(string \<rightharpoonup> run_row) \<Rightarrow> string \<Rightarrow> state_row \<Rightarrow> bool" where
  "state_constraints runs run_id s \<longleftrightarrow>
     sr_dropped s \<le> sr_latest s \<and>
     ((sr_events s = 0 \<and> sr_bytes s = 0) \<or> (0 < sr_events s \<and> 0 < sr_bytes s)) \<and>
     (case sr_terminal s of None \<Rightarrow> True | Some n \<Rightarrow> 0 < n \<and> n \<le> sr_latest s) \<and>
     (if sr_dropped s = 0 then sr_reason s = None else sr_reason s \<noteq> None) \<and>
     runs run_id \<noteq> None"

definition update_state :: "jx \<Rightarrow> string \<Rightarrow> string \<Rightarrow> state_row \<Rightarrow> (journal, unit) op" where
  "update_state cx what run_id s j =
    (if state_constraints (jn_runs j) run_id s
     then (Inr (), j\<lparr>jn_states := (jn_states j)(run_id \<mapsto> s)\<rparr>)
     else (violated what, j))"

section \<open>Deleting rows\<close>

record eviction =
  ev_events :: nat
  ev_bytes :: nat
  ev_first :: nat
  ev_last :: nat
  ev_previous :: nat
  ev_new :: nat
  ev_reason :: "gap_reason option"

definition default_eviction :: eviction where
  "default_eviction = \<lparr>ev_events = 0, ev_bytes = 0, ev_first = 0, ev_last = 0, ev_previous = 0, ev_new = 0, ev_reason = None\<rparr>"

definition merge_eviction :: "eviction \<Rightarrow> eviction \<Rightarrow> eviction" where
  "merge_eviction a b =
    (if ev_events b = 0 then a
     else if ev_events a = 0 then b
     else \<lparr>ev_events = saturating_add (ev_events a) (ev_events b), ev_bytes = saturating_add (ev_bytes a) (ev_bytes b),
           ev_first = min (ev_first a) (ev_first b), ev_last = max (ev_last a) (ev_last b),
           ev_previous = min (ev_previous a) (ev_previous b),
           ev_new = (if ev_new a \<le> ev_new b then ev_new b else ev_new a),
           ev_reason = (if ev_new a \<le> ev_new b then ev_reason b else ev_reason a)\<rparr>)"

definition eviction_gap :: "eviction \<Rightarrow> event_gap option" where
  "eviction_gap e = (case ev_reason e of
     None \<Rightarrow> None
   | Some reason \<Rightarrow>
      (if ev_new e \<le> ev_previous e then None
       else Some \<lparr>gp_first = saturating_add (ev_previous e) 1, gp_last = ev_new e, gp_reason = reason\<rparr>))"

type_synonym prune_summary = "string \<rightharpoonup> eviction"

definition merge_summary :: "prune_summary \<Rightarrow> prune_summary \<Rightarrow> prune_summary" where
  "merge_summary a b = (\<lambda>run_id. case b run_id of
     None \<Rightarrow> a run_id
   | Some e \<Rightarrow> Some (merge_eviction (case a run_id of None \<Rightarrow> default_eviction | Some d \<Rightarrow> d) e))"

definition summary_for_run :: "prune_summary \<Rightarrow> string \<Rightarrow> eviction" where
  "summary_for_run s run_id = (case s run_id of None \<Rightarrow> default_eviction | Some e \<Rightarrow> e)"

text \<open>A candidate is the primary key of a row and its size.\<close>

type_synonym candidate = "string \<times> nat \<times> nat"

definition candidate_of :: "event_row \<Rightarrow> candidate" where
  "candidate_of r = (er_run r, er_sequence r, er_accounted r)"

definition row_key :: "event_row \<Rightarrow> string \<times> nat" where
  "row_key r = (er_run r, er_sequence r)"

text \<open>\<open>DELETE .. RETURNING\<close>, with the trigger's update of the usage row for every deleted row.\<close>

definition delete_rows :: "(string \<times> nat) set \<Rightarrow> journal \<Rightarrow> journal" where
  "delete_rows keys j =
    (let gone = filter (\<lambda>r. row_key r \<in> keys) (jn_events j) in
     j\<lparr>jn_events := filter (\<lambda>r. row_key r \<notin> keys) (jn_events j),
       jn_usage := map_option (\<lambda>(n, b). (n - length gone, b - sum_list (map er_accounted gone))) (jn_usage j)\<rparr>)"

definition count_row :: "eviction \<Rightarrow> event_row \<Rightarrow> eviction" where
  "count_row e r = e\<lparr>ev_events := saturating_add (ev_events e) 1, ev_bytes := saturating_add (ev_bytes e) (er_accounted r),
     ev_first := (if ev_first e = 0 then er_sequence r else min (ev_first e) (er_sequence r)),
     ev_last := max (ev_last e) (er_sequence r)\<rparr>"

definition deleted_of :: "event_row list \<Rightarrow> string \<Rightarrow> eviction" where
  "deleted_of gone run_id = foldl count_row default_eviction (rows_of run_id gone)"

text \<open>One iteration of the loop over the runs that lost rows.\<close>

definition settle_run :: "jx \<Rightarrow> gap_reason \<Rightarrow> event_row list \<Rightarrow> string \<Rightarrow> (journal, eviction) op" where
  "settle_run cx reason gone run_id =
    (let e = deleted_of gone run_id in
     bnd (run_event_state cx run_id) (\<lambda>found. case found of
       None \<Rightarrow> failing (Validation (''PostgreSQL run-event state for '' @ quoted run_id @ '' is missing''))
     | Some s \<Rightarrow>
        if sr_events s < ev_events e
        then failing (Validation (''PostgreSQL run-event count accounting underflow for '' @ quoted run_id))
        else if sr_bytes s < ev_bytes e
        then failing (Validation (''PostgreSQL run-event byte accounting underflow for '' @ quoted run_id))
        else
          (let retained_events = sr_events s - ev_events e; retained_bytes = sr_bytes s - ev_bytes e in
           bnd (query cx ''PostgreSQL run-event retained-bound lookup failed'') (\<lambda>_.
           bnd (gets (\<lambda>j. earliest_of (rows_of run_id (jn_events j)))) (\<lambda>earliest.
           bnd (lift (if retained_events = 0 then Inr (sr_latest s)
             else (case earliest of
                 None \<Rightarrow> Inl (Validation ''PostgreSQL run-event accounting retained rows are missing'')
               | Some m \<Rightarrow> Inr (max (sr_dropped s) (m - 1))))) (\<lambda>new_dropped.
           bnd (lift (to_bigint ''Run-event retained count exceeds BIGINT'' retained_events)) (\<lambda>_.
           bnd (lift (to_bigint ''Run-event retained bytes exceed BIGINT'' retained_bytes)) (\<lambda>_.
           bnd (lift (to_bigint ''Run-event dropped boundary exceeds BIGINT'' new_dropped)) (\<lambda>_.
           bnd (query cx ''PostgreSQL run-event state prune update failed'') (\<lambda>_.
           bnd (update_state cx ''PostgreSQL run-event state prune update failed'' run_id
              (s\<lparr>sr_events := retained_events, sr_bytes := retained_bytes, sr_dropped := new_dropped,
                 sr_reason := (if sr_dropped s < new_dropped then Some reason else sr_reason s),
                 sr_complete := (sr_complete s \<and> ev_last e \<le> new_dropped)\<rparr>)) (\<lambda>_.
           ret (e\<lparr>ev_previous := sr_dropped s, ev_new := new_dropped,
                  ev_reason := (if sr_dropped s < new_dropped then Some reason else None)\<rparr>))))))))))))"

fun settle_runs :: "jx \<Rightarrow> gap_reason \<Rightarrow> event_row list \<Rightarrow> string list \<Rightarrow> prune_summary \<Rightarrow> (journal, prune_summary) op" where
  "settle_runs cx reason gone [] acc = ret acc"
| "settle_runs cx reason gone (run_id # ids) acc =
     bnd (settle_run cx reason gone run_id) (\<lambda>e. settle_runs cx reason gone ids (acc(run_id \<mapsto> e)))"

definition delete_run_event_candidates :: "jx \<Rightarrow> candidate list \<Rightarrow> gap_reason \<Rightarrow> (journal, prune_summary) op" where
  "delete_run_event_candidates cx candidates reason =
    (if candidates = [] then ret Map.empty
     else
       bnd (lift (try_each (\<lambda>(_, n, _). and_then (to_bigint ''Run-event sequence exceeds PostgreSQL BIGINT'' n) (\<lambda>_. Inr ())) candidates)) (\<lambda>_.
       bnd (query cx ''PostgreSQL run-event bounded prune failed'') (\<lambda>_.
       bnd (gets (\<lambda>j. filter (\<lambda>r. row_key r \<in> (\<lambda>(i, n, _). (i, n)) ` set candidates) (jn_events j))) (\<lambda>gone.
       bnd (\<lambda>j. (Inr (), delete_rows ((\<lambda>(i, n, _). (i, n)) ` set candidates) j)) (\<lambda>_.
       if length gone \<noteq> length candidates then failing (Conflict ''Run-event rows changed during bounded pruning'')
       else settle_runs cx reason gone (sort (remdups (map er_run gone))) Map.empty)))))"

section \<open>Retention and capacity\<close>

text \<open>\<open>ORDER BY t, run_id, sequence\<close> as three stable sorts.\<close>

definition ordered_by :: "jx \<Rightarrow> (event_row \<Rightarrow> nat) \<Rightarrow> event_row list \<Rightarrow> event_row list" where
  "ordered_by cx t rows = sort_key t (sort_key (\<lambda>r. jx_collate cx (er_run r)) (sort_key er_sequence rows))"

definition prune_expired_run_events :: "jx \<Rightarrow> (journal, prune_summary) op" where
  "prune_expired_run_events cx =
    bnd (query cx ''PostgreSQL expired run-event selection failed'') (\<lambda>_.
    bnd (gets (\<lambda>j. take (jc_prune_batch (jx_config cx))
        (ordered_by cx er_expires_at (filter (\<lambda>r. er_expires_at r \<le> jx_row_clock cx r) (jn_events j))))) (\<lambda>rows.
    delete_run_event_candidates cx (map candidate_of rows) Retention))"

fun select_candidates :: "nat \<Rightarrow> nat \<Rightarrow> candidate list \<Rightarrow> nat \<Rightarrow> event_row list \<Rightarrow> candidate list \<times> nat" where
  "select_candidates remaining_events remaining_bytes cs freed [] = (cs, freed)"
| "select_candidates remaining_events remaining_bytes cs freed (r # rs) =
    (let cs' = cs @ [candidate_of r]; freed' = saturating_add freed (er_accounted r) in
     if remaining_events \<le> length cs' \<and> remaining_bytes \<le> freed' then (cs', freed')
     else select_candidates remaining_events remaining_bytes cs' freed' rs)"

definition max_evicted :: nat where
  "max_evicted = 65536"

lemma evicted_grows:
  "cs \<noteq> [] \<Longrightarrow> \<not> max_evicted < saturating_add n (length cs) \<Longrightarrow>
   Suc max_evicted - saturating_add n (length cs) < Suc max_evicted - n"
  by (cases cs) (auto simp: saturating_add_def max_evicted_def u64_max_def min_def split: if_splits)

text \<open>
  The loop that \<open>evict_run_event_capacity\<close> and \<open>evict_global_run_event_capacity\<close> share: the
  rows to choose from are \<open>pick\<close>, in the order of their query.
\<close>

function evict_loop :: "jx \<Rightarrow> string \<Rightarrow> string \<Rightarrow> gap_reason \<Rightarrow> (event_row list \<Rightarrow> event_row list) \<Rightarrow>
    nat \<Rightarrow> nat \<Rightarrow> nat \<Rightarrow> prune_summary \<Rightarrow> (journal, prune_summary) op" where
  "evict_loop cx what message reason pick remaining_events remaining_bytes evicted summary j =
    (if remaining_events = 0 \<and> remaining_bytes = 0 then (Inr summary, j)
     else (case query cx what j of
         (Inl e, k) \<Rightarrow> (Inl e, k)
       | (Inr _, k) \<Rightarrow>
          (case select_candidates remaining_events remaining_bytes [] 0
              (take (jc_prune_batch (jx_config cx)) (pick (jn_events j))) of (cs, freed) \<Rightarrow>
           if cs = [] \<or> max_evicted < saturating_add evicted (length cs) then (Inl (Conflict message), j)
           else (case delete_run_event_candidates cx cs reason j of
               (Inl e, k) \<Rightarrow> (Inl e, k)
             | (Inr deleted, k) \<Rightarrow>
                evict_loop cx what message reason pick (remaining_events - length cs) (remaining_bytes - freed)
                  (saturating_add evicted (length cs)) (merge_summary summary deleted) k))))"
  by pat_completeness auto
termination
  by (relation "measure (\<lambda>(_, _, _, _, _, _, _, evicted, _, _). Suc max_evicted - evicted)")
    (auto simp: evicted_grows)

declare evict_loop.simps [simp del]

definition evict_run_event_capacity :: "jx \<Rightarrow> string \<Rightarrow> nat \<Rightarrow> nat \<Rightarrow> (journal, prune_summary) op" where
  "evict_run_event_capacity cx run_id events_to_free bytes_to_free =
     evict_loop cx ''PostgreSQL per-run event eviction selection failed''
       (''Run-event per-run capacity for '' @ quoted run_id @ '' cannot be reclaimed within the bounded '' @
         dec max_evicted @ ''-row append budget'')
       WriterBackpressure (\<lambda>rows. sort_key er_sequence (rows_of run_id rows)) events_to_free bytes_to_free 0 Map.empty"

definition evict_global_run_event_capacity :: "jx \<Rightarrow> nat \<Rightarrow> nat \<Rightarrow> (journal, prune_summary) op" where
  "evict_global_run_event_capacity cx events_to_free bytes_to_free =
     evict_loop cx ''PostgreSQL global event eviction selection failed''
       (''Run-event global capacity cannot be reclaimed within the bounded '' @ dec max_evicted @ ''-row append budget'')
       GlobalCapacity (ordered_by cx er_created_at) events_to_free bytes_to_free 0 Map.empty"

section \<open>Appending\<close>

record append_target =
  tg_status :: run_status
  tg_lease_active :: bool
  tg_duration_ms :: int
  tg_usage :: usage_snapshot

definition lock_run_event_append_target :: "jx \<Rightarrow> append_batch \<Rightarrow> (journal, append_target) op" where
  "lock_run_event_append_target cx b =
    bnd (query cx ''PostgreSQL run-event run fence lookup failed'') (\<lambda>_.
    bnd (gets (\<lambda>j. jn_runs j (ab_run_id b))) (\<lambda>found. case found of
      None \<Rightarrow> failing (Validation (''Run '' @ quoted (ab_run_id b) @ '' not found''))
    | Some r \<Rightarrow> (case jr_usage r of
        None \<Rightarrow> failing (Validation ''PostgreSQL run-event run fence lookup failed: usage is null'')
      | Some usage \<Rightarrow>
         if jr_flow r \<noteq> ab_flow b
         then failing (Conflict (''Run-event flow '' @ quoted (ab_flow b) @ '' does not match run '' @ quoted (ab_run_id b)))
         else if jr_owner r \<noteq> ab_owner b
         then failing (Conflict (''Run '' @ quoted (ab_run_id b) @ '' is owned by instance '' @ quoted (jr_owner r) @
           '', not '' @ quoted (ab_owner b)))
         else bnd (lift (parse_status (jr_status r))) (\<lambda>status.
           ret \<lparr>tg_status = status,
                tg_lease_active = (case jr_lease r of None \<Rightarrow> False | Some t \<Rightarrow> jx_now cx < t),
                tg_duration_ms = jr_duration_ms r, tg_usage = usage\<rparr>))))"

definition fresh_state :: "append_batch \<Rightarrow> state_row" where
  "fresh_state b = \<lparr>sr_flow = ab_flow b, sr_owner = ab_owner b, sr_latest = 0, sr_dropped = 0, sr_events = 0,
     sr_bytes = 0, sr_complete = True, sr_reason = None, sr_terminal = None\<rparr>"

definition initialize_run_event_state :: "jx \<Rightarrow> append_batch \<Rightarrow> (journal, state_row) op" where
  "initialize_run_event_state cx b =
    bnd (query cx ''PostgreSQL run-event state initialization failed'') (\<lambda>_.
    bnd (gets (\<lambda>j. jn_states j (ab_run_id b))) (\<lambda>present.
    bnd (if present = None
         then update_state cx ''PostgreSQL run-event state initialization failed'' (ab_run_id b) (fresh_state b)
         else ret ()) (\<lambda>_.
    bnd (run_event_state cx (ab_run_id b)) (\<lambda>found. case found of
      None \<Rightarrow> failing (Validation ''PostgreSQL run-event state is missing'')
    | Some s \<Rightarrow>
       if sr_flow s \<noteq> ab_flow b \<or> sr_owner s \<noteq> ab_owner b
       then failing (Conflict (''Run-event state fence for '' @ quoted (ab_run_id b) @
         '' does not match the current run owner/flow''))
       else ret s))))"

definition decode_stored_json :: "jx \<Rightarrow> string \<Rightarrow> (iron_error, json) result" where
  "decode_stored_json cx raw = (case jx_parse_json cx raw of
     Inl e \<Rightarrow> Inl (Validation (''PostgreSQL stored JSON in '' @ quoted ''run_events.payload'' @ '' has an invalid shape: '' @ e))
   | Inr v \<Rightarrow> Inr v)"

fun decode_rows :: "jx \<Rightarrow> event_row list \<Rightarrow> (iron_error, (event_row \<times> json) list) result" where
  "decode_rows cx [] = Inr []"
| "decode_rows cx (r # rs) =
     and_then (decode_stored_json cx (er_payload r)) (\<lambda>v. and_then (decode_rows cx rs) (\<lambda>vs. Inr ((r, v) # vs)))"

type_synonym existing_events = "nat \<rightharpoonup> string \<times> json \<times> nat"

definition load_existing_run_events :: "jx \<Rightarrow> append_batch \<Rightarrow> (journal, existing_events) op" where
  "load_existing_run_events cx b =
    bnd (query cx ''PostgreSQL run-event duplicate lookup failed'') (\<lambda>_.
    bnd (gets (\<lambda>j. filter (\<lambda>r. er_sequence r \<in> ae_sequence ` set (ab_entries b)) (rows_of (ab_run_id b) (jn_events j)))) (\<lambda>rows.
    bnd (lift (decode_rows cx rows)) (\<lambda>decoded.
    ret (map_of (map (\<lambda>(r, v). (er_sequence r, (er_event_type r, v, er_payload_bytes r))) decoded)))))"

fun partition_entries :: "string \<Rightarrow> nat \<Rightarrow> existing_events \<Rightarrow> nat \<Rightarrow> append_entry list \<Rightarrow> append_entry list \<Rightarrow>
    (iron_error, nat \<times> append_entry list) result" where
  "partition_entries run_id latest existing dups new_entries [] = Inr (dups, new_entries)"
| "partition_entries run_id latest existing dups new_entries (e # es) =
    (case existing (ae_sequence e) of
       Some (event_type, payload, payload_bytes) \<Rightarrow>
         (if latest < ae_sequence e
          then Inl (Conflict (''Run-event sequence '' @ dec (ae_sequence e) @ '' for '' @ quoted run_id @
            '' exists beyond the journal state boundary''))
          else if event_type \<noteq> ae_event_type e \<or> payload \<noteq> ae_payload e \<or> payload_bytes \<noteq> ae_payload_bytes e
          then Inl (Conflict (''Run-event sequence '' @ dec (ae_sequence e) @ '' for '' @ quoted run_id @
            '' already contains different data''))
          else partition_entries run_id latest existing (saturating_add dups 1) new_entries es)
     | None \<Rightarrow>
         (if ae_sequence e \<le> latest
          then Inl (Conflict (''Run-event sequence '' @ dec (ae_sequence e) @ '' for '' @ quoted run_id @
            '' was already allocated and is no longer retained''))
          else partition_entries run_id latest existing dups (new_entries @ [e]) es))"

definition partition_new_run_event_entries :: "append_batch \<Rightarrow> state_row \<Rightarrow> existing_events \<Rightarrow> (iron_error, nat \<times> append_entry list) result" where
  "partition_new_run_event_entries b s existing =
     partition_entries (ab_run_id b) (sr_latest s) existing 0 [] (ab_entries b)"

definition run_complete :: string where
  "run_complete = ''run_complete''"

definition terminal_matches :: "jx \<Rightarrow> append_batch \<Rightarrow> append_target \<Rightarrow> nat \<Rightarrow> append_entry \<Rightarrow> bool" where
  "terminal_matches cx b t duration e =
    (case json_get (ae_payload e) ''data'' of
       None \<Rightarrow> False
     | Some data \<Rightarrow>
         is_object data \<and>
         Option.bind (json_get data ''run_id'') as_str = Some (ab_run_id b) \<and>
         Option.bind (json_get data ''status'') as_str = Some (show_status (tg_status t)) \<and>
         Option.bind (json_get data ''duration_ms'') as_u64 = Some duration \<and>
         Option.bind (json_get data ''usage'') (jx_parse_usage cx) = Some (tg_usage t))"

definition validate_new_run_event_entries :: "jx \<Rightarrow> append_batch \<Rightarrow> append_target \<Rightarrow> state_row \<Rightarrow> append_entry list \<Rightarrow> (iron_error, unit) result" where
  "validate_new_run_event_entries cx b t s new_entries =
    (if new_entries = [] then Inr ()
     else if sr_terminal s \<noteq> None
     then Inl (Conflict (''Run-event journal for '' @ quoted (ab_run_id b) @ '' is sealed after run_complete''))
     else if run_in_flight (tg_status t) then
       (if \<not> tg_lease_active t
        then Inl (Conflict (''Run '' @ quoted (ab_run_id b) @ '' no longer has an active owner lease''))
        else if list_ex (\<lambda>e. ae_event_type e = run_complete) new_entries
        then Inl (Conflict (''Run '' @ quoted (ab_run_id b) @ '' cannot append run_complete before its terminal record''))
        else Inr ())
     else if tg_status t = Abandoned
     then Inl (Conflict (''Abandoned run '' @ quoted (ab_run_id b) @ '' cannot append terminal journal events''))
     else (case new_entries of
         [e] \<Rightarrow>
           (if ae_event_type e \<noteq> run_complete
            then Inl (Conflict (''Terminal run '' @ quoted (ab_run_id b) @ '' cannot append a nonterminal journal event''))
            else if tg_duration_ms t < 0
            then Inl (Validation ''PostgreSQL run-event terminal duration is negative or out of range'')
            else ensure (terminal_matches cx b t (nat (tg_duration_ms t)) e)
              (Conflict (''run_complete for '' @ quoted (ab_run_id b) @ '' does not match its terminal run record'')))
       | _ \<Rightarrow> Inl (Conflict (''Terminal run '' @ quoted (ab_run_id b) @ '' accepts exactly one new run_complete event''))))"


record accounted_batch =
  ac_entries :: "append_entry list"
  ac_payloads :: "string list"
  ac_count :: nat
  ac_bytes :: nat

fun serialize_payloads :: "jx \<Rightarrow> append_entry list \<Rightarrow> (iron_error, string list) result" where
  "serialize_payloads cx [] = Inr []"
| "serialize_payloads cx (e # es) =
    (case jx_ser cx (ae_payload e) of
       Inl err \<Rightarrow> Inl (Validation (''Run-event payload serialization failed: '' @ err))
     | Inr raw \<Rightarrow> and_then (serialize_payloads cx es) (\<lambda>rest. Inr (raw # rest)))"

text \<open>The generated column \<open>accounted_bytes\<close>.\<close>

definition accounted_bytes :: "nat \<Rightarrow> string \<Rightarrow> nat" where
  "accounted_bytes payload_bytes stored = max (max payload_bytes (length stored)) 1024"

definition accounted_sizes :: "jx \<Rightarrow> append_entry list \<Rightarrow> string list \<Rightarrow> (iron_error, nat list) result" where
  "accounted_sizes cx es payloads =
    (if list_ex (\<lambda>p. jx_jsonb cx p = None) payloads
     then Inl (Validation ''PostgreSQL run-event payload accounting failed: invalid input syntax'')
     else Inr (map (\<lambda>(e, p). accounted_bytes (ae_payload_bytes e) (the (jx_jsonb cx p))) (zip es payloads)))"

fun checked_total :: "nat \<Rightarrow> nat list \<Rightarrow> (iron_error, nat) result" where
  "checked_total n [] = Inr n"
| "checked_total n (b # bs) = (case checked_add n b of
     None \<Rightarrow> Inl (Validation ''Run-event append byte count overflow'') | Some m \<Rightarrow> checked_total m bs)"

definition account_run_event_append :: "jx \<Rightarrow> append_entry list \<Rightarrow> ('s, accounted_batch) op" where
  "account_run_event_append cx es =
    bnd (lift (serialize_payloads cx es)) (\<lambda>payloads.
    bnd (lift (try_each (\<lambda>e. and_then (to_bigint ''Run-event payload byte count exceeds PostgreSQL BIGINT'' (ae_payload_bytes e)) (\<lambda>_. Inr ())) es)) (\<lambda>_.
    bnd (if es = [] then ret []
         else bnd (query cx ''PostgreSQL run-event payload accounting failed'') (\<lambda>_. lift (accounted_sizes cx es payloads))) (\<lambda>sizes.
    if length sizes \<noteq> length es
    then failing (Validation ''PostgreSQL run-event payload accounting returned an incomplete batch'')
    else
      bnd (lift (checked_total 0 sizes)) (\<lambda>byte_count.
      if jc_max_bytes_per_run (jx_config cx) < byte_count \<or> jc_max_total_bytes (jx_config cx) < byte_count
      then failing (Validation ''PostgreSQL-accounted run-event append exceeds a configured byte limit'')
      else ret \<lparr>ac_entries = es, ac_payloads = payloads, ac_count = length es, ac_bytes = byte_count\<rparr>))))"

text \<open>The \<open>CHECK\<close>s and keys of the event table.\<close>

definition row_constraints :: "jx \<Rightarrow> journal \<Rightarrow> event_row \<Rightarrow> bool" where
  "row_constraints cx j r \<longleftrightarrow>
     row_key r \<notin> row_key ` set (jn_events j) \<and> jn_runs j (er_run r) \<noteq> None \<and>
     0 < er_sequence r \<and> er_event_type r \<noteq> [] \<and> char_count (er_event_type r) \<le> 64 \<and>
     list_all (\<lambda>c. 97 \<le> byte c \<and> byte c \<le> 122 \<or> is_ascii_digit c \<or> c = CHR ''_'') (er_event_type r) \<and>
     (case jx_parse_json cx (er_payload r) of
        Inl _ \<Rightarrow> False
      | Inr v \<Rightarrow> is_object v \<and> Option.bind (json_get v ''event'') as_str = Some (er_event_type r)) \<and>
     0 < er_payload_bytes r \<and> 0 < er_accounted r \<and> er_accounted r \<le> 16 * 1024 * 1024 \<and>
     er_created_at r < er_expires_at r"

definition insert_row :: "jx \<Rightarrow> string \<Rightarrow> append_entry \<Rightarrow> string \<Rightarrow> nat \<Rightarrow> nat \<Rightarrow> (journal, unit) op" where
  "insert_row cx run_id e payload created expires =
    bnd (lift (to_bigint ''Run-event sequence exceeds PostgreSQL BIGINT'' (ae_sequence e))) (\<lambda>_.
    bnd (lift (to_bigint ''Run-event payload byte count exceeds PostgreSQL BIGINT'' (ae_payload_bytes e))) (\<lambda>_.
    bnd (query cx ''PostgreSQL run-event append failed'') (\<lambda>_ j.
    case (jx_jsonb cx payload, jn_usage j) of
      (Some stored, Some (n, b)) \<Rightarrow>
        (let r = \<lparr>er_run = run_id, er_sequence = ae_sequence e, er_event_type = ae_event_type e, er_payload = stored,
                  er_payload_bytes = ae_payload_bytes e, er_accounted = accounted_bytes (ae_payload_bytes e) stored,
                  er_created_at = created, er_expires_at = expires\<rparr>
         in if row_constraints cx j r \<and> n + 1 \<le> bigint_max \<and> b + er_accounted r \<le> bigint_max
            then (Inr (), j\<lparr>jn_events := jn_events j @ [r], jn_usage := Some (n + 1, b + er_accounted r)\<rparr>)
            else (violated ''PostgreSQL run-event append failed'', j))
    | _ \<Rightarrow> (violated ''PostgreSQL run-event append failed'', j))))"

fun insert_rows :: "jx \<Rightarrow> string \<Rightarrow> nat \<Rightarrow> nat \<Rightarrow> (append_entry \<times> string) list \<Rightarrow> (journal, unit) op" where
  "insert_rows cx run_id created expires [] = ret ()"
| "insert_rows cx run_id created expires ((e, payload) # rest) =
     bnd (insert_row cx run_id e payload created expires) (\<lambda>_. insert_rows cx run_id created expires rest)"

text \<open>The loop of \<open>update_run_event_state_after_append\<close> over the new entries.\<close>

fun advance_state :: "nat \<Rightarrow> append_entry list \<Rightarrow> state_row \<Rightarrow> state_row" where
  "advance_state expected [] s = s"
| "advance_state expected (e # es) s =
     advance_state (saturating_add (ae_sequence e) 1) es
       (s\<lparr>sr_complete := (sr_complete s \<and> ae_sequence e = expected), sr_latest := max (sr_latest s) (ae_sequence e),
          sr_terminal := (if ae_event_type e = run_complete
            then Some (max (case sr_terminal s of None \<Rightarrow> 0 | Some n \<Rightarrow> n) (ae_sequence e)) else sr_terminal s)\<rparr>)"

definition update_run_event_state_after_append :: "jx \<Rightarrow> append_batch \<Rightarrow> state_row \<Rightarrow> accounted_batch \<Rightarrow> (journal, unit) op" where
  "update_run_event_state_after_append cx b s ac =
    (let s' = advance_state (saturating_add (sr_latest s) 1) (ac_entries ac) s in
     case checked_add (sr_events s) (ac_count ac) of
       None \<Rightarrow> failing (Validation ''Run-event retained count overflow'')
     | Some retained_events \<Rightarrow>
        (case checked_add (sr_bytes s) (ac_bytes ac) of
           None \<Rightarrow> failing (Validation ''Run-event retained bytes overflow'')
         | Some retained_bytes \<Rightarrow>
            bnd (lift (to_bigint ''Run-event latest sequence exceeds BIGINT'' (sr_latest s'))) (\<lambda>_.
            bnd (lift (to_bigint ''Run-event retained count exceeds BIGINT'' retained_events)) (\<lambda>_.
            bnd (lift (to_bigint ''Run-event retained bytes exceeds BIGINT'' retained_bytes)) (\<lambda>_.
            bnd (lift (case sr_terminal s' of None \<Rightarrow> Inr 0
              | Some n \<Rightarrow> to_bigint ''Run-event terminal sequence exceeds BIGINT'' n)) (\<lambda>_.
            bnd (query cx ''PostgreSQL run-event state append update failed'') (\<lambda>_.
            update_state cx ''PostgreSQL run-event state append update failed'' (ab_run_id b)
              (s'\<lparr>sr_events := retained_events, sr_bytes := retained_bytes\<rparr>))))))))"

definition persist_run_event_append :: "jx \<Rightarrow> append_batch \<Rightarrow> state_row \<Rightarrow> accounted_batch \<Rightarrow> prune_summary \<Rightarrow> (journal, prune_summary) op" where
  "persist_run_event_append cx b s ac pruned =
    (let c = jx_config cx in
     bnd (lift (case checked_add (sr_events s) (ac_count ac) of
         None \<Rightarrow> Inl (Validation ''Run-event per-run count overflow'') | Some n \<Rightarrow> Inr n)) (\<lambda>future_events.
     bnd (lift (case checked_add (sr_bytes s) (ac_bytes ac) of
         None \<Rightarrow> Inl (Validation ''Run-event per-run bytes overflow'') | Some n \<Rightarrow> Inr n)) (\<lambda>future_bytes.
     bnd (evict_run_event_capacity cx (ab_run_id b) (future_events - jc_max_events_per_run c) (future_bytes - jc_max_bytes_per_run c)) (\<lambda>evicted.
     bnd (lock_run_event_usage cx) (\<lambda>(n, m).
     bnd (lift (case checked_add n (ac_count ac) of
         None \<Rightarrow> Inl (Validation ''Run-event global count overflow'') | Some k \<Rightarrow> Inr k)) (\<lambda>future_global_events.
     bnd (lift (case checked_add m (ac_bytes ac) of
         None \<Rightarrow> Inl (Validation ''Run-event global bytes overflow'') | Some k \<Rightarrow> Inr k)) (\<lambda>future_global_bytes.
     bnd (evict_global_run_event_capacity cx (future_global_events - jc_max_total_events c) (future_global_bytes - jc_max_total_bytes c)) (\<lambda>evicted'.
     bnd (run_event_state cx (ab_run_id b)) (\<lambda>found. case found of
       None \<Rightarrow> failing (Validation ''PostgreSQL run-event state is missing'')
     | Some s' \<Rightarrow>
        bnd (lift (to_bigint ''PostgreSQL run-event retention duration is out of range'' (jc_retention c div nanos_per_sec))) (\<lambda>secs.
        bnd (query cx ''Failed to read PostgreSQL clock for run-event retention'') (\<lambda>_.
        bnd (insert_rows cx (ab_run_id b) (jx_insert_at cx) (jx_insert_at cx + secs * 1000000) (zip (ac_entries ac) (ac_payloads ac))) (\<lambda>_.
        bnd (update_run_event_state_after_append cx b s' ac) (\<lambda>_.
        ret (merge_summary (merge_summary pruned evicted) evicted'))))))))))))))"

definition append_tx :: "jx \<Rightarrow> append_batch \<Rightarrow> (journal, append_outcome) op" where
  "append_tx cx b =
    bnd (query cx ''PostgreSQL run-event append transaction failed'') (\<lambda>_.
    bnd (lift (if write_timing_checked (jc_write_timeout (jx_config cx)) = None
      then Inl (Validation ''PostgreSQL run-event write timing configuration is invalid'') else Inr ())) (\<lambda>_.
    bnd (query cx ''PostgreSQL run-event transaction timeout configuration failed'') (\<lambda>_.
    bnd (lock_run_event_usage cx) (\<lambda>_.
    bnd (lock_run_event_append_target cx b) (\<lambda>target.
    bnd (prune_expired_run_events cx) (\<lambda>pruned.
    bnd (initialize_run_event_state cx b) (\<lambda>s.
    bnd (load_existing_run_events cx b) (\<lambda>existing.
    bnd (lift (partition_new_run_event_entries b s existing)) (\<lambda>(dups, new_entries).
    bnd (lift (validate_new_run_event_entries cx b target s new_entries)) (\<lambda>_.
    bnd (account_run_event_append cx new_entries) (\<lambda>ac.
    bnd (if 0 < ac_count ac then persist_run_event_append cx b s ac pruned else ret pruned) (\<lambda>pruned'.
    bnd (run_event_state cx (ab_run_id b)) (\<lambda>found. case found of
      None \<Rightarrow> failing (Validation ''PostgreSQL run-event state is missing'')
    | Some s' \<Rightarrow>
       bnd (run_event_bounds cx (ab_run_id b) s') (\<lambda>bounds.
       let e = summary_for_run pruned' (ab_run_id b);
           outcome = \<lparr>ao_appended = ac_count ac, ao_duplicates = dups, ao_evicted_events = ev_events e,
             ao_evicted_bytes = ev_bytes e, ao_gap = eviction_gap e, ao_bounds = bounds\<rparr>
       in bnd (lift (validate_outcome outcome)) (\<lambda>_. ret outcome)))))))))))))))"

section \<open>Transactions\<close>

text \<open>
  A transaction dropped before its commit is rolled back. When the commit itself fails, the flag
  of the oracle says whether the server had applied it.
\<close>

definition transaction :: "jx \<Rightarrow> string \<Rightarrow> (journal, 'a) op \<Rightarrow> (journal, 'a) op" where
  "transaction cx what body j =
    (case body j of
       (Inl e, _) \<Rightarrow> (Inl e, j)
     | (Inr a, k) \<Rightarrow> (case jx_commit cx of
         Committed \<Rightarrow> (Inr a, k)
       | CommitFailed e applied \<Rightarrow> (Inl (Validation (what @ '': '' @ e)), if applied then k else j)))"

definition append_run_event_journal :: "jx \<Rightarrow> append_batch \<Rightarrow> (journal, append_outcome) op" where
  "append_run_event_journal cx b =
    bnd (lift (validate_batch (jx_ser cx) (jx_config cx) b)) (\<lambda>_.
    if ab_owner b \<noteq> jx_instance cx
    then failing (Conflict (''Run-event batch owner '' @ quoted (ab_owner b) @ '' does not match this store instance''))
    else
      bnd (lift (try_each (\<lambda>e. and_then (to_bigint ''Run-event sequence exceeds PostgreSQL BIGINT'' (ae_sequence e)) (\<lambda>_. Inr ())) (ab_entries b))) (\<lambda>_.
      transaction cx ''PostgreSQL run-event append commit failed'' (append_tx cx b)))"

text \<open>
  \<open>prune_expired_run_events_best_effort\<close>: the advisory lock may be taken (\<open>acquired\<close> is false); every
  failure is logged and rolled back.
\<close>

definition prune_best_effort :: "jx \<Rightarrow> bool \<Rightarrow> journal \<Rightarrow> journal" where
  "prune_best_effort cx acquired j =
    snd (transaction cx ''PostgreSQL run-event maintenance commit failed''
      (bnd (query cx ''PostgreSQL run-event maintenance transaction unavailable'') (\<lambda>_.
       bnd (query cx ''PostgreSQL run-event maintenance timeout setup failed'') (\<lambda>_.
       bnd (query cx ''PostgreSQL run-event maintenance lock probe failed'') (\<lambda>_.
       if \<not> acquired then failing (Validation ''lock not acquired'')
       else
         bnd (query cx ''PostgreSQL run-event maintenance lock timeout setup failed'') (\<lambda>_.
         bnd (lock_run_event_usage cx) (\<lambda>_.
         bnd (prune_expired_run_events cx) (\<lambda>_. ret ()))))))) j)"

text \<open>
  Deleting a run record cascades to its rows and its state, and the trigger keeps the usage row.
\<close>

definition delete_run_cascade :: "string \<Rightarrow> journal \<Rightarrow> journal" where
  "delete_run_cascade run_id j =
    (let k = delete_rows (row_key ` set (rows_of run_id (jn_events j))) j
     in k\<lparr>jn_runs := (jn_runs j)(run_id := None), jn_states := (jn_states j)(run_id := None)\<rparr>)"

definition remove_run_row :: "jx \<Rightarrow> string \<Rightarrow> (journal, unit) op" where
  "remove_run_row cx run_id =
    transaction cx ''PostgreSQL delete commit''
      (bnd (query cx ''PostgreSQL delete transaction'') (\<lambda>_.
       bnd (lock_run_event_usage cx) (\<lambda>_.
       bnd (query cx ''PostgreSQL delete error'') (\<lambda>_ j.
       if jn_runs j run_id = None then (Inl (Validation (''Run '' @ quoted run_id @ '' not found'')), j)
       else (Inr (), delete_run_cascade run_id j)))))"

section \<open>Reading a page\<close>

definition validate_human_input_route :: "string \<Rightarrow> string \<Rightarrow> nat \<Rightarrow> (iron_error, unit) result" where
  "validate_human_input_route lbl value max_bytes =
     ensure (value \<noteq> [] \<and> length value \<le> max_bytes \<and> \<not> list_ex is_control (chars_of value))
       (Validation (''Human-input '' @ lbl @ '' must be 1..='' @ dec max_bytes @ '' printable bytes''))"

definition live_rows :: "nat \<Rightarrow> string \<Rightarrow> event_row list \<Rightarrow> event_row list" where
  "live_rows snapshot run_id rows = filter (\<lambda>r. snapshot < er_expires_at r) (rows_of run_id rows)"

definition expired_rows :: "nat \<Rightarrow> string \<Rightarrow> event_row list \<Rightarrow> event_row list" where
  "expired_rows snapshot run_id rows = filter (\<lambda>r. er_expires_at r \<le> snapshot) (rows_of run_id rows)"

definition latest_of :: "event_row list \<Rightarrow> nat option" where
  "latest_of rows = (case rows of [] \<Rightarrow> None | _ \<Rightarrow> Some (Max (er_sequence ` set rows)))"

definition retention_boundary :: "nat option \<Rightarrow> nat option \<Rightarrow> nat \<Rightarrow> nat" where
  "retention_boundary latest_expired earliest dropped =
    (case (latest_expired, earliest) of
       (Some expired, Some first) \<Rightarrow> min expired (first - 1)
     | (Some expired, None) \<Rightarrow> expired
     | (None, _) \<Rightarrow> dropped)"

definition logical_bounds :: "nat \<Rightarrow> string \<Rightarrow> event_row list \<Rightarrow> state_row \<Rightarrow> event_bounds \<times> gap_reason option" where
  "logical_bounds snapshot run_id rows s =
    (let live = live_rows snapshot run_id rows;
         earliest = earliest_of live;
         dropped = max (sr_dropped s) (retention_boundary (latest_of (expired_rows snapshot run_id rows)) earliest (sr_dropped s))
     in (\<lparr>bd_earliest = earliest, bd_latest = sr_latest s, bd_dropped = dropped, bd_events = length live,
          bd_bytes = sum_list (map er_accounted live), bd_complete = sr_complete s\<rparr>,
         if sr_dropped s < dropped then Some Retention else sr_reason s))"

text \<open>
  The page query: at most \<open>page_max_events\<close> live rows after the boundary in order of their sequence, and of these the
  ones whose running total of accounted bytes fits, or the first.
\<close>

fun within_page :: "nat \<Rightarrow> nat \<Rightarrow> bool \<Rightarrow> event_row list \<Rightarrow> event_row list" where
  "within_page max_bytes running first [] = []"
| "within_page max_bytes running first (r # rs) =
    (let running' = running + er_accounted r in
     if running' \<le> max_bytes \<or> first then r # within_page max_bytes running' False rs
     else within_page max_bytes running' False rs)"

definition page_rows :: "journal_config \<Rightarrow> nat \<Rightarrow> string \<Rightarrow> nat \<Rightarrow> event_row list \<Rightarrow> event_row list" where
  "page_rows c snapshot run_id boundary rows =
     within_page (jc_page_max_bytes c) 0 True
       (take (jc_page_max_events c)
         (sort_key er_sequence (filter (\<lambda>r. boundary < er_sequence r) (live_rows snapshot run_id rows))))"

definition entry_of :: "jx \<Rightarrow> event_row \<Rightarrow> json \<Rightarrow> event_entry" where
  "entry_of cx r v = \<lparr>en_sequence = er_sequence r, en_event_type = er_event_type r, en_payload = v,
     en_payload_bytes = er_payload_bytes r, en_created_at = jx_to_char cx (er_created_at r)\<rparr>"

text \<open>The first index where the sequence jumps: \<open>(index, expected, event.sequence - 1)\<close>.\<close>

fun internal_gap :: "nat \<Rightarrow> nat \<Rightarrow> event_entry list \<Rightarrow> (nat \<times> nat \<times> nat) option" where
  "internal_gap index expected [] = None"
| "internal_gap index expected (e # es) =
    (if expected < en_sequence e then Some (index, expected, en_sequence e - 1)
     else internal_gap (Suc index) (saturating_add (en_sequence e) 1) es)"

definition assemble_page :: "nat \<Rightarrow> event_bounds \<Rightarrow> gap_reason option \<Rightarrow> event_entry list \<Rightarrow>
    (iron_error, event_entry list \<times> event_gap option) result" where
  "assemble_page after bounds reason events =
    (if after < bd_dropped bounds then
       (case reason of
          None \<Rightarrow> Inl (Validation ''PostgreSQL run-event dropped boundary has no reason'')
        | Some why \<Rightarrow> Inr ([], Some \<lparr>gp_first = saturating_add after 1, gp_last = bd_dropped bounds, gp_reason = why\<rparr>))
     else
       (let (events', gap) = (case internal_gap 0 (saturating_add after 1) events of
              None \<Rightarrow> (events, None)
            | Some (index, first, final) \<Rightarrow>
                if index = 0 then ([], Some \<lparr>gp_first = first, gp_last = final, gp_reason = WriterBackpressure\<rparr>)
                else (take index events, None))
        in Inr (events', if gap = None \<and> events' = [] \<and> after < bd_latest bounds
             then Some \<lparr>gp_first = saturating_add after 1, gp_last = bd_latest bounds, gp_reason = WriterBackpressure\<rparr>
             else gap)))"

text \<open>
  \<open>read_run_events_journal\<close>, with the database time stamp of the run query as \<open>snapshot\<close>. Nothing is
  written, so the commit only decides the result. The outer \<open>None\<close> is the panic of the usage check.
\<close>

definition read_run_events_journal :: "jx \<Rightarrow> nat \<Rightarrow> string \<Rightarrow> string \<Rightarrow> nat \<Rightarrow> journal \<Rightarrow> (iron_error, event_page) result option" where
  "read_run_events_journal cx snapshot flow run_id after j =
    (case fst (
       bnd (lift (validate_human_input_route ''flow'' flow 255)) (\<lambda>_.
       bnd (lift (validate_human_input_route ''run id'' run_id 128)) (\<lambda>_.
       bnd (query cx ''PostgreSQL run-event read transaction failed'') (\<lambda>_.
       bnd (query cx ''PostgreSQL run-event run lookup failed'') (\<lambda>_.
       bnd (gets (\<lambda>j. jn_runs j run_id)) (\<lambda>found. case found of
         None \<Rightarrow> failing (Validation (''Run '' @ quoted run_id @ '' not found''))
       | Some r \<Rightarrow> (case jr_usage r of
           None \<Rightarrow> failing (Validation ''PostgreSQL run-event run lookup failed: usage is null'')
         | Some usage \<Rightarrow>
            if jr_flow r \<noteq> flow
            then failing (Conflict (''Run-event flow '' @ quoted flow @ '' does not match run '' @ quoted run_id))
            else
              bnd (run_event_state cx run_id) (\<lambda>state.
              bnd (case state of
                  None \<Rightarrow> ret (empty_bounds, None)
                | Some s \<Rightarrow>
                    bnd (query cx ''PostgreSQL logical run-event bounds lookup failed'') (\<lambda>_.
                    bnd (gets (\<lambda>j. logical_bounds snapshot run_id (jn_events j) s)) (\<lambda>(bounds, why).
                    bnd (lift (validate_bounds bounds)) (\<lambda>_. ret (bounds, why))))) (\<lambda>(bounds, why).
              if bd_latest bounds < after
              then failing (Validation (''Run-event page starts ahead of latest sequence '' @ dec (bd_latest bounds)))
              else
                bnd (lift (to_bigint ''Run-event page boundary exceeds BIGINT'' (max after (bd_dropped bounds)))) (\<lambda>boundary.
                bnd (lift (to_bigint ''Run-event page limit exceeds BIGINT'' (jc_page_max_events (jx_config cx)))) (\<lambda>_.
                bnd (lift (to_bigint ''Run-event page byte limit exceeds BIGINT'' (jc_page_max_bytes (jx_config cx)))) (\<lambda>_.
                bnd (query cx ''PostgreSQL run-event page lookup failed'') (\<lambda>_.
                bnd (gets (\<lambda>j. page_rows (jx_config cx) snapshot run_id boundary (jn_events j))) (\<lambda>rows.
                bnd (lift (decode_rows cx rows)) (\<lambda>decoded.
                bnd (lift (assemble_page after bounds why (map (\<lambda>(r, v). entry_of cx r v) decoded))) (\<lambda>(events, gap).
                bnd (lift (parse_status (jr_status r))) (\<lambda>status.
                let terminal_sequence = Option.bind state sr_terminal;
                    bounds' = (if run_terminal status \<and> terminal_sequence = None then bounds\<lparr>bd_complete := False\<rparr> else bounds)
                in bnd (lift (if \<not> run_terminal status then Inr None
                       else if jr_duration_ms r < 0
                       then Inl (Validation ''PostgreSQL run-event terminal duration is negative or out of range'')
                       else Inr (Some \<lparr>ts_status = status, ts_duration_ms = nat (jr_duration_ms r), ts_usage = usage,
                         ts_event_sequence = terminal_sequence\<rparr>))) (\<lambda>terminal.
                ret \<lparr>pg_run_id = run_id, pg_after = after, pg_events = events, pg_bounds = bounds', pg_gap = gap,
                     pg_terminal = terminal\<rparr>))))))))))))))))) j) of
       Inl e \<Rightarrow> Some (Inl e)
     | Inr page \<Rightarrow> (case validate_page (jx_ser cx) (jx_rfc3339 cx) (jx_config cx) page of
         None \<Rightarrow> None
       | Some (Inl e) \<Rightarrow> Some (Inl e)
       | Some (Inr _) \<Rightarrow> Some (case jx_commit cx of
           Committed \<Rightarrow> Inr page
         | CommitFailed e _ \<Rightarrow> Inl (Validation (''PostgreSQL run-event read commit failed: '' @ e)))))"

end
