(* ===== verification/Journal_Correct.thy ===== *)
theory Journal_Correct
  imports Journal "HOL-Library.Multiset"
begin

text \<open>
  The invariant of the journal tables and that every transaction keeps it: the counters of the
  state rows and of the usage row are those of the event rows, the rows of a run lie between its
  dropped boundary and its latest sequence, a run marked complete misses no event in between, the
  terminal event is the last one.
\<close>

section \<open>Invariant\<close>

abbreviation bytes_of :: "event_row list \<Rightarrow> nat" where
  "bytes_of rows \<equiv> sum_list (map er_accounted rows)"

definition row_sized :: "event_row \<Rightarrow> bool" where
  "row_sized r \<longleftrightarrow> 0 < er_accounted r \<and> er_payload_bytes r \<le> er_accounted r"

definition run_ok :: "event_row list \<Rightarrow> state_row \<Rightarrow> bool" where
  "run_ok rows s \<longleftrightarrow>
     distinct (map er_sequence rows) \<and>
     (\<forall>r \<in> set rows. sr_dropped s < er_sequence r \<and> er_sequence r \<le> sr_latest s \<and> row_sized r) \<and>
     sr_events s = length rows \<and> sr_bytes s = bytes_of rows \<and> sr_events s \<le> bigint_max \<and> sr_bytes s \<le> bigint_max \<and>
     sr_dropped s \<le> sr_latest s \<and> sr_latest s \<le> bigint_max \<and>
     (sr_complete s \<longrightarrow> er_sequence ` set rows = {sr_dropped s <.. sr_latest s}) \<and>
     (sr_dropped s = 0 \<longleftrightarrow> sr_reason s = None) \<and>
     (\<forall>n. sr_terminal s = Some n \<longrightarrow> 0 < n \<and> n = sr_latest s) \<and>
     (\<forall>r \<in> set rows. er_event_type r = run_complete \<longleftrightarrow> sr_terminal s = Some (er_sequence r))"

definition usage_ok :: "journal \<Rightarrow> bool" where
  "usage_ok j \<longleftrightarrow> length (jn_events j) \<le> bigint_max \<and> bytes_of (jn_events j) \<le> bigint_max \<and>
     (\<forall>n b. jn_usage j = Some (n, b) \<longrightarrow> n = length (jn_events j) \<and> b = bytes_of (jn_events j))"

definition run_rows_ok :: "event_row list \<Rightarrow> state_row option \<Rightarrow> bool" where
  "run_rows_ok rows st \<longleftrightarrow> (case st of None \<Rightarrow> rows = [] | Some s \<Rightarrow> run_ok rows s)"

definition journal_ok :: "journal \<Rightarrow> bool" where
  "journal_ok j \<longleftrightarrow> usage_ok j \<and>
     (\<forall>i. run_rows_ok (rows_of i (jn_events j)) (jn_states j i) \<and> (jn_states j i \<noteq> None \<longrightarrow> jn_runs j i \<noteq> None))"

section \<open>Lists of rows\<close>

lemma rows_of_filter: "rows_of i (filter P rows) = filter P (rows_of i rows)"
  by (simp add: rows_of_def conj_commute)

lemma rows_of_append [simp]: "rows_of i (xs @ ys) = rows_of i xs @ rows_of i ys"
  by (simp add: rows_of_def)

lemma in_rows_of [simp]: "r \<in> set (rows_of i rows) \<longleftrightarrow> r \<in> set rows \<and> er_run r = i"
  by (auto simp: rows_of_def)

lemma length_split: "length xs = length (filter P xs) + length (filter (\<lambda>x. \<not> P x) xs)"
  by (induction xs) auto

lemma bytes_split: "bytes_of xs = bytes_of (filter P xs) + bytes_of (filter (\<lambda>x. \<not> P x) xs)"
  by (induction xs) auto

lemma earliest_of_iff: "earliest_of rows = Some m \<longleftrightarrow> rows \<noteq> [] \<and> m = Min (er_sequence ` set rows)"
  by (auto simp: earliest_of_def split: list.splits)

lemma keys_distinct: "(\<And>i. distinct (map er_sequence (rows_of i rows))) \<Longrightarrow> distinct (map row_key rows)"
proof (induction rows)
  case (Cons r rows)
  have "distinct (map er_sequence (rows_of i rows))" for i
    using Cons.prems [of i] by (auto simp: rows_of_def split: if_splits)
  moreover have "row_key r \<notin> row_key ` set rows"
    using Cons.prems [of "er_run r"] by (auto simp: rows_of_def row_key_def)
  ultimately show ?case using Cons.IH by simp
qed simp

lemma journal_keys_distinct: "journal_ok j \<Longrightarrow> distinct (map row_key (jn_events j))"
  by (rule keys_distinct) (auto simp: journal_ok_def run_rows_ok_def run_ok_def split: option.splits)

section \<open>Deleting rows of one run\<close>

lemma count_rows:
  "ev_events (foldl count_row e rows) = (if rows = [] then ev_events e else min (ev_events e + length rows) u64_max)"
  "ev_bytes (foldl count_row e rows) = (if rows = [] then ev_bytes e else min (ev_bytes e + bytes_of rows) u64_max)"
  "\<forall>r \<in> set rows. er_sequence r \<le> ev_last (foldl count_row e rows)"
  "ev_last e \<le> ev_last (foldl count_row e rows)"
proof (induction rows arbitrary: e)
  case (Cons r rows)
  { case 1 show ?case by (simp add: Cons.IH) (auto simp: count_row_def saturating_add_def) }
  { case 2 show ?case by (simp add: Cons.IH) (auto simp: count_row_def saturating_add_def) }
  { case 3 show ?case using Cons.IH(3,4) [of "count_row e r"] by (auto simp: count_row_def) }
  { case 4 show ?case using Cons.IH(4) [of "count_row e r"] by (auto simp: count_row_def) }
qed simp_all

lemma deleted_of_exact:
  assumes "length (rows_of i gone) \<le> u64_max" "bytes_of (rows_of i gone) \<le> u64_max"
  shows "ev_events (deleted_of gone i) = length (rows_of i gone)"
    and "ev_bytes (deleted_of gone i) = bytes_of (rows_of i gone)"
    and "\<forall>r \<in> set (rows_of i gone). er_sequence r \<le> ev_last (deleted_of gone i)"
  using assms count_rows(1,2) [of default_eviction "rows_of i gone"]
    count_rows(3) [of "rows_of i gone" default_eviction]
  by (auto simp: deleted_of_def default_eviction_def)


lemma settle_ok:
  assumes ok: "run_ok rows s" and gone: "\<forall>r \<in> set rows. P r \<longrightarrow> er_sequence r \<le> lst"
    and new: "new = (if filter (\<lambda>r. \<not> P r) rows = [] then sr_latest s
      else max (sr_dropped s) (Min (er_sequence ` set (filter (\<lambda>r. \<not> P r) rows)) - 1))"
  shows "run_ok (filter (\<lambda>r. \<not> P r) rows)
     (s\<lparr>sr_events := length (filter (\<lambda>r. \<not> P r) rows), sr_bytes := bytes_of (filter (\<lambda>r. \<not> P r) rows), sr_dropped := new,
        sr_reason := (if sr_dropped s < new then Some reason else sr_reason s), sr_complete := (sr_complete s \<and> lst \<le> new)\<rparr>)"
    and "sr_dropped s \<le> new"
proof -
  let ?rem = "filter (\<lambda>r. \<not> P r) rows" and ?S = "er_sequence ` set (filter (\<lambda>r. \<not> P r) rows)"
  define m where "m = Min ?S"
  have new: "new = (if ?rem = [] then sr_latest s else max (sr_dropped s) (m - 1))" using new unfolding m_def .
  have min: "m \<le> er_sequence r" if "r \<in> set ?rem" for r unfolding m_def using that by (intro Min_le) auto
  have mem: "m \<in> ?S" if "?rem \<noteq> []" unfolding m_def using that by (intro Min_in) (auto simp: filter_empty_conv)
  have range: "sr_dropped s < er_sequence r \<and> er_sequence r \<le> sr_latest s" if "r \<in> set rows" for r
    using ok that by (auto simp: run_ok_def)
  have above: "new < er_sequence r" if "r \<in> set ?rem" for r
  proof -
    have "?rem \<noteq> []" using that by (auto simp: filter_empty_conv)
    then show ?thesis using min [OF that] range [of r] that new by auto
  qed
  show le: "sr_dropped s \<le> new" using ok new by (auto simp: run_ok_def)
  have top: "new \<le> sr_latest s"
  proof (cases "?rem = []")
    case False
    with mem obtain r where "r \<in> set rows" "m = er_sequence r" by auto
    with range [of r] ok new False show ?thesis by (auto simp: run_ok_def)
  qed (simp add: new)
  have complete: "er_sequence ` set ?rem = {new <.. sr_latest s}" if c: "sr_complete s" "lst \<le> new"
  proof (intro set_eqI iffI)
    fix x assume x: "x \<in> {new <.. sr_latest s}"
    then have "x \<in> er_sequence ` set rows" using ok c(1) le by (auto simp: run_ok_def)
    then show "x \<in> er_sequence ` set ?rem" using gone c(2) x by force
  qed (use above range in auto)
  have len: "length ?rem \<le> bigint_max" "bytes_of ?rem \<le> bigint_max"
    using bytes_split [of rows "\<lambda>r. \<not> P r"] length_filter_le [of "\<lambda>r. \<not> P r" rows] ok unfolding run_ok_def by linarith+
  have dist: "distinct (map er_sequence ?rem)" using ok by (simp add: run_ok_def distinct_map_filter)
  show "run_ok ?rem (s\<lparr>sr_events := length ?rem, sr_bytes := bytes_of ?rem, sr_dropped := new,
        sr_reason := (if sr_dropped s < new then Some reason else sr_reason s), sr_complete := (sr_complete s \<and> lst \<le> new)\<rparr>)"
    using ok above top le complete len dist unfolding run_ok_def by auto
qed


section \<open>Deletions\<close>

text \<open>What a deletion leaves of a state row, and of the tables.\<close>

definition settled :: "state_row \<Rightarrow> state_row \<Rightarrow> bool" where
  "settled s t \<longleftrightarrow> sr_flow t = sr_flow s \<and> sr_owner t = sr_owner s \<and> sr_latest t = sr_latest s \<and>
     sr_terminal t = sr_terminal s \<and> sr_dropped s \<le> sr_dropped t \<and> (sr_complete t \<longrightarrow> sr_complete s)"

definition shrinks :: "journal \<Rightarrow> journal \<Rightarrow> bool" where
  "shrinks j k \<longleftrightarrow> jn_runs k = jn_runs j \<and> (\<exists>P. jn_events k = filter P (jn_events j)) \<and>
     (jn_usage j = None \<longleftrightarrow> jn_usage k = None) \<and>
     (\<forall>i. case jn_states j i of None \<Rightarrow> jn_states k i = None | Some s \<Rightarrow> \<exists>t. jn_states k i = Some t \<and> settled s t)"

lemma settled_refl [simp]: "settled s s"
  by (simp add: settled_def)

lemma settled_trans: "settled s t \<Longrightarrow> settled t u \<Longrightarrow> settled s u"
  by (auto simp: settled_def)

lemma shrinks_refl [simp]: "shrinks j j"
  unfolding shrinks_def by (auto split: option.splits intro: exI [of _ "\<lambda>_. True"])

lemma shrinks_trans: "shrinks j k \<Longrightarrow> shrinks k l \<Longrightarrow> shrinks j l"
proof -
  assume jk: "shrinks j k" and kl: "shrinks k l"
  obtain P Q where "jn_events k = filter P (jn_events j)" "jn_events l = filter Q (jn_events k)"
    using jk kl by (auto simp: shrinks_def)
  then have "jn_events l = filter (\<lambda>r. P r \<and> Q r) (jn_events j)" by simp
  moreover have "case jn_states j i of None \<Rightarrow> jn_states l i = None | Some s \<Rightarrow> \<exists>t. jn_states l i = Some t \<and> settled s t" for i
  proof -
    have "case jn_states j i of None \<Rightarrow> jn_states k i = None | Some s \<Rightarrow> \<exists>t. jn_states k i = Some t \<and> settled s t"
      "case jn_states k i of None \<Rightarrow> jn_states l i = None | Some s \<Rightarrow> \<exists>t. jn_states l i = Some t \<and> settled s t"
      using jk kl by (simp_all add: shrinks_def)
    then show ?thesis by (cases "jn_states j i") (auto, metis settled_trans)
  qed
  ultimately show ?thesis using jk kl unfolding shrinks_def by auto
qed

lemma query_Inr: "query cx what s = (Inr u, t) \<longleftrightarrow> jx_fault cx what = None \<and> t = s"
  by (auto simp: query_def ret_def failing_def split: option.splits)

lemma to_bigint_Inr: "to_bigint m n = Inr k \<longleftrightarrow> n \<le> bigint_max \<and> k = n"
  by (auto simp: to_bigint_def)

lemma update_state_Inr:
  "update_state cx what i s j = (Inr u, k) \<longleftrightarrow>
   state_constraints (jn_runs j) i s \<and> k = j\<lparr>jn_states := (jn_states j)(i \<mapsto> s)\<rparr>"
  by (auto simp: update_state_def violated_def)

lemma run_event_state_Inr:
  "run_event_state cx i j = (Inr st, k) \<longleftrightarrow> jx_fault cx ''PostgreSQL run-event state lookup failed'' = None \<and> st = jn_states j i \<and> k = j"
  by (auto simp: run_event_state_def op_success query_Inr)

lemmas journal_success = op_success query_Inr to_bigint_Inr update_state_Inr run_event_state_Inr

lemma bigint_u64: "bigint_max \<le> u64_max"
  by (simp add: bigint_max_def u64_max_def)

lemma boundary_of:
  "(if length xs = 0 then Inr a else (case earliest_of xs of None \<Rightarrow> Inl x | Some m \<Rightarrow> Inr (max d (m - 1)))) =
   Inr (if xs = [] then a else max d (Min (er_sequence ` set xs) - 1))"
  by (cases xs) (simp_all add: earliest_of_def)

lemma settle_run_ok:
  assumes run: "settle_run cx reason gone i k = (Inr e, k')" and st: "jn_states k i = Some s" and ok: "run_ok (rows_of i rows) s"
    and gone: "gone = filter P rows" and left: "jn_events k = filter (\<lambda>r. \<not> P r) rows"
  shows "\<exists>t. k' = k\<lparr>jn_states := (jn_states k)(i \<mapsto> t)\<rparr> \<and> run_ok (rows_of i (jn_events k)) t \<and> settled s t"
proof -
  let ?rows = "rows_of i rows" and ?e = "deleted_of gone i"
  have rem: "rows_of i (jn_events k) = filter (\<lambda>r. \<not> P r) ?rows" and out: "rows_of i gone = filter P ?rows"
    by (simp_all add: left gone rows_of_filter)
  have "length (rows_of i gone) \<le> u64_max" "bytes_of (rows_of i gone) \<le> u64_max"
    using ok length_split [of ?rows P] bytes_split [of ?rows P] bigint_u64 unfolding run_ok_def out by linarith+
  note e = deleted_of_exact [OF this]
  have n: "sr_events s - ev_events ?e = length (filter (\<lambda>r. \<not> P r) ?rows)" "sr_bytes s - ev_bytes ?e = bytes_of (filter (\<lambda>r. \<not> P r) ?rows)"
    using ok length_split [of ?rows P] bytes_split [of ?rows P] unfolding run_ok_def e out by linarith+
  define new where "new = (if filter (\<lambda>r. \<not> P r) ?rows = [] then sr_latest s
      else max (sr_dropped s) (Min (er_sequence ` set (filter (\<lambda>r. \<not> P r) ?rows)) - 1))"
  define t where "t = s\<lparr>sr_events := length (filter (\<lambda>r. \<not> P r) ?rows), sr_bytes := bytes_of (filter (\<lambda>r. \<not> P r) ?rows), sr_dropped := new,
        sr_reason := (if sr_dropped s < new then Some reason else sr_reason s), sr_complete := (sr_complete s \<and> ev_last ?e \<le> new)\<rparr>"
  have bound: "\<forall>r \<in> set ?rows. P r \<longrightarrow> er_sequence r \<le> ev_last ?e" using e(3) unfolding out by auto
  have boundary: "(if length (filter (\<lambda>r. \<not> P r) ?rows) = 0 then Inr (sr_latest s)
      else (case earliest_of (filter (\<lambda>r. \<not> P r) ?rows) of None \<Rightarrow> Inl x | Some m \<Rightarrow> Inr (max (sr_dropped s) (m - 1)))) = Inr new" for x :: iron_error
    unfolding new_def by (rule boundary_of)
  obtain a where "(if sr_events s - ev_events ?e = 0 then Inr (sr_latest s)
      else (case earliest_of (rows_of i (jn_events k)) of
          None \<Rightarrow> Inl (Validation ''PostgreSQL run-event accounting retained rows are missing'')
        | Some m \<Rightarrow> Inr (max (sr_dropped s) (m - 1)))) = Inr a"
    and k': "k' = k\<lparr>jn_states := (jn_states k)(i \<mapsto> s\<lparr>sr_events := sr_events s - ev_events ?e, sr_bytes := sr_bytes s - ev_bytes ?e,
      sr_dropped := a, sr_reason := (if sr_dropped s < a then Some reason else sr_reason s), sr_complete := (sr_complete s \<and> ev_last ?e \<le> a)\<rparr>)\<rparr>"
    using run unfolding settle_run_def Let_def by (simp only: journal_success st option.inject option.distinct) blast
  then have "k' = k\<lparr>jn_states := (jn_states k)(i \<mapsto> t)\<rparr>" using boundary unfolding n rem by (simp add: t_def)
  moreover have "run_ok (filter (\<lambda>r. \<not> P r) ?rows) t" "settled s t"
    using settle_ok(1) [OF ok bound new_def, of reason] settle_ok(2) [OF ok bound new_def] unfolding t_def by (auto simp: settled_def)
  ultimately show ?thesis by (auto simp: rem)
qed


lemma settle_runs_ok:
  assumes "settle_runs cx reason gone ids acc k = (Inr d, k')" "distinct ids"
    and "\<forall>i \<in> set ids. \<exists>s. jn_states k i = Some s \<and> run_ok (rows_of i rows) s"
    and "gone = filter P rows" "jn_events k = filter (\<lambda>r. \<not> P r) rows"
  shows "\<exists>f. k' = k\<lparr>jn_states := f\<rparr> \<and> (\<forall>i. i \<notin> set ids \<longrightarrow> f i = jn_states k i) \<and>
    (\<forall>i \<in> set ids. \<exists>s t. jn_states k i = Some s \<and> f i = Some t \<and> run_ok (rows_of i (jn_events k)) t \<and> settled s t)"
  using assms
proof (induction ids arbitrary: acc k)
  case Nil
  then show ?case by (intro exI [of _ "jn_states k"]) (simp add: op_success)
next
  case (Cons i ids)
  obtain s where s: "jn_states k i = Some s" "run_ok (rows_of i rows) s" using Cons.prems(3) by auto
  obtain e l where l: "settle_run cx reason gone i k = (Inr e, l)" "settle_runs cx reason gone ids (acc(i \<mapsto> e)) l = (Inr d, k')"
    using Cons.prems(1) by (auto simp: op_success)
  obtain t where t: "l = k\<lparr>jn_states := (jn_states k)(i \<mapsto> t)\<rparr>" "run_ok (rows_of i (jn_events k)) t" "settled s t"
    using settle_run_ok [OF l(1) s Cons.prems(4,5)] by auto
  have "\<forall>x \<in> set ids. \<exists>s. jn_states l x = Some s \<and> run_ok (rows_of x rows) s"
    using Cons.prems(2,3) by (auto simp: t(1))
  then obtain f where f: "k' = l\<lparr>jn_states := f\<rparr>" "\<forall>x. x \<notin> set ids \<longrightarrow> f x = jn_states l x"
    "\<forall>x \<in> set ids. \<exists>s t. jn_states l x = Some s \<and> f x = Some t \<and> run_ok (rows_of x (jn_events l)) t \<and> settled s t"
    using Cons.IH [OF l(2) _ _ Cons.prems(4)] Cons.prems(2,5) t(1) by auto
  have "f i = Some t" using f(2) Cons.prems(2) by (simp add: t(1))
  moreover have "\<forall>x \<in> set ids. \<exists>s t. jn_states k x = Some s \<and> f x = Some t \<and> run_ok (rows_of x (jn_events k)) t \<and> settled s t"
  proof
    fix x assume "x \<in> set ids"
    moreover from this have "x \<noteq> i" using Cons.prems(2) by auto
    ultimately show "\<exists>s t. jn_states k x = Some s \<and> f x = Some t \<and> run_ok (rows_of x (jn_events k)) t \<and> settled s t"
      using bspec [OF f(3), of x] by (simp add: t(1))
  qed
  ultimately show ?case using f(1,2) s(1) t by (intro exI [of _ f]) auto
qed

lemma delete_rows_usage:
  "jn_usage (delete_rows keys j) = map_option (\<lambda>(n, b). (n - length (filter (\<lambda>r. row_key r \<in> keys) (jn_events j)),
      b - bytes_of (filter (\<lambda>r. row_key r \<in> keys) (jn_events j)))) (jn_usage j)"
  "jn_events (delete_rows keys j) = filter (\<lambda>r. row_key r \<notin> keys) (jn_events j)"
  "jn_states (delete_rows keys j) = jn_states j" "jn_runs (delete_rows keys j) = jn_runs j"
  by (simp_all add: delete_rows_def Let_def)

lemma delete_rows_usage_ok: "usage_ok j \<Longrightarrow> usage_ok (delete_rows keys j)"
  using length_split [of "jn_events j" "\<lambda>r. row_key r \<in> keys"] bytes_split [of "jn_events j" "\<lambda>r. row_key r \<in> keys"]
  by (auto simp: usage_ok_def delete_rows_usage)

text \<open>Deleting candidates that are rows of the table.\<close>

lemma delete_candidates_ok:
  assumes run: "delete_run_event_candidates cx cs reason j = (Inr d, k)" and ok: "journal_ok j"
  shows "journal_ok k \<and> shrinks j k \<and> jn_events k = filter (\<lambda>r. row_key r \<notin> (\<lambda>(i, n, _). (i, n)) ` set cs) (jn_events j)"
proof (cases "cs = []")
  case True
  then show ?thesis using run ok by (simp add: delete_run_event_candidates_def op_success)
next
  case False
  let ?P = "\<lambda>r. row_key r \<in> (\<lambda>(i, n, _). (i, n)) ` set cs" and ?rows = "jn_events j"
  define l where "l = delete_rows ((\<lambda>(i, n, _). (i, n)) ` set cs) j"
  let ?gone = "filter ?P ?rows"
  define ids where "ids = sort (remdups (map er_run ?gone))"
  have ids: "distinct ids" "set ids = er_run ` set ?gone" by (simp_all add: ids_def)
  have settle: "settle_runs cx reason ?gone ids Map.empty l = (Inr d, k)"
    using run False unfolding delete_run_event_candidates_def l_def ids_def by (simp only: journal_success if_False) blast
  have found: "\<forall>i \<in> set ids. \<exists>s. jn_states l i = Some s \<and> run_ok (rows_of i ?rows) s"
  proof
    fix i assume "i \<in> set ids"
    then have "rows_of i ?rows \<noteq> []" by (auto simp: ids rows_of_def filter_empty_conv)
    then show "\<exists>s. jn_states l i = Some s \<and> run_ok (rows_of i ?rows) s"
      using ok by (auto simp: journal_ok_def run_rows_ok_def l_def delete_rows_usage split: option.splits)
  qed
  have left: "jn_events l = filter (\<lambda>r. \<not> ?P r) ?rows" by (simp add: l_def delete_rows_usage)
  obtain f where f: "k = l\<lparr>jn_states := f\<rparr>" "\<forall>i. i \<notin> er_run ` set ?gone \<longrightarrow> f i = jn_states l i"
    "\<forall>i \<in> er_run ` set ?gone. \<exists>s t. jn_states l i = Some s \<and> f i = Some t \<and> run_ok (rows_of i (jn_events l)) t \<and> settled s t"
    using settle_runs_ok [OF settle ids(1) found refl left] unfolding ids(2) by blast
  have untouched: "rows_of i (jn_events l) = rows_of i ?rows" if "i \<notin> er_run ` set ?gone" for i
    using that by (auto simp: l_def delete_rows_usage rows_of_def intro: filter_cong)
  have state: "run_rows_ok (rows_of i (jn_events l)) (f i) \<and> (f i \<noteq> None \<longrightarrow> jn_runs j i \<noteq> None) \<and>
      (case jn_states j i of None \<Rightarrow> f i = None | Some s \<Rightarrow> \<exists>t. f i = Some t \<and> settled s t)" for i
  proof (cases "i \<in> er_run ` set ?gone")
    case True
    then obtain s t where "jn_states l i = Some s" "f i = Some t" "run_ok (rows_of i (jn_events l)) t" "settled s t" using f(3) by meson
    moreover have "jn_states l i = jn_states j i" by (simp add: l_def delete_rows_usage)
    ultimately show ?thesis using ok by (auto simp: run_rows_ok_def journal_ok_def)
  next
    case False
    then have "f i = jn_states j i" using f(2) by (simp add: l_def delete_rows_usage)
    then show ?thesis using ok untouched [OF False] by (auto simp: journal_ok_def split: option.splits)
  qed
  have k: "jn_events k = filter (\<lambda>r. \<not> ?P r) ?rows" "jn_runs k = jn_runs j" "jn_states k = f" "jn_usage k = jn_usage l" "jn_events l = jn_events k"
    by (simp_all add: f(1) l_def delete_rows_usage)
  have "usage_ok l" using delete_rows_usage_ok ok by (simp add: l_def journal_ok_def)
  then have "usage_ok k" by (simp add: usage_ok_def k(4,5))
  moreover have "jn_usage j = None \<longleftrightarrow> jn_usage k = None" by (simp add: k(4) l_def delete_rows_usage)
  ultimately show ?thesis using state k unfolding journal_ok_def shrinks_def by auto
qed


section \<open>Eviction\<close>

lemma select_candidates_spec:
  "select_candidates re rb cs freed rows = (cs', freed') \<Longrightarrow> freed + bytes_of rows \<le> u64_max \<Longrightarrow>
   \<exists>p q. rows = p @ q \<and> cs' = cs @ map candidate_of p \<and> freed' = freed + bytes_of p"
proof (induction rows arbitrary: cs freed)
  case Nil
  then show ?case by simp
next
  case (Cons r rows)
  have exact: "saturating_add freed (er_accounted r) = freed + er_accounted r"
    using Cons.prems(2) by (intro saturating_add_exact) simp
  show ?case
  proof (cases "re \<le> length (cs @ [candidate_of r]) \<and> rb \<le> freed + er_accounted r")
    case True
    then have "cs' = cs @ map candidate_of [r] \<and> freed' = freed + bytes_of [r]"
      using Cons.prems(1) by (auto simp: exact Let_def)
    then show ?thesis by (metis append_Cons append_Nil)
  next
    case False
    then have "select_candidates re rb (cs @ [candidate_of r]) (freed + er_accounted r) rows = (cs', freed')"
      using Cons.prems(1) by (auto simp: exact Let_def split: if_splits)
    from Cons.IH [OF this] Cons.prems(2) obtain p q where "rows = p @ q" "cs' = (cs @ [candidate_of r]) @ map candidate_of p"
      "freed' = freed + er_accounted r + bytes_of p" by auto
    then show ?thesis by (intro exI [of _ "r # p"] exI [of _ q]) simp
  qed
qed

lemma bytes_of_mset: "bytes_of rows = sum_mset (image_mset er_accounted (mset rows))"
  by (metis mset_map sum_mset_sum_list)

text \<open>Removing some rows of a table with distinct keys removes their number and their bytes.\<close>

lemma remove_rows:
  assumes "distinct (map row_key rows)" and dp: "distinct p" and sub: "set p \<subseteq> set rows"
  shows "length (filter (\<lambda>r. row_key r \<notin> row_key ` set p) rows) + length p = length rows"
    and "bytes_of (filter (\<lambda>r. row_key r \<notin> row_key ` set p) rows) + bytes_of p = bytes_of rows"
proof -
  let ?P = "\<lambda>r. row_key r \<in> row_key ` set p"
  have "inj_on row_key (set rows)" using assms(1) by (simp add: distinct_map)
  then have "set (filter ?P rows) = set p" using sub by (auto dest: inj_onD)
  moreover have "distinct rows" using assms(1) by (simp add: distinct_map)
  ultimately have "mset (filter ?P rows) = mset p"
    using dp by (metis distinct_filter set_eq_iff_mset_eq_distinct)
  then have "length (filter ?P rows) = length p" "bytes_of (filter ?P rows) = bytes_of p"
    by (auto simp only: bytes_of_mset dest: mset_eq_length)
  then show "length (filter (\<lambda>r. row_key r \<notin> row_key ` set p) rows) + length p = length rows"
    and "bytes_of (filter (\<lambda>r. row_key r \<notin> row_key ` set p) rows) + bytes_of p = bytes_of rows"
    using length_split [of rows ?P] bytes_split [of rows ?P] by simp_all
qed


lemma evict_loop_ok:
  assumes "\<forall>rows. mset (pick rows) = mset (filter Q rows)"
    and "evict_loop cx what message reason pick re rb n sm j = (Inr d, k)" "journal_ok j"
  shows "journal_ok k \<and> shrinks j k \<and>
    length (filter Q (jn_events k)) + re \<le> length (filter Q (jn_events j)) \<and>
    bytes_of (filter Q (jn_events k)) + rb \<le> bytes_of (filter Q (jn_events j))"
  using assms
proof (induction cx what message reason pick re rb n sm j rule: evict_loop.induct)
  case (1 cx what message reason pick re rb n sm j)
  show ?case
  proof (cases "re = 0 \<and> rb = 0")
    case True
    then show ?thesis using "1.prems" by (subst (asm) evict_loop.simps) simp
  next
    case more: False
    let ?rows = "take (jc_prune_batch (jx_config cx)) (pick (jn_events j))" and ?G = "filter Q (jn_events j)"
    obtain cs freed where sel: "select_candidates re rb [] 0 ?rows = (cs, freed)" by force
    obtain e l where del: "delete_run_event_candidates cx cs reason j = (Inr e, l)" "cs \<noteq> []"
      "\<not> (cs = [] \<or> max_evicted < saturating_add n (length cs))" and q: "query cx what j = (Inr (), j)"
      and rest: "evict_loop cx what message reason pick (re - length cs) (rb - freed) (saturating_add n (length cs)) (merge_summary sm e) l = (Inr d, k)"
      using "1.prems"(2) more sel by (subst (asm) evict_loop.simps) (auto simp: query_Inr split: prod.splits sum.splits if_splits)
    have perm: "mset (pick (jn_events j)) = mset ?G" using "1.prems"(1) by simp
    have keys: "distinct (map row_key ?G)" using journal_keys_distinct [OF "1.prems"(3)] by (simp add: distinct_map_filter)
    have "bytes_of ?rows \<le> bytes_of (pick (jn_events j))"
      by (metis append_take_drop_id le_add1 map_append sum_list.append)
    also have "\<dots> = bytes_of ?G" by (simp only: bytes_of_mset perm)
    also have "\<dots> \<le> u64_max"
      using bytes_split [of "jn_events j" Q] "1.prems"(3) bigint_u64 by (simp add: journal_ok_def usage_ok_def)
    finally have "bytes_of ?rows \<le> u64_max" .
    then obtain p q where p: "?rows = p @ q" "cs = map candidate_of p" "freed = bytes_of p"
      using select_candidates_spec [OF sel] by auto
    have "distinct (pick (jn_events j))" using keys mset_eq_imp_distinct_iff [OF perm] by (simp add: distinct_map)
    then have dp: "distinct p" "set p \<subseteq> set ?G"
      using mset_eq_setD [OF perm] distinct_take p(1) set_take_subset
      by (metis distinct_append, metis in_set_takeD subsetI Un_iff set_append)
    have "(\<lambda>(i, n, _). (i, n)) ` set cs = row_key ` set p" by (auto simp: p candidate_of_def row_key_def image_image)
    then have l: "journal_ok l" "shrinks j l" "jn_events l = filter (\<lambda>r. row_key r \<notin> row_key ` set p) (jn_events j)"
      using delete_candidates_ok [OF del(1) "1.prems"(3)] by auto
    then have "filter Q (jn_events l) = filter (\<lambda>r. row_key r \<notin> row_key ` set p) ?G" by (simp add: conj_commute)
    note gone = remove_rows [OF keys dp, folded this]
    have "journal_ok k \<and> shrinks l k \<and> length (filter Q (jn_events k)) + (re - length cs) \<le> length (filter Q (jn_events l)) \<and>
      bytes_of (filter Q (jn_events k)) + (rb - freed) \<le> bytes_of (filter Q (jn_events l))"
      by (rule "1.IH" [OF more q [symmetric] refl sel [symmetric] del(3) del(1) [symmetric] refl "1.prems"(1) rest l(1)])
    then show ?thesis using gone l(2) shrinks_trans unfolding p by auto
  qed
qed


lemma ordered_by_mset: "mset (ordered_by cx t rows) = mset rows"
  by (simp add: ordered_by_def)

lemma evict_run_ok:
  assumes "evict_run_event_capacity cx i re rb j = (Inr d, k)" "journal_ok j"
  shows "journal_ok k" "shrinks j k" "length (rows_of i (jn_events k)) + re \<le> length (rows_of i (jn_events j))"
    "bytes_of (rows_of i (jn_events k)) + rb \<le> bytes_of (rows_of i (jn_events j))"
  using evict_loop_ok [of _ "\<lambda>r. er_run r = i", OF _ assms(1) [unfolded evict_run_event_capacity_def] assms(2)]
  by (simp_all add: rows_of_def)

lemma evict_global_ok:
  assumes "evict_global_run_event_capacity cx re rb j = (Inr d, k)" "journal_ok j"
  shows "journal_ok k" "shrinks j k" "length (jn_events k) + re \<le> length (jn_events j)"
    "bytes_of (jn_events k) + rb \<le> bytes_of (jn_events j)"
  using evict_loop_ok [of _ "\<lambda>_. True", OF _ assms(1) [unfolded evict_global_run_event_capacity_def] assms(2)]
  by (simp_all add: ordered_by_mset)

lemma prune_ok:
  "prune_expired_run_events cx j = (Inr d, k) \<Longrightarrow> journal_ok j \<Longrightarrow> journal_ok k \<and> shrinks j k"
  unfolding prune_expired_run_events_def by (auto simp: journal_success dest: delete_candidates_ok)

section \<open>Limits\<close>

definition within_limits :: "journal_config \<Rightarrow> journal \<Rightarrow> bool" where
  "within_limits c j \<longleftrightarrow>
     (\<forall>i. length (rows_of i (jn_events j)) \<le> jc_max_events_per_run c \<and> bytes_of (rows_of i (jn_events j)) \<le> jc_max_bytes_per_run c) \<and>
     length (jn_events j) \<le> jc_max_total_events c \<and> bytes_of (jn_events j) \<le> jc_max_total_bytes c"

lemma shrinks_le:
  assumes "shrinks j k"
  shows "length (rows_of i (jn_events k)) \<le> length (rows_of i (jn_events j))" "bytes_of (rows_of i (jn_events k)) \<le> bytes_of (rows_of i (jn_events j))"
    "length (jn_events k) \<le> length (jn_events j)" "bytes_of (jn_events k) \<le> bytes_of (jn_events j)"
proof -
  obtain P where P: "jn_events k = filter P (jn_events j)" using assms by (auto simp: shrinks_def)
  show "length (rows_of i (jn_events k)) \<le> length (rows_of i (jn_events j))" "bytes_of (rows_of i (jn_events k)) \<le> bytes_of (rows_of i (jn_events j))"
    "length (jn_events k) \<le> length (jn_events j)" "bytes_of (jn_events k) \<le> bytes_of (jn_events j)"
    unfolding P rows_of_filter using bytes_split [of "jn_events j" P] bytes_split [of "rows_of i (jn_events j)" P] by simp_all
qed

lemma shrinks_limits: "shrinks j k \<Longrightarrow> within_limits c j \<Longrightarrow> within_limits c k"
  unfolding within_limits_def using shrinks_le by (meson le_trans)

end
