(* ===== verification/Journal_Append.thy ===== *)
theory Journal_Append
  imports Journal_Correct
begin

text \<open>
  Appending a batch keeps the invariant of the journal and its limits, whatever fails on the way; the
  invariant over all transactions on the tables.
\<close>

section \<open>The entries of a batch\<close>

lemma batch_entries_increasing:
  "validate_batch_entries ser m previous n es = Inr t \<Longrightarrow>
   sorted_wrt (<) (map ae_sequence es) \<and> (\<forall>e \<in> set es. previous < ae_sequence e)"
proof (induction es arbitrary: previous n)
  case (Cons e es)
  then obtain n' where "validate_batch_entries ser m (ae_sequence e) n' es = Inr t" "previous < ae_sequence e"
    by (auto simp: rust_result not_le split: if_splits option.splits)
  with Cons.IH [OF this(1)] show ?case by (auto intro: less_trans)
qed simp

lemma partition_entries_spec:
  "partition_entries i latest existing d acc es = Inr (d', new) \<Longrightarrow>
   new = acc @ filter (\<lambda>e. existing (ae_sequence e) = None) es \<and>
   (\<forall>e \<in> set es. existing (ae_sequence e) = None \<longrightarrow> latest < ae_sequence e)"
proof (induction es arbitrary: d acc)
  case (Cons e es)
  then show ?case by (cases "existing (ae_sequence e)") (force split: if_splits)+
qed simp

section \<open>The rows of a batch\<close>

definition row_for :: "jx \<Rightarrow> string \<Rightarrow> nat \<Rightarrow> nat \<Rightarrow> append_entry \<times> string \<Rightarrow> event_row" where
  "row_for cx i created expires ep = (case ep of (e, payload) \<Rightarrow>
     \<lparr>er_run = i, er_sequence = ae_sequence e, er_event_type = ae_event_type e, er_payload = the (jx_jsonb cx payload),
      er_payload_bytes = ae_payload_bytes e, er_accounted = accounted_bytes (ae_payload_bytes e) (the (jx_jsonb cx payload)),
      er_created_at = created, er_expires_at = expires\<rparr>)"

lemma insert_row_Inr:
  assumes "insert_row cx i e payload created expires j = (Inr u, k)"
  shows "\<exists>n b. jn_usage j = Some (n, b) \<and> row_constraints cx j (row_for cx i created expires (e, payload)) \<and> ae_sequence e \<le> bigint_max \<and>
    n + 1 \<le> bigint_max \<and> b + er_accounted (row_for cx i created expires (e, payload)) \<le> bigint_max \<and>
    k = j\<lparr>jn_events := jn_events j @ [row_for cx i created expires (e, payload)],
          jn_usage := Some (n + 1, b + er_accounted (row_for cx i created expires (e, payload)))\<rparr>"
  using assms unfolding insert_row_def
  by (auto simp: journal_success row_for_def violated_def Let_def split: option.splits if_splits)

lemma insert_rows_Inr:
  assumes "insert_rows cx i created expires eps j = (Inr u, k)" "usage_ok j" "jn_usage j \<noteq> None"
  shows "k = j\<lparr>jn_events := jn_events j @ map (row_for cx i created expires) eps, jn_usage := jn_usage k\<rparr> \<and> usage_ok k \<and>
    jn_usage k \<noteq> None \<and> (\<forall>(e, p) \<in> set eps. ae_sequence e \<le> bigint_max)"
  using assms
proof (induction eps arbitrary: j)
  case Nil
  then show ?case by (simp add: op_success)
next
  case (Cons ep eps)
  obtain e p where ep: "ep = (e, p)" by (cases ep)
  let ?r = "row_for cx i created expires (e, p)"
  obtain v l where l: "insert_row cx i e p created expires j = (Inr v, l)" "insert_rows cx i created expires eps l = (Inr u, k)"
    using Cons.prems(1) by (auto simp: ep op_success)
  obtain n b where n: "jn_usage j = Some (n, b)" "n + 1 \<le> bigint_max" "b + er_accounted ?r \<le> bigint_max" "ae_sequence e \<le> bigint_max"
    "l = j\<lparr>jn_events := jn_events j @ [?r], jn_usage := Some (n + 1, b + er_accounted ?r)\<rparr>"
    using insert_row_Inr [OF l(1)] by auto
  have "usage_ok l" "jn_usage l \<noteq> None" using Cons.prems(2) n by (auto simp: usage_ok_def)
  from Cons.IH [OF l(2) this] show ?case using n(4) by (auto simp: n(5) ep)
qed

lemma serialize_length: "serialize_payloads cx es = Inr ps \<Longrightarrow> length ps = length es"
  by (induction es arbitrary: ps) (auto simp: rust_result split: sum.splits)

lemma checked_total_exact: "checked_total n bs = Inr t \<Longrightarrow> t = n + sum_list bs"
  by (induction bs arbitrary: n) (fastforce simp: rust_arith split: option.splits)+

lemma account_Inr:
  assumes "account_run_event_append cx es s = (Inr ac, t)"
  shows "t = s \<and> ac_entries ac = es \<and> ac_count ac = length es \<and> length (ac_payloads ac) = length es \<and>
    ac_bytes ac = bytes_of (map (row_for cx i created expires) (zip es (ac_payloads ac)))"
proof -
  obtain ps sizes where ps: "serialize_payloads cx es = Inr ps"
    and sizes: "if es = [] then sizes = [] else accounted_sizes cx es ps = Inr sizes" and t: "checked_total 0 sizes = Inr (ac_bytes ac)"
    and ac: "t = s" "ac_entries ac = es" "ac_payloads ac = ps" "ac_count ac = length es"
    using assms unfolding account_run_event_append_def by (auto simp: journal_success split: if_splits)
  have "sizes = map (\<lambda>(e, p). accounted_bytes (ae_payload_bytes e) (the (jx_jsonb cx p))) (zip es ps)"
    using sizes by (auto simp: accounted_sizes_def split: if_splits)
  then have "ac_bytes ac = bytes_of (map (row_for cx i created expires) (zip es ps))"
    using checked_total_exact [OF t] by (simp add: row_for_def split_def comp_def)
  then show ?thesis using ac serialize_length [OF ps] by simp
qed

section \<open>The state after an append\<close>

lemma saturating_bigint: "n \<le> bigint_max \<Longrightarrow> saturating_add n 1 = n + 1"
  by (intro saturating_add_exact) (simp add: bigint_max_def u64_max_def)

lemma advance_state_kept:
  "sr_dropped (advance_state x es s) = sr_dropped s" "sr_reason (advance_state x es s) = sr_reason s"
  "sr_flow (advance_state x es s) = sr_flow s" "sr_owner (advance_state x es s) = sr_owner s"
  by (induction es arbitrary: x s) simp_all

lemma advance_state_terminal:
  "\<forall>e \<in> set es. ae_event_type e \<noteq> run_complete \<Longrightarrow> sr_terminal (advance_state x es s) = sr_terminal s"
  by (induction es arbitrary: x s) simp_all

lemma advance_state_spec:
  assumes "sorted_wrt (<) (map ae_sequence es)" "\<forall>e \<in> set es. sr_latest s < ae_sequence e \<and> ae_sequence e \<le> bigint_max"
    and "t = advance_state (sr_latest s + 1) es s"
  shows "sr_latest t = (if es = [] then sr_latest s else ae_sequence (last es)) \<and>
    (sr_complete t \<longrightarrow> sr_complete s \<and> ae_sequence ` set es = {sr_latest s <.. sr_latest t})"
  using assms
proof (induction es arbitrary: s)
  case (Cons e es)
  let ?s = "s\<lparr>sr_complete := (sr_complete s \<and> ae_sequence e = sr_latest s + 1), sr_latest := ae_sequence e,
     sr_terminal := (if ae_event_type e = run_complete
            then Some (max (case sr_terminal s of None \<Rightarrow> 0 | Some n \<Rightarrow> n) (ae_sequence e)) else sr_terminal s)\<rparr>"
  have e: "sr_latest s < ae_sequence e" "ae_sequence e \<le> bigint_max" using Cons.prems by auto
  note sat = saturating_bigint [OF e(2)]
  have t: "t = advance_state (sr_latest ?s + 1) es ?s"
    using e(1) Cons.prems(3) sat by (simp only: advance_state.simps max_absorb2 less_imp_le) simp
  have "sorted_wrt (<) (map ae_sequence es)" "\<forall>e' \<in> set es. sr_latest ?s < ae_sequence e' \<and> ae_sequence e' \<le> bigint_max"
    using Cons.prems by auto
  from Cons.IH [OF this t] have IH: "sr_latest t = (if es = [] then ae_sequence e else ae_sequence (last es))"
    "sr_complete t \<Longrightarrow> sr_complete s \<and> ae_sequence e = sr_latest s + 1 \<and> ae_sequence ` set es = {ae_sequence e <.. sr_latest t}" by auto
  have "ae_sequence e \<le> sr_latest t" using IH(1) Cons.prems(1) by (auto simp: less_imp_le)
  then show ?case using IH by auto
qed simp


lemma append_run_ok:
  assumes ok: "run_ok rows s" and ne: "es \<noteq> []" and sorted: "sorted_wrt (<) (map ae_sequence es)"
    and new: "\<forall>e \<in> set es. sr_latest s < ae_sequence e \<and> ae_sequence e \<le> bigint_max"
    and rs: "map er_sequence rs = map ae_sequence es" "map er_event_type rs = map ae_event_type es" "\<forall>r \<in> set rs. row_sized r"
    and open_run: "sr_terminal s = None" and final: "(\<forall>e \<in> set es. ae_event_type e \<noteq> run_complete) \<or> (\<exists>e. es = [e] \<and> ae_event_type e = run_complete)"
    and size: "length rows + length es \<le> bigint_max" "bytes_of rows + bytes_of rs \<le> bigint_max"
    and t: "t = (advance_state (sr_latest s + 1) es s)\<lparr>sr_events := length rows + length es, sr_bytes := bytes_of rows + bytes_of rs\<rparr>"
  shows "run_ok (rows @ rs) t"
proof -
  define a where "a = advance_state (sr_latest s + 1) es s"
  have latest: "sr_latest a = ae_sequence (last es)"
    and complete: "sr_complete a \<Longrightarrow> sr_complete s \<and> ae_sequence ` set es = {sr_latest s <.. sr_latest a}"
    using advance_state_spec [OF sorted new a_def] ne by auto
  have kept: "sr_dropped a = sr_dropped s" "sr_reason a = sr_reason s" by (simp_all add: a_def advance_state_kept)
  have "last es \<in> set es" using ne by simp
  then have above: "sr_latest s < sr_latest a" "sr_latest a \<le> bigint_max" using new by (auto simp: latest)
  have "ae_sequence e \<le> ae_sequence (last es)" if "e \<in> set es" for e
    using that sorted ne by (cases es rule: rev_cases) (auto simp: sorted_wrt_append)
  moreover have seqs: "er_sequence ` set rs = ae_sequence ` set es" using arg_cong [OF rs(1), of set] by simp
  ultimately have range: "sr_latest s < er_sequence r \<and> er_sequence r \<le> sr_latest a" if "r \<in> set rs" for r
    using that new by (metis (no_types, lifting) imageE image_eqI latest)
  have old: "sr_dropped s < er_sequence r \<and> er_sequence r \<le> sr_latest s \<and> row_sized r \<and> er_event_type r \<noteq> run_complete"
    if "r \<in> set rows" for r using ok that open_run by (auto simp: run_ok_def)
  have types: "\<forall>r \<in> set rs. er_event_type r = run_complete \<longleftrightarrow> sr_terminal a = Some (er_sequence r)"
    and top: "\<forall>n. sr_terminal a = Some n \<longrightarrow> 0 < n \<and> n = sr_latest a"
  proof (atomize (full), cases "\<forall>e \<in> set es. ae_event_type e \<noteq> run_complete")
    case True
    moreover have "er_event_type ` set rs = ae_event_type ` set es" using arg_cong [OF rs(2), of set] by simp
    ultimately have "\<forall>r \<in> set rs. er_event_type r \<noteq> run_complete" by (metis imageE image_eqI)
    then show "(\<forall>r \<in> set rs. (er_event_type r = run_complete) = (sr_terminal a = Some (er_sequence r))) \<and>
      (\<forall>n. sr_terminal a = Some n \<longrightarrow> 0 < n \<and> n = sr_latest a)"
      using advance_state_terminal [OF True] open_run by (simp add: a_def)
  next
    case False
    then obtain e where e: "es = [e]" "ae_event_type e = run_complete" using final by auto
    then obtain r where "rs = [r]" "er_sequence r = ae_sequence e" "er_event_type r = run_complete" using rs(1,2) by auto
    then show "(\<forall>r \<in> set rs. (er_event_type r = run_complete) = (sr_terminal a = Some (er_sequence r))) \<and>
      (\<forall>n. sr_terminal a = Some n \<longrightarrow> 0 < n \<and> n = sr_latest a)"
      using open_run new latest by (auto simp: e a_def)
  qed
  have len: "length rs = length es" using rs(1) by (metis length_map)
  have dist: "distinct (map er_sequence (rows @ rs))"
  proof -
    have "distinct (map er_sequence rs)" unfolding rs(1) using sorted by (simp add: strict_sorted_iff)
    moreover have "set (map er_sequence rows) \<inter> set (map er_sequence rs) = {}" using old range by fastforce
    ultimately show ?thesis using ok by (simp add: run_ok_def)
  qed
  have full: "er_sequence ` set (rows @ rs) = {sr_dropped s <.. sr_latest a}" if "sr_complete a"
  proof -
    have "er_sequence ` set rows = {sr_dropped s <.. sr_latest s}" using complete [OF that] ok by (simp add: run_ok_def)
    then show ?thesis using complete [OF that] seqs above ok by (auto simp: image_Un run_ok_def)
  qed
  have all: "\<forall>r \<in> set (rows @ rs). sr_dropped s < er_sequence r \<and> er_sequence r \<le> sr_latest a \<and> row_sized r"
    using old range rs(3) above(1) ok by (fastforce simp: run_ok_def)
  have kinds: "\<forall>r \<in> set (rows @ rs). er_event_type r = run_complete \<longleftrightarrow> sr_terminal a = Some (er_sequence r)"
    using types top old above(1) by fastforce
  have "sr_dropped s \<le> sr_latest a" "sr_dropped s = 0 \<longleftrightarrow> sr_reason s = None" using ok above(1) by (auto simp: run_ok_def)
  with dist full all kinds top above(2) size len show ?thesis unfolding t run_ok_def a_def [symmetric] by (simp add: kept)
qed

section \<open>Writing the batch\<close>

lemma rows_of_row_for: "rows_of x (map (row_for cx i c e) eps) = (if x = i then map (row_for cx i c e) eps else [])"
  by (induction eps) (auto simp: rows_of_def row_for_def split_def)

lemma row_for_maps:
  assumes "length ps = length es"
  shows "map er_sequence (map (row_for cx i c x) (zip es ps)) = map ae_sequence es"
    "map er_event_type (map (row_for cx i c x) (zip es ps)) = map ae_event_type es"
    "\<forall>r \<in> set (map (row_for cx i c x) (zip es ps)). row_sized r"
  using assms by (induction es ps rule: list_induct2') (auto simp: row_for_def accounted_bytes_def row_sized_def)

lemma journal_ok_state: "journal_ok j \<Longrightarrow> jn_states j i = Some s \<Longrightarrow> run_ok (rows_of i (jn_events j)) s \<and> jn_runs j i \<noteq> None"
  unfolding journal_ok_def run_rows_ok_def by (metis option.case(2) option.distinct(1))

lemma shrinks_state: "shrinks j k \<Longrightarrow> jn_states j i = Some s \<Longrightarrow> \<exists>t. jn_states k i = Some t \<and> settled s t"
proof -
  assume sh: "shrinks j k" and s: "jn_states j i = Some s"
  from sh have "case jn_states j i of None \<Rightarrow> jn_states k i = None | Some s \<Rightarrow> \<exists>t. jn_states k i = Some t \<and> settled s t"
    by (simp add: shrinks_def)
  then show ?thesis by (simp add: s)
qed

lemma checked_op: "(case checked_add a b of None \<Rightarrow> Inl e | Some n \<Rightarrow> Inr n) = Inr m \<longleftrightarrow> a + b \<le> u64_max \<and> m = a + b"
  by (auto simp: checked_add_def)

lemma update_after_append_Inr:
  assumes "update_run_event_state_after_append cx b s ac j = (Inr u, k)"
  shows "\<exists>t. t = (advance_state (saturating_add (sr_latest s) 1) (ac_entries ac) s)\<lparr>sr_events := sr_events s + ac_count ac, sr_bytes := sr_bytes s + ac_bytes ac\<rparr> \<and>
    sr_events s + ac_count ac \<le> bigint_max \<and> sr_bytes s + ac_bytes ac \<le> bigint_max \<and>
    k = j\<lparr>jn_states := (jn_states j)(ab_run_id b \<mapsto> t)\<rparr>"
  using assms unfolding update_run_event_state_after_append_def Let_def
  by (auto simp: journal_success rust_arith)

lemma persist_steps:
  assumes "persist_run_event_append cx b s ac pruned j = (Inr d, k)"
  obtains d1 d2 j1 j2 j3 n m s' x where
    "evict_run_event_capacity cx (ab_run_id b) (sr_events s + ac_count ac - jc_max_events_per_run (jx_config cx))
       (sr_bytes s + ac_bytes ac - jc_max_bytes_per_run (jx_config cx)) j = (Inr d1, j1)"
    "jn_usage j1 = Some (n, m)"
    "evict_global_run_event_capacity cx (n + ac_count ac - jc_max_total_events (jx_config cx))
       (m + ac_bytes ac - jc_max_total_bytes (jx_config cx)) j1 = (Inr d2, j2)"
    "jn_states j2 (ab_run_id b) = Some s'"
    "insert_rows cx (ab_run_id b) (jx_insert_at cx) x (zip (ac_entries ac) (ac_payloads ac)) j2 = (Inr (), j3)"
    "update_run_event_state_after_append cx b s' ac j3 = (Inr (), k)"
  using assms unfolding persist_run_event_append_def Let_def lock_run_event_usage_def
  by (simp only: journal_success checked_op) (elim exE conjE disjE; force)


text \<open>What the caller of \<open>persist_run_event_append\<close> has established about the accounted batch.\<close>

definition batch_ready :: "jx \<Rightarrow> string \<Rightarrow> state_row \<Rightarrow> accounted_batch \<Rightarrow> bool" where
  "batch_ready cx i s ac \<longleftrightarrow> ac_entries ac \<noteq> [] \<and> sorted_wrt (<) (map ae_sequence (ac_entries ac)) \<and>
     (\<forall>e \<in> set (ac_entries ac). sr_latest s < ae_sequence e) \<and> ac_count ac = length (ac_entries ac) \<and>
     length (ac_payloads ac) = length (ac_entries ac) \<and>
     (\<forall>c x. ac_bytes ac = bytes_of (map (row_for cx i c x) (zip (ac_entries ac) (ac_payloads ac)))) \<and>
     sr_terminal s = None \<and>
     ((\<forall>e \<in> set (ac_entries ac). ae_event_type e \<noteq> run_complete) \<or> (\<exists>e. ac_entries ac = [e] \<and> ae_event_type e = run_complete))"

lemma persist_ok:
  assumes run: "persist_run_event_append cx b s ac pruned j = (Inr d, k)" and ok: "journal_ok j"
    and s: "jn_states j (ab_run_id b) = Some s" and ready: "batch_ready cx (ab_run_id b) s ac"
  shows "journal_ok k \<and> jn_runs k = jn_runs j \<and> (within_limits (jx_config cx) j \<longrightarrow> within_limits (jx_config cx) k)"
proof -
  let ?i = "ab_run_id b" and ?c = "jx_config cx"
  obtain d1 d2 j1 j2 j3 n m s' x where ev: "evict_run_event_capacity cx ?i (sr_events s + ac_count ac - jc_max_events_per_run ?c)
       (sr_bytes s + ac_bytes ac - jc_max_bytes_per_run ?c) j = (Inr d1, j1)"
    and usage: "jn_usage j1 = Some (n, m)"
    and glob: "evict_global_run_event_capacity cx (n + ac_count ac - jc_max_total_events ?c)
       (m + ac_bytes ac - jc_max_total_bytes ?c) j1 = (Inr d2, j2)"
    and s': "jn_states j2 ?i = Some s'"
    and ins: "insert_rows cx ?i (jx_insert_at cx) x (zip (ac_entries ac) (ac_payloads ac)) j2 = (Inr (), j3)"
    and upd: "update_run_event_state_after_append cx b s' ac j3 = (Inr (), k)"
    using persist_steps [OF run] by metis
  define rs where "rs = map (row_for cx ?i (jx_insert_at cx) x) (zip (ac_entries ac) (ac_payloads ac))"
  note e1 = evict_run_ok [OF ev ok]
  note e2 = evict_global_ok [OF glob e1(1)]
  have sh: "shrinks j j2" using e1(2) e2(2) by (rule shrinks_trans)
  have ok2: "usage_ok j2" "run_ok (rows_of ?i (jn_events j2)) s'" using e2(1) s' journal_ok_state by (auto simp: journal_ok_def)
  have "jn_usage j2 \<noteq> None" using usage e2(2) by (auto simp: shrinks_def)
  from insert_rows_Inr [OF ins ok2(1) this]
  have j3: "jn_events j3 = jn_events j2 @ rs" "jn_states j3 = jn_states j2" "jn_runs j3 = jn_runs j2" "usage_ok j3"
    and big: "\<forall>(e, p) \<in> set (zip (ac_entries ac) (ac_payloads ac)). ae_sequence e \<le> bigint_max"
    unfolding rs_def by (metis journal.select_convs journal.simps(6-9) journal.update_convs(2,4) journal.surjective)+
  have es: "ac_entries ac \<noteq> []" "sorted_wrt (<) (map ae_sequence (ac_entries ac))" "ac_count ac = length (ac_entries ac)"
    and lens: "length (ac_payloads ac) = length (ac_entries ac)" and bytes: "ac_bytes ac = bytes_of rs"
    and final: "(\<forall>e \<in> set (ac_entries ac). ae_event_type e \<noteq> run_complete) \<or> (\<exists>e. ac_entries ac = [e] \<and> ae_event_type e = run_complete)"
    using ready by (auto simp: batch_ready_def rs_def)
  note maps = row_for_maps [OF lens, of cx ?i "jx_insert_at cx" x, folded rs_def]
  have st: "settled s s'" using shrinks_state [OF sh s] s' by auto
  have new: "\<forall>e \<in> set (ac_entries ac). sr_latest s' < ae_sequence e \<and> ae_sequence e \<le> bigint_max"
  proof
    fix e assume e: "e \<in> set (ac_entries ac)"
    then obtain p where "(e, p) \<in> set (zip (ac_entries ac) (ac_payloads ac))" using lens by (metis in_set_impl_in_set_zip1)
    then show "sr_latest s' < ae_sequence e \<and> ae_sequence e \<le> bigint_max"
      using big ready st e by (auto simp: batch_ready_def settled_def)
  qed
  have counts: "sr_events s' = length (rows_of ?i (jn_events j2))" "sr_bytes s' = bytes_of (rows_of ?i (jn_events j2))"
    and sat: "saturating_add (sr_latest s') 1 = sr_latest s' + 1"
    using ok2(2) saturating_bigint by (simp_all add: run_ok_def)
  obtain t where t: "t = (advance_state (sr_latest s' + 1) (ac_entries ac) s')\<lparr>sr_events := sr_events s' + ac_count ac, sr_bytes := sr_bytes s' + ac_bytes ac\<rparr>"
    "sr_events s' + ac_count ac \<le> bigint_max" "sr_bytes s' + ac_bytes ac \<le> bigint_max"
    "k = j3\<lparr>jn_states := (jn_states j3)(?i \<mapsto> t)\<rparr>"
    using update_after_append_Inr [OF upd] unfolding sat by blast
  have "sr_terminal s' = None" using ready st by (simp add: batch_ready_def settled_def)
  then have run_t: "run_ok (rows_of ?i (jn_events j2) @ rs) t"
    using append_run_ok [OF ok2(2) es(1,2) new maps _ final] t(1-3) by (simp add: counts es(3) bytes)
  have k: "jn_events k = jn_events j2 @ rs" "jn_runs k = jn_runs j" "jn_states k = (jn_states j2)(?i \<mapsto> t)" "usage_ok k"
    using j3 sh by (simp_all add: t(4) shrinks_def usage_ok_def)
  have rows: "rows_of y (jn_events k) = (if y = ?i then rows_of ?i (jn_events j2) @ rs else rows_of y (jn_events j2))" for y
    by (simp add: k(1) rs_def rows_of_row_for)
  have runs: "jn_runs j2 = jn_runs j" using sh by (simp add: shrinks_def)
  have "run_rows_ok (rows_of y (jn_events k)) (jn_states k y) \<and> (jn_states k y \<noteq> None \<longrightarrow> jn_runs k y \<noteq> None)" for y
    using e2(1) run_t s' unfolding rows k(2,3) journal_ok_def runs by (auto simp: run_rows_ok_def)
  then have "journal_ok k" using k(4) by (simp add: journal_ok_def)
  moreover have "within_limits ?c k" if "within_limits ?c j"
  proof -
    have len: "length rs = ac_count ac" using arg_cong [OF maps(1), of length] by (simp add: es(3))
    have old: "sr_events s = length (rows_of ?i (jn_events j))" "sr_bytes s = bytes_of (rows_of ?i (jn_events j))"
      using journal_ok_state [OF ok s] by (auto simp: run_ok_def)
    have u: "n = length (jn_events j1)" "m = bytes_of (jn_events j1)" using e1(1) usage by (auto simp: journal_ok_def usage_ok_def)
    have lim: "length (rows_of y (jn_events j2)) \<le> jc_max_events_per_run ?c \<and> bytes_of (rows_of y (jn_events j2)) \<le> jc_max_bytes_per_run ?c" for y
      using shrinks_limits [OF sh that] by (simp add: within_limits_def)
    have "length (rows_of ?i (jn_events k)) \<le> jc_max_events_per_run ?c" "bytes_of (rows_of ?i (jn_events k)) \<le> jc_max_bytes_per_run ?c"
      using e1(3,4) shrinks_le(1,2) [OF e2(2), of ?i] unfolding old rows by (simp_all add: len bytes)
    moreover have "length (jn_events k) \<le> jc_max_total_events ?c" "bytes_of (jn_events k) \<le> jc_max_total_bytes ?c"
      using e2(3,4) unfolding u k(1) by (simp_all add: len bytes)
    ultimately show ?thesis using lim unfolding within_limits_def rows by (auto split: if_splits)
  qed
  ultimately show ?thesis using k(2) by blast
qed

end
