(* ===== verification/Journal_Demo.thy ===== *)
theory Journal_Demo
  imports Journal
begin

text \<open>A small journal, written by one append, on which properties are shown at work.\<close>

definition demo_payload :: json where
  "demo_payload = JObject [(''event'', JString ''log'')]"

definition demo_usage :: usage_snapshot where
  "demo_usage = new_snapshot default_aggregate 0"

definition demo_jx :: jx where
  "demo_jx = \<lparr>jx_config = default_journal_config, jx_instance = ''node'', jx_fault = (\<lambda>_. None), jx_commit = Committed,
     jx_row_clock = (\<lambda>_. 0), jx_now = 0, jx_insert_at = 0, jx_ser = (\<lambda>v. if v = demo_payload then Inr ''{log}'' else Inl ''value''), jx_jsonb = Some,
     jx_parse_json = (\<lambda>_. Inr demo_payload), jx_parse_usage = (\<lambda>_. None), jx_collate = id, jx_to_char = dec, jx_rfc3339 = (\<lambda>_. Inr 0)\<rparr>"

definition demo_run :: run_row where
  "demo_run = \<lparr>jr_flow = ''flow'', jr_owner = ''node'', jr_status = ''running'', jr_lease = Some 9, jr_duration_ms = 0, jr_usage = Some demo_usage\<rparr>"

definition demo_batch :: append_batch where
  "demo_batch = \<lparr>ab_run_id = ''r'', ab_flow = ''flow'', ab_owner = ''node'',
     ab_entries = [\<lparr>ae_sequence = 1, ae_event_type = ''log'', ae_payload = demo_payload, ae_payload_bytes = 5\<rparr>]\<rparr>"

lemma demo_limits:
  "jc_max_events_per_run default_journal_config = 1000" "jc_max_bytes_per_run default_journal_config = 4194304"
  "jc_max_event_bytes default_journal_config = 262144" "jc_retention default_journal_config = 3600 * nanos_per_sec"
  "jc_max_total_events default_journal_config = 100000" "jc_max_total_bytes default_journal_config = 268435456"
  "jc_page_max_events default_journal_config = 64" "jc_page_max_bytes default_journal_config = 524288"
  "jc_prune_batch default_journal_config = 1000"
  by (simp_all add: default_journal_config_def from_secs_def)

lemma demo_timing: "write_timing_checked (jc_write_timeout default_journal_config) \<noteq> None"
  by (simp add: default_journal_config_def write_timing_checked_def duration_mul_def duration_div_def duration_of_def
      duration_max_def duration_add_def from_millis_def u64_max_def nanos_per_sec_def
      append_max_attempts_def retry_backoff_after_def upt_conv_Cons numeral_2_eq_2 [symmetric])

lemma demo_config_valid: "validate_config default_journal_config = Inr ()"
proof -
  have "jc_poll_interval default_journal_config = 500 * 1000000" "jc_read_timeout default_journal_config = 2000 * 1000000"
    "jc_write_timeout default_journal_config = 1500 * 1000000"
    by (simp_all add: default_journal_config_def from_millis_def)
  then show ?thesis using demo_timing
    by (simp add: validate_config_def demo_limits validate_range_def validate_duration_secs_def
        validate_duration_millis_def from_millis_def as_millis_def nanos_per_sec_def ensure_def u64_max_def)
qed

lemma demo_batch_valid: "validate_batch (jx_ser demo_jx) (jx_config demo_jx) demo_batch = Inr ()"
  by (simp add: validate_batch_def demo_jx_def demo_batch_def demo_config_valid demo_limits validate_run_id_def validate_flow_def
      validate_owner_instance_id_def ensure_def validate_append_entry_def validate_sequence_def validate_event_type_def
      validate_payload_event_type_def demo_payload_def json_get_def as_str_def serialized_json_size_def u64_max_def checked_add_def
      is_ascii_alphanumeric_def is_ascii_digit_def byte_def is_control_def is_cont_def)

definition demo_start :: journal where
  "demo_start = \<lparr>jn_runs = [''r'' \<mapsto> demo_run], jn_events = [], jn_states = Map.empty, jn_usage = Some (0, 0)\<rparr>"

definition demo_row :: event_row where
  "demo_row = \<lparr>er_run = ''r'', er_sequence = 1, er_event_type = ''log'', er_payload = ''{log}'', er_payload_bytes = 5,
     er_accounted = 1024, er_created_at = 0, er_expires_at = 3600 * 1000000\<rparr>"

lemmas demo_ops = bnd_def ret_def lift_def gets_def failing_def query_def

lemma demo_prune: "prune_expired_run_events demo_jx demo_start = (Inr Map.empty, demo_start)"
  by (simp add: prune_expired_run_events_def demo_ops demo_jx_def demo_start_def ordered_by_def delete_run_event_candidates_def)

definition demo_fresh :: journal where
  "demo_fresh = demo_start\<lparr>jn_states := [''r'' \<mapsto> fresh_state demo_batch]\<rparr>"

lemma demo_init: "initialize_run_event_state demo_jx demo_batch demo_start = (Inr (fresh_state demo_batch), demo_fresh)"
  by (simp add: initialize_run_event_state_def demo_ops demo_jx_def demo_start_def demo_fresh_def update_state_def
      state_constraints_def fresh_state_def demo_batch_def run_event_state_def)

lemma demo_target: "lock_run_event_append_target demo_jx demo_batch demo_start =
    (Inr \<lparr>tg_status = RunRunning, tg_lease_active = True, tg_duration_ms = 0, tg_usage = demo_usage\<rparr>, demo_start)"
  by (simp add: lock_run_event_append_target_def demo_ops demo_jx_def demo_start_def demo_batch_def demo_run_def parse_status_def)

lemma demo_existing: "load_existing_run_events demo_jx demo_batch demo_fresh = (Inr Map.empty, demo_fresh)"
  by (simp add: load_existing_run_events_def demo_ops demo_jx_def demo_fresh_def demo_start_def rows_of_def)

definition demo_accounted :: accounted_batch where
  "demo_accounted = \<lparr>ac_entries = ab_entries demo_batch, ac_payloads = [''{log}''], ac_count = 1, ac_bytes = 1024\<rparr>"

lemma demo_account: "account_run_event_append demo_jx (ab_entries demo_batch) j = (Inr demo_accounted, j)"
  by (simp add: account_run_event_append_def demo_ops demo_jx_def demo_batch_def demo_accounted_def to_bigint_def
      bigint_max_def accounted_sizes_def accounted_bytes_def checked_add_def u64_max_def demo_limits)

definition demo_state :: state_row where
  "demo_state = (fresh_state demo_batch)\<lparr>sr_latest := 1, sr_events := 1, sr_bytes := 1024\<rparr>"

definition demo_journal :: journal where
  "demo_journal = \<lparr>jn_runs = [''r'' \<mapsto> demo_run], jn_events = [demo_row], jn_states = [''r'' \<mapsto> demo_state], jn_usage = Some (1, 1024)\<rparr>"

lemma demo_insert: "insert_rows demo_jx ''r'' 0 3600000000 (zip (ab_entries demo_batch) [''{log}'']) demo_fresh =
    (Inr (), demo_fresh\<lparr>jn_events := [demo_row], jn_usage := Some (1, 1024)\<rparr>)"
  by (simp add: insert_row_def demo_ops demo_jx_def demo_batch_def demo_fresh_def demo_start_def to_bigint_def bigint_max_def
      row_constraints_def demo_row_def accounted_bytes_def char_count_def is_cont_def byte_def is_ascii_digit_def
      demo_payload_def is_object_def json_get_def as_str_def)

lemma demo_update: "update_run_event_state_after_append demo_jx demo_batch (fresh_state demo_batch) demo_accounted
    (demo_fresh\<lparr>jn_events := [demo_row], jn_usage := Some (1, 1024)\<rparr>) = (Inr (), demo_journal)"
  by (simp add: update_run_event_state_after_append_def demo_ops demo_jx_def demo_batch_def demo_accounted_def fresh_state_def
      checked_add_def u64_max_def to_bigint_def bigint_max_def update_state_def state_constraints_def demo_fresh_def demo_start_def
      demo_journal_def demo_state_def saturating_add_def run_complete_def)

lemma demo_persist: "persist_run_event_append demo_jx demo_batch (fresh_state demo_batch) demo_accounted Map.empty demo_fresh =
    (Inr (merge_summary (merge_summary Map.empty Map.empty) Map.empty), demo_journal)"
proof -
  have e: "evict_run_event_capacity demo_jx i 0 0 j = (Inr Map.empty, j)" "evict_global_run_event_capacity demo_jx 0 0 j = (Inr Map.empty, j)" for i j
    by (simp_all add: evict_run_event_capacity_def evict_global_run_event_capacity_def evict_loop.simps)
  have f: "sr_events (fresh_state demo_batch) = 0" "sr_bytes (fresh_state demo_batch) = 0" "jn_usage demo_fresh = Some (0, 0)"
    "jn_states demo_fresh ''r'' = Some (fresh_state demo_batch)" "ab_run_id demo_batch = ''r''"
    by (simp_all add: fresh_state_def demo_fresh_def demo_start_def demo_batch_def)
  have a: "ac_count demo_accounted = 1" "ac_bytes demo_accounted = 1024" "ac_entries demo_accounted = ab_entries demo_batch"
    "ac_payloads demo_accounted = [''{log}'']"
    by (simp_all add: demo_accounted_def)
  have x: "jx_config demo_jx = default_journal_config" "jx_fault demo_jx = (\<lambda>_. None)" "jx_insert_at demo_jx = 0" by (simp_all add: demo_jx_def)
  show ?thesis
    using demo_insert demo_update
    by (simp add: persist_run_event_append_def demo_ops lock_run_event_usage_def run_event_state_def e f a x demo_limits
        checked_add_def u64_max_def to_bigint_def bigint_max_def nanos_per_sec_def)
qed

lemma demo_bounds: "run_event_bounds demo_jx ''r'' demo_state demo_journal =
    (Inr \<lparr>bd_earliest = Some 1, bd_latest = 1, bd_dropped = 0, bd_events = 1, bd_bytes = 1024, bd_complete = True\<rparr>, demo_journal)"
  by (simp add: run_event_bounds_def demo_ops demo_jx_def demo_state_def demo_journal_def demo_batch_def fresh_state_def demo_row_def
      rows_of_def earliest_of_def validate_bounds_def ensure_def validate_sequence_def)

lemma demo_append: "append_run_event_journal demo_jx demo_batch demo_start = (Inr
    \<lparr>ao_appended = 1, ao_duplicates = 0, ao_evicted_events = 0, ao_evicted_bytes = 0, ao_gap = None,
     ao_bounds = \<lparr>bd_earliest = Some 1, bd_latest = 1, bd_dropped = 0, bd_events = 1, bd_bytes = 1024, bd_complete = True\<rparr>\<rparr>, demo_journal)"
proof -
  have x: "jx_config demo_jx = default_journal_config" "jx_fault demo_jx = (\<lambda>_. None)" "jx_commit demo_jx = Committed"
    "jx_instance demo_jx = ''node''" by (simp_all add: demo_jx_def)
  have b: "ab_owner demo_batch = ''node''" "ab_run_id demo_batch = ''r''" by (simp_all add: demo_batch_def)
  have p: "partition_new_run_event_entries demo_batch (fresh_state demo_batch) Map.empty = Inr (0, ab_entries demo_batch)"
    by (simp add: partition_new_run_event_entries_def demo_batch_def fresh_state_def)
  have v: "validate_new_run_event_entries demo_jx demo_batch \<lparr>tg_status = RunRunning, tg_lease_active = True, tg_duration_ms = 0, tg_usage = demo_usage\<rparr>
      (fresh_state demo_batch) (ab_entries demo_batch) = Inr ()"
    by (simp add: validate_new_run_event_entries_def demo_batch_def fresh_state_def run_in_flight_def run_complete_def)
  have t: "try_each (\<lambda>e. and_then (to_bigint ''Run-event sequence exceeds PostgreSQL BIGINT'' (ae_sequence e)) (\<lambda>_. Inr ())) (ab_entries demo_batch) = Inr ()"
    by (simp add: demo_batch_def to_bigint_def bigint_max_def)
  have u: "jn_usage demo_start = Some (0, 0)" "jn_states demo_journal ''r'' = Some demo_state" by (simp_all add: demo_start_def demo_journal_def)
  have n: "ac_count demo_accounted = 1" by (simp add: demo_accounted_def)
  show ?thesis
    using demo_batch_valid demo_target demo_prune demo_init demo_existing demo_persist demo_timing demo_bounds p v t
    by (simp add: demo_account append_run_event_journal_def transaction_def append_tx_def demo_ops lock_run_event_usage_def run_event_state_def x b u n
        summary_for_run_def merge_summary_def default_eviction_def eviction_gap_def validate_outcome_def validate_bounds_def
        ensure_def validate_sequence_def)
qed

end
