(* ===== verification/Journal_Props.thy ===== *)
theory Journal_Props
  imports Journal_Append Journal_Demo
begin

text \<open>
  What holds of the run-event journal after any history of transactions, and what a reader of
  its pages sees.
\<close>

section \<open>Transactions keep the invariant\<close>

lemma init_ok:
  assumes "initialize_run_event_state cx b j = (Inr s, k)" "journal_ok j"
  shows "journal_ok k \<and> jn_states k (ab_run_id b) = Some s \<and> jn_events k = jn_events j \<and> jn_runs k = jn_runs j"
proof (cases "jn_states j (ab_run_id b)")
  case None
  then have k: "k = j\<lparr>jn_states := (jn_states j)(ab_run_id b \<mapsto> fresh_state b)\<rparr>" "s = fresh_state b" "jn_runs j (ab_run_id b) \<noteq> None"
    using assms(1) by (auto simp: initialize_run_event_state_def journal_success state_constraints_def split: if_splits)
  have "rows_of (ab_run_id b) (jn_events j) = []" using assms(2) None by (auto simp: journal_ok_def run_rows_ok_def dest: spec [of _ "ab_run_id b"])
  then have "run_ok (rows_of (ab_run_id b) (jn_events j)) (fresh_state b)" by (simp add: run_ok_def fresh_state_def)
  then show ?thesis using assms(2) k by (auto simp: journal_ok_def usage_ok_def run_rows_ok_def)
next
  case (Some t)
  then show ?thesis using assms by (auto simp: initialize_run_event_state_def journal_success split: if_splits)
qed

lemma append_tx_steps:
  assumes "append_tx cx b j = (Inr o1, k)"
  obtains j1 j2 tg d s existing dups new ac d' where
    "prune_expired_run_events cx j = (Inr d, j1)" "initialize_run_event_state cx b j1 = (Inr s, j2)"
    "load_existing_run_events cx b j2 = (Inr existing, j2)"
    "partition_new_run_event_entries b s existing = Inr (dups, new)" "validate_new_run_event_entries cx b tg s new = Inr ()"
    "account_run_event_append cx new j2 = (Inr ac, j2)"
    "(if 0 < ac_count ac then persist_run_event_append cx b s ac d else ret d) j2 = (Inr d', k)"
proof -
  obtain u l1 l2 j1 j2 tg d s existing l3 dups new ac l4 d' where steps: "lock_run_event_usage cx j = (Inr u, l1)"
    "lock_run_event_append_target cx b l1 = (Inr tg, l2)"
    "prune_expired_run_events cx l2 = (Inr d, j1)" "initialize_run_event_state cx b j1 = (Inr s, j2)"
    "load_existing_run_events cx b j2 = (Inr existing, l3)"
    "partition_new_run_event_entries b s existing = Inr (dups, new)" "validate_new_run_event_entries cx b tg s new = Inr ()"
    "account_run_event_append cx new l3 = (Inr ac, l4)"
    "(if 0 < ac_count ac then persist_run_event_append cx b s ac d else ret d) l4 = (Inr d', k)"
    using assms unfolding append_tx_def Let_def run_event_bounds_def
    by (clarsimp simp only: bnd_Inr lift_Inr ret_Inr failing_Inr gets_Inr case_option_Inr case_prod_Inr query_Inr run_event_state_Inr simp_thms)
  moreover have "l1 = j" using steps(1) by (auto simp: lock_run_event_usage_def journal_success)
  moreover have "l2 = l1" using steps(2) by (auto simp: lock_run_event_append_target_def journal_success)
  moreover have "l3 = j2" using steps(5) by (auto simp: load_existing_run_events_def journal_success)
  moreover have "l4 = l3" using account_Inr [OF steps(8)] by simp
  ultimately show ?thesis using that by blast
qed

lemma validate_new_open:
  assumes "validate_new_run_event_entries cx b tg s es = Inr ()" "es \<noteq> []"
  shows "sr_terminal s = None \<and>
    ((\<forall>e \<in> set es. ae_event_type e \<noteq> run_complete) \<or> (\<exists>e. es = [e] \<and> ae_event_type e = run_complete))"
  using assms unfolding validate_new_run_event_entries_def
  by (auto simp: list_ex_iff rust_result split: if_splits list.splits)

lemma append_tx_ok:
  assumes run: "append_tx cx b j = (Inr o1, k)" and ok: "journal_ok j"
    and inc: "sorted_wrt (<) (map ae_sequence (ab_entries b))"
  shows "journal_ok k \<and> jn_runs k = jn_runs j \<and> (within_limits (jx_config cx) j \<longrightarrow> within_limits (jx_config cx) k)"
proof -
  obtain j1 j2 tg d s existing dups new ac d' where prune: "prune_expired_run_events cx j = (Inr d, j1)"
    and init: "initialize_run_event_state cx b j1 = (Inr s, j2)"
    and part: "partition_new_run_event_entries b s existing = Inr (dups, new)"
    and valid: "validate_new_run_event_entries cx b tg s new = Inr ()"
    and acct: "account_run_event_append cx new j2 = (Inr ac, j2)"
    and wr: "(if 0 < ac_count ac then persist_run_event_append cx b s ac d else ret d) j2 = (Inr d', k)"
    using append_tx_steps [OF run] by metis
  note p = prune_ok [OF prune ok]
  note i = init_ok [OF init conjunct1 [OF p]]
  have j2: "journal_ok j2" "jn_runs j2 = jn_runs j" "within_limits c j \<Longrightarrow> within_limits c j2" for c
    using i p shrinks_limits [of j j1 c] by (auto simp: shrinks_def within_limits_def)
  have new: "new = filter (\<lambda>e. existing (ae_sequence e) = None) (ab_entries b)" "\<forall>e \<in> set new. sr_latest s < ae_sequence e"
    using partition_entries_spec [OF part [unfolded partition_new_run_event_entries_def]] by auto
  have a: "ac_entries ac = new" "ac_count ac = length new" "length (ac_payloads ac) = length new"
    "\<forall>c x. ac_bytes ac = bytes_of (map (row_for cx (ab_run_id b) c x) (zip new (ac_payloads ac)))"
    using account_Inr [OF acct] by auto
  show ?thesis
  proof (cases "new = []")
    case True
    then show ?thesis using wr a j2 by (auto simp: ret_def)
  next
    case False
    have "sorted_wrt (<) (map ae_sequence new)" using inc by (simp add: new(1) sorted_wrt_map sorted_wrt_filter)
    then have "batch_ready cx (ab_run_id b) s ac"
      using False new(2) validate_new_open [OF valid False] unfolding batch_ready_def a(1-3) using a(4) by blast
    moreover have "persist_run_event_append cx b s ac d j2 = (Inr d', k)" using wr False by (simp add: a(2))
    ultimately show ?thesis using persist_ok [of cx b s ac d j2 d' k] j2 i by auto
  qed
qed


lemma transaction_ok:
  assumes "\<And>a k. body j = (Inr a, k) \<Longrightarrow> I k" "I j"
  shows "I (snd (transaction cx what body j))"
  using assms by (auto simp: transaction_def split: prod.splits sum.splits commit_result.splits)

text \<open>
  The transactions on the tables. The run records are written by other operations of the store,
  which never remove one but by \<open>remove_run\<close>: they are updates of single rows here.
\<close>

datatype journal_call =
    Append jx append_batch
  | Prune jx bool
  | RemoveRun jx string
  | PutRun string run_row

definition apply_call :: "journal \<Rightarrow> journal_call \<Rightarrow> journal" where
  "apply_call j call = (case call of
     Append cx b \<Rightarrow> snd (append_run_event_journal cx b j)
   | Prune cx acquired \<Rightarrow> prune_best_effort cx acquired j
   | RemoveRun cx i \<Rightarrow> snd (remove_run_row cx i j)
   | PutRun i r \<Rightarrow> j\<lparr>jn_runs := (jn_runs j)(i \<mapsto> r)\<rparr>)"

definition uses_config :: "journal_config \<Rightarrow> journal_call \<Rightarrow> bool" where
  "uses_config c call = (case call of Append cx _ \<Rightarrow> jx_config cx = c | _ \<Rightarrow> True)"

definition empty_journal :: journal where
  "empty_journal = \<lparr>jn_runs = Map.empty, jn_events = [], jn_states = Map.empty, jn_usage = Some (0, 0)\<rparr>"

definition bounded_journal :: "journal_config \<Rightarrow> journal \<Rightarrow> bool" where
  "bounded_journal c j \<longleftrightarrow> journal_ok j \<and> within_limits c j"

lemma append_call_ok:
  assumes "bounded_journal c j" "jx_config cx = c"
  shows "bounded_journal c (snd (append_run_event_journal cx b j))"
proof (cases "validate_batch (jx_ser cx) (jx_config cx) b")
  case (Inl e)
  then show ?thesis using assms(1) by (simp add: append_run_event_journal_def bnd_def lift_def)
next
  case (Inr u)
  then have inc: "sorted_wrt (<) (map ae_sequence (ab_entries b))"
    by (auto simp: validate_batch_def rust_result dest: batch_entries_increasing)
  have "bounded_journal c k" if "append_tx cx b j = (Inr a, k)" for a k
    using append_tx_ok [OF that _ inc] assms by (simp add: bounded_journal_def)
  then have "bounded_journal c (snd (transaction cx ''PostgreSQL run-event append commit failed'' (append_tx cx b) j))"
    using assms(1) by (rule transaction_ok)
  then show ?thesis using assms(1) Inr
    by (auto simp: append_run_event_journal_def bnd_def lift_def failing_def split: sum.splits)
qed

lemma shrinks_bounded: "bounded_journal c j \<Longrightarrow> journal_ok k \<Longrightarrow> shrinks j k \<Longrightarrow> bounded_journal c k"
  by (auto simp: bounded_journal_def intro: shrinks_limits)

lemma prune_call_ok: "bounded_journal c j \<Longrightarrow> bounded_journal c (prune_best_effort cx acquired j)"
  unfolding prune_best_effort_def
  by (rule transaction_ok)
    (auto simp: journal_success lock_run_event_usage_def bounded_journal_def dest!: prune_ok split: if_splits intro: shrinks_limits)

lemma cascade_ok:
  assumes "bounded_journal c j"
  shows "bounded_journal c (delete_run_cascade i j)"
proof -
  let ?keys = "row_key ` set (rows_of i (jn_events j))" and ?k = "delete_run_cascade i j"
  have rows: "jn_events ?k = filter (\<lambda>r. er_run r \<noteq> i) (jn_events j)"
    by (auto simp: delete_run_cascade_def Let_def delete_rows_usage row_key_def intro!: filter_cong)
  have "rows_of x (jn_events ?k) = (if x = i then [] else rows_of x (jn_events j))" for x
    unfolding rows by (auto simp: rows_of_def filter_empty_conv intro: filter_cong)
  note this [simp]
  have "usage_ok (delete_rows ?keys j)" using assms by (auto simp: bounded_journal_def journal_ok_def intro: delete_rows_usage_ok)
  then have "usage_ok ?k" by (simp add: usage_ok_def delete_run_cascade_def Let_def)
  moreover have "jn_states ?k = (jn_states j)(i := None)" "jn_runs ?k = (jn_runs j)(i := None)"
    by (simp_all add: delete_run_cascade_def Let_def)
  ultimately have "journal_ok ?k" using assms by (auto simp: bounded_journal_def journal_ok_def run_rows_ok_def)
  moreover have "length (jn_events ?k) \<le> length (jn_events j)" "bytes_of (jn_events ?k) \<le> bytes_of (jn_events j)"
    unfolding rows using bytes_split [of "jn_events j" "\<lambda>r. er_run r \<noteq> i"] by simp_all
  ultimately show ?thesis using assms by (auto simp: bounded_journal_def within_limits_def)
qed

lemma remove_call_ok: "bounded_journal c j \<Longrightarrow> bounded_journal c (snd (remove_run_row cx i j))"
  unfolding remove_run_row_def
  by (rule transaction_ok) (auto simp: journal_success lock_run_event_usage_def cascade_ok split: if_splits)

lemma put_run_ok: "bounded_journal c j \<Longrightarrow> bounded_journal c (j\<lparr>jn_runs := (jn_runs j)(i \<mapsto> r)\<rparr>)"
  by (simp add: bounded_journal_def journal_ok_def within_limits_def usage_ok_def)

interpretation jr: step_invariant "\<lambda>j call. if uses_config c call then apply_call j call else j" "bounded_journal c" for c
proof (unfold_locales, goal_cases)
  case (1 j call)
  then show ?case
    by (cases call) (simp_all add: apply_call_def uses_config_def append_call_ok prune_call_ok remove_call_ok put_run_ok)
qed

lemma apply_calls_guarded:
  "\<forall>call \<in> set calls. uses_config c call \<Longrightarrow>
   foldl (\<lambda>j call. if uses_config c call then apply_call j call else j) j calls = foldl apply_call j calls"
  by (induction calls arbitrary: j) simp_all

lemma empty_journal_bounded: "bounded_journal c empty_journal"
  by (simp add: bounded_journal_def journal_ok_def within_limits_def usage_ok_def empty_journal_def rows_of_def run_rows_ok_def)

text \<open>
  C29. After any history of appends, prunings, run deletions and run updates by stores with one
  configuration, each of them failing wherever the database may fail, the journal is sound:
  the counters of every run and of the singleton are exactly those of its rows, a run marked
  complete misses no event between its dropped boundary and its latest sequence, the terminal
  event is the last one of its run and the only one of its kind. No run ever retains more events or bytes than
  its limits, nor do all runs together.
\<close>

theorem journal_invariant:
  assumes "\<forall>call \<in> set calls. uses_config c call"
  shows "journal_ok (foldl apply_call empty_journal calls) \<and> within_limits c (foldl apply_call empty_journal calls)"
  using jr.inv_run [OF empty_journal_bounded, of c calls] unfolding apply_calls_guarded [OF assms]
  by (simp add: bounded_journal_def)

theorem journal_invariant_witness:
  "journal_ok (foldl apply_call empty_journal [PutRun ''r'' demo_run, Append demo_jx demo_batch]) \<and>
   jn_events (foldl apply_call empty_journal [PutRun ''r'' demo_run, Append demo_jx demo_batch]) = [demo_row]"
proof -
  have "apply_call empty_journal (PutRun ''r'' demo_run) = demo_start"
    by (simp add: apply_call_def empty_journal_def demo_start_def)
  moreover have "apply_call demo_start (Append demo_jx demo_batch) = demo_journal" by (simp add: apply_call_def demo_append)
  moreover have "uses_config (jx_config demo_jx) (Append demo_jx demo_batch)" "uses_config c (PutRun i r)" for c i r
    by (simp_all add: uses_config_def)
  ultimately show ?thesis
    using journal_invariant [of "[PutRun ''r'' demo_run, Append demo_jx demo_batch]" "jx_config demo_jx"]
    by (simp add: demo_journal_def)
qed

end
