(* ===== verification/Journal_Read.thy ===== *)
theory Journal_Read
  imports Journal_Props
begin

text \<open>
  Pages of the journal: a page that is returned shows exactly what comes next, whatever the
  database does, and under which conditions one is returned.
\<close>

section \<open>The rows of a page\<close>

lemma within_page_none: "max_bytes < running \<Longrightarrow> within_page max_bytes running False rows = []"
  by (induction rows arbitrary: running) (auto simp: Let_def)

lemma within_page_prefix:
  "\<exists>q. rows = within_page m n first rows @ q"
proof (induction rows arbitrary: n first)
  case (Cons r rows)
  show ?case
  proof (cases "n + er_accounted r \<le> m \<or> first")
    case True
    then show ?thesis using Cons.IH [of "n + er_accounted r" False] by (auto simp: Let_def)
  next
    case False
    then have "within_page m (n + er_accounted r) False rows = []" by (intro within_page_none) simp
    then show ?thesis using False by (auto simp: Let_def)
  qed
qed simp

lemma within_page_bytes:
  "n + bytes_of (within_page m n first rows) \<le> m \<or> length (within_page m n first rows) \<le> (if first then 1 else 0)"
proof (induction rows arbitrary: n first)
  case (Cons r rows)
  show ?case
  proof (cases "n + er_accounted r \<le> m \<or> first")
    case True
    have "n + er_accounted r + bytes_of (within_page m (n + er_accounted r) False rows) \<le> m \<or>
        within_page m (n + er_accounted r) False rows = []"
      using Cons.IH [of "n + er_accounted r" False] by auto
    then show ?thesis using True by (auto simp: Let_def split: if_splits)
  next
    case False
    then have "within_page m (n + er_accounted r) False rows = []" by (intro within_page_none) simp
    then show ?thesis using False by (simp add: Let_def)
  qed
qed simp

lemma within_page_Nil: "within_page m n True rows = [] \<longleftrightarrow> rows = []"
  by (cases rows) (auto simp: Let_def)

definition pending_rows :: "nat \<Rightarrow> string \<Rightarrow> nat \<Rightarrow> event_row list \<Rightarrow> event_row list" where
  "pending_rows snapshot i after rows = sort_key er_sequence (filter (\<lambda>r. after < er_sequence r) (live_rows snapshot i rows))"

lemma page_rows_spec:
  assumes "1 \<le> jc_page_max_events c" "p = page_rows c snapshot i after rows"
  obtains q where "pending_rows snapshot i after rows = p @ q" "p = [] \<longrightarrow> pending_rows snapshot i after rows = []"
    "length p \<le> jc_page_max_events c" "bytes_of p \<le> jc_page_max_bytes c \<or> length p \<le> 1"
proof -
  let ?all = "pending_rows snapshot i after rows"
  have p: "p = within_page (jc_page_max_bytes c) 0 True (take (jc_page_max_events c) ?all)"
    using assms(2) by (simp add: page_rows_def pending_rows_def)
  obtain q where q: "take (jc_page_max_events c) ?all = p @ q" using within_page_prefix p by metis
  then have "?all = p @ q @ drop (jc_page_max_events c) ?all" by (metis append.assoc append_take_drop_id)
  moreover have "length p \<le> jc_page_max_events c" using arg_cong [OF q, of length] by simp
  moreover have "p = [] \<longrightarrow> ?all = []" using assms(1) unfolding p within_page_Nil by auto
  moreover have "bytes_of p \<le> jc_page_max_bytes c \<or> length p \<le> 1"
    using within_page_bytes [of 0 "jc_page_max_bytes c" True "take (jc_page_max_events c) ?all"] by (simp flip: p)
  ultimately show ?thesis using that by blast
qed

section \<open>Gaps inside a page\<close>

lemma internal_gap_None:
  assumes "internal_gap n expected es = None" "sorted_wrt (<) (map en_sequence es)"
    "\<forall>e \<in> set es. expected \<le> en_sequence e \<and> en_sequence e \<le> bigint_max"
  shows "map en_sequence es = [expected ..< expected + length es]"
  using assms
proof (induction es arbitrary: n expected)
  case (Cons e es)
  have e: "en_sequence e = expected" using Cons.prems(1,3) by (auto split: if_splits)
  have sat: "saturating_add (en_sequence e) 1 = Suc expected"
    using saturating_bigint [of "en_sequence e"] Cons.prems(3) by (simp add: e)
  have "map en_sequence es = [Suc expected ..< Suc expected + length es]"
    by (rule Cons.IH [of "Suc n"]) (use Cons.prems e sat in \<open>auto simp: Suc_le_eq\<close>)
  then show ?case by (simp add: e upt_conv_Cons del: upt_Suc)
qed simp

lemma internal_gap_Some:
  assumes "internal_gap n expected es = Some (k, first, final)" "sorted_wrt (<) (map en_sequence es)"
    "\<forall>e \<in> set es. expected \<le> en_sequence e \<and> en_sequence e \<le> bigint_max"
  shows "\<exists>m < length es. k = n + m \<and> map en_sequence (take m es) = [expected ..< expected + m] \<and> first = expected + m \<and>
    final = en_sequence (es ! m) - 1 \<and> first \<le> final"
  using assms
proof (induction es arbitrary: n expected)
  case (Cons e es)
  show ?case
  proof (cases "expected < en_sequence e")
    case True
    then show ?thesis using Cons.prems(1) by (intro exI [of _ 0]) auto
  next
    case False
    then have e: "en_sequence e = expected" using Cons.prems(3) by auto
    have sat: "saturating_add (en_sequence e) 1 = Suc expected"
      using saturating_bigint [of "en_sequence e"] Cons.prems(3) by (simp add: e)
    have "\<exists>m < length es. k = Suc n + m \<and> map en_sequence (take m es) = [Suc expected ..< Suc expected + m] \<and> first = Suc expected + m \<and>
      final = en_sequence (es ! m) - 1 \<and> first \<le> final"
      by (rule Cons.IH) (use Cons.prems e sat in \<open>auto simp: Suc_le_eq\<close>)
    then obtain m where "m < length es" "k = Suc n + m" "map en_sequence (take m es) = [Suc expected ..< Suc expected + m]"
      "first = Suc expected + m" "final = en_sequence (es ! m) - 1" "first \<le> final" by auto
    then show ?thesis by (intro exI [of _ "Suc m"]) (simp add: e upt_conv_Cons)
  qed
qed simp


section \<open>Bounds\<close>

lemma live_in [simp]: "r \<in> set (live_rows t i rows) \<longleftrightarrow> r \<in> set rows \<and> er_run r = i \<and> t < er_expires_at r"
  by (auto simp: live_rows_def)

lemma expired_in [simp]: "r \<in> set (expired_rows t i rows) \<longleftrightarrow> r \<in> set rows \<and> er_run r = i \<and> er_expires_at r \<le> t"
  by (auto simp: expired_rows_def)

lemma earliest_of_None [simp]: "earliest_of rows = None \<longleftrightarrow> rows = []"
  by (simp add: earliest_of_def split: list.splits)

lemma latest_of_None [simp]: "latest_of rows = None \<longleftrightarrow> rows = []"
  by (simp add: latest_of_def split: list.splits)

lemma earliest_of_Some: "earliest_of rows = Some m \<Longrightarrow> m \<in> er_sequence ` set rows \<and> (\<forall>r \<in> set rows. m \<le> er_sequence r)"
proof -
  assume "earliest_of rows = Some m"
  then have m: "m = Min (er_sequence ` set rows)" and "rows \<noteq> []" by (auto simp: earliest_of_iff)
  then have "m \<in> er_sequence ` set rows" unfolding m by (intro Min_in) auto
  moreover have "\<forall>r \<in> set rows. m \<le> er_sequence r" unfolding m by (auto intro: Min_le)
  ultimately show ?thesis by blast
qed

lemma latest_of_Some: "latest_of rows = Some m \<Longrightarrow> m \<in> er_sequence ` set rows"
proof -
  assume "latest_of rows = Some m"
  then have m: "m = Max (er_sequence ` set rows)" and "rows \<noteq> []" by (auto simp: latest_of_def split: list.splits)
  then show ?thesis unfolding m by (intro Max_in) auto
qed

lemma logical_bounds_ok:
  assumes ok: "run_ok (rows_of i rows) s" and b: "logical_bounds t i rows s = (b, why)"
  shows "validate_bounds b = Inr ()" "bd_latest b = sr_latest s" "sr_dropped s \<le> bd_dropped b" "bd_dropped b \<le> sr_latest s"
    "\<forall>r \<in> set (live_rows t i rows). bd_dropped b < er_sequence r" "0 < bd_dropped b \<Longrightarrow> why \<noteq> None"
proof -
  let ?live = "live_rows t i rows"
  have row: "sr_dropped s < er_sequence r \<and> er_sequence r \<le> sr_latest s \<and> row_sized r" if "r \<in> set rows" "er_run r = i" for r
    using ok that by (auto simp: run_ok_def)
  have s: "sr_dropped s \<le> sr_latest s" "sr_dropped s = 0 \<longleftrightarrow> sr_reason s = None" using ok by (auto simp: run_ok_def)
  define d where "d = max (sr_dropped s) (retention_boundary (latest_of (expired_rows t i rows)) (earliest_of ?live) (sr_dropped s))"
  have bd: "b = \<lparr>bd_earliest = earliest_of ?live, bd_latest = sr_latest s, bd_dropped = d, bd_events = length ?live,
      bd_bytes = bytes_of ?live, bd_complete = sr_complete s\<rparr>" "why = (if sr_dropped s < d then Some Retention else sr_reason s)"
    using b by (auto simp: logical_bounds_def Let_def d_def)
  have expired: "m \<le> sr_latest s" if "latest_of (expired_rows t i rows) = Some m" for m
    using latest_of_Some [OF that] row by auto
  have top: "d \<le> sr_latest s" using s(1) expired by (auto simp: d_def retention_boundary_def split: option.splits)
  have below: "d < er_sequence r" if "r \<in> set ?live" for r
  proof -
    have "?live \<noteq> []" using that by (metis list.set(1) empty_iff)
    then obtain m where m: "earliest_of ?live = Some m" by (metis earliest_of_None option.exhaust)
    have "0 < m" "m \<le> er_sequence r" "sr_dropped s < m" using earliest_of_Some [OF m] row that by fastforce+
    then show ?thesis by (auto simp: d_def retention_boundary_def m split: option.splits)
  qed
  have sized: "\<exists>r \<in> set ?live. 0 < er_accounted r" if "?live \<noteq> []"
    using row hd_in_set [OF that] by (intro bexI [of _ "hd ?live"]) (auto simp: row_sized_def)
  have earliest: "0 < m \<and> d < m \<and> m \<le> sr_latest s" if "earliest_of ?live = Some m" for m
    using earliest_of_Some [OF that] below row by fastforce
  show "validate_bounds b = Inr ()"
  proof (cases "earliest_of ?live")
    case None
    moreover from None have "?live = []" by simp
    ultimately show ?thesis using top unfolding bd validate_bounds_def by (simp add: ensure_def earliest_of_def)
  next
    case (Some m)
    then have "?live \<noteq> []" by (metis earliest_of_None option.distinct(1))
    then show ?thesis using top sized earliest [OF Some] Some by (simp add: bd validate_bounds_def ensure_def validate_sequence_def)
  qed
  show "bd_latest b = sr_latest s" "sr_dropped s \<le> bd_dropped b" "bd_dropped b \<le> sr_latest s"
    "\<forall>r \<in> set ?live. bd_dropped b < er_sequence r" using top below by (simp_all add: bd d_def)
  show "0 < bd_dropped b \<Longrightarrow> why \<noteq> None" using s(2) by (auto simp: bd d_def)
qed

section \<open>Assembling a page\<close>

text \<open>
  What a page shows of the live rows: either events in sequence from the one requested, or a gap
  that starts there and in which no row is left.
\<close>

definition page_shows :: "event_row list \<Rightarrow> nat \<Rightarrow> nat \<Rightarrow> event_entry list \<Rightarrow> event_gap option \<Rightarrow> bool" where
  "page_shows live after latest events gap \<longleftrightarrow>
    (case gap of
       None \<Rightarrow> map en_sequence events = [after + 1 ..< after + 1 + length events] \<and> after + length events \<le> latest \<and>
         (events = [] \<longrightarrow> after = latest)
     | Some g \<Rightarrow> events = [] \<and> gp_first g = after + 1 \<and> after < gp_last g \<and> gp_last g \<le> latest \<and>
         (\<forall>r \<in> set live. er_sequence r \<notin> {after <.. gp_last g}))"

lemma assemble_page_shows:
  assumes run: "assemble_page after b why events = Inr (events', gap)" and after: "after \<le> bd_latest b" "bd_latest b \<le> bigint_max"
    and dropped: "bd_dropped b \<le> bd_latest b" "\<forall>r \<in> set live. bd_dropped b < er_sequence r \<and> er_sequence r \<le> bd_latest b"
    and events: "map en_sequence events = map er_sequence p" "set p \<subseteq> set live"
    and pending: "sort_key er_sequence (filter (\<lambda>r. max after (bd_dropped b) < er_sequence r) live) = p @ q" "p = [] \<longrightarrow> p @ q = []"
    and distinct: "distinct (map er_sequence live)"
  shows "page_shows live after (bd_latest b) events' gap \<and> (\<exists>n. events' = take n events)"
proof (cases "after < bd_dropped b")
  case True
  then obtain w where "events' = []" "gap = Some \<lparr>gp_first = saturating_add after 1, gp_last = bd_dropped b, gp_reason = w\<rparr>"
    using run by (auto simp: assemble_page_def split: option.splits)
  then show ?thesis using True dropped saturating_bigint [of after] after by (force simp: page_shows_def intro: exI [of _ 0])
next
  case False
  let ?all = "sort_key er_sequence (filter (\<lambda>r. after < er_sequence r) live)"
  have sat: "saturating_add after (Suc 0) = Suc after" using saturating_bigint [of after] after by simp
  have all: "?all = p @ q" using pending(1) False by (simp add: max_def not_less)
  have "distinct (map er_sequence ?all)" 
    using distinct_map_filter [OF distinct] by (metis mset_eq_imp_distinct_iff mset_map mset_sort)
  then have strict: "sorted_wrt (<) (map er_sequence ?all)" by (simp add: strict_sorted_iff)
  then have sorted: "sorted_wrt (<) (map en_sequence events)" unfolding events(1) all by (simp add: sorted_wrt_append)
  have mem: "r \<in> set live \<and> after < er_sequence r" if "r \<in> set p" for r
    using that arg_cong [OF all, of set] by auto
  have range: "\<forall>e \<in> set events. after + 1 \<le> en_sequence e \<and> en_sequence e \<le> bd_latest b"
  proof
    fix e assume "e \<in> set events"
    then have "en_sequence e \<in> set (map er_sequence p)" by (simp flip: events(1))
    then show "after + 1 \<le> en_sequence e \<and> en_sequence e \<le> bd_latest b" using mem dropped(2) by fastforce
  qed
  then have big: "\<forall>e \<in> set events. after + 1 \<le> en_sequence e \<and> en_sequence e \<le> bigint_max" using after by auto
  show ?thesis
  proof (cases "internal_gap 0 (after + 1) events")
    case None
    then have ev: "events' = events" "gap = (if events = [] \<and> after < bd_latest b
        then Some \<lparr>gp_first = after + 1, gp_last = bd_latest b, gp_reason = WriterBackpressure\<rparr> else None)"
      using run False by (auto simp: assemble_page_def sat)
    have seq: "map en_sequence events = [after + 1 ..< after + 1 + length events]" by (rule internal_gap_None [OF None sorted big])
    have "after + length events \<le> bd_latest b"
    proof (cases events rule: rev_cases)
      case (snoc es e)
      then have "en_sequence e = after + length events" using arg_cong [OF seq, of last] by simp
      then show ?thesis using range snoc by auto
    qed (use after in simp)
    moreover have "after \<ge> er_sequence r" if "events = []" "r \<in> set live" for r
      using that events(1) pending(2) arg_cong [OF all, of set] by (auto simp: not_less)
    ultimately show ?thesis using seq ev after by (force simp: page_shows_def intro: exI [of _ "length events"])
  next
    case (Some g)
    obtain k f l where g: "g = (k, f, l)" by (cases g)
    obtain m where m: "m < length events" "k = m" "map en_sequence (take m events) = [after + 1 ..< after + 1 + m]" "f = after + 1 + m"
      "l = en_sequence (events ! m) - 1" "f \<le> l"
      using internal_gap_Some [OF Some [unfolded g] sorted big] by auto
    have next_row: "events ! m \<in> set events" using m(1) by simp
    show ?thesis
    proof (cases "m = 0")
      case True
      have "p \<noteq> []" using m(1) events(1) by auto
      then have "er_sequence (hd p) \<le> er_sequence r" if r: "r \<in> set live" "after < er_sequence r" for r
      proof -
        have "r \<in> set ?all" using r by simp
        then show ?thesis using strict \<open>p \<noteq> []\<close> unfolding all by (cases p) (auto simp: less_imp_le)
      qed
      moreover have "en_sequence (events ! 0) = er_sequence (hd p)"
        using m(1) True arg_cong [OF events(1), of hd] \<open>p \<noteq> []\<close> by (simp add: hd_map hd_conv_nth) 
      ultimately have "er_sequence r \<notin> {after <.. l}" if "r \<in> set live" for r using that m(5,6) True by fastforce
      moreover have "events' = []" "gap = Some \<lparr>gp_first = after + 1, gp_last = l, gp_reason = WriterBackpressure\<rparr>"
        using run False Some m True by (auto simp: assemble_page_def sat g)
      ultimately show ?thesis using m(4,5,6) True range next_row by (force simp: page_shows_def intro: exI [of _ 0])
    next
      case False': False
      then have "events' = take m events" "gap = None" using run False Some m by (auto simp: assemble_page_def sat g)
      moreover have "after + m \<le> bd_latest b" using m(4-6) range next_row by force
      moreover have "take m events \<noteq> []" using m(1) False' by auto
      ultimately show ?thesis using m(1,3) by (auto simp: page_shows_def)
    qed
  qed
qed


section \<open>Reading\<close>

definition row_readable :: "jx \<Rightarrow> event_row \<Rightarrow> bool" where
  "row_readable cx r \<longleftrightarrow> (\<exists>v. jx_parse_json cx (er_payload r) = Inr v \<and>
     validate_event_entry (jx_ser cx) (jx_rfc3339 cx) (jx_config cx) (entry_of cx r v) = Inr ())"

definition value_of :: "jx \<Rightarrow> event_row \<Rightarrow> json" where
  "value_of cx r = (case jx_parse_json cx (er_payload r) of Inr v \<Rightarrow> v | Inl _ \<Rightarrow> JNull)"

lemma row_readable_value:
  "row_readable cx r \<Longrightarrow> jx_parse_json cx (er_payload r) = Inr (value_of cx r) \<and>
     validate_event_entry (jx_ser cx) (jx_rfc3339 cx) (jx_config cx) (entry_of cx r (value_of cx r)) = Inr ()"
  by (auto simp: row_readable_def value_of_def)

lemma decode_rows_ok:
  "\<forall>r \<in> set rows. row_readable cx r \<Longrightarrow> decode_rows cx rows = Inr (map (\<lambda>r. (r, value_of cx r)) rows)"
  by (induction rows) (auto simp: decode_stored_json_def dest: row_readable_value)

lemma validate_page_events_ok:
  assumes "\<forall>e \<in> set es. ok e = Inr () \<and> en_sequence e \<le> bigint_max" "map en_sequence es = [n + 1 ..< n + 1 + length es]"
    "n + length es \<le> latest" "base + sum_list (map en_payload_bytes es) \<le> u64_max"
  shows "validate_page_events ok latest n base es = Inr (base + sum_list (map en_payload_bytes es))"
  using assms
proof (induction es arbitrary: n base)
  case (Cons e es)
  have e: "en_sequence e = Suc n" "map en_sequence es = [Suc n + 1 ..< Suc n + 1 + length es]"
    using Cons.prems(2) by (simp_all add: upt_conv_Cons del: upt_Suc)
  have "n \<le> bigint_max" using Cons.prems(1) e(1) by simp
  then have "saturating_add n (Suc 0) = Suc n" using saturating_bigint [of n] by simp
  moreover have "validate_page_events ok latest (Suc n) (base + en_payload_bytes e) es =
      Inr (base + en_payload_bytes e + sum_list (map en_payload_bytes es))"
    by (rule Cons.IH [OF _ e(2)]) (use Cons.prems in auto)
  ultimately show ?case using Cons.prems e(1) by (simp add: checked_add_def)
qed simp

lemma validate_config_page:
  "validate_config c = Inr () \<Longrightarrow> 1 \<le> jc_page_max_events c \<and> jc_page_max_events c \<le> 64 \<and> jc_page_max_bytes c \<le> 67108864 \<and>
     jc_max_event_bytes c \<le> jc_page_max_bytes c"
  by (auto simp: validate_config_def rust_result validate_range_def)

lemma is_control_byte: "is_control x \<Longrightarrow> \<exists>c \<in> set x. byte c < 32 \<or> byte c = 127 \<or> byte c = 194"
  by (auto simp: is_control_def split: list.splits)

lemma run_id_route:
  assumes "validate_run_id i = Inr ()"
  shows "validate_human_input_route ''run id'' i 128 = Inr ()"
proof -
  have i: "i \<noteq> []" "length i \<le> 128" "list_all (\<lambda>c. is_ascii_alphanumeric c \<or> c \<in> set ''-_.'') i"
    using assms by (auto simp: validate_run_id_def split: if_splits)
  have "\<not> is_control x" if x: "x \<in> set (chars_of i)" for x
  proof
    assume "is_control x"
    then obtain c where c: "c \<in> set x" "byte c < 32 \<or> byte c = 127 \<or> byte c = 194" using is_control_byte by blast
    have "c \<in> set (concat (chars_of i))" using c(1) x unfolding set_concat by blast
    then have "is_ascii_alphanumeric c \<or> c \<in> set ''-_.''" using i(3) by (simp add: list_all_iff)
    then show False using c(2) by (auto simp: is_ascii_alphanumeric_def is_ascii_digit_def byte_def)
  qed
  then show ?thesis using i by (auto simp: validate_human_input_route_def ensure_def list_ex_iff)
qed

lemma entry_bytes: "validate_event_entry ser rfc c e = Inr () \<Longrightarrow> en_payload_bytes e \<le> jc_max_event_bytes c"
  by (auto simp: validate_event_entry_def validate_append_entry_def rust_result)


lemma page_valid:
  assumes c: "validate_config c = Inr ()" and i: "validate_run_id (pg_run_id p) = Inr ()" and b: "validate_bounds (pg_bounds p) = Inr ()"
    and sh: "page_shows live (pg_after p) (bd_latest (pg_bounds p)) (pg_events p) (pg_gap p)"
    and latest: "pg_after p \<le> bd_latest (pg_bounds p)" "bd_latest (pg_bounds p) \<le> bigint_max"
    and es: "length (pg_events p) \<le> jc_page_max_events c" "sum_list (map en_payload_bytes (pg_events p)) \<le> jc_page_max_bytes c"
      "\<forall>e \<in> set (pg_events p). validate_event_entry ser rfc c e = Inr () \<and> en_sequence e \<le> bigint_max"
  shows "validate_page_body ser rfc c p = Inr ()"
proof -
  have sat: "saturating_add (pg_after p) (Suc 0) = Suc (pg_after p)" using saturating_bigint [of "pg_after p"] latest by simp
  show ?thesis
  proof (cases "pg_gap p")
    case None
    then have ev: "map en_sequence (pg_events p) = [pg_after p + 1 ..< pg_after p + 1 + length (pg_events p)]"
      "pg_after p + length (pg_events p) \<le> bd_latest (pg_bounds p)" "pg_events p = [] \<longrightarrow> pg_after p = bd_latest (pg_bounds p)"
      using sh by (auto simp: page_shows_def)
    have "sum_list (map en_payload_bytes (pg_events p)) \<le> u64_max"
      using es(2) validate_config_page [OF c] by (simp add: u64_max_def)
    then have "validate_page_events (validate_event_entry ser rfc c) (bd_latest (pg_bounds p)) (pg_after p) 0 (pg_events p) =
      Inr (sum_list (map en_payload_bytes (pg_events p)))"
      using validate_page_events_ok [OF es(3) ev(1,2), of 0] by simp
    then show ?thesis using c i b latest es ev(3) None by (auto simp: validate_page_body_def ensure_def)
  next
    case (Some g)
    then have "pg_events p = []" "gp_first g = Suc (pg_after p)" "pg_after p < gp_last g" "gp_last g \<le> bd_latest (pg_bounds p)"
      using sh by (auto simp: page_shows_def)
    then show ?thesis using c i b latest Some sat by (auto simp: validate_page_body_def ensure_def validate_gap_def validate_sequence_def)
  qed
qed


text \<open>The rows that the page query returns, decoded.\<close>

lemma page_events:
  assumes ok: "run_ok (rows_of i rows) s" and c: "1 \<le> jc_page_max_events c" and p: "p = page_rows c t i n rows"
  shows "set p \<subseteq> set (live_rows t i rows)" "length p \<le> jc_page_max_events c"
    "sum_list (map er_payload_bytes p) \<le> jc_page_max_bytes c \<or> length p \<le> 1"
    "\<exists>q. sort_key er_sequence (filter (\<lambda>r. n < er_sequence r) (live_rows t i rows)) = p @ q \<and> (p = [] \<longrightarrow> p @ q = [])"
proof -
  obtain q where q: "pending_rows t i n rows = p @ q" "p = [] \<longrightarrow> pending_rows t i n rows = []"
    "length p \<le> jc_page_max_events c" "bytes_of p \<le> jc_page_max_bytes c \<or> length p \<le> 1"
    using page_rows_spec [OF c p] by blast
  show sub: "set p \<subseteq> set (live_rows t i rows)" using arg_cong [OF q(1), of set] by (auto simp: pending_rows_def)
  have "er_payload_bytes r \<le> er_accounted r" if "r \<in> set p" for r
    using that sub ok by (fastforce simp: run_ok_def row_sized_def)
  then have "sum_list (map er_payload_bytes p) \<le> bytes_of p" by (intro sum_list_mono) auto
  then show "sum_list (map er_payload_bytes p) \<le> jc_page_max_bytes c \<or> length p \<le> 1" using q(4) by auto
  show "length p \<le> jc_page_max_events c" by (rule q(3))
  show "\<exists>q. sort_key er_sequence (filter (\<lambda>r. n < er_sequence r) (live_rows t i rows)) = p @ q \<and> (p = [] \<longrightarrow> p @ q = [])"
    using q(1,2) by (auto simp: pending_rows_def)
qed

lemma assemble_total: "bd_dropped b = 0 \<or> why \<noteq> None \<Longrightarrow> \<exists>es gap. assemble_page after b why events = Inr (es, gap)"
  by (cases "after < bd_dropped b") (auto simp: assemble_page_def split: option.splits prod.splits)

text \<open>The page of a run with a state row, up to the terminal part.\<close>

lemma page_of_run:
  fixes after
  assumes ok: "run_ok (rows_of i rows) s" and c: "validate_config (jx_config cx) = Inr ()"
    and after: "after \<le> sr_latest s" and b: "logical_bounds t i rows s = (b, why)"
    and p: "p = page_rows (jx_config cx) t i (max after (bd_dropped b)) rows" and readable: "\<forall>r \<in> set p. row_readable cx r"
  shows "\<exists>es gap. decode_rows cx p = Inr (map (\<lambda>r. (r, value_of cx r)) p) \<and>
    assemble_page after b why (map (\<lambda>r. entry_of cx r (value_of cx r)) p) = Inr (es, gap) \<and>
    page_shows (live_rows t i rows) after (sr_latest s) es gap \<and> (\<exists>n. es = map (\<lambda>r. entry_of cx r (value_of cx r)) (take n p)) \<and>
    length es \<le> jc_page_max_events (jx_config cx) \<and> sum_list (map en_payload_bytes es) \<le> jc_page_max_bytes (jx_config cx) \<and>
    (\<forall>e \<in> set es. validate_event_entry (jx_ser cx) (jx_rfc3339 cx) (jx_config cx) e = Inr () \<and> en_sequence e \<le> bigint_max)"
proof -
  note lb = logical_bounds_ok [OF ok b] and cfg = validate_config_page [OF c]
  let ?events = "map (\<lambda>r. entry_of cx r (value_of cx r)) p"
  note pe = page_events [OF ok conjunct1 [OF cfg] p]
  have big: "sr_latest s \<le> bigint_max" and dist: "distinct (map er_sequence (live_rows t i rows))"
    using ok by (auto simp: run_ok_def live_rows_def distinct_map_filter)
  have rd: "row_readable cx r \<and> er_sequence r \<le> sr_latest s" if "r \<in> set p" for r
    using that pe(1) readable ok by (fastforce simp: run_ok_def)
  obtain es gap where asm: "assemble_page after b why ?events = Inr (es, gap)"
    using assemble_total [of b why after ?events] lb(6) by blast
  obtain q where q: "sort_key er_sequence (filter (\<lambda>r. max after (bd_dropped b) < er_sequence r) (live_rows t i rows)) = p @ q" "p = [] \<longrightarrow> p @ q = []"
    using pe(4) by blast
  have "map en_sequence ?events = map er_sequence p" by (simp add: entry_of_def)
  moreover have "\<forall>r \<in> set (live_rows t i rows). bd_dropped b < er_sequence r \<and> er_sequence r \<le> bd_latest b"
    using lb(2,5) ok by (auto simp: run_ok_def)
  ultimately obtain n where sh: "page_shows (live_rows t i rows) after (sr_latest s) es gap" and n: "es = take n ?events"
    using assemble_page_shows [OF asm _ _ _ _ _ pe(1) q dist] lb(2,4) after big by auto
  have es: "es = map (\<lambda>r. entry_of cx r (value_of cx r)) (take n p)" by (simp add: n take_map)
  have valid: "validate_event_entry (jx_ser cx) (jx_rfc3339 cx) (jx_config cx) e = Inr () \<and> en_sequence e \<le> bigint_max" if "e \<in> set es" for e
    using that rd row_readable_value big unfolding es by (force simp: entry_of_def dest: in_set_takeD)
  have "sum_list (map en_payload_bytes es) \<le> jc_page_max_bytes (jx_config cx)"
  proof (cases "length p \<le> 1")
    case True
    then have "length es \<le> 1" by (simp add: es)
    then consider "es = []" | e where "es = [e]" by (cases es) auto
    then show ?thesis
    proof cases
      case 2
      then show ?thesis using valid [of e] entry_bytes [of _ _ "jx_config cx" e] cfg by fastforce
    qed simp
  next
    case False
    have "sum_list (map en_payload_bytes es) = sum_list (map er_payload_bytes (take n p))" by (simp add: es entry_of_def comp_def)
    also have "\<dots> \<le> sum_list (map er_payload_bytes p)" by (metis append_take_drop_id le_add1 map_append sum_list.append)
    finally show ?thesis using pe(3) False by simp
  qed
  moreover have "length es \<le> jc_page_max_events (jx_config cx)" using pe(2) by (simp add: es)
  moreover have "decode_rows cx p = Inr (map (\<lambda>r. (r, value_of cx r)) p)" using rd by (intro decode_rows_ok) simp
  ultimately show ?thesis using asm sh es valid by blast
qed

lemma terminal_ok:
  "validate_snapshot (ts_usage t) = Some (Inr ()) \<Longrightarrow> run_terminal (ts_status t) \<Longrightarrow>
   (case ts_event_sequence t of None \<Rightarrow> True | Some n \<Rightarrow> 0 < n) \<Longrightarrow> validate_terminal_state t = Some (Inr ())"
  by (auto simp: validate_terminal_state_def ensure_def validate_sequence_def split: option.splits)

text \<open>The terminal part of the page.\<close>

definition terminal_of :: "run_row \<Rightarrow> run_status \<Rightarrow> usage_snapshot \<Rightarrow> nat option \<Rightarrow> terminal_state option" where
  "terminal_of r st u n = (if run_terminal st
     then Some \<lparr>ts_status = st, ts_duration_ms = nat (jr_duration_ms r), ts_usage = u, ts_event_sequence = n\<rparr> else None)"

lemma complete_flag_page:
  "validate_bounds (b\<lparr>bd_complete := x\<rparr>) = validate_bounds b"
  by (cases "bd_earliest b") (simp_all add: validate_bounds_def)

lemma validate_page_ok:
  assumes "validate_page_body ser rfc c p = Inr ()" "validate_snapshot u = Some (Inr ())" "pg_terminal p = terminal_of r st u n"
    "\<forall>m. n = Some m \<longrightarrow> 0 < m \<and> m \<le> bd_latest (pg_bounds p)"
  shows "validate_page ser rfc c p = Some (Inr ())"
  using assms by (cases n) (auto simp: validate_page_def terminal_of_def ensure_def terminal_ok split: option.splits)

lemma read_success:
  assumes env: "validate_config (jx_config cx) = Inr ()" "jx_fault cx = (\<lambda>_. None)" "jx_commit cx = Committed"
    and run: "jn_runs j i = Some r" "jr_flow r = flow" "jr_usage r = Some u" "parse_status (jr_status r) = Inr st" "0 \<le> jr_duration_ms r"
    and route: "validate_run_id i = Inr ()" "validate_human_input_route ''flow'' flow 255 = Inr ()"
    and bounds: "case jn_states j i of None \<Rightarrow> b = empty_bounds \<and> why = None
      | Some s \<Rightarrow> logical_bounds t i (jn_events j) s = (b, why) \<and> validate_bounds b = Inr ()"
    and after: "after \<le> bd_latest b" "max after (bd_dropped b) \<le> bigint_max"
    and rows: "decode_rows cx (page_rows (jx_config cx) t i (max after (bd_dropped b)) (jn_events j)) = Inr d"
      "assemble_page after b why (map (\<lambda>(r, v). entry_of cx r v) d) = Inr (es, gap)"
    and page: "n = Option.bind (jn_states j i) sr_terminal" "page = \<lparr>pg_run_id = i, pg_after = after, pg_events = es,
      pg_bounds = (if run_terminal st \<and> n = None then b\<lparr>bd_complete := False\<rparr> else b), pg_gap = gap, pg_terminal = terminal_of r st u n\<rparr>"
    and valid: "validate_page (jx_ser cx) (jx_rfc3339 cx) (jx_config cx) page = Some (Inr ())"
  shows "read_run_events_journal cx t flow i after j = Some (Inr page)"
proof -
  have cfg: "to_bigint m (jc_page_max_events (jx_config cx)) = Inr (jc_page_max_events (jx_config cx))"
    "to_bigint m (jc_page_max_bytes (jx_config cx)) = Inr (jc_page_max_bytes (jx_config cx))"
    "to_bigint m (max after (bd_dropped b)) = Inr (max after (bd_dropped b))" for m
    using validate_config_page [OF env(1)] after(2) by (auto simp: to_bigint_def bigint_max_def)
  have dur: "\<not> jr_duration_ms r < 0" using run(5) by simp
  note ops = bnd_def lift_def gets_def ret_def failing_def query_def run_event_state_def
  show ?thesis
  proof (cases "jn_states j i")
    case None
    then have b: "b = empty_bounds" "why = None" using bounds by simp_all
    show ?thesis
      using valid rows after(1) None cfg(3) dur
      by (cases "run_terminal st") (simp_all add: read_run_events_journal_def ops env run route run_id_route cfg page terminal_of_def b)
  next
    case (Some s)
    then show ?thesis
      using valid rows after(1) bounds cfg(3) dur
      by (cases "run_terminal st"; cases n) (simp_all add: read_run_events_journal_def ops env run route run_id_route cfg page terminal_of_def)
  qed
qed

text \<open>The rows the page query returns.\<close>

definition page_candidates :: "jx \<Rightarrow> nat \<Rightarrow> string \<Rightarrow> nat \<Rightarrow> journal \<Rightarrow> event_row list" where
  "page_candidates cx t i after j = page_rows (jx_config cx) t i
     (max after (case jn_states j i of None \<Rightarrow> 0 | Some s \<Rightarrow> bd_dropped (fst (logical_bounds t i (jn_events j) s)))) (jn_events j)"

definition latest_sequence :: "journal \<Rightarrow> string \<Rightarrow> nat" where
  "latest_sequence j i = (case jn_states j i of None \<Rightarrow> 0 | Some s \<Rightarrow> sr_latest s)"

text \<open>
  Everything a read relies on: the configuration is valid and the database answers and commits, the
  names are valid, the run exists under the flow with a valid usage, status and duration, the
  requested position is not ahead of the stream, and every row of the page decodes to an event that
  its validation accepts.
\<close>

definition answerable :: "jx \<Rightarrow> nat \<Rightarrow> string \<Rightarrow> string \<Rightarrow> nat \<Rightarrow> journal \<Rightarrow> bool" where
  "answerable cx t flow i after j \<longleftrightarrow>
     validate_config (jx_config cx) = Inr () \<and> jx_fault cx = (\<lambda>_. None) \<and> jx_commit cx = Committed \<and>
     validate_run_id i = Inr () \<and> validate_human_input_route ''flow'' flow 255 = Inr () \<and>
     (\<exists>r u st. jn_runs j i = Some r \<and> jr_flow r = flow \<and> jr_usage r = Some u \<and> validate_snapshot u = Some (Inr ()) \<and>
        parse_status (jr_status r) = Inr st \<and> 0 \<le> jr_duration_ms r) \<and>
     after \<le> latest_sequence j i \<and> (\<forall>r \<in> set (page_candidates cx t i after j). row_readable cx r)"

lemma page_returned:
  assumes "journal_ok j" "validate_config (jx_config cx) = Inr ()" "jx_fault cx = (\<lambda>_. None)" "jx_commit cx = Committed"
    and run: "jn_runs j i = Some r" "jr_flow r = flow" "jr_usage r = Some u" "validate_snapshot u = Some (Inr ())"
      "parse_status (jr_status r) = Inr st" "0 \<le> jr_duration_ms r"
    and route: "validate_run_id i = Inr ()" "validate_human_input_route ''flow'' flow 255 = Inr ()"
    and rows: "\<forall>r \<in> set (page_candidates cx t i after j). row_readable cx r"
    and latest: "latest = (case jn_states j i of None \<Rightarrow> 0 | Some s \<Rightarrow> sr_latest s)" "after \<le> latest"
  shows "\<exists>page. read_run_events_journal cx t flow i after j = Some (Inr page)"
proof (cases "jn_states j i")
  case None
  have empty: "rows_of i (jn_events j) = []" using assms(1) None by (auto simp: journal_ok_def run_rows_ok_def dest: spec [of _ i])
  let ?p = "\<lparr>pg_run_id = i, pg_after = after, pg_events = [],
    pg_bounds = (if run_terminal st \<and> (None :: nat option) = None then empty_bounds\<lparr>bd_complete := False\<rparr> else empty_bounds),
    pg_gap = None, pg_terminal = terminal_of r st u None\<rparr>"
  have zero: "after = 0" "latest = 0" "bd_latest empty_bounds = 0" "bd_dropped empty_bounds = 0" using latest None by (simp_all add: empty_bounds_def)
  have "validate_bounds empty_bounds = Inr ()" by (simp add: validate_bounds_def empty_bounds_def ensure_def)
  then have "validate_page_body (jx_ser cx) (jx_rfc3339 cx) (jx_config cx) ?p = Inr ()"
    by (intro page_valid [OF assms(2), where live = "[]"]) (simp_all add: route page_shows_def complete_flag_page zero)
  then have "validate_page (jx_ser cx) (jx_rfc3339 cx) (jx_config cx) ?p = Some (Inr ())"
    by (rule validate_page_ok [OF _ run(4)]) auto
  then have "read_run_events_journal cx t flow i after j = Some (Inr ?p)"
    by (intro read_success [OF assms(2-4) run(1,2,3,5,6) route, where b = empty_bounds and why = None and d = "[]" and n = None])
      (simp_all add: None zero page_rows_def live_rows_def empty assemble_page_def)
  then show ?thesis by blast
next
  case (Some s)
  then have ok: "run_ok (rows_of i (jn_events j)) s" and le: "after \<le> sr_latest s" "latest = sr_latest s"
    using journal_ok_state [OF assms(1)] latest by auto
  obtain b why where b: "logical_bounds t i (jn_events j) s = (b, why)" by force
  note lb = logical_bounds_ok [OF ok b]
  obtain es gap n where pg: "decode_rows cx (page_rows (jx_config cx) t i (max after (bd_dropped b)) (jn_events j)) =
      Inr (map (\<lambda>r. (r, value_of cx r)) (page_rows (jx_config cx) t i (max after (bd_dropped b)) (jn_events j)))"
    "assemble_page after b why (map (\<lambda>r. entry_of cx r (value_of cx r)) (page_rows (jx_config cx) t i (max after (bd_dropped b)) (jn_events j))) = Inr (es, gap)"
    "page_shows (live_rows t i (jn_events j)) after (sr_latest s) es gap"
    "es = map (\<lambda>r. entry_of cx r (value_of cx r)) (take n (page_rows (jx_config cx) t i (max after (bd_dropped b)) (jn_events j)))"
    "length es \<le> jc_page_max_events (jx_config cx)" "sum_list (map en_payload_bytes es) \<le> jc_page_max_bytes (jx_config cx)"
    "\<forall>e \<in> set es. validate_event_entry (jx_ser cx) (jx_rfc3339 cx) (jx_config cx) e = Inr () \<and> en_sequence e \<le> bigint_max"
    using page_of_run [OF ok assms(2) le(1) b refl rows [unfolded page_candidates_def Some option.case b fst_conv]] by blast
  let ?n = "sr_terminal s"
  let ?p = "\<lparr>pg_run_id = i, pg_after = after, pg_events = es,
    pg_bounds = (if run_terminal st \<and> ?n = None then b\<lparr>bd_complete := False\<rparr> else b), pg_gap = gap, pg_terminal = terminal_of r st u ?n\<rparr>"
  have big: "sr_latest s \<le> bigint_max" using ok by (simp add: run_ok_def)
  have "validate_page_body (jx_ser cx) (jx_rfc3339 cx) (jx_config cx) ?p = Inr ()"
    by (intro page_valid [OF assms(2), where live = "live_rows t i (jn_events j)"])
      (use pg le lb(1,2) big in \<open>simp_all add: route complete_flag_page\<close>)
  then have valid: "validate_page (jx_ser cx) (jx_rfc3339 cx) (jx_config cx) ?p = Some (Inr ())"
    by (rule validate_page_ok [OF _ run(4)]) (use ok lb(2) in \<open>auto simp: run_ok_def\<close>)
  have bounds: "case jn_states j i of None \<Rightarrow> b = empty_bounds \<and> why = None
      | Some s \<Rightarrow> logical_bounds t i (jn_events j) s = (b, why) \<and> validate_bounds b = Inr ()" using Some b lb(1) by simp
  have asm: "assemble_page after b why (map (\<lambda>(r, v). entry_of cx r v)
      (map (\<lambda>r. (r, value_of cx r)) (page_rows (jx_config cx) t i (max after (bd_dropped b)) (jn_events j)))) = Inr (es, gap)"
    using pg(2) by (simp add: comp_def)
  have "read_run_events_journal cx t flow i after j = Some (Inr ?p)"
    by (rule read_success [OF assms(2-4) run(1,2,3,5,6) route bounds _ _ pg(1) asm _ refl])
      (use Some lb(2,4) le big valid in simp_all)
  then show ?thesis by blast
qed

text \<open>What a successful read went through.\<close>

lemma fst_Inr: "fst x = Inr a \<Longrightarrow> \<exists>t. x = (Inr a, t)"
  by (cases x) simp

lemma read_parts:
  assumes run: "read_run_events_journal cx t flow i after j = Some (Inr p)"
  shows "\<exists>r b why d. jn_runs j i = Some r \<and> jr_flow r = flow \<and>
    (case jn_states j i of None \<Rightarrow> b = empty_bounds | Some s \<Rightarrow> logical_bounds t i (jn_events j) s = (b, why)) \<and>
    after \<le> bd_latest b \<and>
    decode_rows cx (page_rows (jx_config cx) t i (max after (bd_dropped b)) (jn_events j)) = Inr d \<and>
    assemble_page after b why (map (\<lambda>(r, v). entry_of cx r v) d) = Inr (pg_events p, pg_gap p) \<and>
    pg_run_id p = i \<and> pg_after p = after \<and> bd_latest (pg_bounds p) = bd_latest b"
  using run unfolding read_run_events_journal_def
  apply (clarsimp split: sum.splits option.splits commit_result.splits)
  apply (drule fst_Inr)
  apply (elim exE)
  apply (simp only: journal_success)
  apply (elim exE conjE disjE; simp only: Let_def split: if_split_asm)
  apply (simp_all only: bnd_Inr lift_Inr ret_Inr sum.inject sum.distinct)
  by (auto simp: eq_commute [of "Some _" "jn_states j i"] eq_commute [of None "jn_states j i"] eq_commute [of "Some _" "jn_runs j i"]
      eq_commute [of "(_, _)" "logical_bounds _ _ _ _"] not_less)

lemma read_validated:
  "read_run_events_journal cx t flow i after j = Some (Inr p) \<Longrightarrow>
   validate_page (jx_ser cx) (jx_rfc3339 cx) (jx_config cx) p = Some (Inr ())"
  by (auto simp: read_run_events_journal_def split: sum.splits option.splits commit_result.splits)

lemma decode_rows_parts:
  "decode_rows cx rows = Inr d \<Longrightarrow> map fst d = rows \<and> (\<forall>(r, v) \<in> set d. jx_parse_json cx (er_payload r) = Inr v)"
  by (induction rows arbitrary: d) (auto simp: rust_result decode_stored_json_def split: sum.split_asm)

lemma page_events_validated: "validate_page_events ok latest n bytes es = Inr m \<Longrightarrow> e \<in> set es \<Longrightarrow> ok e = Inr ()"
  by (induction es arbitrary: n bytes) (auto simp: rust_result split: if_splits option.splits)

lemma page_exact:
  assumes run: "read_run_events_journal cx t flow i after j = Some (Inr p)" and ok: "journal_ok j"
  shows "(\<exists>r. jn_runs j i = Some r \<and> jr_flow r = flow) \<and> pg_after p = after \<and> after \<le> latest_sequence j i \<and>
    page_shows (live_rows t i (jn_events j)) after (latest_sequence j i) (pg_events p) (pg_gap p) \<and>
    (\<forall>e \<in> set (pg_events p). validate_event_entry (jx_ser cx) (jx_rfc3339 cx) (jx_config cx) e = Inr () \<and>
      (\<exists>r \<in> set (live_rows t i (jn_events j)). \<exists>v. jx_parse_json cx (er_payload r) = Inr v \<and> e = entry_of cx r v))"
proof -
  obtain r b why d where parts: "jn_runs j i = Some r" "jr_flow r = flow"
    "case jn_states j i of None \<Rightarrow> b = empty_bounds | Some s \<Rightarrow> logical_bounds t i (jn_events j) s = (b, why)"
    "after \<le> bd_latest b" "decode_rows cx (page_rows (jx_config cx) t i (max after (bd_dropped b)) (jn_events j)) = Inr d"
    "assemble_page after b why (map (\<lambda>(r, v). entry_of cx r v) d) = Inr (pg_events p, pg_gap p)"
    "pg_run_id p = i" "pg_after p = after" "bd_latest (pg_bounds p) = bd_latest b"
    using read_parts [OF run] by blast
  let ?rows = "page_rows (jx_config cx) t i (max after (bd_dropped b)) (jn_events j)"
  have "validate_page_body (jx_ser cx) (jx_rfc3339 cx) (jx_config cx) p = Inr ()"
    using read_validated [OF run] by (auto simp: validate_page_def split: sum.splits)
  then obtain m where c: "validate_config (jx_config cx) = Inr ()"
    and valid: "validate_page_events (validate_event_entry (jx_ser cx) (jx_rfc3339 cx) (jx_config cx))
      (bd_latest (pg_bounds p)) (pg_after p) 0 (pg_events p) = Inr m"
    by (auto simp: validate_page_body_def rust_result)
  note d = decode_rows_parts [OF parts(5)]
  have shown: "page_shows (live_rows t i (jn_events j)) after (latest_sequence j i) (pg_events p) (pg_gap p) \<and>
      bd_latest b = latest_sequence j i \<and> set ?rows \<subseteq> set (live_rows t i (jn_events j)) \<and>
      (\<exists>n. pg_events p = take n (map (\<lambda>(r, v). entry_of cx r v) d))"
  proof (cases "jn_states j i")
    case None
    have empty: "rows_of i (jn_events j) = []" using ok None by (auto simp: journal_ok_def run_rows_ok_def dest: spec [of _ i])
    then have "?rows = []" "live_rows t i (jn_events j) = []" by (simp_all add: page_rows_def live_rows_def)
    moreover have "b = empty_bounds" "after = 0" using parts(3,4) None by (simp_all add: empty_bounds_def)
    ultimately show ?thesis
      using parts(5,6) None by (auto simp: assemble_page_def empty_bounds_def page_shows_def latest_sequence_def)
  next
    case (Some s)
    then have ok: "run_ok (rows_of i (jn_events j)) s" and b: "logical_bounds t i (jn_events j) s = (b, why)"
      using journal_ok_state [OF ok] parts(3) by auto
    note lb = logical_bounds_ok [OF ok b]
    note pe = page_events [OF ok conjunct1 [OF validate_config_page [OF c]] refl, where t = t and n = "max after (bd_dropped b)"]
    have big: "sr_latest s \<le> bigint_max" and dist: "distinct (map er_sequence (live_rows t i (jn_events j)))"
      using ok by (auto simp: run_ok_def live_rows_def distinct_map_filter)
    obtain q where q: "sort_key er_sequence (filter (\<lambda>r. max after (bd_dropped b) < er_sequence r) (live_rows t i (jn_events j))) = ?rows @ q"
      "?rows = [] \<longrightarrow> ?rows @ q = []" using pe(4) by blast
    have "map en_sequence (map (\<lambda>(r, v). entry_of cx r v) d) = map er_sequence (map fst d)"
      by (simp add: entry_of_def split_def)
    then have seq: "map en_sequence (map (\<lambda>(r, v). entry_of cx r v) d) = map er_sequence ?rows" using d by simp
    have "\<forall>r \<in> set (live_rows t i (jn_events j)). bd_dropped b < er_sequence r \<and> er_sequence r \<le> bd_latest b"
      using lb(2,5) ok by (auto simp: run_ok_def)
    then show ?thesis
      using assemble_page_shows [OF parts(6,4) _ _ _ seq pe(1) q dist] lb(2,4) big pe(1) Some by (simp add: latest_sequence_def)
  qed
  have "\<exists>r \<in> set (live_rows t i (jn_events j)). \<exists>v. jx_parse_json cx (er_payload r) = Inr v \<and> e = entry_of cx r v" if e: "e \<in> set (pg_events p)" for e
  proof -
    obtain r v where r: "(r, v) \<in> set d" "e = entry_of cx r v" using e shown by (auto dest!: in_set_takeD)
    then have "r \<in> set (map fst d)" by force
    then have "r \<in> set ?rows" using d by simp
    moreover have "jx_parse_json cx (er_payload r) = Inr v" using d r(1) by auto
    ultimately show ?thesis using shown r(2) by blast
  qed
  then show ?thesis using parts(1,2,4,8) shown page_events_validated [OF valid] by auto
qed

text \<open>
  A row that was stored for an entry accepted by the validation of the append is readable when the
  database gives the payload back and its clock prints a time stamp.
\<close>

lemma stored_row_readable:
  assumes "validate_append_entry (jx_ser cx) (jc_max_event_bytes (jx_config cx)) e = Inr ()"
    and "er_sequence r = ae_sequence e" "er_event_type r = ae_event_type e" "er_payload_bytes r = ae_payload_bytes e"
    and "jx_parse_json cx (er_payload r) = Inr (ae_payload e)" "jx_rfc3339 cx (jx_to_char cx (er_created_at r)) = Inr time"
  shows "row_readable cx r"
  using assms by (cases e) (simp add: row_readable_def validate_event_entry_def entry_of_def)

text \<open>
  C30. Reading the journal of a sound store. Whatever the database does and whatever is in the rows, a page
  that is returned is exact: the run exists under the flow, the requested position is not ahead of the stream,
  and either the events of the page are live rows of the run that pass the validation, with exactly
  the sequence numbers that follow the requested one, at least one of them unless the reader has
  reached the latest; or it has no event and reports a gap that starts right after the requested
  position, ends within the stream, and in which no live row is left. And a page is returned
  when the database answers and commits, the names, the configuration and the run's usage, status and
  duration are valid, the position is not ahead of the stream, and the rows of the page decode and pass
  the validation.
\<close>

theorem journal_page_exact:
  assumes "journal_ok j"
  shows "(\<forall>page. read_run_events_journal cx t flow i after j = Some (Inr page) \<longrightarrow>
      (\<exists>r. jn_runs j i = Some r \<and> jr_flow r = flow) \<and> pg_after page = after \<and> after \<le> latest_sequence j i \<and>
      page_shows (live_rows t i (jn_events j)) after (latest_sequence j i) (pg_events page) (pg_gap page) \<and>
      (\<forall>e \<in> set (pg_events page). validate_event_entry (jx_ser cx) (jx_rfc3339 cx) (jx_config cx) e = Inr () \<and>
        (\<exists>r \<in> set (live_rows t i (jn_events j)). \<exists>v. jx_parse_json cx (er_payload r) = Inr v \<and> e = entry_of cx r v))) \<and>
    (answerable cx t flow i after j \<longrightarrow> (\<exists>page. read_run_events_journal cx t flow i after j = Some (Inr page)))"
proof (intro conjI allI impI)
  assume a: "answerable cx t flow i after j"
  then obtain r u st where r: "jn_runs j i = Some r" "jr_flow r = flow" "jr_usage r = Some u" "validate_snapshot u = Some (Inr ())"
    "parse_status (jr_status r) = Inr st" "0 \<le> jr_duration_ms r"
    by (auto simp: answerable_def)
  show "\<exists>page. read_run_events_journal cx t flow i after j = Some (Inr page)"
    by (rule page_returned [OF assms _ _ _ r]) (use a in \<open>auto simp: answerable_def latest_sequence_def\<close>)
qed (use page_exact [OF _ assms] in blast)+

lemma demo_readable: "row_readable demo_jx demo_row"
  by (simp add: row_readable_def demo_jx_def demo_row_def validate_event_entry_def validate_append_entry_def entry_of_def
      validate_sequence_def validate_event_type_def validate_payload_event_type_def demo_payload_def json_get_def as_str_def
      serialized_json_size_def ensure_def demo_limits is_ascii_digit_def byte_def u64_max_def)

lemma demo_journal_ok: "journal_ok demo_journal"
proof -
  have "bounded_journal default_journal_config demo_start"
    using put_run_ok [OF empty_journal_bounded, of _ "''r''" demo_run] by (simp add: empty_journal_def demo_start_def)
  then have "bounded_journal default_journal_config (snd (append_run_event_journal demo_jx demo_batch demo_start))"
    by (rule append_call_ok) (simp add: demo_jx_def)
  then show ?thesis by (simp add: demo_append bounded_journal_def)
qed

theorem journal_page_exact_witness:
  "\<exists>page. read_run_events_journal demo_jx 0 ''flow'' ''r'' 0 demo_journal = Some (Inr page) \<and>
    page_shows [demo_row] 0 1 (pg_events page) (pg_gap page)"
proof -
  have u: "validate_snapshot demo_usage = Some (Inr ())"
    by (simp add: validate_snapshot_def demo_usage_def new_snapshot_def validate_budget_def default_budget_def
        validate_aggregate_def default_aggregate_def checked_add_def u64_max_def ensure_def)
  have e: "rows_of ''r'' (jn_events demo_journal) = [demo_row]" "live_rows 0 ''r'' (jn_events demo_journal) = [demo_row]"
    "latest_sequence demo_journal ''r'' = 1"
    by (simp_all add: demo_journal_def demo_row_def rows_of_def live_rows_def demo_state_def latest_sequence_def)
  have "r \<in> set (page_candidates demo_jx 0 ''r'' 0 demo_journal) \<Longrightarrow> r = demo_row" for r
  proof -
    have c: "1 \<le> jc_page_max_events (jx_config demo_jx)"
      using validate_config_page [OF demo_config_valid] by (simp add: demo_jx_def)
    have s: "jn_states demo_journal ''r'' = Some demo_state" by (simp add: demo_journal_def)
    assume "r \<in> set (page_candidates demo_jx 0 ''r'' 0 demo_journal)"
    then show "r = demo_row"
      using page_events(1) [OF conjunct1 [OF journal_ok_state [OF demo_journal_ok s]] c refl] e(2) unfolding page_candidates_def s by fastforce
  qed
  then have "answerable demo_jx 0 ''flow'' ''r'' 0 demo_journal"
    using u demo_config_valid demo_readable
    by (auto simp: answerable_def demo_jx_def demo_journal_def demo_run_def parse_status_def validate_run_id_def validate_human_input_route_def
        ensure_def is_ascii_alphanumeric_def is_ascii_digit_def byte_def is_control_def is_cont_def)
  then show ?thesis using journal_page_exact [OF demo_journal_ok, of demo_jx 0 "''flow''" "''r''" 0] by (auto simp: e)
qed

end
