(* ===== verification/Journal_Stream.thy ===== *)
theory Journal_Stream
  imports Journal_Read
begin

text \<open>
  Server-Sent Events of a run from the shared journal: the durable branch of \<open>flow_events\<close> in
  \<open>src/src/api/handlers.rs\<close>. The stream is a loop over reads of the journal; each read is
  answered with a page, a store error or a timeout, by a source that the loop does not
  control. \<open>None\<close> is a panic of one of the \<open>expect\<close> calls. Waiting between polls is recorded as a multiple of
  the poll interval, which has no effect on what is sent.
\<close>

section \<open>What is sent\<close>

datatype sse_item =
    SseGap string event_gap
  | SseEvent string event_entry
  | SseSynthetic string terminal_state
  | SseError string

fun sse_id :: "sse_item \<Rightarrow> string option" where
  "sse_id (SseGap i g) = Some i"
| "sse_id (SseEvent i e) = Some i"
| "sse_id (SseSynthetic i t) = None"
| "sse_id (SseError m) = None"

fun sse_event :: "sse_item \<Rightarrow> string" where
  "sse_event (SseGap i g) = ''journal_gap''"
| "sse_event (SseEvent i e) = en_event_type e"
| "sse_event (SseSynthetic i t) = run_complete"
| "sse_event (SseError m) = ''error''"

fun reason_text :: "gap_reason \<Rightarrow> string" where
  "reason_text WriterBackpressure = ''writer_backpressure''"
| "reason_text Retention = ''retention''"
| "reason_text GlobalCapacity = ''global_capacity''"
| "reason_text OwnerLost = ''owner_lost''"

text \<open>The data of an item; \<open>usage\<close> is what serde writes for a usage snapshot.\<close>

fun sse_data :: "(usage_snapshot \<Rightarrow> json) \<Rightarrow> sse_item \<Rightarrow> json" where
  "sse_data usage (SseGap i g) = JObject [(''event'', JString ''journal_gap''), (''data'', JObject
     [(''first_sequence'', JUint (gp_first g)), (''last_sequence'', JUint (gp_last g)), (''reason'', JString (reason_text (gp_reason g)))])]"
| "sse_data usage (SseEvent i e) = en_payload e"
| "sse_data usage (SseSynthetic run_id t) = JObject [(''event'', JString run_complete), (''data'', JObject
     [(''run_id'', JString run_id), (''status'', JString (show_status (ts_status t))), (''duration_ms'', JUint (ts_duration_ms t)),
      (''usage'', usage (ts_usage t)), (''journal_complete'', JBool False), (''synthesized_from_run_record'', JBool True)])]"
| "sse_data usage (SseError message) = JObject [(''event'', JString ''error''), (''data'', JObject [(''message'', JString message)])]"

section \<open>Opening the stream\<close>

datatype http_status = BadRequest | ConflictStatus | ServiceUnavailable

definition cursor_error_response :: "cursor_error \<Rightarrow> http_status \<times> string" where
  "cursor_error_response e = (case e of
     CursorAhead _ \<Rightarrow> (ConflictStatus, ''cursor_ahead'')
   | CursorExpired _ \<Rightarrow> (ConflictStatus, ''cursor_expired'')
   | CursorCrossRun \<Rightarrow> (BadRequest, ''cursor_cross_run'')
   | _ \<Rightarrow> (BadRequest, ''invalid_cursor''))"

datatype read_outcome = PageRead event_page | StoreFailed | ReadTimedOut | ReadPanicked

definition journal_read_http_error :: "http_status \<times> string" where
  "journal_read_http_error = (ServiceUnavailable, ''Run-event replay is temporarily unavailable'')"

text \<open>\<open>None\<close> is a panic inside the store.\<close>

definition read_journal_page :: "read_outcome \<Rightarrow> (http_status \<times> string, event_page) result option" where
  "read_journal_page r = (case r of
     PageRead p \<Rightarrow> Some (Inr p)
   | StoreFailed \<Rightarrow> Some (Inl journal_read_http_error)
   | ReadTimedOut \<Rightarrow> Some (Inl journal_read_http_error)
   | ReadPanicked \<Rightarrow> None)"

text \<open>
  The header \<open>Last-Event-ID\<close> (if present, \<open>None\<close> inside when it is not ASCII) and the two initial reads: reads are
  numbered, and \<open>source k after\<close> answers read number \<open>k\<close>.
\<close>

definition parse_last_event_id :: "string \<Rightarrow> string option option \<Rightarrow> (http_status \<times> string, cursor option) result" where
  "parse_last_event_id run_id header = (case header of
     None \<Rightarrow> Inr None
   | Some None \<Rightarrow> Inl (cursor_error_response CursorNonAscii)
   | Some (Some raw) \<Rightarrow> (case parse_cursor_for_run raw run_id of
       Inl e \<Rightarrow> Inl (cursor_error_response e) | Inr c \<Rightarrow> Inr (Some c)))"

definition check_cursor :: "cursor \<Rightarrow> event_page \<Rightarrow> (http_status \<times> string, unit) result" where
  "check_cursor c p = (case validate_against c (pg_bounds p) of Inl e \<Rightarrow> Inl (cursor_error_response e) | Inr _ \<Rightarrow> Inr ())"

definition open_stream :: "(nat \<Rightarrow> nat \<Rightarrow> read_outcome) \<Rightarrow> string \<Rightarrow> string option option \<Rightarrow>
    (http_status \<times> string, nat \<times> nat option \<times> event_page) result option" where
  "open_stream source run_id header = (case parse_last_event_id run_id header of
     Inl e \<Rightarrow> Some (Inl e)
   | Inr cursor \<Rightarrow> (case read_journal_page (source 0 0) of
       None \<Rightarrow> None
     | Some (Inl e) \<Rightarrow> Some (Inl e)
     | Some (Inr bounds_page) \<Rightarrow> (case cursor of
         None \<Rightarrow> Some (Inr (0, None, bounds_page))
       | Some c \<Rightarrow> (case check_cursor c bounds_page of
           Inl e \<Rightarrow> Some (Inl e)
         | Inr _ \<Rightarrow> (case read_journal_page (source 1 (cu_sequence c)) of
             None \<Rightarrow> None
           | Some (Inl e) \<Rightarrow> Some (Inl e)
           | Some (Inr page) \<Rightarrow> (case check_cursor c page of
               Inl e \<Rightarrow> Some (Inl e)
             | Inr _ \<Rightarrow> Some (Inr (cu_sequence c, Some (cu_sequence c), page))))))))"

section \<open>The loop\<close>

record stream_state =
  ss_after :: nat
  ss_failures :: nat

datatype stream_next = Ended | Wait nat

definition cursor_acknowledges_terminal :: "nat option \<Rightarrow> nat \<Rightarrow> bool" where
  "cursor_acknowledges_terminal acknowledged sequence = (case acknowledged of None \<Rightarrow> False | Some n \<Rightarrow> sequence \<le> n)"

definition send_gap :: "string \<Rightarrow> nat \<Rightarrow> event_gap option \<Rightarrow> (sse_item list \<times> nat) option" where
  "send_gap run_id after gap = (case gap of
     None \<Rightarrow> Some ([], after)
   | Some g \<Rightarrow> (case new_cursor run_id (gp_last g) of
       Inl _ \<Rightarrow> None
     | Inr c \<Rightarrow> Some ([SseGap (show_cursor c) g], max after (gp_last g))))"

fun send_events :: "string \<Rightarrow> nat \<Rightarrow> event_entry list \<Rightarrow> (sse_item list \<times> nat \<times> bool) option" where
  "send_events run_id after [] = Some ([], after, False)"
| "send_events run_id after (e # es) = (case new_cursor run_id (en_sequence e) of
     Inl _ \<Rightarrow> None
   | Inr c \<Rightarrow>
      (if en_event_type e = run_complete then Some ([SseEvent (show_cursor c) e], en_sequence e, True)
       else (case send_events run_id (en_sequence e) es of
           None \<Rightarrow> None
         | Some (its, after', finished) \<Rightarrow> Some (SseEvent (show_cursor c) e # its, after', finished))))"

definition after_events :: "string \<Rightarrow> nat option \<Rightarrow> nat \<Rightarrow> event_page \<Rightarrow> sse_item list \<times> stream_next" where
  "after_events run_id acknowledged after page =
    (let poll = (if after < bd_latest (pg_bounds page) then Wait 0 else Wait 1) in
     case pg_terminal page of
       None \<Rightarrow> ([], poll)
     | Some t \<Rightarrow> (case ts_event_sequence t of
         Some n \<Rightarrow>
           if after < n then ([], Wait 0)
           else if cursor_acknowledges_terminal acknowledged n then ([], Ended)
           else ([SseSynthetic run_id t], Ended)
       | None \<Rightarrow> ([SseSynthetic run_id t], Ended)))"

definition stream_page :: "string \<Rightarrow> nat option \<Rightarrow> stream_state \<Rightarrow> event_page \<Rightarrow> (sse_item list \<times> stream_state \<times> stream_next) option" where
  "stream_page run_id acknowledged st page =
    (case send_gap run_id (ss_after st) (pg_gap page) of
       None \<Rightarrow> None
     | Some (gap_items, after1) \<Rightarrow> (case send_events run_id after1 (pg_events page) of
         None \<Rightarrow> None
       | Some (its, after2, delivered_terminal) \<Rightarrow>
          (if delivered_terminal then Some (gap_items @ its, st\<lparr>ss_after := after2\<rparr>, Ended)
           else (let (closing, nxt) = after_events run_id acknowledged after2 page
                 in Some (gap_items @ its @ closing, st\<lparr>ss_after := after2\<rparr>, nxt)))))"

definition stream_failure :: "string \<Rightarrow> stream_state \<Rightarrow> sse_item list \<times> stream_state \<times> stream_next" where
  "stream_failure message st =
    (let failures = min (ss_failures st + 1) (2 ^ 32 - 1); st' = st\<lparr>ss_failures := failures\<rparr> in
     if 5 \<le> failures then ([SseError message], st', Ended) else ([], st', Wait (2 ^ min failures 3)))"

definition stream_step :: "string \<Rightarrow> nat option \<Rightarrow> stream_state \<Rightarrow> read_outcome \<Rightarrow> (sse_item list \<times> stream_state \<times> stream_next) option" where
  "stream_step run_id acknowledged st r = (case r of
     PageRead page \<Rightarrow> stream_page run_id acknowledged (st\<lparr>ss_failures := 0\<rparr>) page
   | StoreFailed \<Rightarrow> Some (stream_failure ''run-event replay is temporarily unavailable; reconnect with Last-Event-ID'' st)
   | ReadTimedOut \<Rightarrow> Some (stream_failure ''run-event replay timed out; reconnect with Last-Event-ID'' st)
   | ReadPanicked \<Rightarrow> None)"

text \<open>
  The stream over \<open>n\<close> more reads, numbered from \<open>k\<close>: everything sent, where it stands, and whether it has ended.
\<close>

fun stream_loop :: "(nat \<Rightarrow> nat \<Rightarrow> read_outcome) \<Rightarrow> string \<Rightarrow> nat option \<Rightarrow> nat \<Rightarrow> nat \<Rightarrow> stream_state \<Rightarrow>
    (sse_item list \<times> stream_state \<times> bool) option" where
  "stream_loop source run_id acknowledged k 0 st = Some ([], st, False)"
| "stream_loop source run_id acknowledged k (Suc n) st =
    (case stream_step run_id acknowledged st (source k (ss_after st)) of
       None \<Rightarrow> None
     | Some (its, st', Ended) \<Rightarrow> Some (its, st', True)
     | Some (its, st', Wait _) \<Rightarrow> (case stream_loop source run_id acknowledged (Suc k) n st' of
         None \<Rightarrow> None
       | Some (rest, st'', ended) \<Rightarrow> Some (its @ rest, st'', ended)))"

text \<open>The stream starts with the page that \<open>open_stream\<close> has read.\<close>

definition flow_events :: "(nat \<Rightarrow> nat \<Rightarrow> read_outcome) \<Rightarrow> string \<Rightarrow> string option option \<Rightarrow> nat \<Rightarrow>
    (http_status \<times> string, sse_item list \<times> stream_state \<times> bool) result option" where
  "flow_events source run_id header n = (case open_stream source run_id header of
     None \<Rightarrow> None
   | Some (Inl e) \<Rightarrow> Some (Inl e)
   | Some (Inr (after, acknowledged, first_page)) \<Rightarrow>
      (case stream_page run_id acknowledged \<lparr>ss_after = after, ss_failures = 0\<rparr> first_page of
        None \<Rightarrow> None
      | Some (its, st, Ended) \<Rightarrow> Some (Inr (its, st, True))
      | Some (its, st, Wait _) \<Rightarrow> (case stream_loop source run_id acknowledged 2 n st of
          None \<Rightarrow> None
        | Some (rest, st', ended) \<Rightarrow> Some (Inr (its @ rest, st', ended)))))"

section \<open>Pages a source may answer with\<close>

definition page_sound :: "string \<Rightarrow> nat \<Rightarrow> event_page \<Rightarrow> bool" where
  "page_sound run_id after p \<longleftrightarrow> validate_cursor_run_id run_id = Inr () \<and> after \<le> bd_latest (pg_bounds p) \<and> bd_latest (pg_bounds p) \<le> bigint_max \<and>
     page_shows [] after (bd_latest (pg_bounds p)) (pg_events p) (pg_gap p) \<and>
     (\<forall>t n. pg_terminal p = Some t \<longrightarrow> ts_event_sequence t = Some n \<longrightarrow> n \<le> bd_latest (pg_bounds p))"

text \<open>The sequence numbers an item accounts for.\<close>

fun sse_numbers :: "sse_item \<Rightarrow> nat list" where
  "sse_numbers (SseGap i g) = [gp_first g ..< gp_last g + 1]"
| "sse_numbers (SseEvent i e) = [en_sequence e]"
| "sse_numbers (SseSynthetic i t) = []"
| "sse_numbers (SseError m) = []"

definition numbers_sent :: "sse_item list \<Rightarrow> nat list" where
  "numbers_sent its = concat (map sse_numbers its)"

lemma numbers_sent_simps [simp]:
  "numbers_sent [] = []" "numbers_sent (x # xs) = sse_numbers x @ numbers_sent xs" "numbers_sent (xs @ ys) = numbers_sent xs @ numbers_sent ys"
  by (simp_all add: numbers_sent_def)

text \<open>An item's id is a cursor at the last number it accounts for.\<close>

definition id_resumes :: "string \<Rightarrow> sse_item \<Rightarrow> bool" where
  "id_resumes run_id x \<longleftrightarrow> (\<forall>i. sse_id x = Some i \<longrightarrow>
     sse_numbers x \<noteq> [] \<and> parse_cursor_for_run i run_id = Inr \<lparr>cu_run_id = run_id, cu_sequence = last (sse_numbers x)\<rparr>)"

definition closing :: "sse_item \<Rightarrow> bool" where
  "closing x \<longleftrightarrow> sse_event x = run_complete \<or> (\<exists>m. x = SseError m)"

section \<open>One page\<close>

lemma parse_for_run:
  "validate_cursor_run_id i = Inr () \<Longrightarrow> 0 < n \<Longrightarrow> n \<le> bigint_max \<Longrightarrow>
   new_cursor i n = Inr \<lparr>cu_run_id = i, cu_sequence = n\<rparr> \<and>
   parse_cursor_for_run (show_cursor \<lparr>cu_run_id = i, cu_sequence = n\<rparr>) i = Inr \<lparr>cu_run_id = i, cu_sequence = n\<rparr>"
proof -
  assume i: "validate_cursor_run_id i = Inr ()" and n: "0 < n" "n \<le> bigint_max"
  then have new: "new_cursor i n = Inr \<lparr>cu_run_id = i, cu_sequence = n\<rparr>" by (simp add: new_cursor_Inr)
  moreover have "n \<le> u64_max" using n by (simp add: bigint_max_def u64_max_def)
  ultimately show ?thesis using parse_show_cursor [OF new] i by (simp add: parse_cursor_for_run_def)
qed

text \<open>
  What a stretch of the stream looks like that starts after number \<open>a\<close> and leads to \<open>b\<close>: every number in between is
  accounted for once, in order, every id resumes at its item, and only the last item can close the stream.
\<close>

definition stretch :: "string \<Rightarrow> nat \<Rightarrow> nat \<Rightarrow> sse_item list \<Rightarrow> bool" where
  "stretch run_id a b its \<longleftrightarrow> a \<le> b \<and> numbers_sent its = [a + 1 ..< b + 1] \<and> list_all (id_resumes run_id) its \<and>
     list_all (\<lambda>x. \<not> closing x) (butlast its)"

lemma upt_join: "a \<le> b \<Longrightarrow> b \<le> c \<Longrightarrow> [Suc a ..< Suc b] @ [Suc b ..< Suc c] = [Suc a ..< Suc c]"
  using upt_add_eq_append [of "Suc a" "Suc b" "c - b"] by simp

lemma stretch_Nil [simp]: "stretch run_id a b [] \<longleftrightarrow> a = b"
  by (auto simp: stretch_def)

lemma stretch_append:
  assumes "stretch run_id a b xs" "list_all (\<lambda>x. \<not> closing x) xs" "stretch run_id b c ys"
  shows "stretch run_id a c (xs @ ys)"
  using assms by (auto simp: stretch_def butlast_append upt_join simp del: upt_Suc)

lemma send_gap_stretch:
  assumes "page_sound run_id after p"
  shows "\<exists>its after'. send_gap run_id after (pg_gap p) = Some (its, after') \<and> stretch run_id after after' its \<and>
    list_all (\<lambda>x. \<not> closing x) its \<and> (pg_gap p = None \<longrightarrow> its = [] \<and> after' = after) \<and>
    (\<forall>g. pg_gap p = Some g \<longrightarrow> after' = gp_last g \<and> after < after')"
proof (cases "pg_gap p")
  case None
  then show ?thesis by (simp add: send_gap_def)
next
  case (Some g)
  then have g: "gp_first g = after + 1" "after < gp_last g" "gp_last g \<le> bigint_max"
    using assms by (auto simp: page_sound_def page_shows_def)
  then have "new_cursor run_id (gp_last g) = Inr \<lparr>cu_run_id = run_id, cu_sequence = gp_last g\<rparr> \<and>
      parse_cursor_for_run (show_cursor \<lparr>cu_run_id = run_id, cu_sequence = gp_last g\<rparr>) run_id = Inr \<lparr>cu_run_id = run_id, cu_sequence = gp_last g\<rparr>"
    using assms by (intro parse_for_run) (auto simp: page_sound_def)
  then show ?thesis using g Some by (auto simp: send_gap_def stretch_def id_resumes_def closing_def run_complete_def)
qed

lemma send_events_stretch:
  assumes "validate_cursor_run_id run_id = Inr ()" "map en_sequence es = [after + 1 ..< after + 1 + length es]"
    "after + length es \<le> bigint_max"
  shows "\<exists>its after' finished. send_events run_id after es = Some (its, after', finished) \<and> stretch run_id after after' its \<and> after' \<le> after + length es \<and>
    (if finished then its \<noteq> [] \<and> sse_event (last its) = run_complete else list_all (\<lambda>x. \<not> closing x) its \<and> after' = after + length es)"
  using assms
proof (induction es arbitrary: after)
  case (Cons e es)
  have e: "en_sequence e = Suc after" "map en_sequence es = [Suc after + 1 ..< Suc after + 1 + length es]"
    using Cons.prems(2) by (simp_all add: upt_conv_Cons del: upt_Suc)
  let ?c = "\<lparr>cu_run_id = run_id, cu_sequence = Suc after\<rparr>" and ?x = "SseEvent (show_cursor \<lparr>cu_run_id = run_id, cu_sequence = Suc after\<rparr>) e"
  have c: "new_cursor run_id (Suc after) = Inr ?c" "parse_cursor_for_run (show_cursor ?c) run_id = Inr ?c"
    using parse_for_run [of run_id "Suc after"] Cons.prems by simp_all
  have one: "stretch run_id after (Suc after) [?x]" using c by (simp add: stretch_def id_resumes_def e(1))
  obtain its after' finished where rest: "send_events run_id (Suc after) es = Some (its, after', finished)"
    "stretch run_id (Suc after) after' its" "after' \<le> Suc after + length es"
    "if finished then its \<noteq> [] \<and> sse_event (last its) = run_complete else list_all (\<lambda>x. \<not> closing x) its \<and> after' = Suc after + length es"
    using Cons.IH [OF Cons.prems(1) e(2)] Cons.prems(3) by auto
  show ?case
  proof (cases "en_event_type e = run_complete")
    case True
    then show ?thesis using one c by (auto simp: e(1) intro: exI [of _ True])
  next
    case False
    then have open_x: "\<not> closing ?x" by (simp add: closing_def)
    then have "stretch run_id after after' ([?x] @ its)" by (intro stretch_append [OF one _ rest(2)]) simp
    then show ?thesis using False c rest open_x by (auto simp: e(1))
  qed
qed (auto intro: exI [of _ False])

text \<open>What a whole page sends: it either ends the stream or leads on without closing it.\<close>

definition page_result :: "string \<Rightarrow> nat option \<Rightarrow> nat \<Rightarrow> sse_item list \<Rightarrow> nat \<Rightarrow> stream_next \<Rightarrow> bool" where
  "page_result run_id acknowledged after its after' nxt \<longleftrightarrow> stretch run_id after after' its \<and>
     (case nxt of
        Wait _ \<Rightarrow> list_all (\<lambda>x. \<not> closing x) its
      | Ended \<Rightarrow> its \<noteq> [] \<and> closing (last its) \<or> (\<exists>n. acknowledged = Some n \<and> list_all (\<lambda>x. \<not> closing x) its))"

lemma after_events_stretch:
  assumes "after_events run_id acknowledged after page = (its, nxt)"
  shows "page_result run_id acknowledged after its after nxt"
  using assms
  by (auto simp: after_events_def page_result_def stretch_def id_resumes_def closing_def Let_def cursor_acknowledges_terminal_def
      split: option.splits if_splits)

lemma page_result_append:
  assumes "stretch run_id a b xs" "list_all (\<lambda>x. \<not> closing x) xs" "page_result run_id acknowledged b ys c nxt"
  shows "page_result run_id acknowledged a (xs @ ys) c nxt"
  using assms stretch_append [OF assms(1,2)] by (auto simp: page_result_def split: stream_next.splits)

lemma stream_page_result:
  assumes page: "page_sound run_id (ss_after st) p"
  shows "\<exists>its st' nxt. stream_page run_id acknowledged st p = Some (its, st', nxt) \<and> ss_failures st' = ss_failures st \<and>
    page_result run_id acknowledged (ss_after st) its (ss_after st') nxt \<and> ss_after st' \<le> bd_latest (pg_bounds p) \<and>
    (nxt \<noteq> Ended \<longrightarrow> ss_after st' = ss_after st \<longrightarrow> ss_after st = bd_latest (pg_bounds p)) \<and>
    (pg_terminal p \<noteq> None \<longrightarrow> nxt \<noteq> Ended \<longrightarrow> ss_after st < ss_after st')"
proof -
  obtain g a1 where gap: "send_gap run_id (ss_after st) (pg_gap p) = Some (g, a1)" "stretch run_id (ss_after st) a1 g" "list_all (\<lambda>x. \<not> closing x) g"
    "pg_gap p = None \<longrightarrow> g = [] \<and> a1 = ss_after st" "\<forall>h. pg_gap p = Some h \<longrightarrow> a1 = gp_last h \<and> ss_after st < a1"
    using send_gap_stretch [OF page] by (elim exE conjE) (rule that)
  have ev: "map en_sequence (pg_events p) = [a1 + 1 ..< a1 + 1 + length (pg_events p)] \<and> a1 + length (pg_events p) \<le> bd_latest (pg_bounds p)"
  proof (cases "pg_gap p")
    case None
    then show ?thesis using page gap(4) by (simp add: page_sound_def page_shows_def)
  next
    case (Some h)
    then have "a1 = gp_last h" using gap(5) by blast
    then show ?thesis using page Some by (simp add: page_sound_def page_shows_def)
  qed
  have big: "bd_latest (pg_bounds p) \<le> bigint_max" "validate_cursor_run_id run_id = Inr ()" using page by (simp_all add: page_sound_def)
  obtain its a2 fin where events: "send_events run_id a1 (pg_events p) = Some (its, a2, fin)" "stretch run_id a1 a2 its" "a2 \<le> a1 + length (pg_events p)"
    "if fin then its \<noteq> [] \<and> sse_event (last its) = run_complete else list_all (\<lambda>x. \<not> closing x) its \<and> a2 = a1 + length (pg_events p)"
    using send_events_stretch [OF big(2) conjunct1 [OF ev] le_trans [OF conjunct2 [OF ev] big(1)]] by (elim exE conjE) (rule that)
  have both: "stretch run_id (ss_after st) a2 (g @ its)" using gap(2,3) events(2) by (rule stretch_append)
  show ?thesis
  proof (cases fin)
    case True
    then have "page_result run_id acknowledged (ss_after st) (g @ its) a2 Ended"
      using both events(4) by (simp add: page_result_def closing_def)
    moreover have "a2 \<le> bd_latest (pg_bounds p)" using events(3) ev by linarith
    ultimately show ?thesis using True gap(1) events(1) by (simp add: stream_page_def)
  next
    case False
    obtain cl nxt where cl: "after_events run_id acknowledged a2 p = (cl, nxt)" by force
    have open_items: "list_all (\<lambda>x. \<not> closing x) (g @ its)" and a2: "a2 = a1 + length (pg_events p)" using gap(3) events(4) False by auto
    have res: "page_result run_id acknowledged (ss_after st) ((g @ its) @ cl) a2 nxt"
      by (rule page_result_append [OF both open_items after_events_stretch [OF cl]])
    have stuck: "ss_after st = bd_latest (pg_bounds p)" if "a2 = ss_after st"
      using that page gap(4,5) a2 both by (cases "pg_gap p") (auto simp: page_sound_def page_shows_def)
    have terminal: "nxt = Ended" if "pg_terminal p \<noteq> None" "a2 = ss_after st"
      using that stuck cl page by (auto simp: after_events_def Let_def page_sound_def split: option.splits if_splits)
    have "ss_after st \<le> a2" using both by (simp add: stretch_def)
    then have "pg_terminal p \<noteq> None \<longrightarrow> nxt \<noteq> Ended \<longrightarrow> ss_after st < a2" using terminal by (metis le_neq_implies_less)
    moreover have "stream_page run_id acknowledged st p = Some (g @ its @ cl, st\<lparr>ss_after := a2\<rparr>, nxt)"
      using False gap(1) events(1) cl by (simp add: stream_page_def)
    moreover have "a2 \<le> bd_latest (pg_bounds p)" using ev a2 by simp
    ultimately show ?thesis using res stuck by simp
  qed
qed

end
