(* ===== verification/Journal_Stream_Correct.thy ===== *)
theory Journal_Stream_Correct
  imports Journal_Stream
begin

text \<open>
  What a client of the run-event stream can rely on, over any source that answers with sound
  pages, and the journal as such a source.
\<close>

section \<open>Streams over a source of sound pages\<close>

locale journal_source =
  fixes source :: "nat \<Rightarrow> nat \<Rightarrow> read_outcome" and run_id :: string
  assumes page_ok: "source k after = PageRead p \<Longrightarrow> page_sound run_id after p"
begin

lemma step_result:
  assumes "stream_step run_id acknowledged st (source k (ss_after st)) = Some (its, st', nxt)"
  shows "page_result run_id acknowledged (ss_after st) its (ss_after st') nxt"
proof (cases "source k (ss_after st)")
  case (PageRead p)
  then show ?thesis using assms stream_page_result [of run_id "st\<lparr>ss_failures := 0\<rparr>" p acknowledged] page_ok [OF PageRead]
    by (auto simp: stream_step_def)
qed (use assms in \<open>auto simp: stream_step_def stream_failure_def page_result_def stretch_def id_resumes_def closing_def Let_def split: if_splits\<close>)

lemma step_panics: "stream_step run_id acknowledged st (source k (ss_after st)) = None \<Longrightarrow> source k (ss_after st) = ReadPanicked"
proof (cases "source k (ss_after st)")
  case (PageRead p)
  assume "stream_step run_id acknowledged st (source k (ss_after st)) = None"
  then show ?thesis using stream_page_result [of run_id "st\<lparr>ss_failures := 0\<rparr>" p acknowledged] page_ok [OF PageRead]
    by (auto simp: stream_step_def PageRead)
qed (auto simp: stream_step_def)

lemma loop_result:
  "stream_loop source run_id acknowledged k n st = Some (its, st', ended) \<Longrightarrow>
   page_result run_id acknowledged (ss_after st) its (ss_after st') (if ended then Ended else Wait 0)"
proof (induction n arbitrary: k st its)
  case 0
  then show ?case by (auto simp: page_result_def)
next
  case (Suc n)
  obtain xs s1 nxt where step: "stream_step run_id acknowledged st (source k (ss_after st)) = Some (xs, s1, nxt)"
    using Suc.prems by (auto split: option.splits)
  note res = step_result [OF step]
  show ?case
  proof (cases nxt)
    case Ended
    then show ?thesis using Suc.prems step res by auto
  next
    case (Wait w)
    then obtain ys where ys: "stream_loop source run_id acknowledged (Suc k) n s1 = Some (ys, st', ended)" "its = xs @ ys"
      using Suc.prems step by (auto split: option.splits)
    have "stretch run_id (ss_after st) (ss_after s1) xs" "list_all (\<lambda>x. \<not> closing x) xs" using res Wait by (simp_all add: page_result_def)
    then show ?thesis unfolding ys(2) using Suc.IH [OF ys(1)] by (rule page_result_append)
  qed
qed

lemma loop_panics: "stream_loop source run_id acknowledged k n st = None \<Longrightarrow> \<exists>j a. source j a = ReadPanicked"
proof (induction n arbitrary: k st)
  case (Suc n)
  then show ?case
    by (cases "stream_step run_id acknowledged st (source k (ss_after st))")
      (use step_panics in \<open>blast, auto split: option.splits stream_next.splits\<close>)
qed simp

text \<open>Once the run record is terminal, each page that does not end the stream moves it on, so it ends.\<close>

lemma loop_ends:
  assumes finished: "\<forall>j \<ge> k. \<forall>a \<le> latest. \<exists>p. source j a = PageRead p \<and> pg_terminal p \<noteq> None \<and> bd_latest (pg_bounds p) = latest"
    and "ss_after st \<le> latest" "latest - ss_after st < n"
  shows "\<exists>its st'. stream_loop source run_id acknowledged k n st = Some (its, st', True)"
  using assms
proof (induction n arbitrary: k st)
  case (Suc n)
  obtain p where p: "source k (ss_after st) = PageRead p" "pg_terminal p \<noteq> None" "bd_latest (pg_bounds p) = latest"
    using Suc.prems(1,2) by blast
  obtain xs s1 nxt where step: "stream_step run_id acknowledged st (source k (ss_after st)) = Some (xs, s1, nxt)"
    and s1: "ss_after s1 \<le> latest" "nxt \<noteq> Ended \<longrightarrow> ss_after st < ss_after s1"
    using stream_page_result [of run_id "st\<lparr>ss_failures := 0\<rparr>" p acknowledged] page_ok [OF p(1)] p by (auto simp: stream_step_def)
  show ?case
  proof (cases nxt)
    case (Wait w)
    have "\<exists>ys st'. stream_loop source run_id acknowledged (Suc k) n s1 = Some (ys, st', True)"
      by (rule Suc.IH) (use Suc.prems s1 Wait in auto)
    then show ?thesis using step Wait by auto
  qed (use step in auto)
qed simp

lemma opened:
  assumes "open_stream source run_id header = Some (Inr (after, acknowledged, p))"
  shows "page_sound run_id after p \<and>
    (case header of None \<Rightarrow> after = 0 \<and> acknowledged = None
     | Some raw \<Rightarrow> acknowledged = Some after \<and> (\<exists>text c. raw = Some text \<and> parse_cursor_for_run text run_id = Inr c \<and> cu_sequence c = after))"
  using assms
  by (auto simp: open_stream_def parse_last_event_id_def read_journal_page_def split: option.splits sum.splits read_outcome.splits
      dest: page_ok)

lemma flow_result:
  assumes "flow_events source run_id header n = Some (Inr (its, st, ended))"
  shows "\<exists>after acknowledged. page_result run_id acknowledged after its (ss_after st) (if ended then Ended else Wait 0) \<and>
    (case header of None \<Rightarrow> after = 0 \<and> acknowledged = None
     | Some raw \<Rightarrow> acknowledged = Some after \<and> (\<exists>text c. raw = Some text \<and> parse_cursor_for_run text run_id = Inr c \<and> cu_sequence c = after))"
proof -
  obtain after acknowledged p where opn: "open_stream source run_id header = Some (Inr (after, acknowledged, p))"
    using assms by (auto simp: flow_events_def split: option.splits sum.splits)
  note o1 = opened [OF opn]
  obtain xs s1 nxt where first: "stream_page run_id acknowledged \<lparr>ss_after = after, ss_failures = 0\<rparr> p = Some (xs, s1, nxt)"
    "page_result run_id acknowledged after xs (ss_after s1) nxt"
    using stream_page_result [of run_id "\<lparr>ss_after = after, ss_failures = 0\<rparr>" p acknowledged] o1 by auto
  have "page_result run_id acknowledged after its (ss_after st) (if ended then Ended else Wait 0)"
  proof (cases nxt)
    case Ended
    then show ?thesis using assms opn first by (auto simp: flow_events_def)
  next
    case (Wait w)
    then obtain ys where ys: "stream_loop source run_id acknowledged 2 n s1 = Some (ys, st, ended)" "its = xs @ ys"
      using assms opn first by (auto simp: flow_events_def split: option.splits)
    have "stretch run_id after (ss_after s1) xs" "list_all (\<lambda>x. \<not> closing x) xs" using first(2) Wait by (simp_all add: page_result_def)
    then show ?thesis unfolding ys(2) using loop_result [OF ys(1)] by (rule page_result_append)
  qed
  then show ?thesis using o1 by blast
qed

lemma flow_panics: "flow_events source run_id header n = None \<Longrightarrow> \<exists>j a. source j a = ReadPanicked"
proof (cases "open_stream source run_id header")
  case None
  then show ?thesis
    by (auto simp: open_stream_def parse_last_event_id_def read_journal_page_def split: option.splits sum.splits read_outcome.splits)
next
  case (Some r)
  assume none: "flow_events source run_id header n = None"
  then obtain after acknowledged p where r: "r = Inr (after, acknowledged, p)"
    using Some by (cases r) (auto simp: flow_events_def)
  obtain xs s1 nxt where "stream_page run_id acknowledged \<lparr>ss_after = after, ss_failures = 0\<rparr> p = Some (xs, s1, nxt)"
    using stream_page_result [of run_id "\<lparr>ss_after = after, ss_failures = 0\<rparr>" p acknowledged] opened Some r by auto
  then have "stream_loop source run_id acknowledged 2 n s1 = None"
    using none Some r by (auto simp: flow_events_def split: option.splits stream_next.splits)
  then show ?thesis by (rule loop_panics)
qed

lemma flow_ends:
  assumes finished: "\<forall>j. \<forall>a \<le> latest. \<exists>p. source j a = PageRead p \<and> pg_terminal p \<noteq> None \<and> bd_latest (pg_bounds p) = latest"
    and "latest < n"
  shows "\<exists>its st. flow_events source run_id None n = Some (Inr (its, st, True))"
proof -
  obtain p where p: "source 0 0 = PageRead p" "pg_terminal p \<noteq> None" "bd_latest (pg_bounds p) = latest" using finished by blast
  have opn: "open_stream source run_id None = Some (Inr (0, None, p))"
    by (simp add: open_stream_def parse_last_event_id_def read_journal_page_def p)
  obtain xs s1 nxt where first: "stream_page run_id None \<lparr>ss_after = 0, ss_failures = 0\<rparr> p = Some (xs, s1, nxt)" "ss_after s1 \<le> latest"
    using stream_page_result [of run_id "\<lparr>ss_after = 0, ss_failures = 0\<rparr>" p None] page_ok [OF p(1)] p(3) by auto
  obtain ys st where rest: "stream_loop source run_id None 2 n s1 = Some (ys, st, True)"
    using loop_ends [of 2 latest s1 n None, OF _ first(2)] finished assms(2) by (meson less_imp_diff_less)
  show ?thesis using opn first rest by (cases nxt) (auto simp: flow_events_def)
qed

end

section \<open>The journal as a source\<close>

lemma page_events_contiguous:
  assumes "validate_page_events ok latest n b es = Inr t" "n + length es \<le> u64_max" "n \<le> latest"
  shows "map en_sequence es = [n + 1 ..< n + 1 + length es] \<and> n + length es \<le> latest"
  using assms
proof (induction es arbitrary: n b)
  case (Cons e es)
  have e: "en_sequence e = Suc n" "Suc n \<le> latest"
    using Cons.prems by (auto simp: rust_result saturating_add_def split: if_splits)
  then obtain b' where "validate_page_events ok latest (Suc n) b' es = Inr t"
    using Cons.prems(1) by (auto simp: rust_result split: if_splits option.splits)
  then show ?case using Cons.IH [of "Suc n" b'] Cons.prems(2) e by (auto simp: upt_conv_Cons simp del: upt_Suc)
qed simp

lemma valid_page_shows:
  assumes v: "validate_page ser rfc c p = Some (Inr ())" and latest: "bd_latest (pg_bounds p) \<le> bigint_max"
  shows "page_sound (pg_run_id p) (pg_after p) p"
proof -
  have body: "validate_page_body ser rfc c p = Inr ()" using v by (auto simp: validate_page_def split: sum.splits)
  then obtain t where b: "validate_config c = Inr ()" "validate_run_id (pg_run_id p) = Inr ()" "pg_after p \<le> bd_latest (pg_bounds p)"
    "length (pg_events p) \<le> jc_page_max_events c"
    "validate_page_events (validate_event_entry ser rfc c) (bd_latest (pg_bounds p)) (pg_after p) 0 (pg_events p) = Inr t"
    "\<forall>g. pg_gap p = Some g \<longrightarrow> gp_first g \<le> gp_last g \<and> pg_events p = [] \<and> gp_first g = saturating_add (pg_after p) 1 \<and>
      gp_last g \<le> bd_latest (pg_bounds p)"
    "\<not> (pg_events p = [] \<and> pg_gap p = None \<and> pg_after p < bd_latest (pg_bounds p))"
    by (auto simp: validate_page_body_def rust_result validate_gap_def split: option.splits)
  have "pg_after p + length (pg_events p) \<le> u64_max"
    using b(3,4) latest validate_config_page [OF b(1)] by (simp add: bigint_max_def u64_max_def)
  then have ev: "map en_sequence (pg_events p) = [pg_after p + 1 ..< pg_after p + 1 + length (pg_events p)] \<and>
      pg_after p + length (pg_events p) \<le> bd_latest (pg_bounds p)" using page_events_contiguous [OF b(5) _ b(3)] by blast
  have "saturating_add (pg_after p) 1 = pg_after p + 1" using saturating_bigint b(3) latest by simp
  then have "page_shows [] (pg_after p) (bd_latest (pg_bounds p)) (pg_events p) (pg_gap p)"
    using ev b(3,6,7) by (auto simp: page_shows_def split: option.splits)
  moreover have "n \<le> bd_latest (pg_bounds p)" if "pg_terminal p = Some t" "ts_event_sequence t = Some n" for t n
    using v that body by (auto simp: validate_page_def rust_result split: option.splits sum.splits)
  ultimately show ?thesis using b latest by (auto simp: page_sound_def validate_cursor_run_id_def)
qed

lemma read_sound:
  assumes run: "read_run_events_journal cx t flow i after j = Some (Inr p)" and ok: "journal_ok j"
  shows "page_sound i after p"
proof -
  note valid = read_validated [OF run]
  obtain why b where b: "case jn_states j i of None \<Rightarrow> b = empty_bounds | Some s \<Rightarrow> logical_bounds t i (jn_events j) s = (b, why)"
    and p: "pg_run_id p = i" "pg_after p = after" "bd_latest (pg_bounds p) = bd_latest b"
    using read_parts [OF run] by blast
  have big: "bd_latest b \<le> bigint_max"
  proof (cases "jn_states j i")
    case (Some s)
    then have "run_ok (rows_of i (jn_events j)) s" "logical_bounds t i (jn_events j) s = (b, why)" using journal_ok_state [OF ok] b by auto
    then show ?thesis using logical_bounds_ok(2) by (simp add: run_ok_def)
  qed (use b in \<open>simp add: empty_bounds_def\<close>)
  then have p: "pg_run_id p = i" "pg_after p = after" "bd_latest (pg_bounds p) \<le> bigint_max" using p by simp_all
  show ?thesis using valid_page_shows [OF valid p(3)] by (simp add: p)
qed

text \<open>
  Reads of one run. Each read happens at some moment: after some history of transactions on the
  tables by stores that share the limits \<open>c\<close>, at some database time and with some faults of the
  database, or it is not answered in time.
\<close>

definition journal_after :: "journal_config \<Rightarrow> journal_call list \<Rightarrow> journal" where
  "journal_after c calls = foldl (\<lambda>j call. if uses_config c call then apply_call j call else j) empty_journal calls"

definition journal_reads :: "journal_config \<Rightarrow> (nat \<Rightarrow> (jx \<times> nat \<times> journal_call list) option) \<Rightarrow> string \<Rightarrow> string \<Rightarrow> nat \<Rightarrow> nat \<Rightarrow> read_outcome" where
  "journal_reads c moment flow run_id k after = (case moment k of
     None \<Rightarrow> ReadTimedOut
   | Some (cx, now, calls) \<Rightarrow> (case read_run_events_journal cx now flow run_id after (journal_after c calls) of
       None \<Rightarrow> ReadPanicked
     | Some (Inl _) \<Rightarrow> StoreFailed
     | Some (Inr p) \<Rightarrow> PageRead p))"

lemma journal_after_ok: "journal_ok (journal_after c calls)"
  using jr.inv_run [OF empty_journal_bounded, of c calls] by (simp add: journal_after_def bounded_journal_def)

interpretation js: journal_source "journal_reads c moment flow run_id" run_id for c moment flow run_id
  by unfold_locales (auto simp: journal_reads_def journal_after_ok intro: read_sound split: option.splits sum.splits)

section \<open>Reconnecting\<close>

lemma upt_prefix: "xs @ ys = [Suc a ..< b] \<Longrightarrow> xs \<noteq> [] \<Longrightarrow> xs = [Suc a ..< Suc (last xs)]"
proof (induction xs arbitrary: a)
  case (Cons x xs)
  have a: "x = Suc a" "xs @ ys = [Suc (Suc a) ..< b]"
    using Cons.prems(1) by (cases "Suc a < b"; simp add: upt_conv_Cons del: upt_Suc)+
  show ?case
  proof (cases xs)
    case (Cons y zs)
    then have xs: "xs = [Suc (Suc a) ..< Suc (last xs)]" by (intro Cons.IH [OF a(2)]) simp
    then have "Suc (Suc a) < Suc (last xs)" using Cons by (metis list.distinct(1) upt_rec)
    then show ?thesis using xs Cons a(1) by (metis Suc_lessD last_ConsR list.distinct(1) upt_conv_Cons)
  qed (simp add: a(1))
qed simp

lemma stretch_prefix:
  assumes "stretch run_id a b (xs @ x # ys)" "sse_id x = Some i"
  shows "\<exists>q. numbers_sent (xs @ [x]) = [a + 1 ..< q + 1] \<and> parse_cursor_for_run i run_id = Inr \<lparr>cu_run_id = run_id, cu_sequence = q\<rparr>"
proof -
  have x: "sse_numbers x \<noteq> []" "parse_cursor_for_run i run_id = Inr \<lparr>cu_run_id = run_id, cu_sequence = last (sse_numbers x)\<rparr>"
    using assms by (auto simp: stretch_def id_resumes_def)
  have "numbers_sent (xs @ [x]) @ numbers_sent ys = [Suc a ..< Suc b]" using assms(1) by (simp add: stretch_def)
  then have "numbers_sent (xs @ [x]) = [Suc a ..< Suc (last (numbers_sent (xs @ [x])))]" by (rule upt_prefix) (use x(1) in simp)
  then show ?thesis using x by auto
qed

text \<open>
  C31. A client that follows the event stream of a run, is disconnected after any event or gap
  notice and reconnects with the id of that item as \<open>Last-Event-ID\<close> has then been told of every
  sequence number from 1 up to where the second stream stands, once and in order, either
  as an event or inside a gap notice. This holds whatever transactions change the journal between and
  during the two streams, whichever reads of the journal fail or time out, and wherever the
  first stream is cut. Nothing follows a \<open>run_complete\<close>.
\<close>

theorem stream_resume_exact:
  assumes first: "flow_events (journal_reads c moment1 flow run_id) run_id None n1 = Some (Inr (seen @ x # lost, st1, ended1))"
    and id: "sse_id x = Some last_id"
    and second: "flow_events (journal_reads c moment2 flow run_id) run_id (Some (Some last_id)) n2 = Some (Inr (its, st2, ended2))"
  shows "numbers_sent (seen @ [x]) @ numbers_sent its = [1 ..< ss_after st2 + 1] \<and>
    (\<forall>y \<in> set seen \<union> set (butlast its). sse_event y \<noteq> run_complete)"
proof -
  have s1: "stretch run_id 0 (ss_after st1) (seen @ x # lost)"
    using js.flow_result [OF first] by (auto simp: page_result_def)
  obtain q where q: "numbers_sent (seen @ [x]) = [1 ..< q + 1]" "parse_cursor_for_run last_id run_id = Inr \<lparr>cu_run_id = run_id, cu_sequence = q\<rparr>"
    using stretch_prefix [OF s1 id] by auto
  have s2: "stretch run_id q (ss_after st2) its" using js.flow_result [OF second] q(2) by (auto simp: page_result_def)
  then have "numbers_sent (seen @ [x]) @ numbers_sent its = [1 ..< ss_after st2 + 1]"
    using upt_join [of 0 q "ss_after st2"] unfolding q(1) by (simp add: stretch_def del: upt_Suc)
  moreover have "\<not> closing y" if "y \<in> set seen \<union> set (butlast its)" for y
    using that s1 s2 by (auto simp: stretch_def list_all_iff butlast_append)
  ultimately show ?thesis by (auto simp: closing_def)
qed

definition demo_entry :: event_entry where
  "demo_entry = \<lparr>en_sequence = 1, en_event_type = ''log'', en_payload = demo_payload, en_payload_bytes = 5, en_created_at = dec 0\<rparr>"

definition demo_page :: "nat \<Rightarrow> event_page" where
  "demo_page after = \<lparr>pg_run_id = ''r'', pg_after = after, pg_events = (if after = 0 then [demo_entry] else []),
     pg_bounds = \<lparr>bd_earliest = Some 1, bd_latest = 1, bd_dropped = 0, bd_events = 1, bd_bytes = 1024, bd_complete = True\<rparr>,
     pg_gap = None, pg_terminal = None\<rparr>"

lemma demo_names: "validate_run_id ''r'' = Inr ()" "validate_human_input_route ''flow'' ''flow'' 255 = Inr ()"
  by (simp_all add: validate_run_id_def validate_human_input_route_def ensure_def is_ascii_alphanumeric_def is_ascii_digit_def
      byte_def is_control_def is_cont_def)

lemma demo_entry_valid: "validate_event_entry (jx_ser demo_jx) (jx_rfc3339 demo_jx) (jx_config demo_jx) demo_entry = Inr ()"
  by (simp add: demo_jx_def demo_entry_def validate_event_entry_def validate_append_entry_def
      validate_sequence_def validate_event_type_def validate_payload_event_type_def demo_payload_def json_get_def as_str_def
      serialized_json_size_def ensure_def demo_limits is_ascii_digit_def byte_def u64_max_def)

lemma demo_page_valid: "after \<le> 1 \<Longrightarrow> validate_page (jx_ser demo_jx) (jx_rfc3339 demo_jx) (jx_config demo_jx) (demo_page after) = Some (Inr ())"
  using demo_entry_valid
  by (auto simp: validate_page_def validate_page_body_def demo_page_def demo_names validate_bounds_def ensure_def validate_sequence_def
      demo_limits demo_config_valid demo_jx_def demo_entry_def saturating_add_def u64_max_def checked_add_def)

lemma demo_env: "jx_config demo_jx = default_journal_config" "jx_fault demo_jx = (\<lambda>_. None)" "jx_commit demo_jx = Committed"
  by (simp_all add: demo_jx_def)

lemma demo_read:
  assumes "after \<le> 1"
  shows "read_run_events_journal demo_jx 0 ''flow'' ''r'' after demo_journal = Some (Inr (demo_page after))"
proof -
  have r: "jn_runs demo_journal ''r'' = Some demo_run" "jr_flow demo_run = ''flow''" "jr_usage demo_run = Some demo_usage"
    "parse_status (jr_status demo_run) = Inr RunRunning" "0 \<le> jr_duration_ms demo_run"
    by (simp_all add: demo_journal_def demo_run_def parse_status_def)
  let ?b = "pg_bounds (demo_page after)"
  have rows: "jn_states demo_journal ''r'' = Some demo_state" "rows_of ''r'' (jn_events demo_journal) = [demo_row]"
    "live_rows 0 ''r'' (jn_events demo_journal) = [demo_row]" "expired_rows 0 ''r'' (jn_events demo_journal) = []"
    by (simp_all add: demo_journal_def rows_of_def live_rows_def expired_rows_def demo_row_def)
  have bounds: "logical_bounds 0 ''r'' (jn_events demo_journal) demo_state = (?b, None) \<and> validate_bounds ?b = Inr ()"
    by (simp add: rows demo_state_def fresh_state_def demo_row_def logical_bounds_def Let_def
        earliest_of_def latest_of_def retention_boundary_def demo_page_def validate_bounds_def ensure_def validate_sequence_def)
  show ?thesis
  proof (rule read_success [OF _ demo_env(2,3) r demo_names, where n = None])
    show "decode_rows demo_jx (page_rows (jx_config demo_jx) 0 ''r'' (max after (bd_dropped ?b)) (jn_events demo_journal)) =
        Inr (if after = 0 then [(demo_row, demo_payload)] else [])"
      using assms by (auto simp: page_rows_def rows demo_page_def demo_row_def decode_stored_json_def demo_jx_def demo_limits)
    show "assemble_page after ?b None (map (\<lambda>(r, v). entry_of demo_jx r v) (if after = 0 then [(demo_row, demo_payload)] else [])) =
        Inr (pg_events (demo_page after), None)"
      using assms by (auto simp: demo_page_def assemble_page_def saturating_add_def u64_max_def entry_of_def demo_row_def demo_entry_def demo_jx_def)
    show "validate_page (jx_ser demo_jx) (jx_rfc3339 demo_jx) (jx_config demo_jx) (demo_page after) = Some (Inr ())"
      using assms by (rule demo_page_valid)
  qed (use assms bounds in \<open>simp_all add: rows demo_env demo_config_valid demo_state_def fresh_state_def demo_page_def terminal_of_def
      run_terminal_def run_in_flight_def bigint_max_def\<close>)
qed

lemma demo_journal_after: "journal_after default_journal_config [PutRun ''r'' demo_run, Append demo_jx demo_batch] = demo_journal"
proof -
  have "apply_call empty_journal (PutRun ''r'' demo_run) = demo_start"
    by (simp add: apply_call_def empty_journal_def demo_start_def)
  moreover have "apply_call demo_start (Append demo_jx demo_batch) = demo_journal" by (simp add: apply_call_def demo_append)
  moreover have "jx_config demo_jx = default_journal_config" by (simp add: demo_jx_def)
  ultimately show ?thesis by (simp add: journal_after_def uses_config_def)
qed

definition demo_moment :: "nat \<Rightarrow> (jx \<times> nat \<times> journal_call list) option" where
  "demo_moment k = Some (demo_jx, 0, [PutRun ''r'' demo_run, Append demo_jx demo_batch])"

lemma demo_reads: "after \<le> 1 \<Longrightarrow> journal_reads default_journal_config demo_moment ''flow'' ''r'' k after = PageRead (demo_page after)"
  by (simp add: journal_reads_def demo_moment_def demo_journal_after demo_read)

theorem stream_resume_exact_witness:
  "let id = show_cursor \<lparr>cu_run_id = ''r'', cu_sequence = 1\<rparr>; reads = journal_reads default_journal_config demo_moment ''flow'' ''r'' in
   flow_events reads ''r'' None 0 = Some (Inr ([] @ SseEvent id demo_entry # [], \<lparr>ss_after = 1, ss_failures = 0\<rparr>, False)) \<and>
   flow_events reads ''r'' (Some (Some id)) 0 = Some (Inr ([], \<lparr>ss_after = 1, ss_failures = 0\<rparr>, False)) \<and>
   numbers_sent ([] @ [SseEvent id demo_entry]) @ numbers_sent [] = [1 ..< 2]"
proof -
  let ?id = "show_cursor \<lparr>cu_run_id = ''r'', cu_sequence = 1\<rparr>" and ?reads = "journal_reads default_journal_config demo_moment ''flow'' ''r''"
  have run: "validate_cursor_run_id ''r'' = Inr ()" by (simp add: validate_cursor_run_id_def demo_names)
  then have c: "new_cursor ''r'' 1 = Inr \<lparr>cu_run_id = ''r'', cu_sequence = 1\<rparr>"
    "parse_cursor_for_run ?id ''r'' = Inr \<lparr>cu_run_id = ''r'', cu_sequence = 1\<rparr>"
    using parse_for_run [of "''r''" 1] by (simp_all add: bigint_max_def)
  have first: "flow_events ?reads ''r'' None 0 = Some (Inr ([] @ SseEvent ?id demo_entry # [], \<lparr>ss_after = 1, ss_failures = 0\<rparr>, False))"
    using c by (simp add: flow_events_def open_stream_def parse_last_event_id_def read_journal_page_def demo_reads stream_page_def send_gap_def
        demo_page_def demo_entry_def run_complete_def after_events_def Let_def)
  have second: "flow_events ?reads ''r'' (Some (Some ?id)) 0 = Some (Inr ([], \<lparr>ss_after = 1, ss_failures = 0\<rparr>, False))"
    using c by (simp add: flow_events_def open_stream_def parse_last_event_id_def read_journal_page_def demo_reads stream_page_def send_gap_def
        demo_page_def check_cursor_def validate_against_def after_events_def Let_def)
  show ?thesis using stream_resume_exact [OF first _ second] first second by (simp add: Let_def numeral_2_eq_2)
qed

section \<open>The stream of a finished run ends\<close>

text \<open>
  C32. Once a run has finished with a latest sequence number and the journal answers every read,
  a client's stream from the beginning ends by itself after at most one more read than there are numbers, and
  the last thing it sends closes the stream for the client.
\<close>

theorem stream_of_finished_run_ends:
  assumes "\<forall>k. \<forall>after \<le> latest. \<exists>p. journal_reads c moment flow run_id k after = PageRead p \<and> pg_terminal p \<noteq> None \<and>
      bd_latest (pg_bounds p) = latest"
  shows "\<exists>its st. flow_events (journal_reads c moment flow run_id) run_id None (latest + 1) = Some (Inr (its, st, True)) \<and>
    its \<noteq> [] \<and> closing (last its)"
proof -
  obtain its st where run: "flow_events (journal_reads c moment flow run_id) run_id None (latest + 1) = Some (Inr (its, st, True))"
    using js.flow_ends [OF assms, of "latest + 1"] by auto
  then show ?thesis using js.flow_result [OF run] by (auto simp: page_result_def)
qed

definition finished_run :: run_row where
  "finished_run = demo_run\<lparr>jr_status := ''success''\<rparr>"

definition finished_page :: event_page where
  "finished_page = \<lparr>pg_run_id = ''r'', pg_after = 0, pg_events = [], pg_bounds = empty_bounds\<lparr>bd_complete := False\<rparr>, pg_gap = None,
     pg_terminal = Some \<lparr>ts_status = Success, ts_duration_ms = 0, ts_usage = demo_usage, ts_event_sequence = None\<rparr>\<rparr>"

lemma demo_usage_valid: "validate_snapshot demo_usage = Some (Inr ())"
  by (simp add: validate_snapshot_def demo_usage_def new_snapshot_def validate_budget_def default_budget_def
      validate_aggregate_def default_aggregate_def checked_add_def u64_max_def ensure_def)

lemma finished_page_valid: "validate_page (jx_ser demo_jx) (jx_rfc3339 demo_jx) (jx_config demo_jx) finished_page = Some (Inr ())"
  by (simp add: validate_page_def validate_page_body_def finished_page_def empty_bounds_def demo_names validate_bounds_def ensure_def
      demo_config_valid demo_jx_def validate_terminal_state_def demo_usage_valid run_terminal_def run_in_flight_def)

lemma finished_reads:
  "journal_reads default_journal_config (\<lambda>_. Some (demo_jx, 0, [PutRun ''r'' finished_run])) ''flow'' ''r'' k 0 = PageRead finished_page"
proof -
  let ?j = "empty_journal\<lparr>jn_runs := [''r'' \<mapsto> finished_run]\<rparr>"
  have j: "journal_after default_journal_config [PutRun ''r'' finished_run] = ?j"
    by (simp add: journal_after_def uses_config_def apply_call_def empty_journal_def)
  have r: "jn_runs ?j ''r'' = Some finished_run" "jr_flow finished_run = ''flow''" "jr_usage finished_run = Some demo_usage"
    "parse_status (jr_status finished_run) = Inr Success" "0 \<le> jr_duration_ms finished_run"
    by (simp_all add: finished_run_def demo_run_def parse_status_def)
  have "read_run_events_journal demo_jx 0 ''flow'' ''r'' 0 ?j = Some (Inr finished_page)"
    by (rule read_success [OF _ demo_env(2,3) r demo_names, where b = empty_bounds and why = None and d = "[]" and es = "[]" and gap = None and n = None])
      (rule finished_page_valid | simp add: demo_env demo_config_valid empty_journal_def empty_bounds_def bigint_max_def page_rows_def live_rows_def rows_of_def
        assemble_page_def finished_page_def terminal_of_def run_terminal_def run_in_flight_def finished_run_def demo_run_def)+
  then show ?thesis by (simp add: journal_reads_def j)
qed

theorem stream_of_finished_run_ends_witness:
  "\<exists>its st. flow_events (journal_reads default_journal_config (\<lambda>_. Some (demo_jx, 0, [PutRun ''r'' finished_run])) ''flow'' ''r'') ''r'' None 1 =
     Some (Inr (its, st, True)) \<and> its \<noteq> []"
proof -
  have "bd_latest (pg_bounds finished_page) = 0" "pg_terminal finished_page \<noteq> None" by (simp_all add: finished_page_def empty_bounds_def)
  then show ?thesis
    using stream_of_finished_run_ends [of 0 default_journal_config "\<lambda>_. Some (demo_jx, 0, [PutRun ''r'' finished_run])" "''flow''" "''r''"]
      finished_reads by auto
qed

lemma send_events_all:
  assumes "validate_cursor_run_id run_id = Inr ()" "map en_sequence es = [after + 1 ..< after + 1 + length es]" "after + length es \<le> bigint_max"
    "\<forall>e \<in> set es. en_event_type e \<noteq> run_complete"
  shows "\<exists>its. send_events run_id after es = Some (its, after + length es, False) \<and> numbers_sent its = map en_sequence es"
  using assms
proof (induction es arbitrary: after)
  case (Cons e es)
  have e: "en_sequence e = Suc after" "map en_sequence es = [Suc after + 1 ..< Suc after + 1 + length es]"
    using Cons.prems(2) by (simp_all add: upt_conv_Cons del: upt_Suc)
  then obtain its where "send_events run_id (Suc after) es = Some (its, Suc after + length es, False)" "numbers_sent its = map en_sequence es"
    using Cons.IH [of "Suc after"] Cons.prems by auto
  then show ?case using Cons.prems by (simp add: new_cursor_def e(1))
qed simp

text \<open>
  C33. A finished run whose journal has no terminal sequence (as every abandoned run) ends the
  stream with the first page that is read: the events of that page are sent and the end is
  announced, whether or not later events are retained. A page is bounded, so a client may never
  be told of the numbers between the page and the latest one, neither as events nor as a gap.
\<close>

theorem unnumbered_end_cuts_stream:
  assumes page: "page_sound run_id (ss_after st) p" and "pg_gap p = None" "pg_terminal p = Some t" "ts_event_sequence t = None"
    and "\<forall>e \<in> set (pg_events p). en_event_type e \<noteq> run_complete"
  shows "\<exists>its st'. stream_page run_id acknowledged st p = Some (its @ [SseSynthetic run_id t], st', Ended) \<and>
    numbers_sent its = map en_sequence (pg_events p) \<and> ss_after st' = ss_after st + length (pg_events p)"
proof -
  obtain its where "send_events run_id (ss_after st) (pg_events p) = Some (its, ss_after st + length (pg_events p), False)"
    "numbers_sent its = map en_sequence (pg_events p)"
    using send_events_all [of run_id "pg_events p" "ss_after st"] assms by (auto simp: page_sound_def page_shows_def)
  then show ?thesis using assms by (simp add: stream_page_def send_gap_def after_events_def Let_def)
qed

theorem unnumbered_end_cuts_stream_witness:
  "let t = \<lparr>ts_status = Abandoned, ts_duration_ms = 0, ts_usage = demo_usage, ts_event_sequence = None\<rparr>;
       p = finished_page\<lparr>pg_events := [demo_entry], pg_bounds := empty_bounds\<lparr>bd_latest := 2\<rparr>, pg_terminal := Some t\<rparr>
   in bd_latest (pg_bounds p) = 2 \<and>
     (\<exists>its st'. stream_page ''r'' None \<lparr>ss_after = 0, ss_failures = 0\<rparr> p = Some (its @ [SseSynthetic ''r'' t], st', Ended) \<and>
       numbers_sent its = [1] \<and> ss_after st' = 1)"
proof -
  let ?t = "\<lparr>ts_status = Abandoned, ts_duration_ms = 0, ts_usage = demo_usage, ts_event_sequence = None\<rparr>"
  let ?p = "finished_page\<lparr>pg_events := [demo_entry], pg_bounds := empty_bounds\<lparr>bd_latest := 2\<rparr>, pg_terminal := Some ?t\<rparr>"
  have "page_sound ''r'' (ss_after \<lparr>ss_after = 0, ss_failures = 0\<rparr>) ?p"
    by (simp add: page_sound_def page_shows_def finished_page_def bigint_max_def demo_entry_def validate_cursor_run_id_def demo_names)
  then show ?thesis using unnumbered_end_cuts_stream [of "''r''" "\<lparr>ss_after = 0, ss_failures = 0\<rparr>" ?p ?t None]
    by (simp add: finished_page_def demo_entry_def run_complete_def)
qed

end
