(* ===== verification/Event_Bus.thy ===== *)
theory Event_Bus
  imports Run_Events Task_Graph
begin

text \<open>
  The event bus of a run (\<open>src/src/engine/eventbus.rs\<close>, \<open>eventbus/config.rs\<close>): events and their wire form,
  bounding of oversized events, the replay buffer, the ring of the live channel, and the durable producer with the writer
  task that carries events to the journal in batches.

  Publishing runs under the replay lock and is one step. The producer, callers of
  \<open>flush_durable\<close> and \<open>emit_terminal\<close> that wait, and the writer task interleave: they are the rules of a step
  relation. \<open>serde_json\<close> is a parameter: the bytes written for an event, for a value, and the JSON of floats
  and usage snapshots. A Tokio semaphore is its number of free permits, a channel the
  list of queued commands with a capacity; metrics and log lines are left out.
\<close>

section \<open>Events\<close>

datatype crew_event =
    CrewStarted string nat nat string
  | PhaseStart nat "string list"
  | TaskAssigned string string nat
  | TaskCompleted string string nat bool string usage_snapshot
  | TaskFailed string string string nat usage_snapshot
  | TaskSkipped string string
  | TaskThinking string string string
  | TaskRetry string nat nat f64 string
  | ToolCallEvent string string
  | ToolResult string string bool nat
  | AgentToolStarted string string string
  | AgentToolCompleted string string nat bool
  | MessageSent string string string
  | CollaborationTurn string string nat string
  | ConversationStarted string string
  | ConversationTurn string string nat string string
  | ConversationThinking string string nat string
  | DialogStarted string "string list" nat
  | DialogTurn string nat string string string
  | DialogThinking string nat string string string
  | DialogCompleted string nat "string option"
  | MemorySet string
  | HumanInputRequested string string "string list" nat string
  | HumanInputReceived string string
  | LogEvent string string
  | RunComplete string string nat usage_snapshot

fun event_type :: "crew_event \<Rightarrow> string" where
  "event_type (CrewStarted _ _ _ _) = ''crew_started''"
| "event_type (PhaseStart _ _) = ''phase_start''"
| "event_type (TaskAssigned _ _ _) = ''task_assigned''"
| "event_type (TaskCompleted _ _ _ _ _ _) = ''task_completed''"
| "event_type (TaskFailed _ _ _ _ _) = ''task_failed''"
| "event_type (TaskSkipped _ _) = ''task_skipped''"
| "event_type (TaskThinking _ _ _) = ''task_thinking''"
| "event_type (TaskRetry _ _ _ _ _) = ''task_retry''"
| "event_type (ToolCallEvent _ _) = ''tool_call''"
| "event_type (ToolResult _ _ _ _) = ''tool_result''"
| "event_type (AgentToolStarted _ _ _) = ''agent_tool_started''"
| "event_type (AgentToolCompleted _ _ _ _) = ''agent_tool_completed''"
| "event_type (MessageSent _ _ _) = ''message_sent''"
| "event_type (CollaborationTurn _ _ _ _) = ''collaboration_turn''"
| "event_type (ConversationStarted _ _) = ''conversation_started''"
| "event_type (ConversationTurn _ _ _ _ _) = ''conversation_turn''"
| "event_type (ConversationThinking _ _ _ _) = ''conversation_thinking''"
| "event_type (DialogStarted _ _ _) = ''dialog_started''"
| "event_type (DialogTurn _ _ _ _ _) = ''dialog_turn''"
| "event_type (DialogThinking _ _ _ _ _) = ''dialog_thinking''"
| "event_type (DialogCompleted _ _ _) = ''dialog_completed''"
| "event_type (MemorySet _) = ''memory_set''"
| "event_type (HumanInputRequested _ _ _ _ _) = ''human_input_requested''"
| "event_type (HumanInputReceived _ _) = ''human_input_received''"
| "event_type (LogEvent _ _) = ''log''"
| "event_type (RunComplete _ _ _ _) = ''run_complete''"

record event_lib =
  el_size :: "crew_event \<Rightarrow> nat option"
  el_f64 :: "f64 \<Rightarrow> json"
  el_usage :: "usage_snapshot \<Rightarrow> json"
  el_ser :: json_writer

definition strings :: "string list \<Rightarrow> json" where
  "strings xs = JArray (map JString xs)"

text \<open>The content of an event as the derived serializer writes it.\<close>

fun event_data :: "event_lib \<Rightarrow> crew_event \<Rightarrow> (string \<times> json) list" where
  "event_data lib (CrewStarted goal agents tasks model) =
     [(''goal'', JString goal), (''agent_count'', JUint agents), (''task_count'', JUint tasks), (''model'', JString model)]"
| "event_data lib (PhaseStart phase tasks) = [(''phase'', JUint phase), (''tasks'', strings tasks)]"
| "event_data lib (TaskAssigned t agent phase) = [(''task'', JString t), (''agent'', JString agent), (''phase'', JUint phase)]"
| "event_data lib (TaskCompleted t agent ms success output u) =
     [(''task'', JString t), (''agent'', JString agent), (''duration_ms'', JUint ms), (''success'', JBool success),
      (''output'', JString output), (''usage'', el_usage lib u)]"
| "event_data lib (TaskFailed t agent err ms u) =
     [(''task'', JString t), (''agent'', JString agent), (''error'', JString err), (''duration_ms'', JUint ms), (''usage'', el_usage lib u)]"
| "event_data lib (TaskSkipped t reason) = [(''task'', JString t), (''reason'', JString reason)]"
| "event_data lib (TaskThinking t agent body) = [(''task'', JString t), (''agent'', JString agent), (''content'', JString body)]"
| "event_data lib (TaskRetry t k retries backoff err) =
     [(''task'', JString t), (''attempt'', JUint k), (''max_retries'', JUint retries), (''backoff_secs'', el_f64 lib backoff),
      (''error'', JString err)]"
| "event_data lib (ToolCallEvent t tool) = [(''task'', JString t), (''tool'', JString tool)]"
| "event_data lib (ToolResult t tool success ms) =
     [(''task'', JString t), (''tool'', JString tool), (''success'', JBool success), (''duration_ms'', JUint ms)]"
| "event_data lib (AgentToolStarted caller callee prompt) =
     [(''caller'', JString caller), (''callee'', JString callee), (''prompt'', JString prompt)]"
| "event_data lib (AgentToolCompleted caller callee ms success) =
     [(''caller'', JString caller), (''callee'', JString callee), (''duration_ms'', JUint ms), (''success'', JBool success)]"
| "event_data lib (MessageSent sender receiver kind) =
     [(''from'', JString sender), (''to'', JString receiver), (''message_type'', JString kind)]"
| "event_data lib (CollaborationTurn t agent turn body) =
     [(''task'', JString t), (''agent'', JString agent), (''turn'', JUint turn), (''content'', JString body)]"
| "event_data lib (ConversationStarted i agent) = [(''conversation_id'', JString i), (''agent'', JString agent)]"
| "event_data lib (ConversationTurn i agent turn user assistant) =
     [(''conversation_id'', JString i), (''agent'', JString agent), (''turn_index'', JUint turn), (''user_message'', JString user),
      (''assistant_message'', JString assistant)]"
| "event_data lib (ConversationThinking i agent turn body) =
     [(''conversation_id'', JString i), (''agent'', JString agent), (''turn_index'', JUint turn), (''content'', JString body)]"
| "event_data lib (DialogStarted i agents k) = [(''dialog_id'', JString i), (''agents'', strings agents), (''max_turns'', JUint k)]"
| "event_data lib (DialogTurn i turn speaker agent body) =
     [(''dialog_id'', JString i), (''turn_index'', JUint turn), (''speaker'', JString speaker), (''agent'', JString agent),
      (''content'', JString body)]"
| "event_data lib (DialogThinking i turn speaker agent body) =
     [(''dialog_id'', JString i), (''turn_index'', JUint turn), (''speaker'', JString speaker), (''agent'', JString agent),
      (''content'', JString body)]"
| "event_data lib (DialogCompleted i k reason) =
     [(''dialog_id'', JString i), (''total_turns'', JUint k)] @ (case reason of None \<Rightarrow> [] | Some r \<Rightarrow> [(''stop_reason'', JString r)])"
| "event_data lib (MemorySet key) = [(''key'', JString key)]"
| "event_data lib (HumanInputRequested i prompt choices secs kind) =
     [(''question_id'', JString i), (''prompt'', JString prompt), (''choices'', strings choices), (''timeout_s'', JUint secs),
      (''kind'', JString kind)]"
| "event_data lib (HumanInputReceived i outcome) = [(''question_id'', JString i), (''outcome'', JString outcome)]"
| "event_data lib (LogEvent level message) = [(''level'', JString level), (''message'', JString message)]"
| "event_data lib (RunComplete i status ms u) =
     [(''run_id'', JString i), (''status'', JString status), (''duration_ms'', JUint ms), (''usage'', el_usage lib u)]"

definition event_json :: "event_lib \<Rightarrow> crew_event \<Rightarrow> json" where
  "event_json lib e = JObject [(''event'', JString (event_type e)), (''data'', JObject (event_data lib e))]"

section \<open>Bounding an event\<close>

definition estimate_event_size :: "event_lib \<Rightarrow> crew_event \<Rightarrow> nat" where
  "estimate_event_size lib e = (case el_size lib e of Some n \<Rightarrow> min n u64_max | None \<Rightarrow> 256)"

definition truncation_marker :: string where
  "truncation_marker = ''... [truncated]''"

definition truncate_event_field :: "nat \<Rightarrow> string \<Rightarrow> string" where
  "truncate_event_field max_bytes value =
    (if length value \<le> max_bytes then value
     else (let marker_bytes = min (length truncation_marker) max_bytes;
               boundary = char_floor value (max_bytes - marker_bytes)
           in take boundary value @ take marker_bytes truncation_marker))"

fun truncate_fields :: "nat \<Rightarrow> crew_event \<Rightarrow> crew_event" where
  "truncate_fields n (CrewStarted goal agents tasks model) = CrewStarted (truncate_event_field n goal) agents tasks model"
| "truncate_fields n (TaskCompleted t agent ms success output u) = TaskCompleted t agent ms success (truncate_event_field n output) u"
| "truncate_fields n (TaskFailed t agent err ms u) = TaskFailed t agent (truncate_event_field n err) ms u"
| "truncate_fields n (TaskRetry t k retries backoff err) = TaskRetry t k retries backoff (truncate_event_field n err)"
| "truncate_fields n (TaskThinking t agent body) = TaskThinking t agent (truncate_event_field n body)"
| "truncate_fields n (CollaborationTurn t agent turn body) = CollaborationTurn t agent turn (truncate_event_field n body)"
| "truncate_fields n (ConversationThinking i agent turn body) = ConversationThinking i agent turn (truncate_event_field n body)"
| "truncate_fields n (DialogTurn i turn speaker agent body) = DialogTurn i turn speaker agent (truncate_event_field n body)"
| "truncate_fields n (DialogThinking i turn speaker agent body) = DialogThinking i turn speaker agent (truncate_event_field n body)"
| "truncate_fields n (LogEvent level message) = LogEvent level (truncate_event_field n message)"
| "truncate_fields n (TaskSkipped t reason) = TaskSkipped t (truncate_event_field n reason)"
| "truncate_fields n (AgentToolStarted caller callee prompt) = AgentToolStarted caller callee (truncate_event_field n prompt)"
| "truncate_fields n (ConversationTurn i agent turn user assistant) =
     ConversationTurn i agent turn (truncate_event_field n user) (truncate_event_field n assistant)"
| "truncate_fields n (DialogCompleted i k reason) = DialogCompleted i k (map_option (truncate_event_field n) reason)"
| "truncate_fields n (HumanInputRequested i prompt choices secs kind) =
     HumanInputRequested i (truncate_event_field n prompt)
       (map (truncate_event_field (n div max (length choices) 1)) choices) secs kind"
| "truncate_fields n e = e"

definition omitted_event :: "nat \<Rightarrow> crew_event" where
  "omitted_event max_bytes =
     LogEvent ''warn'' (''Event omitted because it exceeded IRONCREW_EVENT_MAX_BYTES ('' @ dec max_bytes @ '')'')"

definition bound_event :: "event_lib \<Rightarrow> nat \<Rightarrow> crew_event \<Rightarrow> crew_event" where
  "bound_event lib max_bytes e =
    (if estimate_event_size lib e \<le> max_bytes then e
     else (let e' = truncate_fields (max (max_bytes div 3) 1) e
           in if max_bytes < estimate_event_size lib e' then omitted_event max_bytes else e'))"

section \<open>The replay buffer\<close>

text \<open>
  The live channel is Tokio's broadcast ring. \<open>eb_ring\<close> holds the latest events sent, at most
  \<open>eb_slots\<close> of them; \<open>eb_tail\<close> counts the events sent, and a receiver is the number of the event it
  reads next. An event sent while there is no receiver is not kept by Tokio; as a receiver
  starts at the tail, no receiver can tell.
\<close>

type_synonym replay_entry = "crew_event \<times> nat"

record event_bus =
  eb_history :: "replay_entry list"
  eb_bytes :: nat
  eb_slots :: nat
  eb_ring :: "crew_event list"
  eb_tail :: nat
  eb_max_replay :: nat
  eb_max_replay_bytes :: nat
  eb_max_event_bytes :: nat

text \<open>\<open>bounded_env\<close> of the event bus: too small or unreadable values give the default, large ones the maximum.\<close>

definition bus_env :: "env \<Rightarrow> string \<Rightarrow> nat \<Rightarrow> nat \<Rightarrow> nat \<Rightarrow> nat" where
  "bus_env env name dflt lo hi = (case Option.bind (env_ok env name) (parse_uint u64_max) of
     Some v \<Rightarrow> if lo \<le> v then min v hi else dflt
   | None \<Rightarrow> dflt)"

definition env_replay_bytes :: "env \<Rightarrow> nat" where
  "env_replay_bytes env = bus_env env ''IRONCREW_EVENT_REPLAY_MAX_BYTES'' (4 * 1024 * 1024) 1024 (64 * 1024 * 1024)"

definition env_event_bytes :: "env \<Rightarrow> nat" where
  "env_event_bytes env = bus_env env ''IRONCREW_EVENT_MAX_BYTES'' (256 * 1024) 1024 (16 * 1024 * 1024)"

definition channel_capacity :: "env \<Rightarrow> nat \<Rightarrow> nat" where
  "channel_capacity env capacity =
    (let configured_capacity = bus_env env ''IRONCREW_EVENT_CHANNEL_CAPACITY'' 32 1 256;
         byte_budget_capacity = max (env_replay_bytes env div env_event_bytes env) 1
     in min (min (max capacity 1) configured_capacity) byte_budget_capacity)"

text \<open>
  \<open>EventBus::new\<close>. Tokio may give the channel more slots than it was asked for: \<open>ring\<close> is its choice.
\<close>

definition new_bus :: "(nat \<Rightarrow> nat) \<Rightarrow> env \<Rightarrow> nat \<Rightarrow> event_bus" where
  "new_bus ring env capacity = \<lparr>eb_history = [], eb_bytes = 0,
     eb_slots = ring (channel_capacity env capacity), eb_ring = [], eb_tail = 0,
     eb_max_replay = bus_env env ''IRONCREW_MAX_EVENTS'' 1000 1 10000,
     eb_max_replay_bytes = env_replay_bytes env, eb_max_event_bytes = env_event_bytes env\<rparr>"

text \<open>Sending to the channel overwrites the oldest slot of a full ring.\<close>

definition channel_send :: "crew_event \<Rightarrow> event_bus \<Rightarrow> event_bus" where
  "channel_send e b = (let r = eb_ring b @ [e] in b\<lparr>eb_ring := drop (length r - eb_slots b) r, eb_tail := eb_tail b + 1\<rparr>)"

text \<open>The eviction loop; \<open>None\<close> is a loop that finds nothing to pop and never ends.\<close>

fun evict_replay :: "nat \<Rightarrow> nat \<Rightarrow> nat \<Rightarrow> replay_entry list \<Rightarrow> nat \<Rightarrow> (replay_entry list \<times> nat) option" where
  "evict_replay max_replay max_bytes sz [] bytes =
    (if max_replay \<le> 0 \<or> max_bytes < saturating_add bytes sz then None else Some ([], bytes))"
| "evict_replay max_replay max_bytes sz (x # xs) bytes =
    (if max_replay \<le> length (x # xs) \<or> max_bytes < saturating_add bytes sz
     then evict_replay max_replay max_bytes sz xs (saturating_sub bytes (snd x)) else Some (x # xs, bytes))"

definition publish :: "nat \<Rightarrow> crew_event \<Rightarrow> event_bus \<Rightarrow> event_bus option" where
  "publish sz e b =
    (if sz \<le> eb_max_replay_bytes b
     then (case evict_replay (eb_max_replay b) (eb_max_replay_bytes b) sz (eb_history b) (eb_bytes b) of
         None \<Rightarrow> None
       | Some (h, bytes) \<Rightarrow> Some (channel_send e (b\<lparr>eb_history := h @ [(e, sz)], eb_bytes := bytes + sz\<rparr>)))
     else Some (channel_send e b))"

definition subscribe_with_replay :: "event_bus \<Rightarrow> crew_event list \<times> nat" where
  "subscribe_with_replay b = (map fst (eb_history b), eb_tail b)"

text \<open>
  Reading from the channel: the next event; \<open>Lagged\<close>, with the number of events that the ring has
  overwritten since, which moves the receiver to the oldest event kept; or nothing yet.
\<close>

datatype received = GotEvent crew_event | Lagged nat | NoEvent

definition recv :: "event_bus \<Rightarrow> nat \<Rightarrow> received \<times> nat" where
  "recv b pos =
    (let oldest = eb_tail b - length (eb_ring b)
     in if pos < oldest then (Lagged (oldest - pos), oldest)
        else if pos < eb_tail b then (GotEvent (eb_ring b ! (pos - oldest)), pos + 1)
        else (NoEvent, pos))"

section \<open>The durable producer\<close>

text \<open>A flush command is sent with the channel for its answer, which a number names.\<close>

datatype durable_command = EventCommand append_entry | FlushCommand nat

record producer =
  pd_queue :: "durable_command list"
  pd_free :: nat
  pd_closed :: bool
  pd_next :: nat
  pd_sealed :: bool
  pd_flush :: bool
  pd_dropped :: nat
  pd_config :: journal_config
  pd_flow :: string
  pd_run_id :: string

definition queue_max_events :: "journal_config \<Rightarrow> nat" where
  "queue_max_events c = max 1 (min (jc_max_events_per_run c) 64)"

definition queue_max_bytes :: "journal_config \<Rightarrow> nat" where
  "queue_max_bytes c = min (max (1024 * 1024) (jc_max_event_bytes c)) (jc_max_bytes_per_run c)"

definition start_producer :: "journal_config \<Rightarrow> string \<Rightarrow> string \<Rightarrow> producer option" where
  "start_producer c flow run_id =
    (if validate_config c \<noteq> Inr () \<or> write_timing_checked (jc_write_timeout c) = None then None
     else Some \<lparr>pd_queue = [], pd_free = queue_max_bytes c, pd_closed = False, pd_next = 1, pd_sealed = False, pd_flush = False,
       pd_dropped = 0, pd_config = c, pd_flow = flow, pd_run_id = run_id\<rparr>)"

record prepared =
  pe_event_type :: string
  pe_payload :: json
  pe_bytes :: nat

definition prepare :: "event_lib \<Rightarrow> string \<Rightarrow> string \<Rightarrow> crew_event \<Rightarrow> prepared option" where
  "prepare lib flow run_id e =
    (let payload = (case e of
         HumanInputRequested question_id prompt choices timeout_s kind \<Rightarrow>
           JObject [(''event'', JString (event_type e)), (''data'', JObject
             [(''question_id'', JString question_id), (''timeout_s'', JUint timeout_s), (''kind'', JString kind),
              (''question_method'', JString ''GET''),
              (''question_endpoint'', JString (''/flows/'' @ flow @ ''/questions/'' @ run_id)),
              (''question_metadata'', JString ''omitted_from_event_journal'')])]
       | _ \<Rightarrow> event_json lib e)
     in case el_ser lib payload of
          Inl _ \<Rightarrow> None
        | Inr out \<Rightarrow> (if u64_max < length out then None
            else Some \<lparr>pe_event_type = event_type e, pe_payload = payload, pe_bytes = length out\<rparr>))"

definition allocate_sequence :: "producer \<Rightarrow> (nat \<times> producer) option" where
  "allocate_sequence p = (case checked_add (pd_next p) 1 of
     None \<Rightarrow> None | Some n \<Rightarrow> Some (pd_next p, p\<lparr>pd_next := n\<rparr>))"

definition record_drop :: "producer \<Rightarrow> producer" where
  "record_drop p = p\<lparr>pd_dropped := wrapping_add (pd_dropped p) 1\<rparr>"

definition prepared_entry :: "event_lib \<Rightarrow> producer \<Rightarrow> nat \<Rightarrow> prepared \<Rightarrow> append_entry option" where
  "prepared_entry lib p sequence pe =
    (case new_append_entry (el_ser lib) sequence (pe_event_type pe) (pe_payload pe) (jc_max_event_bytes (pd_config p)) of
       Inl _ \<Rightarrow> None
     | Inr entry \<Rightarrow> if ae_payload_bytes entry \<noteq> pe_bytes pe then None else Some entry)"

definition enqueue :: "event_lib \<Rightarrow> prepared option \<Rightarrow> producer \<Rightarrow> producer" where
  "enqueue lib pe p =
    (if pd_sealed p then record_drop p
     else (case allocate_sequence p of
         None \<Rightarrow> record_drop p
       | Some (sequence, p1) \<Rightarrow>
          (if pd_flush p1 then record_drop p1
           else (case pe of
               None \<Rightarrow> record_drop p1
             | Some pe' \<Rightarrow> (case prepared_entry lib p1 sequence pe' of
                 None \<Rightarrow> record_drop p1
               | Some entry \<Rightarrow>
                  (if 2 ^ 32 \<le> pe_bytes pe' \<or> pd_free p1 < pe_bytes pe' then record_drop p1
                   else if pd_closed p1 \<or> queue_max_events (pd_config p1) \<le> length (pd_queue p1) then record_drop p1
                   else p1\<lparr>pd_free := pd_free p1 - pe_bytes pe', pd_queue := pd_queue p1 @ [EventCommand entry]\<rparr>))))))"

definition emit :: "event_lib \<Rightarrow> crew_event \<Rightarrow> event_bus \<times> producer option \<Rightarrow> (event_bus \<times> producer option) option" where
  "emit lib event = (\<lambda>(b, durable).
    let e = bound_event lib (eb_max_event_bytes b) event in
    map_option (\<lambda>b'. (b', map_option (\<lambda>p. enqueue lib (prepare lib (pd_flow p) (pd_run_id p) e) p) durable))
      (publish (estimate_event_size lib e) e b))"

fun emit_all :: "event_lib \<Rightarrow> crew_event list \<Rightarrow> event_bus \<times> producer option \<Rightarrow> (event_bus \<times> producer option) option" where
  "emit_all lib [] st = Some st"
| "emit_all lib (e # es) st = Option.bind (emit lib e st) (emit_all lib es)"

definition reserve_flush :: "producer \<Rightarrow> bool \<times> producer" where
  "reserve_flush p = (if pd_flush p then (False, p) else (True, p\<lparr>pd_flush := True\<rparr>))"

definition reserve_terminal :: "event_lib \<Rightarrow> prepared option \<Rightarrow> producer \<Rightarrow> append_entry option \<times> producer" where
  "reserve_terminal lib pe p =
    (if pd_flush p then (None, record_drop (p\<lparr>pd_sealed := True\<rparr>))
     else if pd_sealed p then (None, record_drop p)
     else (case allocate_sequence p of
         None \<Rightarrow> (None, record_drop p)
       | Some (sequence, p1) \<Rightarrow>
          (let p2 = p1\<lparr>pd_sealed := True\<rparr> in
           case pe of
             None \<Rightarrow> (None, record_drop p2)
           | Some pe' \<Rightarrow> (case prepared_entry lib p2 sequence pe' of
               None \<Rightarrow> (None, record_drop p2)
             | Some entry \<Rightarrow> (Some entry, p2)))))"

text \<open>The part of \<open>emit_terminal\<close> that runs under the replay lock.\<close>

definition emit_terminal :: "event_lib \<Rightarrow> crew_event \<Rightarrow> event_bus \<times> producer option \<Rightarrow>
    (append_entry option \<times> event_bus \<times> producer option) option" where
  "emit_terminal lib event = (\<lambda>(b, durable).
    let e = bound_event lib (eb_max_event_bytes b) event in
    map_option (\<lambda>b'. case durable of
        None \<Rightarrow> (None, b', None)
      | Some p \<Rightarrow> (let (r, p') = reserve_terminal lib (prepare lib (pd_flow p) (pd_run_id p) e) p in (r, b', Some p')))
      (publish (estimate_event_size lib e) e b))"

text \<open>A subscriber beside the publishers: what it is told, in every order of publishing and reading.\<close>

datatype bus_op = Publishes crew_event | Completes crew_event | Receives

fun subscriber_run :: "event_lib \<Rightarrow> bus_op list \<Rightarrow> event_bus \<times> producer option \<Rightarrow> nat \<Rightarrow>
    ((event_bus \<times> producer option) \<times> nat \<times> received list) option" where
  "subscriber_run lib [] st pos = Some (st, pos, [])"
| "subscriber_run lib (Publishes e # ops) st pos = Option.bind (emit lib e st) (\<lambda>st'. subscriber_run lib ops st' pos)"
| "subscriber_run lib (Completes e # ops) st pos = Option.bind (emit_terminal lib e st) (\<lambda>(_, st'). subscriber_run lib ops st' pos)"
| "subscriber_run lib (Receives # ops) st pos =
    (let (r, pos') = recv (fst st) pos
     in map_option (\<lambda>(st', pos'', rs). (st', pos'', r # rs)) (subscriber_run lib ops st pos'))"

section \<open>The writer and the interleaving of tasks\<close>

datatype writer_phase = WriterIdle | Filling | Appending | WriterStopped

record writer =
  wr_phase :: writer_phase
  wr_batch :: "append_entry list"
  wr_carried :: "durable_command option"
  wr_failed :: bool

definition batch_max_events :: "journal_config \<Rightarrow> nat" where
  "batch_max_events c = max 1 (min (jc_page_max_events c) 32)"

definition batch_max_bytes :: "journal_config \<Rightarrow> nat" where
  "batch_max_bytes c = min (jc_page_max_bytes c) (jc_max_bytes_per_run c)"

definition batch_bytes :: "append_entry list \<Rightarrow> nat" where
  "batch_bytes es = foldl (\<lambda>n e. saturating_add n (ae_payload_bytes e)) 0 es"

definition terminal_batch :: "append_entry list \<Rightarrow> bool" where
  "terminal_batch es = list_ex (\<lambda>e. ae_event_type e = ''run_complete'') es"

text \<open>
  The system: the bus and its producer, the writer, the terminal event whose caller waits (with its
  byte permit once it has one), whether a waiting flush has sent its command, the number of flushes
  sent and the answers to them (\<open>True\<close> is \<open>Persisted\<close>), the batches given to the store so far and
  whether appending them succeeded. \<open>emit\<close> would take any event; rule \<open>emitted\<close> leaves out \<open>run_complete\<close>,
  which only the monitor of a run creates and publishes through \<open>emit_terminal\<close>
  (\<open>src/src/api/handlers.rs\<close>).
\<close>

record durable_sys =
  ds_bus :: event_bus
  ds_producer :: producer
  ds_writer :: writer
  ds_terminal :: "(append_entry \<times> bool) option"
  ds_flush_sent :: bool
  ds_flushes :: nat
  ds_answers :: "(nat \<times> bool) list"
  ds_log :: "append_entry list list"
  ds_results :: "bool list"

definition take_command :: "durable_command \<Rightarrow> writer \<Rightarrow> writer" where
  "take_command c w = (case c of EventCommand e \<Rightarrow> w\<lparr>wr_phase := Filling, wr_batch := [e]\<rparr> | FlushCommand _ \<Rightarrow> w)"

definition flush_answer :: "durable_command \<Rightarrow> writer \<Rightarrow> (nat \<times> bool) list" where
  "flush_answer c w = (case c of EventCommand _ \<Rightarrow> [] | FlushCommand n \<Rightarrow> [(n, \<not> wr_failed w)])"

definition fits_batch :: "journal_config \<Rightarrow> append_entry list \<Rightarrow> durable_command \<Rightarrow> bool" where
  "fits_batch c es cmd = (case cmd of
     EventCommand e \<Rightarrow> saturating_add (batch_bytes es) (ae_payload_bytes e) \<le> batch_max_bytes c
   | FlushCommand _ \<Rightarrow> False)"

definition queued_entries :: "durable_command list \<Rightarrow> append_entry list" where
  "queued_entries q = concat (map (\<lambda>c. case c of EventCommand e \<Rightarrow> [e] | FlushCommand _ \<Rightarrow> []) q)"

inductive durable_step :: "event_lib \<Rightarrow> durable_sys \<Rightarrow> durable_sys \<Rightarrow> bool" for lib where
  emitted: "event_type e \<noteq> ''run_complete'' \<Longrightarrow> emit lib e (ds_bus s, Some (ds_producer s)) = Some (b, Some p) \<Longrightarrow>
    durable_step lib s (s\<lparr>ds_bus := b, ds_producer := p\<rparr>)"
| flush_reserved: "reserve_flush (ds_producer s) = (True, p) \<Longrightarrow> durable_step lib s (s\<lparr>ds_producer := p\<rparr>)"
| flush_sent: "pd_flush (ds_producer s) \<Longrightarrow> \<not> ds_flush_sent s \<Longrightarrow> \<not> pd_closed (ds_producer s) \<Longrightarrow>
    length (pd_queue (ds_producer s)) < queue_max_events (pd_config (ds_producer s)) \<Longrightarrow>
    durable_step lib s (s\<lparr>ds_producer := (ds_producer s)\<lparr>pd_queue := pd_queue (ds_producer s) @ [FlushCommand (ds_flushes s)]\<rparr>,
      ds_flush_sent := True, ds_flushes := ds_flushes s + 1\<rparr>)"
| flush_released: "durable_step lib s (s\<lparr>ds_producer := (ds_producer s)\<lparr>pd_flush := False\<rparr>, ds_flush_sent := False\<rparr>)"
| terminal_reserved: "emit_terminal lib e (ds_bus s, Some (ds_producer s)) = Some (r, b, Some p) \<Longrightarrow>
    durable_step lib s (s\<lparr>ds_bus := b, ds_producer := p, ds_terminal := (case r of None \<Rightarrow> ds_terminal s | Some t \<Rightarrow> Some (t, False))\<rparr>)"
| terminal_permit: "ds_terminal s = Some (t, False) \<Longrightarrow> ae_payload_bytes t < 2 ^ 32 \<Longrightarrow> ae_payload_bytes t \<le> pd_free (ds_producer s) \<Longrightarrow>
    durable_step lib s (s\<lparr>ds_producer := (ds_producer s)\<lparr>pd_free := pd_free (ds_producer s) - ae_payload_bytes t\<rparr>, ds_terminal := Some (t, True)\<rparr>)"
| terminal_sent: "ds_terminal s = Some (t, True) \<Longrightarrow> \<not> pd_closed (ds_producer s) \<Longrightarrow>
    length (pd_queue (ds_producer s)) < queue_max_events (pd_config (ds_producer s)) \<Longrightarrow>
    durable_step lib s (s\<lparr>ds_producer := (ds_producer s)\<lparr>pd_queue := pd_queue (ds_producer s) @ [EventCommand t]\<rparr>, ds_terminal := None\<rparr>)"
| terminal_given_up: "ds_terminal s = Some (t, held) \<Longrightarrow>
    durable_step lib s (s\<lparr>ds_producer := (ds_producer s)\<lparr>pd_free := pd_free (ds_producer s) + (if held then ae_payload_bytes t else 0)\<rparr>,
      ds_terminal := None\<rparr>)"
| received: "wr_phase (ds_writer s) = WriterIdle \<Longrightarrow> wr_carried (ds_writer s) = None \<Longrightarrow> pd_queue (ds_producer s) = c # q \<Longrightarrow>
    durable_step lib s (s\<lparr>ds_producer := (ds_producer s)\<lparr>pd_queue := q\<rparr>, ds_writer := take_command c (ds_writer s),
      ds_answers := ds_answers s @ flush_answer c (ds_writer s)\<rparr>)"
| resumed: "wr_phase (ds_writer s) = WriterIdle \<Longrightarrow> wr_carried (ds_writer s) = Some c \<Longrightarrow>
    durable_step lib s (s\<lparr>ds_writer := take_command c ((ds_writer s)\<lparr>wr_carried := None\<rparr>),
      ds_answers := ds_answers s @ flush_answer c (ds_writer s)\<rparr>)"
| batched: "wr_phase (ds_writer s) = Filling \<Longrightarrow> length (wr_batch (ds_writer s)) < batch_max_events (pd_config (ds_producer s)) \<Longrightarrow>
    pd_queue (ds_producer s) = EventCommand e # q \<Longrightarrow> fits_batch (pd_config (ds_producer s)) (wr_batch (ds_writer s)) (EventCommand e) \<Longrightarrow>
    durable_step lib s (s\<lparr>ds_producer := (ds_producer s)\<lparr>pd_queue := q\<rparr>, ds_writer := (ds_writer s)\<lparr>wr_batch := wr_batch (ds_writer s) @ [e]\<rparr>\<rparr>)"
| carried: "wr_phase (ds_writer s) = Filling \<Longrightarrow> length (wr_batch (ds_writer s)) < batch_max_events (pd_config (ds_producer s)) \<Longrightarrow>
    pd_queue (ds_producer s) = c # q \<Longrightarrow> \<not> fits_batch (pd_config (ds_producer s)) (wr_batch (ds_writer s)) c \<Longrightarrow>
    durable_step lib s (s\<lparr>ds_producer := (ds_producer s)\<lparr>pd_queue := q\<rparr>,
      ds_writer := (ds_writer s)\<lparr>wr_phase := Appending, wr_carried := Some c\<rparr>, ds_log := ds_log s @ [wr_batch (ds_writer s)]\<rparr>)"
| filled: "wr_phase (ds_writer s) = Filling \<Longrightarrow>
    batch_max_events (pd_config (ds_producer s)) \<le> length (wr_batch (ds_writer s)) \<or> pd_queue (ds_producer s) = [] \<Longrightarrow>
    durable_step lib s (s\<lparr>ds_writer := (ds_writer s)\<lparr>wr_phase := Appending\<rparr>, ds_log := ds_log s @ [wr_batch (ds_writer s)]\<rparr>)"
| appended: "wr_phase (ds_writer s) = Appending \<Longrightarrow> \<not> terminal_batch (wr_batch (ds_writer s)) \<Longrightarrow>
    durable_step lib s (s\<lparr>ds_producer := (ds_producer s)\<lparr>pd_free := pd_free (ds_producer s) + sum_list (map ae_payload_bytes (wr_batch (ds_writer s)))\<rparr>,
      ds_writer := (ds_writer s)\<lparr>wr_phase := WriterIdle, wr_batch := [], wr_failed := wr_failed (ds_writer s) \<or> \<not> ok\<rparr>,
      ds_results := ds_results s @ [ok]\<rparr>)"
| completed: "wr_phase (ds_writer s) = Appending \<Longrightarrow> terminal_batch (wr_batch (ds_writer s)) \<Longrightarrow>
    durable_step lib s (s\<lparr>ds_producer := (ds_producer s)\<lparr>pd_queue := [], pd_closed := True,
        pd_free := pd_free (ds_producer s) + sum_list (map ae_payload_bytes (wr_batch (ds_writer s)))
          + sum_list (map ae_payload_bytes (queued_entries (case wr_carried (ds_writer s) of None \<Rightarrow> [] | Some c \<Rightarrow> [c]) @
              queued_entries (pd_queue (ds_producer s))))\<rparr>,
      ds_writer := (ds_writer s)\<lparr>wr_phase := WriterStopped, wr_batch := [], wr_carried := None, wr_failed := wr_failed (ds_writer s) \<or> \<not> ok\<rparr>,
      ds_results := ds_results s @ [ok]\<rparr>)"

end
