(* ===== verification/Event_Bus_Correct.thy ===== *)
theory Event_Bus_Correct
  imports Event_Bus Journal_Demo
begin

text \<open>
  What the event bus promises: a bounded replay buffer that shows the latest events, a live
  channel that hands over each event or says how many were missed, and a durable writer that hands the store only valid batches, in order, under every interleaving.
\<close>

section \<open>Replay\<close>

definition sizes :: "replay_entry list \<Rightarrow> nat" where
  "sizes h = sum_list (map snd h)"

lemma sizes_simps [simp]: "sizes [] = 0" "sizes (x # h) = snd x + sizes h" "sizes (h @ g) = sizes h + sizes g"
  by (simp_all add: sizes_def)

definition bus_ok :: "event_bus \<Rightarrow> bool" where
  "bus_ok b \<longleftrightarrow> 1 \<le> eb_max_replay b \<and> eb_max_replay_bytes b < u64_max \<and> eb_bytes b = sizes (eb_history b) \<and>
     length (eb_history b) \<le> eb_max_replay b \<and> sizes (eb_history b) \<le> eb_max_replay_bytes b"

lemma over_replay:
  "sz \<le> m \<Longrightarrow> m < u64_max \<Longrightarrow> m < saturating_add (sizes h) sz \<longleftrightarrow> m < sizes h + sz"
  by (auto simp: saturating_add_def min_def)

lemma evict_replay_exact:
  assumes "1 \<le> n" "m < u64_max" "sz \<le> m"
  shows "evict_replay n m sz h (sizes h) =
    Some (evict_front (\<lambda>h. n \<le> length h \<or> m < sizes h + sz) h, sizes (evict_front (\<lambda>h. n \<le> length h \<or> m < sizes h + sz) h))"
proof (induction h)
  case (Cons x h)
  have "saturating_sub (sizes (x # h)) (snd x) = sizes h" by (simp add: saturating_sub_def)
  moreover have "m < saturating_add (sizes (x # h)) sz \<longleftrightarrow> m < sizes (x # h) + sz" by (rule over_replay [OF assms(3,2)])
  ultimately show ?case using Cons by simp
qed (use assms in \<open>simp add: saturating_add_def\<close>)

interpretation replay: front_eviction "\<lambda>h. max 1 n \<le> length h \<or> m < sizes h + min sz m" for n m sz
  by unfold_locales (simp add: Suc_le_eq)

text \<open>Limits of a bus stay as they are, so what is published depends only on the event.\<close>

definition same_limits :: "event_bus \<Rightarrow> event_bus \<Rightarrow> bool" where
  "same_limits b b' \<longleftrightarrow> eb_max_replay b' = eb_max_replay b \<and> eb_max_replay_bytes b' = eb_max_replay_bytes b \<and>
     eb_max_event_bytes b' = eb_max_event_bytes b \<and> eb_slots b' = eb_slots b"

text \<open>The ring against the log of everything that was sent: its latest events, as many as there are slots.\<close>

definition ring_of :: "crew_event list \<Rightarrow> event_bus \<Rightarrow> bool" where
  "ring_of sent b \<longleftrightarrow> eb_tail b = length sent \<and> eb_ring b = drop (length sent - eb_slots b) sent"

lemma channel_send_ring: "ring_of sent b \<Longrightarrow> ring_of (sent @ [e]) (channel_send e b)"
  by (cases "length sent < eb_slots b") (auto simp: ring_of_def channel_send_def Let_def Suc_diff_le)

lemma channel_send_keeps [simp]:
  "eb_history (channel_send e b) = eb_history b" "eb_bytes (channel_send e b) = eb_bytes b" "eb_slots (channel_send e b) = eb_slots b"
  "eb_max_replay (channel_send e b) = eb_max_replay b" "eb_max_replay_bytes (channel_send e b) = eb_max_replay_bytes b"
  "eb_max_event_bytes (channel_send e b) = eb_max_event_bytes b"
  by (simp_all add: channel_send_def Let_def)

lemma ring_of_upd [simp]: "ring_of sent (b\<lparr>eb_history := h, eb_bytes := n\<rparr>) \<longleftrightarrow> ring_of sent b"
  by (simp add: ring_of_def)

text \<open>The reference: the longest suffix of everything replayable that is within both limits.\<close>

definition latest :: "event_bus \<Rightarrow> replay_entry list \<Rightarrow> replay_entry list" where
  "latest b = evict_front (\<lambda>h. eb_max_replay b < length h \<or> eb_max_replay_bytes b < sizes h)"

lemma evict_front_snoc: "\<not> over [x] \<Longrightarrow> evict_front over (h @ [x]) = evict_front (\<lambda>h. over (h @ [x])) h @ [x]"
  by (induction h) auto

lemma evict_front_twice: "(\<And>h. over h \<Longrightarrow> over' h) \<Longrightarrow> evict_front over' (evict_front over h) = evict_front over' h"
  by (induction h) auto

lemma latest_snoc:
  assumes "1 \<le> eb_max_replay b" "snd x \<le> eb_max_replay_bytes b"
  shows "latest b (h @ [x]) = evict_front (\<lambda>h. eb_max_replay b \<le> length h \<or> eb_max_replay_bytes b < sizes h + snd x) (latest b h) @ [x]"
proof -
  have "latest b (h @ [x]) = evict_front (\<lambda>h. eb_max_replay b < length (h @ [x]) \<or> eb_max_replay_bytes b < sizes (h @ [x])) h @ [x]"
    unfolding latest_def using assms by (intro evict_front_snoc) simp
  also have "(\<lambda>h. eb_max_replay b < length (h @ [x]) \<or> eb_max_replay_bytes b < sizes (h @ [x])) =
      (\<lambda>h. eb_max_replay b \<le> length h \<or> eb_max_replay_bytes b < sizes h + snd x)" by (simp add: less_Suc_eq_le fun_eq_iff)
  finally show ?thesis unfolding latest_def by (subst evict_front_twice) auto
qed

lemma publish_ok:
  assumes "bus_ok b"
  shows "\<exists>b'. publish sz e b = Some b' \<and> bus_ok b' \<and> (\<forall>sent. ring_of sent b \<longrightarrow> ring_of (sent @ [e]) b') \<and> same_limits b b' \<and>
    eb_history b' = (if sz \<le> eb_max_replay_bytes b
      then evict_front (\<lambda>h. eb_max_replay b \<le> length h \<or> eb_max_replay_bytes b < sizes h + sz) (eb_history b) @ [(e, sz)] else eb_history b)"
proof (cases "sz \<le> eb_max_replay_bytes b")
  case True
  let ?over = "\<lambda>h. eb_max_replay b \<le> length h \<or> eb_max_replay_bytes b < sizes h + sz"
  let ?h = "evict_front ?over (eb_history b)"
  have n: "max 1 (eb_max_replay b) = eb_max_replay b" "min sz (eb_max_replay_bytes b) = sz" using assms True by (auto simp: bus_ok_def)
  have "\<not> ?over ?h" using replay.within [of "eb_max_replay b" "eb_max_replay_bytes b" sz "eb_history b"] unfolding n .
  moreover have "publish sz e b = Some (channel_send e (b\<lparr>eb_history := ?h @ [(e, sz)], eb_bytes := sizes ?h + sz\<rparr>))"
    using assms True evict_replay_exact [of "eb_max_replay b" "eb_max_replay_bytes b" sz "eb_history b"] by (simp add: publish_def bus_ok_def)
  ultimately show ?thesis using assms True by (auto simp: bus_ok_def same_limits_def intro!: channel_send_ring)
qed (use assms in \<open>simp add: publish_def bus_ok_def same_limits_def channel_send_ring\<close>)

definition sent_events :: "event_lib \<Rightarrow> event_bus \<Rightarrow> crew_event list \<Rightarrow> crew_event list" where
  "sent_events lib b es = map (bound_event lib (eb_max_event_bytes b)) es"

definition replayable :: "event_lib \<Rightarrow> event_bus \<Rightarrow> crew_event list \<Rightarrow> replay_entry list" where
  "replayable lib b es = map (\<lambda>e. (e, estimate_event_size lib e))
     (filter (\<lambda>e. estimate_event_size lib e \<le> eb_max_replay_bytes b) (sent_events lib b es))"

text \<open>What publishing one event does to the bus, through \<open>emit\<close> and through \<open>emit_terminal\<close>.\<close>

definition bus_gains :: "event_lib \<Rightarrow> crew_event list \<Rightarrow> event_bus \<Rightarrow> event_bus \<Rightarrow> bool" where
  "bus_gains lib es b b' \<longleftrightarrow> bus_ok b' \<and> same_limits b b' \<and>
     (\<forall>sent. ring_of sent b \<longrightarrow> ring_of (sent @ sent_events lib b es) b') \<and>
     (\<forall>h. eb_history b = latest b h \<longrightarrow> eb_history b' = latest b (h @ replayable lib b es))"

lemma publish_bounded:
  assumes ok: "bus_ok b" and e': "e' = bound_event lib (eb_max_event_bytes b) e"
  shows "\<exists>b'. publish (estimate_event_size lib e') e' b = Some b' \<and> bus_gains lib [e] b b'"
proof -
  let ?sz = "estimate_event_size lib e'"
  obtain b' where b': "publish ?sz e' b = Some b'" "bus_ok b'" "\<forall>sent. ring_of sent b \<longrightarrow> ring_of (sent @ [e']) b'" "same_limits b b'"
    "eb_history b' = (if ?sz \<le> eb_max_replay_bytes b
      then evict_front (\<lambda>h. eb_max_replay b \<le> length h \<or> eb_max_replay_bytes b < sizes h + ?sz) (eb_history b) @ [(e', ?sz)] else eb_history b)"
    using publish_ok [OF ok, of ?sz e'] by (elim exE conjE) (rule that)
  have "eb_history b' = latest b (h @ replayable lib b [e])" if "eb_history b = latest b h" for h
    using b'(5) that ok latest_snoc [of b "(e', ?sz)" h] by (simp add: replayable_def sent_events_def bus_ok_def e' split: if_splits)
  then show ?thesis using b' by (auto simp: bus_gains_def sent_events_def e')
qed

lemma emit_ok: "bus_ok b \<Longrightarrow> \<exists>b' d'. emit lib e (b, d) = Some (b', d') \<and> bus_gains lib [e] b b'"
  using publish_bounded [OF _ refl, of b lib e] by (auto simp: emit_def Let_def)

lemma emit_terminal_ok: "bus_ok b \<Longrightarrow> \<exists>r b' d'. emit_terminal lib e (b, d) = Some (r, b', d') \<and> bus_gains lib [e] b b'"
  using publish_bounded [OF _ refl, of b lib e] by (cases d) (fastforce simp: emit_terminal_def Let_def split_beta)+

lemma bus_gains_Nil: "bus_ok b \<Longrightarrow> bus_gains lib [] b b"
  by (simp add: bus_gains_def same_limits_def sent_events_def replayable_def)

lemma bus_gains_append:
  assumes "bus_gains lib es b b1" "bus_gains lib fs b1 b2"
  shows "bus_gains lib (es @ fs) b b2"
proof -
  have "sent_events lib b1 fs = sent_events lib b fs" "replayable lib b1 fs = replayable lib b fs" "latest b1 = latest b"
    using assms(1) by (simp_all add: bus_gains_def same_limits_def sent_events_def replayable_def latest_def)
  moreover have "sent_events lib b (es @ fs) = sent_events lib b es @ sent_events lib b fs"
    "replayable lib b (es @ fs) = replayable lib b es @ replayable lib b fs" by (simp_all add: replayable_def sent_events_def)
  ultimately show ?thesis using assms by (auto simp: bus_gains_def same_limits_def)
qed

lemma emit_all_ok: "bus_ok b \<Longrightarrow> \<exists>b' d'. emit_all lib es (b, d) = Some (b', d') \<and> bus_gains lib es b b'"
proof (induction es arbitrary: b d)
  case Nil
  then show ?case by (simp add: bus_gains_Nil)
next
  case (Cons e es)
  obtain b1 d1 where one: "emit lib e (b, d) = Some (b1, d1)" "bus_gains lib [e] b b1" using emit_ok [OF Cons.prems] by blast
  then obtain b2 d2 where "emit_all lib es (b1, d1) = Some (b2, d2)" "bus_gains lib es b1 b2" using Cons.IH [of b1 d1] by (auto simp: bus_gains_def)
  then show ?case using one bus_gains_append [OF one(2)] by fastforce
qed

lemma bus_env_range: "lo \<le> dflt \<Longrightarrow> dflt \<le> hi \<Longrightarrow> lo \<le> bus_env env name dflt lo hi \<and> bus_env env name dflt lo hi \<le> hi"
  by (auto simp: bus_env_def split: option.splits)

lemmas new_bus_parts = new_bus_def env_replay_bytes_def env_event_bytes_def

lemma new_bus_ok: "bus_ok (new_bus ring env capacity)"
  using bus_env_range [of 1 1000 10000] bus_env_range [of 1024 4194304 67108864 env "''IRONCREW_EVENT_REPLAY_MAX_BYTES''"]
  by (simp add: bus_ok_def new_bus_parts u64_max_def)

lemma new_bus_starts: "ring_of [] (new_bus ring env capacity) \<and> eb_history (new_bus ring env capacity) = latest b []"
  by (simp add: new_bus_def ring_of_def latest_def)

lemma bound_event_bounded: "estimate_event_size lib (bound_event lib m e) \<le> m \<or> bound_event lib m e = omitted_event m"
  by (auto simp: bound_event_def Let_def)

section \<open>The live channel\<close>

text \<open>
  The reference: a mailbox of the events not yet read. A read finds the next event, unless more
  are waiting than the ring has slots; then it is told how many were lost and the rest stays.
\<close>

fun mailbox_run :: "nat \<Rightarrow> (crew_event \<Rightarrow> crew_event) \<Rightarrow> bus_op list \<Rightarrow> crew_event list \<Rightarrow> crew_event list \<times> received list" where
  "mailbox_run slots bound [] q = (q, [])"
| "mailbox_run slots bound (Publishes e # ops) q = mailbox_run slots bound ops (q @ [bound e])"
| "mailbox_run slots bound (Completes e # ops) q = mailbox_run slots bound ops (q @ [bound e])"
| "mailbox_run slots bound (Receives # ops) q =
    (if slots < length q then apsnd (Cons (Lagged (length q - slots))) (mailbox_run slots bound ops (drop (length q - slots) q))
     else case q of [] \<Rightarrow> apsnd (Cons NoEvent) (mailbox_run slots bound ops [])
       | e # q' \<Rightarrow> apsnd (Cons (GotEvent e)) (mailbox_run slots bound ops q'))"

definition reads_from :: "crew_event list \<Rightarrow> nat \<Rightarrow> event_bus \<Rightarrow> bool" where
  "reads_from q pos b \<longleftrightarrow> (\<exists>sent. ring_of sent b \<and> pos \<le> length sent \<and> q = drop pos sent)"

lemma recv_lagged:
  assumes "reads_from q pos b" "eb_slots b < length q"
  shows "\<exists>pos'. recv b pos = (Lagged (length q - eb_slots b), pos') \<and> reads_from (drop (length q - eb_slots b) q) pos' b"
proof -
  obtain sent where q: "ring_of sent b" "pos \<le> length sent" "q = drop pos sent" using assms(1) by (auto simp: reads_from_def)
  then have "recv b pos = (Lagged (length q - eb_slots b), length sent - eb_slots b)"
    using assms(2) by (auto simp: recv_def ring_of_def Let_def)
  moreover have "reads_from (drop (length q - eb_slots b) q) (length sent - eb_slots b) b"
    unfolding reads_from_def using q assms(2) by (intro exI [of _ sent]) auto
  ultimately show ?thesis by blast
qed

lemma recv_event:
  assumes "reads_from (e # q) pos b" "length (e # q) \<le> eb_slots b"
  shows "\<exists>pos'. recv b pos = (GotEvent e, pos') \<and> reads_from q pos' b"
proof -
  obtain sent where q: "ring_of sent b" "pos \<le> length sent" "drop pos sent = e # q" using assms(1) by (auto simp: reads_from_def)
  have pos: "pos < length sent" "sent ! pos = e" "drop (Suc pos) sent = q" using q(3)
    by (metis drop_all list.distinct(1) not_le, metis drop_all list.distinct(1) not_le hd_drop_conv_nth list.sel(1),
        metis drop_Suc drop_tl list.sel(3))
  have "length sent - pos = length (e # q)" using q(3) by (metis length_drop)
  then have "recv b pos = (GotEvent e, pos + 1)" using q(1) pos assms(2) by (auto simp: recv_def ring_of_def Let_def)
  moreover have "reads_from q (pos + 1) b" unfolding reads_from_def using q(1) pos by (intro exI [of _ sent]) auto
  ultimately show ?thesis by blast
qed

lemma recv_nothing:
  assumes "reads_from [] pos b"
  shows "recv b pos = (NoEvent, pos)"
  using assms by (auto simp: reads_from_def recv_def ring_of_def Let_def)

lemma reads_published:
  assumes "reads_from q pos b" "bus_gains lib [e] b b'"
  shows "reads_from (q @ [bound_event lib (eb_max_event_bytes b) e]) pos b'"
proof -
  obtain sent where "ring_of sent b" "pos \<le> length sent" "q = drop pos sent" using assms(1) by (auto simp: reads_from_def)
  then show ?thesis using assms(2) unfolding reads_from_def bus_gains_def
    by (intro exI [of _ "sent @ [bound_event lib (eb_max_event_bytes b) e]"]) (auto simp: sent_events_def)
qed

definition published_by :: "bus_op list \<Rightarrow> crew_event list" where
  "published_by ops = concat (map (\<lambda>op. case op of Publishes e \<Rightarrow> [e] | Completes e \<Rightarrow> [e] | Receives \<Rightarrow> []) ops)"

lemma published_by_simps [simp]:
  "published_by [] = []" "published_by (Publishes e # ops) = e # published_by ops"
  "published_by (Completes e # ops) = e # published_by ops" "published_by (Receives # ops) = published_by ops"
  by (simp_all add: published_by_def)

text \<open>Every order of publishing and reading: the subscriber is told what the mailbox tells.\<close>

lemma subscriber_run_exact:
  assumes "bus_ok b" "reads_from q pos b"
  shows "\<exists>b' d' pos' q' rs. subscriber_run lib ops (b, d) pos = Some ((b', d'), pos', rs) \<and> bus_gains lib (published_by ops) b b' \<and>
    mailbox_run (eb_slots b) (bound_event lib (eb_max_event_bytes b)) ops q = (q', rs) \<and> reads_from q' pos' b'"
  using assms
proof (induction ops arbitrary: b d pos q)
  case Nil
  then show ?case by (simp add: bus_gains_Nil)
next
  case (Cons op ops)
  have more: ?case if op: "op = Publishes e \<or> op = Completes e" for e
  proof -
    obtain b1 d1 where one: "bus_gains lib [e] b b1" "\<And>x. subscriber_run lib (op # ops) (b, d) x = subscriber_run lib ops (b1, d1) x"
      using op emit_ok [OF Cons.prems(1), of lib e d] emit_terminal_ok [OF Cons.prems(1), of lib e d] by auto
    have b1: "eb_slots b1 = eb_slots b" "eb_max_event_bytes b1 = eb_max_event_bytes b" "bus_ok b1"
      using one(1) by (simp_all add: bus_gains_def same_limits_def)
    have run: "mailbox_run (eb_slots b) (bound_event lib (eb_max_event_bytes b)) (op # ops) q =
        mailbox_run (eb_slots b1) (bound_event lib (eb_max_event_bytes b1)) ops (q @ [bound_event lib (eb_max_event_bytes b) e])"
      "published_by (op # ops) = [e] @ published_by ops" using op b1 by auto
    show ?thesis unfolding one(2) run using Cons.IH [OF b1(3) reads_published [OF Cons.prems(2) one(1)], of d1] bus_gains_append [OF one(1)] by blast
  qed
  show ?case
  proof (cases op)
    case Receives
    consider "eb_slots b < length q" | "q = []" | e q' where "q = e # q'" "length q \<le> eb_slots b" by (cases q) fastforce+
    then show ?thesis
    proof cases
      case 1
      then obtain pos' where "recv b pos = (Lagged (length q - eb_slots b), pos')" "reads_from (drop (length q - eb_slots b) q) pos' b"
        using recv_lagged [OF Cons.prems(2)] by blast
      then show ?thesis using Receives 1 Cons.IH [OF Cons.prems(1), of "drop (length q - eb_slots b) q" pos' d] by fastforce
    next
      case 2
      then show ?thesis using Receives Cons.IH [OF Cons.prems, of d] recv_nothing [of pos b] Cons.prems(2) by fastforce
    next
      case 3
      then obtain pos' where "recv b pos = (GotEvent e, pos')" "reads_from q' pos' b" using recv_event Cons.prems(2) by blast
      then show ?thesis using Receives 3 Cons.IH [OF Cons.prems(1), of q' pos' d] by fastforce
    qed
  qed (use more in blast)+
qed

text \<open>
  What a subscriber was told against what was sent: the events in order, and for each gap the
  number of events missing there; \<open>rest\<close> is still to be read.
\<close>

fun accounts :: "received list \<Rightarrow> crew_event list \<Rightarrow> crew_event list \<Rightarrow> bool" where
  "accounts [] sent rest \<longleftrightarrow> sent = rest"
| "accounts (GotEvent e # rs) sent rest \<longleftrightarrow> sent \<noteq> [] \<and> hd sent = e \<and> accounts rs (tl sent) rest"
| "accounts (Lagged n # rs) sent rest \<longleftrightarrow> 0 < n \<and> n \<le> length sent \<and> accounts rs (drop n sent) rest"
| "accounts (NoEvent # rs) sent rest \<longleftrightarrow> accounts rs sent rest"

lemma mailbox_accounts:
  "mailbox_run slots bound ops q = (q', rs) \<Longrightarrow> accounts rs (q @ map bound (published_by ops)) q'"
proof (induction slots bound ops q arbitrary: q' rs rule: mailbox_run.induct)
  case (4 slots bound ops q)
  show ?case
  proof (cases "slots < length q")
    case True
    then obtain rs' where "mailbox_run slots bound ops (drop (length q - slots) q) = (q', rs')" "rs = Lagged (length q - slots) # rs'"
      using 4(4) by (auto simp: apsnd_def map_prod_def split: prod.splits)
    then show ?thesis using 4(1) [OF True] True by simp
  next
    case False
    then show ?thesis using 4 by (cases q) (auto simp: apsnd_def map_prod_def split: prod.splits)
  qed
qed auto

text \<open>A subscriber that never has more than \<open>n\<close> events to read, \<open>k\<close> of them at the start.\<close>

fun keeps_up :: "nat \<Rightarrow> bus_op list \<Rightarrow> nat \<Rightarrow> bool" where
  "keeps_up n [] k \<longleftrightarrow> True"
| "keeps_up n (Receives # ops) k \<longleftrightarrow> k \<le> n \<and> keeps_up n ops (k - 1)"
| "keeps_up n (op # ops) k \<longleftrightarrow> keeps_up n ops (k + 1)"

definition no_lag :: "received list \<Rightarrow> bool" where
  "no_lag rs \<longleftrightarrow> list_all (\<lambda>r. case r of Lagged _ \<Rightarrow> False | _ \<Rightarrow> True) rs"

lemma no_lag_simps [simp]: "no_lag []" "no_lag (GotEvent e # rs) = no_lag rs" "no_lag (NoEvent # rs) = no_lag rs"
  by (simp_all add: no_lag_def)

lemma mailbox_no_lag:
  "mailbox_run slots bound ops q = (q', rs) \<Longrightarrow> keeps_up n ops (length q) \<Longrightarrow> n \<le> slots \<Longrightarrow> no_lag rs"
proof (induction slots bound ops q arbitrary: q' rs rule: mailbox_run.induct)
  case (4 slots bound ops q)
  then show ?case by (cases q) (auto simp: apsnd_def map_prod_def split: prod.splits)
qed auto

text \<open>
  C34. Publishing never blocks, whatever events come: the eviction loop always ends and leaves the
  replay buffer within its limits on events and bytes, with an exact byte counter; what is sent
  is each event within the event limit, or a notice in its place. A late subscriber gets in its
  snapshot the longest run of latest replayable events that the limits allow. From then on, in
  every order of publishing and reading, it is told exactly what a mailbox would tell it whose
  reader loses the oldest events when more are waiting than the channel has slots: each later
  event once and in order, or counted in one \<open>Lagged\<close> warning at its place; none is lost between
  snapshot and subscription and none is shown twice. A subscriber that never falls behind by more
  than the channel's capacity gets no warning, so it gets every event.
\<close>

theorem late_subscriber_told_exactly:
  fixes ring env capacity
  defines "bus \<equiv> new_bus ring env capacity"
  shows "\<exists>b d b' d' pos behind told. emit_all lib es (bus, durable) = Some (b, d) \<and>
    subscribe_with_replay b = (map fst (latest bus (replayable lib bus es)), length es) \<and>
    subscriber_run lib ops (b, d) (length es) = Some ((b', d'), pos, told) \<and> bus_ok b \<and> bus_ok b' \<and>
    mailbox_run (ring (channel_capacity env capacity)) (bound_event lib (eb_max_event_bytes bus)) ops [] = (behind, told) \<and>
    accounts told (sent_events lib bus (published_by ops)) behind \<and>
    list_all (\<lambda>e. estimate_event_size lib e \<le> eb_max_event_bytes bus \<or> e = omitted_event (eb_max_event_bytes bus))
      (sent_events lib bus (es @ published_by ops)) \<and>
    (channel_capacity env capacity \<le> ring (channel_capacity env capacity) \<longrightarrow> keeps_up (channel_capacity env capacity) ops 0 \<longrightarrow> no_lag told)"
proof -
  have bus: "bus_ok bus" "ring_of [] bus" "eb_history bus = latest bus []" "eb_slots bus = ring (channel_capacity env capacity)"
    using new_bus_ok new_bus_starts by (auto simp: bus_def new_bus_def)
  obtain b d where one: "emit_all lib es (bus, durable) = Some (b, d)" "bus_gains lib es bus b" using emit_all_ok [OF bus(1)] by blast
  have b: "bus_ok b" "ring_of (sent_events lib bus es) b" "eb_history b = latest bus (replayable lib bus es)"
    "eb_slots b = eb_slots bus" "eb_max_event_bytes b = eb_max_event_bytes bus"
    using one(2) bus unfolding bus_gains_def same_limits_def by fastforce+
  then have tail: "eb_tail b = length es" "reads_from [] (length es) b"
    by (auto simp: ring_of_def reads_from_def sent_events_def intro!: exI [of _ "sent_events lib bus es"])
  obtain b' d' pos behind told where run: "subscriber_run lib ops (b, d) (length es) = Some ((b', d'), pos, told)" "bus_gains lib (published_by ops) b b'"
    "mailbox_run (eb_slots bus) (bound_event lib (eb_max_event_bytes bus)) ops [] = (behind, told)"
    using subscriber_run_exact [OF b(1) tail(2), of lib ops d] b(4,5) by auto
  have "list_all (\<lambda>e. estimate_event_size lib e \<le> eb_max_event_bytes bus \<or> e = omitted_event (eb_max_event_bytes bus))
      (sent_events lib bus (es @ published_by ops))"
    unfolding sent_events_def list_all_iff using bound_event_bounded by auto
  then show ?thesis using one b run tail mailbox_accounts [OF run(3)] mailbox_no_lag [OF run(3)] bus(4)
    by (auto simp: subscribe_with_replay_def sent_events_def bus_gains_def)
qed

section \<open>The durable producer\<close>

definition entry_valid :: "event_lib \<Rightarrow> journal_config \<Rightarrow> append_entry \<Rightarrow> bool" where
  "entry_valid lib c e \<longleftrightarrow> validate_append_entry (el_ser lib) (jc_max_event_bytes c) e = Inr ()"

lemma prepared_entry_Some:
  "prepared_entry lib p n pe = Some e \<Longrightarrow>
   ae_sequence e = n \<and> ae_event_type e = pe_event_type pe \<and> ae_payload_bytes e = pe_bytes pe \<and> entry_valid lib (pd_config p) e"
  by (auto simp: prepared_entry_def new_append_entry_def entry_valid_def rust_result Let_def split: sum.splits if_splits)

lemma allocate_Some: "allocate_sequence p = Some (n, p') \<longleftrightarrow> n = pd_next p \<and> pd_next p < u64_max \<and> p' = p\<lparr>pd_next := pd_next p + 1\<rparr>"
  by (auto simp: allocate_sequence_def checked_add_def split: option.splits if_splits)

text \<open>What the fields that matter for the journal can become in one call.\<close>

definition kept_producer :: "producer \<Rightarrow> producer \<Rightarrow> bool" where
  "kept_producer p p' \<longleftrightarrow> pd_config p' = pd_config p \<and> pd_flow p' = pd_flow p \<and> pd_run_id p' = pd_run_id p \<and> pd_next p \<le> pd_next p' \<and>
     (pd_sealed p \<longrightarrow> pd_sealed p')"

lemma dropped_fields [simp]:
  "pd_queue (record_drop p) = pd_queue p" "pd_free (record_drop p) = pd_free p" "pd_config (record_drop p) = pd_config p"
  "pd_flow (record_drop p) = pd_flow p" "pd_run_id (record_drop p) = pd_run_id p" "pd_next (record_drop p) = pd_next p"
  "pd_sealed (record_drop p) = pd_sealed p" "pd_flush (record_drop p) = pd_flush p"
  by (simp_all add: record_drop_def)

definition unqueued :: "producer \<Rightarrow> producer \<Rightarrow> bool" where
  "unqueued p p' \<longleftrightarrow> pd_queue p' = pd_queue p \<and> pd_free p' = pd_free p \<and> kept_producer p p'"

definition queued_with :: "event_lib \<Rightarrow> producer \<Rightarrow> append_entry \<Rightarrow> producer \<Rightarrow> bool" where
  "queued_with lib p e p' \<longleftrightarrow> \<not> pd_sealed p \<and> pd_queue p' = pd_queue p @ [EventCommand e] \<and> entry_valid lib (pd_config p) e \<and>
     pd_free p' + ae_payload_bytes e = pd_free p \<and> kept_producer p p' \<and> ae_sequence e = pd_next p \<and> pd_next p' = pd_next p + 1 \<and>
     length (pd_queue p) < queue_max_events (pd_config p)"

lemma enqueue_result:
  "unqueued p (enqueue lib pe p) \<or> (\<exists>pe' e. pe = Some pe' \<and> queued_with lib p e (enqueue lib pe p) \<and> ae_event_type e = pe_event_type pe')"
proof (cases "pd_sealed p \<or> allocate_sequence p = None")
  case True
  then show ?thesis by (auto simp: enqueue_def unqueued_def kept_producer_def)
next
  case False
  let ?p1 = "p\<lparr>pd_next := pd_next p + 1\<rparr>"
  have alloc: "allocate_sequence p = Some (pd_next p, ?p1)" using False allocate_Some by (metis option.exhaust surj_pair)
  have drop: "unqueued p (record_drop ?p1)" by (simp add: unqueued_def kept_producer_def)
  show ?thesis
  proof (cases "pd_flush p \<or> pe = None \<or> prepared_entry lib ?p1 (pd_next p) (the pe) = None")
    case True
    then show ?thesis using False alloc drop by (auto simp: enqueue_def split: option.splits)
  next
    case f: False
    then obtain pe' e where e: "pe = Some pe'" "prepared_entry lib ?p1 (pd_next p) pe' = Some e" by auto
    show ?thesis
    proof (cases "2 ^ 32 \<le> pe_bytes pe' \<or> pd_free p < pe_bytes pe' \<or> pd_closed p \<or> queue_max_events (pd_config p) \<le> length (pd_queue p)")
      case True
      then show ?thesis using False alloc drop e f by (auto simp: enqueue_def)
    next
      case g: False
      have "enqueue lib pe p = ?p1\<lparr>pd_free := pd_free p - pe_bytes pe', pd_queue := pd_queue p @ [EventCommand e]\<rparr>"
        using False alloc e f g by (auto simp: enqueue_def)
      then show ?thesis using False prepared_entry_Some [OF e(2)] e(1) g by (auto simp: queued_with_def kept_producer_def)
    qed
  qed
qed

lemma reserve_terminal_result:
  assumes "reserve_terminal lib pe p = (r, p')"
  shows "pd_queue p' = pd_queue p \<and> pd_free p' = pd_free p \<and> kept_producer p p' \<and>
    (\<forall>e. r = Some e \<longrightarrow> \<not> pd_sealed p \<and> pd_sealed p' \<and> entry_valid lib (pd_config p) e \<and> ae_sequence e = pd_next p \<and> pd_next p' = pd_next p + 1)"
proof (cases "pd_flush p \<or> pd_sealed p \<or> allocate_sequence p = None")
  case True
  then show ?thesis using assms by (auto simp: reserve_terminal_def kept_producer_def split: if_splits option.splits)
next
  case False
  let ?p2 = "p\<lparr>pd_next := pd_next p + 1, pd_sealed := True\<rparr>"
  have "allocate_sequence p = Some (pd_next p, p\<lparr>pd_next := pd_next p + 1\<rparr>)" using False allocate_Some by (metis option.exhaust surj_pair)
  then show ?thesis using assms False
    by (auto simp: reserve_terminal_def kept_producer_def Let_def dest: prepared_entry_Some split: option.splits)
qed

section \<open>The durable pipeline\<close>

lemma queued_simps [simp]:
  "queued_entries [] = []" "queued_entries (EventCommand e # q) = e # queued_entries q" "queued_entries (FlushCommand n # q) = queued_entries q"
  "queued_entries (q @ r) = queued_entries q @ queued_entries r"
  by (simp_all add: queued_entries_def)

definition payloads :: "append_entry list \<Rightarrow> nat" where
  "payloads es = sum_list (map ae_payload_bytes es)"

lemma payloads_simps [simp]: "payloads [] = 0" "payloads (e # es) = ae_payload_bytes e + payloads es" "payloads (es @ fs) = payloads es + payloads fs"
  by (simp_all add: payloads_def)

definition carried_entries :: "writer \<Rightarrow> append_entry list" where
  "carried_entries w = (case wr_carried w of None \<Rightarrow> [] | Some c \<Rightarrow> queued_entries [c])"

definition waiting_terminal :: "durable_sys \<Rightarrow> append_entry list" where
  "waiting_terminal s = (case ds_terminal s of None \<Rightarrow> [] | Some (t, _) \<Rightarrow> [t])"

text \<open>Everything that was or may be given to the store, in that order.\<close>

definition flight :: "durable_sys \<Rightarrow> append_entry list" where
  "flight s = concat (ds_log s) @ (if wr_phase (ds_writer s) = Filling then wr_batch (ds_writer s) else []) @
     carried_entries (ds_writer s) @ queued_entries (pd_queue (ds_producer s)) @ waiting_terminal s"

text \<open>Bytes of the entries that hold permits.\<close>

definition held_bytes :: "durable_sys \<Rightarrow> nat" where
  "held_bytes s = payloads (wr_batch (ds_writer s)) + payloads (carried_entries (ds_writer s)) +
     payloads (queued_entries (pd_queue (ds_producer s))) + (case ds_terminal s of Some (t, True) \<Rightarrow> ae_payload_bytes t | _ \<Rightarrow> 0)"

definition in_sequence :: "nat \<Rightarrow> append_entry list \<Rightarrow> bool" where
  "in_sequence n es \<longleftrightarrow> sorted_wrt (<) (map ae_sequence es) \<and> list_all (\<lambda>e. 0 < ae_sequence e \<and> ae_sequence e < n) es"

definition ordinary :: "append_entry \<Rightarrow> bool" where
  "ordinary e \<longleftrightarrow> ae_event_type e \<noteq> ''run_complete''"

definition flight_ok :: "event_lib \<Rightarrow> durable_sys \<Rightarrow> bool" where
  "flight_ok lib s \<longleftrightarrow> 0 < pd_next (ds_producer s) \<and> in_sequence (pd_next (ds_producer s)) (flight s) \<and>
     list_all (entry_valid lib (pd_config (ds_producer s))) (flight s) \<and>
     (if pd_sealed (ds_producer s) then list_all ordinary (butlast (flight s)) else list_all ordinary (flight s) \<and> ds_terminal s = None)"

definition batch_ok :: "journal_config \<Rightarrow> append_entry list \<Rightarrow> bool" where
  "batch_ok c es \<longleftrightarrow> es \<noteq> [] \<and> length es \<le> batch_max_events c \<and> (payloads es \<le> batch_max_bytes c \<or> length es = 1)"

definition writer_ok :: "durable_sys \<Rightarrow> bool" where
  "writer_ok s \<longleftrightarrow> (case wr_phase (ds_writer s) of
       WriterIdle \<Rightarrow> wr_batch (ds_writer s) = []
     | Filling \<Rightarrow> batch_ok (pd_config (ds_producer s)) (wr_batch (ds_writer s)) \<and> wr_carried (ds_writer s) = None
     | Appending \<Rightarrow> ds_log s \<noteq> [] \<and> wr_batch (ds_writer s) = last (ds_log s)
     | WriterStopped \<Rightarrow> wr_batch (ds_writer s) = []) \<and>
     list_all (batch_ok (pd_config (ds_producer s))) (ds_log s)"

definition sys_ok :: "event_lib \<Rightarrow> durable_sys \<Rightarrow> bool" where
  "sys_ok lib s \<longleftrightarrow> validate_config (pd_config (ds_producer s)) = Inr () \<and> flight_ok lib s \<and> writer_ok s \<and> bus_ok (ds_bus s) \<and>
     pd_free (ds_producer s) + held_bytes s = queue_max_bytes (pd_config (ds_producer s)) \<and>
     length (pd_queue (ds_producer s)) \<le> queue_max_events (pd_config (ds_producer s))"

lemma in_sequence_snoc:
  "in_sequence n es \<Longrightarrow> 0 < n \<Longrightarrow> ae_sequence e = n \<Longrightarrow> in_sequence (n + 1) (es @ [e])"
  by (auto simp: in_sequence_def sorted_wrt_append list_all_iff)

lemma in_sequence_mono: "in_sequence n es \<Longrightarrow> n \<le> m \<Longrightarrow> in_sequence m es"
  by (auto simp: in_sequence_def list_all_iff)

lemma in_sequence_append: "in_sequence n (es @ fs) \<Longrightarrow> in_sequence n es"
  by (simp add: in_sequence_def sorted_wrt_append)

lemma flight_keep:
  assumes ok: "flight_ok lib s" and fl: "flight s = flight s' @ rest" and p: "kept_producer (ds_producer s) (ds_producer s')"
    and t: "pd_sealed (ds_producer s') \<or> ds_terminal s' = None"
  shows "flight_ok lib s'"
proof -
  have "list_all ordinary (butlast (flight s'))" if "list_all ordinary (butlast (flight s' @ rest))"
    using that by (auto simp: butlast_append split: if_splits dest: in_set_butlastD simp: list_all_iff)
  moreover have "list_all ordinary (butlast (flight s'))" if "list_all ordinary (flight s')"
    using that by (auto simp: list_all_iff dest: in_set_butlastD)
  moreover have "in_sequence (pd_next (ds_producer s')) (flight s')"
    using ok p in_sequence_mono in_sequence_append unfolding flight_ok_def fl kept_producer_def by blast
  ultimately show ?thesis using ok p t unfolding flight_ok_def fl kept_producer_def by (auto split: if_splits)
qed

lemma flight_add:
  assumes ok: "flight_ok lib s" and fl: "flight s' = flight s @ [e]" and open_stream: "\<not> pd_sealed (ds_producer s)"
    and p: "kept_producer (ds_producer s) (ds_producer s')" "pd_next (ds_producer s') = pd_next (ds_producer s) + 1"
    and e: "ae_sequence e = pd_next (ds_producer s)" "entry_valid lib (pd_config (ds_producer s)) e"
    and t: "pd_sealed (ds_producer s') \<or> ordinary e \<and> ds_terminal s' = None"
  shows "flight_ok lib s'"
proof -
  have "in_sequence (pd_next (ds_producer s')) (flight s')"
    unfolding fl p(2) using ok e(1) by (intro in_sequence_snoc) (auto simp: flight_ok_def)
  then show ?thesis using ok open_stream p(1) e(2) t unfolding flight_ok_def fl kept_producer_def by (auto split: if_splits)
qed

lemma batch_bytes_exact: "payloads es < u64_max \<Longrightarrow> batch_bytes es = payloads es"
proof (induction es rule: rev_induct)
  case (snoc e es)
  then have "batch_bytes (es @ [e]) = saturating_add (payloads es) (ae_payload_bytes e)" by (simp add: batch_bytes_def)
  then show ?case using snoc.prems by (simp add: saturating_add_def)
qed (simp add: batch_bytes_def)

lemma batch_extend:
  assumes "batch_ok c es" "length es < batch_max_events c" "fits_batch c es (EventCommand e)" "payloads es < u64_max" "batch_max_bytes c < u64_max"
  shows "batch_ok c (es @ [e])"
proof -
  have "payloads es + ae_payload_bytes e \<le> batch_max_bytes c"
    using assms(3,5) by (auto simp: fits_batch_def batch_bytes_exact [OF assms(4)] saturating_add_def min_def split: if_splits)
  then show ?thesis using assms(1,2) by (simp add: batch_ok_def)
qed

lemma config_batch:
  assumes "validate_config c = Inr ()"
  shows "batch_max_bytes c < u64_max" "queue_max_bytes c < u64_max" "batch_max_events c \<le> jc_max_events_per_run c" "1 \<le> batch_max_events c"
    "jc_max_event_bytes c \<le> jc_max_bytes_per_run c" "batch_max_bytes c \<le> jc_max_bytes_per_run c"
  using assms by (auto simp: validate_config_def rust_result validate_range_def batch_max_bytes_def queue_max_bytes_def batch_max_events_def u64_max_def)

lemma emit_producer:
  assumes "emit lib e (b, Some p) = Some (b', Some p')" "bus_ok b"
  shows "bus_ok b' \<and> p' = enqueue lib (prepare lib (pd_flow p) (pd_run_id p) (bound_event lib (eb_max_event_bytes b) e)) p"
  using assms emit_ok [OF assms(2), of lib e "Some p"] by (auto simp: emit_def Let_def bus_gains_def)

lemma terminal_producer:
  assumes "emit_terminal lib e (b, Some p) = Some (r, b', Some p')" "bus_ok b"
  shows "bus_ok b' \<and> reserve_terminal lib (prepare lib (pd_flow p) (pd_run_id p) (bound_event lib (eb_max_event_bytes b) e)) p = (r, p')"
  using assms(1)
    publish_ok [OF assms(2), of "estimate_event_size lib (bound_event lib (eb_max_event_bytes b) e)" "bound_event lib (eb_max_event_bytes b) e"]
  by (cases "reserve_terminal lib (prepare lib (pd_flow p) (pd_run_id p) (bound_event lib (eb_max_event_bytes b) e)) p")
    (auto simp: emit_terminal_def Let_def)

lemma bounded_ordinary:
  assumes "event_type e \<noteq> ''run_complete''"
  shows "event_type (bound_event lib m e) \<noteq> ''run_complete''"
proof -
  have "event_type (truncate_fields n e) = event_type e" for n by (cases e) simp_all
  then show ?thesis using assms by (simp add: bound_event_def Let_def omitted_event_def)
qed

lemma prepared_type: "prepare lib flow i e = Some pe \<Longrightarrow> pe_event_type pe = event_type e"
  by (auto simp: prepare_def Let_def split: sum.splits if_splits)

lemmas flight_parts = flight_def carried_entries_def waiting_terminal_def

lemma sys_producer:
  assumes ok: "sys_ok lib s" and fl: "flight_ok lib s'" and w: "ds_writer s' = ds_writer s" "ds_log s' = ds_log s" "bus_ok (ds_bus s')"
    and c: "pd_config (ds_producer s') = pd_config (ds_producer s)"
    and bytes: "pd_free (ds_producer s') + held_bytes s' = pd_free (ds_producer s) + held_bytes s"
    and q: "length (pd_queue (ds_producer s')) \<le> queue_max_events (pd_config (ds_producer s))"
  shows "sys_ok lib s'"
  using assms by (auto simp: sys_ok_def writer_ok_def split: writer_phase.splits)

lemma emitted_ok:
  assumes ok: "sys_ok lib s" and e: "event_type e \<noteq> ''run_complete''" and run: "emit lib e (ds_bus s, Some (ds_producer s)) = Some (b, Some p)"
  shows "sys_ok lib (s\<lparr>ds_bus := b, ds_producer := p\<rparr>)"
proof -
  let ?s' = "s\<lparr>ds_bus := b, ds_producer := p\<rparr>"
  let ?e = "bound_event lib (eb_max_event_bytes (ds_bus s)) e"
  let ?pe = "prepare lib (pd_flow (ds_producer s)) (pd_run_id (ds_producer s)) ?e"
  have b: "bus_ok b" and p: "p = enqueue lib ?pe (ds_producer s)" using emit_producer [OF run] ok by (auto simp: sys_ok_def)
  have fl: "flight_ok lib s" using ok by (simp add: sys_ok_def)
  consider "unqueued (ds_producer s) p"
    | pe' a where "?pe = Some pe'" "queued_with lib (ds_producer s) a p" "ae_event_type a = pe_event_type pe'"
    using enqueue_result [of "ds_producer s" lib ?pe] unfolding p by blast
  then show ?thesis
  proof cases
    case 1
    then have "flight_ok lib ?s'"
      using fl by (intro flight_keep [OF fl, where rest = "[]"]) (auto simp: flight_parts unqueued_def flight_ok_def kept_producer_def split: if_splits)
    then show ?thesis
      using 1 ok b by (intro sys_producer [OF ok]) (auto simp: unqueued_def kept_producer_def held_bytes_def sys_ok_def)
  next
    case 2
    then have q: "\<not> pd_sealed (ds_producer s)" "ordinary a" "ds_terminal s = None"
      using fl prepared_type bounded_ordinary [OF e] by (auto simp: queued_with_def ordinary_def flight_ok_def split: if_splits)
    then have "flight_ok lib ?s'"
      using 2(2) by (intro flight_add [OF fl, where e = a]) (auto simp: flight_parts queued_with_def)
    then show ?thesis using 2(2) ok b q
      by (intro sys_producer [OF ok]) (auto simp: queued_with_def kept_producer_def held_bytes_def sys_ok_def)
  qed
qed

lemma terminal_reserved_ok:
  assumes ok: "sys_ok lib s" and run: "emit_terminal lib e (ds_bus s, Some (ds_producer s)) = Some (r, b, Some p)"
  shows "sys_ok lib (s\<lparr>ds_bus := b, ds_producer := p, ds_terminal := (case r of None \<Rightarrow> ds_terminal s | Some t \<Rightarrow> Some (t, False))\<rparr>)"
proof -
  let ?s' = "s\<lparr>ds_bus := b, ds_producer := p, ds_terminal := (case r of None \<Rightarrow> ds_terminal s | Some t \<Rightarrow> Some (t, False))\<rparr>"
  have b: "bus_ok b" and fl: "flight_ok lib s" using terminal_producer [OF run] ok by (auto simp: sys_ok_def)
  have p: "pd_queue p = pd_queue (ds_producer s)" "pd_free p = pd_free (ds_producer s)" "kept_producer (ds_producer s) p"
    and t: "\<And>a. r = Some a \<Longrightarrow> \<not> pd_sealed (ds_producer s) \<and> pd_sealed p \<and> entry_valid lib (pd_config (ds_producer s)) a \<and>
      ae_sequence a = pd_next (ds_producer s) \<and> pd_next p = pd_next (ds_producer s) + 1"
    using terminal_producer [OF run] ok reserve_terminal_result [of lib _ "ds_producer s" r p] by (auto simp: sys_ok_def)
  have sealed: "pd_sealed (ds_producer s) \<or> ds_terminal s = None" using fl by (auto simp: flight_ok_def split: if_splits)
  have "flight_ok lib ?s'"
  proof (cases r)
    case None
    then show ?thesis using p sealed
      by (intro flight_keep [OF fl, where rest = "[]"]) (auto simp: flight_parts kept_producer_def)
  next
    case (Some a)
    then show ?thesis using p t [OF Some] sealed by (intro flight_add [OF fl, where e = a]) (auto simp: flight_parts)
  qed
  then show ?thesis using ok b p t sealed
    by (intro sys_producer [OF ok]) (auto simp: held_bytes_def sys_ok_def kept_producer_def split: option.splits)
qed

lemma sys_same_flight:
  assumes ok: "sys_ok lib s" and fl: "flight s = flight s' @ rest" and b: "ds_bus s' = ds_bus s"
    and p: "kept_producer (ds_producer s) (ds_producer s')" "pd_sealed (ds_producer s') \<or> ds_terminal s' = None"
    and w: "writer_ok s'" and bytes: "pd_free (ds_producer s') + held_bytes s' = pd_free (ds_producer s) + held_bytes s"
    and q: "length (pd_queue (ds_producer s')) \<le> queue_max_events (pd_config (ds_producer s))"
  shows "sys_ok lib s'"
proof -
  have "flight_ok lib s'" using ok by (intro flight_keep [OF _ fl p]) (simp add: sys_ok_def)
  then show ?thesis using assms by (auto simp: sys_ok_def kept_producer_def)
qed

lemma waiting_sealed: "sys_ok lib s \<Longrightarrow> pd_sealed (ds_producer s) \<or> ds_terminal s = None"
  by (auto simp: sys_ok_def flight_ok_def split: if_splits)

lemma terminal_batch_last:
  assumes ok: "sys_ok lib s" and w: "wr_phase (ds_writer s) = Appending" "terminal_batch (wr_batch (ds_writer s))"
  shows "carried_entries (ds_writer s) = [] \<and> queued_entries (pd_queue (ds_producer s)) = [] \<and> ds_terminal s = None"
proof -
  let ?rest = "carried_entries (ds_writer s) @ queued_entries (pd_queue (ds_producer s)) @ waiting_terminal s"
  have log: "ds_log s \<noteq> []" "wr_batch (ds_writer s) = last (ds_log s)" using ok w(1) by (auto simp: sys_ok_def writer_ok_def)
  have "flight s = concat (ds_log s) @ ?rest" using w(1) by (simp add: flight_def)
  moreover obtain e where e: "e \<in> set (concat (ds_log s))" "\<not> ordinary e"
    using w(2) log last_in_set [OF log(1)] by (fastforce simp: terminal_batch_def list_ex_iff ordinary_def)
  moreover have "list_all ordinary (butlast (flight s))"
    using ok by (auto simp: sys_ok_def flight_ok_def list_all_iff dest: in_set_butlastD split: if_splits)
  ultimately have "?rest = []" by (auto simp: butlast_append list_all_iff split: if_splits)
  then show ?thesis by (auto simp: waiting_terminal_def split: option.splits)
qed

lemma durable_step_ok: "durable_step lib s s' \<Longrightarrow> sys_ok lib s \<Longrightarrow> sys_ok lib s'"
proof (induction rule: durable_step.induct)
  case (emitted e s b p)
  then show ?case by (intro emitted_ok)
next
  case (flush_reserved s p)
  then show ?case using waiting_sealed [OF flush_reserved(2)]
    by (intro sys_same_flight [OF flush_reserved(2), where rest = "[]"])
      (auto simp: reserve_flush_def flight_parts kept_producer_def held_bytes_def sys_ok_def writer_ok_def split: if_splits writer_phase.splits)
next
  case (flush_sent s)
  then show ?case using waiting_sealed [OF flush_sent(5)]
    by (intro sys_same_flight [OF flush_sent(5), where rest = "[]"])
      (auto simp: flight_parts kept_producer_def held_bytes_def sys_ok_def writer_ok_def split: writer_phase.splits)
next
  case (flush_released s)
  then show ?case using waiting_sealed [OF flush_released]
    by (intro sys_same_flight [OF flush_released, where rest = "[]"])
      (auto simp: flight_parts kept_producer_def held_bytes_def sys_ok_def writer_ok_def split: writer_phase.splits)
next
  case (terminal_reserved e s r b p)
  then show ?case by (intro terminal_reserved_ok)
next
  case (terminal_permit s t)
  then show ?case using waiting_sealed [OF terminal_permit(4)]
    by (intro sys_same_flight [OF terminal_permit(4), where rest = "[]"])
      (auto simp: flight_parts kept_producer_def held_bytes_def sys_ok_def writer_ok_def split: writer_phase.splits)
next
  case (terminal_sent s t)
  then show ?case using waiting_sealed [OF terminal_sent(4)]
    by (intro sys_same_flight [OF terminal_sent(4), where rest = "[]"])
      (auto simp: flight_parts kept_producer_def held_bytes_def sys_ok_def writer_ok_def split: writer_phase.splits)
next
  case (terminal_given_up s t held)
  then show ?case using waiting_sealed [OF terminal_given_up(2)]
    by (intro sys_same_flight [OF terminal_given_up(2), where rest = "[t]"])
      (auto simp: flight_parts kept_producer_def held_bytes_def sys_ok_def writer_ok_def split: writer_phase.splits)
next
  case (received s c q)
  then show ?case using waiting_sealed [OF received(4)] config_batch [of "pd_config (ds_producer s)"]
    by (intro sys_same_flight [OF received(4), where rest = "[]"]; cases c)
      (auto simp: flight_parts kept_producer_def held_bytes_def sys_ok_def writer_ok_def take_command_def batch_ok_def)
next
  case (resumed s c)
  then show ?case using waiting_sealed [OF resumed(3)] config_batch [of "pd_config (ds_producer s)"]
    by (intro sys_same_flight [OF resumed(3), where rest = "[]"]; cases c)
      (auto simp: flight_parts kept_producer_def held_bytes_def sys_ok_def writer_ok_def take_command_def batch_ok_def)
next
  case (batched s e q)
  then have "batch_ok (pd_config (ds_producer s)) (wr_batch (ds_writer s) @ [e])"
    using config_batch [of "pd_config (ds_producer s)"] by (intro batch_extend) (auto simp: sys_ok_def writer_ok_def held_bytes_def)
  then show ?case using waiting_sealed [OF batched(5)] batched
    by (intro sys_same_flight [OF batched(5), where rest = "[]"])
      (auto simp: flight_parts kept_producer_def held_bytes_def sys_ok_def writer_ok_def)
next
  case (carried s c q)
  then show ?case using waiting_sealed [OF carried(5)]
    by (intro sys_same_flight [OF carried(5), where rest = "[]"]; cases c)
      (auto simp: flight_parts kept_producer_def held_bytes_def sys_ok_def writer_ok_def)
next
  case (filled s)
  then show ?case using waiting_sealed [OF filled(3)]
    by (intro sys_same_flight [OF filled(3), where rest = "[]"])
      (auto simp: flight_parts kept_producer_def held_bytes_def sys_ok_def writer_ok_def)
next
  case (appended s ok)
  then show ?case using waiting_sealed [OF appended(3)]
    by (intro sys_same_flight [OF appended(3), where rest = "[]"])
      (auto simp: flight_parts kept_producer_def held_bytes_def sys_ok_def writer_ok_def payloads_def)
next
  case (completed s ok)
  have rest: "carried_entries (ds_writer s) = []" "queued_entries (pd_queue (ds_producer s)) = []" "ds_terminal s = None"
    using terminal_batch_last [OF completed(3,1,2)] by simp_all
  then show ?case using completed
    by (intro sys_same_flight [OF completed(3), where rest = "[]"])
      (auto simp: flight_parts kept_producer_def held_bytes_def sys_ok_def writer_ok_def payloads_def split: option.splits)
qed

lemma durable_step_config: "durable_step lib s s' \<Longrightarrow> bus_ok (ds_bus s) \<Longrightarrow> pd_config (ds_producer s') = pd_config (ds_producer s)"
proof (induction rule: durable_step.induct)
  case (emitted e s b p)
  then show ?case using emit_producer [OF emitted(2,3)] enqueue_result [of "ds_producer s" lib] by (auto simp: unqueued_def queued_with_def kept_producer_def)
next
  case (terminal_reserved e s r b p)
  then show ?case using terminal_producer [OF terminal_reserved] reserve_terminal_result by (fastforce simp: kept_producer_def)
qed (auto simp: reserve_flush_def split: if_splits)

lemma durable_run_ok:
  "(durable_step lib)\<^sup>*\<^sup>* s s' \<Longrightarrow> sys_ok lib s \<Longrightarrow> sys_ok lib s' \<and> pd_config (ds_producer s') = pd_config (ds_producer s)"
proof (induction rule: rtranclp_induct)
  case (step t u)
  then show ?case using durable_step_ok [OF step(2)] durable_step_config [OF step(2)] by (auto simp: sys_ok_def)
qed simp

section \<open>Batches given to the store\<close>

lemma batch_entries_accepted:
  assumes "list_all (\<lambda>e. validate_append_entry ser m e = Inr ()) es" "sorted_wrt (<) (map ae_sequence es)" "list_all (\<lambda>e. n < ae_sequence e) es"
    "t + payloads es \<le> u64_max"
  shows "validate_batch_entries ser m n t es = Inr (t + payloads es)"
  using assms
proof (induction es arbitrary: n t)
  case (Cons e es)
  have "list_all (\<lambda>a. ae_sequence e < ae_sequence a) es" using Cons.prems(2) by (simp add: list_all_iff)
  then have "validate_batch_entries ser m (ae_sequence e) (t + ae_payload_bytes e) es = Inr (t + ae_payload_bytes e + payloads es)"
    using Cons.prems by (intro Cons.IH) auto
  then show ?case using Cons.prems by (simp add: checked_add_def)
qed simp

lemma entry_valid_bytes: "entry_valid lib c e \<Longrightarrow> ae_payload_bytes e \<le> jc_max_event_bytes c"
  by (auto simp: entry_valid_def validate_append_entry_def rust_result)

lemma batch_accepted:
  assumes c: "validate_config c = Inr ()" and b: "batch_ok c es" and seq: "in_sequence n es" and es: "list_all (entry_valid lib c) es"
    and names: "validate_run_id i = Inr ()" "validate_flow flow = Inr ()" "validate_owner_instance_id owner = Inr ()"
  shows "validate_batch (el_ser lib) c \<lparr>ab_run_id = i, ab_flow = flow, ab_owner = owner, ab_entries = es\<rparr> = Inr ()"
proof -
  note cfg = config_batch [OF c]
  have "payloads es \<le> jc_max_bytes_per_run c"
  proof (cases "payloads es \<le> batch_max_bytes c")
    case False
    then obtain e where "es = [e]" using b by (auto simp: batch_ok_def length_Suc_conv)
    then show ?thesis using es entry_valid_bytes [of lib c e] cfg(5) by simp
  qed (use cfg(6) in simp)
  moreover have "jc_max_bytes_per_run c \<le> u64_max"
    using c by (auto simp: validate_config_def rust_result validate_range_def u64_max_def)
  ultimately have "validate_batch_entries (el_ser lib) (jc_max_event_bytes c) 0 0 es = Inr (payloads es)" "payloads es \<le> jc_max_bytes_per_run c"
    using es seq batch_entries_accepted [of "el_ser lib" "jc_max_event_bytes c" es 0 0]
    by (auto simp: in_sequence_def list_all_iff entry_valid_def)
  then show ?thesis using c names b cfg(3) by (simp add: validate_batch_def batch_ok_def ensure_def)
qed

definition start_sys :: "event_bus \<Rightarrow> producer \<Rightarrow> durable_sys" where
  "start_sys bus p = \<lparr>ds_bus = bus, ds_producer = p,
     ds_writer = \<lparr>wr_phase = WriterIdle, wr_batch = [], wr_carried = None, wr_failed = False\<rparr>,
     ds_terminal = None, ds_flush_sent = False, ds_flushes = 0, ds_answers = [], ds_log = [], ds_results = []\<rparr>"

lemma start_ok: "start_producer c flow i = Some p \<Longrightarrow> sys_ok lib (start_sys (new_bus ring env capacity) p) \<and> pd_config p = c"
  using new_bus_ok
  by (auto simp: start_producer_def start_sys_def sys_ok_def flight_ok_def writer_ok_def flight_parts held_bytes_def in_sequence_def split: if_splits)

text \<open>
  C35. Under every interleaving of publishers, callers that flush or finish, and the writer task,
  with timeouts anywhere: every batch that the writer gives to the store passes the validation of
  appends; the sequence numbers of all batches together strictly increase, so that the journal
  never sees a number twice or out of order; nothing follows \<open>run_complete\<close>; and what waits between
  publishers and the store never exceeds the queue's limits on events and bytes, with no permit lost.
\<close>

theorem durable_batches_in_order:
  assumes start: "start_producer c flow run_id = Some p" and run: "(durable_step lib)\<^sup>*\<^sup>* (start_sys (new_bus ring env capacity) p) s"
    and names: "validate_run_id run_id = Inr ()" "validate_flow flow = Inr ()" "validate_owner_instance_id owner = Inr ()"
  shows "list_all (\<lambda>b. validate_batch (el_ser lib) c \<lparr>ab_run_id = run_id, ab_flow = flow, ab_owner = owner, ab_entries = b\<rparr> = Inr ()) (ds_log s) \<and>
    sorted_wrt (<) (map ae_sequence (concat (ds_log s))) \<and> list_all ordinary (butlast (concat (ds_log s))) \<and>
    length (pd_queue (ds_producer s)) \<le> queue_max_events c \<and> pd_free (ds_producer s) + held_bytes s = queue_max_bytes c"
proof -
  have ok: "sys_ok lib s" and c: "pd_config (ds_producer s) = c"
    using durable_run_ok [OF run] start_ok [OF start] by (auto simp: start_sys_def)
  obtain rest where fl: "flight s = concat (ds_log s) @ rest" by (simp add: flight_def)
  have f: "in_sequence (pd_next (ds_producer s)) (concat (ds_log s))" "list_all (entry_valid lib c) (concat (ds_log s))"
    using ok c unfolding sys_ok_def flight_ok_def fl by (auto intro: in_sequence_append)
  have "in_sequence (pd_next (ds_producer s)) b" if b: "b \<in> set (ds_log s)" for b
  proof -
    obtain xs ys where "ds_log s = xs @ b # ys" using split_list [OF b] by blast
    then show ?thesis using f(1) by (simp add: in_sequence_def sorted_wrt_append)
  qed
  moreover have "list_all (entry_valid lib c) b" if "b \<in> set (ds_log s)" for b using f(2) that by (auto simp: list_all_iff)
  moreover have "validate_config c = Inr ()" "list_all (batch_ok c) (ds_log s)" using ok c by (auto simp: sys_ok_def writer_ok_def)
  ultimately have "list_all (\<lambda>b. validate_batch (el_ser lib) c \<lparr>ab_run_id = run_id, ab_flow = flow, ab_owner = owner, ab_entries = b\<rparr> = Inr ()) (ds_log s)"
    unfolding list_all_iff [of _ "ds_log s"] using names batch_accepted by blast
  moreover have "list_all ordinary (butlast (concat (ds_log s)))"
    using ok unfolding sys_ok_def flight_ok_def fl
    by (auto simp: butlast_append list_all_iff split: if_splits dest: in_set_butlastD)
  ultimately show ?thesis using f(1) ok c by (auto simp: in_sequence_def sys_ok_def)
qed

definition bus_lib :: event_lib where
  "bus_lib = \<lparr>el_size = (\<lambda>_. Some 10), el_f64 = (\<lambda>_. JNull), el_usage = (\<lambda>_. JNull), el_ser = (\<lambda>_. Inr ''{log}'')\<rparr>"

abbreviation demo_bus :: event_bus where
  "demo_bus \<equiv> new_bus (\<lambda>n. n) (\<lambda>_. NotPresent) 256"

definition bus_producer :: producer where
  "bus_producer = \<lparr>pd_queue = [], pd_free = 1048576, pd_closed = False, pd_next = 1, pd_sealed = False, pd_flush = False,
     pd_dropped = 0, pd_config = default_journal_config, pd_flow = ''flow'', pd_run_id = ''r''\<rparr>"

definition bus_entry :: append_entry where
  "bus_entry = \<lparr>ae_sequence = 1, ae_event_type = ''log'', ae_payload = event_json bus_lib (LogEvent ''info'' ''hello''), ae_payload_bytes = 5\<rparr>"

lemma bus_start: "start_producer default_journal_config ''flow'' ''r'' = Some bus_producer"
  using demo_config_valid demo_timing by (simp add: start_producer_def bus_producer_def queue_max_bytes_def demo_limits)

lemma bus_emit:
  "\<exists>b. emit bus_lib (LogEvent ''info'' ''hello'') (demo_bus, Some bus_producer) =
     Some (b, Some (bus_producer\<lparr>pd_next := 2, pd_free := 1048571, pd_queue := [EventCommand bus_entry]\<rparr>))"
proof -
  have lim: "1024 \<le> eb_max_event_bytes demo_bus" using bus_env_range [of 1024 262144 16777216] by (simp add: new_bus_parts)
  then have e: "bound_event bus_lib (eb_max_event_bytes demo_bus) (LogEvent ''info'' ''hello'') = LogEvent ''info'' ''hello''"
    by (simp add: bound_event_def estimate_event_size_def bus_lib_def u64_max_def)
  have pe: "prepare bus_lib ''flow'' ''r'' (LogEvent ''info'' ''hello'') =
      Some \<lparr>pe_event_type = ''log'', pe_payload = event_json bus_lib (LogEvent ''info'' ''hello''), pe_bytes = 5\<rparr>"
    by (simp add: prepare_def bus_lib_def u64_max_def)
  have "prepared_entry bus_lib p 1 \<lparr>pe_event_type = ''log'', pe_payload = event_json bus_lib (LogEvent ''info'' ''hello''), pe_bytes = 5\<rparr> = Some bus_entry"
    if "pd_config p = default_journal_config" for p
    by (simp add: prepared_entry_def new_append_entry_def serialized_json_size_def bus_lib_def bus_entry_def that demo_limits u64_max_def
        validate_append_entry_def validate_sequence_def validate_event_type_def validate_payload_event_type_def event_json_def json_get_def
        as_str_def ensure_def is_ascii_digit_def byte_def)
  then have "enqueue bus_lib (prepare bus_lib ''flow'' ''r'' (LogEvent ''info'' ''hello'')) bus_producer =
      bus_producer\<lparr>pd_next := 2, pd_free := 1048571, pd_queue := [EventCommand bus_entry]\<rparr>"
    by (simp add: pe enqueue_def allocate_sequence_def checked_add_def u64_max_def bus_producer_def queue_max_events_def demo_limits)
  then show ?thesis
    using emit_ok [OF new_bus_ok, of bus_lib "LogEvent ''info'' ''hello''" "\<lambda>n. n" "\<lambda>_. NotPresent" 256 "Some bus_producer"]
    by (auto simp: emit_def Let_def e bus_producer_def)
qed

theorem late_subscriber_told_exactly_witness:
  "channel_capacity (\<lambda>_. NotPresent) 256 = 16 \<and> keeps_up 16 [Publishes (MemorySet ''a''), Publishes (MemorySet ''b''), Receives, Receives] 0 \<and>
   (\<exists>b d b' d' pos told. emit_all bus_lib [MemorySet ''c''] (demo_bus, None) = Some (b, d) \<and>
     subscriber_run bus_lib [Publishes (MemorySet ''a''), Publishes (MemorySet ''b''), Receives, Receives] (b, d) 1 = Some ((b', d'), pos, told) \<and>
     told = [GotEvent (MemorySet ''a''), GotEvent (MemorySet ''b'')] \<and> no_lag told)"
proof -
  let ?ops = "[Publishes (MemorySet ''a''), Publishes (MemorySet ''b''), Receives, Receives]"
  have cap: "channel_capacity (\<lambda>_. NotPresent) 256 = 16"
    by (simp add: channel_capacity_def env_replay_bytes_def env_event_bytes_def bus_env_def env_ok_def)
  have up: "keeps_up 16 ?ops 0" by (simp add: numeral_eq_Suc)
  have bound: "bound_event bus_lib (eb_max_event_bytes demo_bus) (MemorySet k) = MemorySet k" for k
    by (simp add: bound_event_def estimate_event_size_def bus_lib_def u64_max_def new_bus_parts bus_env_def env_ok_def)
  obtain b d b' d' pos behind told where out: "emit_all bus_lib [MemorySet ''c''] (demo_bus, None) = Some (b, d)"
    "subscriber_run bus_lib ?ops (b, d) (length [MemorySet ''c'']) = Some ((b', d'), pos, told)"
    "mailbox_run (channel_capacity (\<lambda>_. NotPresent) 256) (bound_event bus_lib (eb_max_event_bytes demo_bus)) ?ops [] = (behind, told)"
    "channel_capacity (\<lambda>_. NotPresent) 256 \<le> channel_capacity (\<lambda>_. NotPresent) 256 \<longrightarrow>
      keeps_up (channel_capacity (\<lambda>_. NotPresent) 256) ?ops 0 \<longrightarrow> no_lag told"
    using late_subscriber_told_exactly [of bus_lib "[MemorySet ''c'']" "\<lambda>n. n" "\<lambda>_. NotPresent" 256 None ?ops] by blast
  have "told = [GotEvent (MemorySet ''a''), GotEvent (MemorySet ''b'')]" using out(3) by (simp add: bound cap)
  then show ?thesis using out(1,2,4) up cap by simp
qed

theorem durable_batches_in_order_witness:
  "\<exists>s. (durable_step bus_lib)\<^sup>*\<^sup>* (start_sys demo_bus bus_producer) s \<and> ds_log s = [[bus_entry]] \<and>
     validate_batch (el_ser bus_lib) default_journal_config \<lparr>ab_run_id = ''r'', ab_flow = ''flow'', ab_owner = ''node'', ab_entries = [bus_entry]\<rparr> = Inr ()"
proof -
  let ?s0 = "start_sys demo_bus bus_producer"
  obtain b where em: "emit bus_lib (LogEvent ''info'' ''hello'') (ds_bus ?s0, Some (ds_producer ?s0)) =
     Some (b, Some (bus_producer\<lparr>pd_next := 2, pd_free := 1048571, pd_queue := [EventCommand bus_entry]\<rparr>))"
    using bus_emit by (auto simp: start_sys_def)
  let ?s1 = "?s0\<lparr>ds_bus := b, ds_producer := bus_producer\<lparr>pd_next := 2, pd_free := 1048571, pd_queue := [EventCommand bus_entry]\<rparr>\<rparr>"
  let ?s2 = "?s1\<lparr>ds_producer := (ds_producer ?s1)\<lparr>pd_queue := []\<rparr>, ds_writer := take_command (EventCommand bus_entry) (ds_writer ?s1),
    ds_answers := ds_answers ?s1 @ flush_answer (EventCommand bus_entry) (ds_writer ?s1)\<rparr>"
  let ?s3 = "?s2\<lparr>ds_writer := (ds_writer ?s2)\<lparr>wr_phase := Appending\<rparr>, ds_log := ds_log ?s2 @ [wr_batch (ds_writer ?s2)]\<rparr>"
  have "durable_step bus_lib ?s0 ?s1" by (rule durable_step.emitted [OF _ em]) simp
  moreover have "durable_step bus_lib ?s1 ?s2" by (rule durable_step.received) (simp_all add: start_sys_def)
  moreover have "durable_step bus_lib ?s2 ?s3" by (rule durable_step.filled) (simp_all add: take_command_def)
  ultimately have run: "(durable_step bus_lib)\<^sup>*\<^sup>* ?s0 ?s3" by (meson converse_rtranclp_into_rtranclp rtranclp.rtrancl_refl)
  have log: "ds_log ?s3 = [[bus_entry]]" by (simp add: start_sys_def take_command_def)
  have n: "validate_run_id ''r'' = Inr ()" "validate_flow ''flow'' = Inr ()" "validate_owner_instance_id ''node'' = Inr ()"
    by (simp_all add: validate_run_id_def validate_flow_def validate_owner_instance_id_def ensure_def is_ascii_alphanumeric_def is_ascii_digit_def
        byte_def is_control_def is_cont_def)
  have "list_all (\<lambda>b. validate_batch (el_ser bus_lib) default_journal_config \<lparr>ab_run_id = ''r'', ab_flow = ''flow'', ab_owner = ''node'', ab_entries = b\<rparr> = Inr ())
      (ds_log ?s3)"
    using durable_batches_in_order [OF bus_start run n] by blast
  then have "validate_batch (el_ser bus_lib) default_journal_config \<lparr>ab_run_id = ''r'', ab_flow = ''flow'', ab_owner = ''node'', ab_entries = [bus_entry]\<rparr> = Inr ()"
    unfolding log by simp
  then show ?thesis using run log by blast
qed

end
