(* ===== verification/Event_Bus_Flush.thy ===== *)
theory Event_Bus_Flush
  imports Event_Bus_Correct
begin

text \<open>
  The barrier of \<open>flush_durable\<close> (\<open>src/src/engine/eventbus.rs\<close>): commands pass the queue in order, so a
  flush that is answered with \<open>Persisted\<close> is answered after every earlier event was stored.
\<close>

section \<open>Commands pass in order\<close>

definition carried_commands :: "writer \<Rightarrow> durable_command list" where
  "carried_commands w = (case wr_carried w of None \<Rightarrow> [] | Some c \<Rightarrow> [c])"

definition logged :: "durable_sys \<Rightarrow> durable_command list" where
  "logged s = map EventCommand (concat (ds_log s))"

definition pipeline :: "durable_sys \<Rightarrow> durable_command list" where
  "pipeline s = logged s @ (if wr_phase (ds_writer s) = Filling then map EventCommand (wr_batch (ds_writer s)) else []) @
     carried_commands (ds_writer s) @ pd_queue (ds_producer s)"

text \<open>Events that the producer accepted, in order.\<close>

definition accepted :: "durable_sys \<Rightarrow> append_entry list" where
  "accepted s = queued_entries (pipeline s)"

lemmas pipeline_parts = pipeline_def logged_def carried_commands_def

definition pipeline_grows :: "durable_sys \<Rightarrow> durable_sys \<Rightarrow> bool" where
  "pipeline_grows s s' \<longleftrightarrow> ds_answers s' = ds_answers s \<and>
     (\<exists>cs. pipeline s' = pipeline s @ cs \<and> (\<forall>m. FlushCommand m \<in> set cs \<longrightarrow> ds_flushes s \<le> m \<and> m < ds_flushes s'))"

definition flush_taken :: "durable_sys \<Rightarrow> durable_sys \<Rightarrow> bool" where
  "flush_taken s s' \<longleftrightarrow> (\<exists>n post. pipeline s = logged s @ FlushCommand n # post \<and> pipeline s' = logged s @ post \<and>
     ds_answers s' = ds_answers s @ [(n, \<not> wr_failed (ds_writer s))]) \<and> length (ds_results s) = length (ds_log s)"

definition pipeline_cut :: "durable_sys \<Rightarrow> durable_sys \<Rightarrow> bool" where
  "pipeline_cut s s' \<longleftrightarrow> ds_answers s' = ds_answers s \<and> pipeline s' = logged s"

definition results_ok :: "durable_sys \<Rightarrow> bool" where
  "results_ok s \<longleftrightarrow> length (ds_log s) = length (ds_results s) + (if wr_phase (ds_writer s) = Appending then 1 else 0) \<and>
     (list_all id (ds_results s) \<longleftrightarrow> \<not> wr_failed (ds_writer s))"

definition history_grows :: "durable_sys \<Rightarrow> durable_sys \<Rightarrow> bool" where
  "history_grows s s' \<longleftrightarrow> (\<exists>bs. ds_log s' = ds_log s @ bs) \<and> (\<exists>rs. ds_results s' = ds_results s @ rs) \<and> ds_flushes s \<le> ds_flushes s'"

lemma emit_queue:
  assumes "emit lib e (b, Some p) = Some (b', Some p')" "bus_ok b"
  shows "pd_queue p' = pd_queue p \<or> (\<exists>e. pd_queue p' = pd_queue p @ [EventCommand e])"
  using emit_producer [OF assms] enqueue_result [of p lib] by (metis unqueued_def queued_with_def)

lemma terminal_queue:
  assumes "emit_terminal lib e (b, Some p) = Some (r, b', Some p')" "bus_ok b"
  shows "pd_queue p' = pd_queue p"
  using terminal_producer [OF assms] reserve_terminal_result by metis

lemma step_history: "durable_step lib s s' \<Longrightarrow> results_ok s \<Longrightarrow> results_ok s' \<and> history_grows s s'"
  by (induction rule: durable_step.induct)
    (auto simp: results_ok_def history_grows_def take_command_def split: durable_command.splits)

lemma step_pipeline:
  "durable_step lib s s' \<Longrightarrow> sys_ok lib s \<Longrightarrow> results_ok s \<Longrightarrow> pipeline_grows s s' \<or> flush_taken s s' \<or> pipeline_cut s s'"
proof (induction rule: durable_step.induct)
  case (emitted e s b p)
  then show ?case using emit_queue [OF emitted(2)] by (auto simp: pipeline_grows_def pipeline_parts sys_ok_def)
next
  case (terminal_reserved e s r b p)
  then show ?case using terminal_queue [OF terminal_reserved(1)] by (auto simp: pipeline_grows_def pipeline_parts sys_ok_def)
next
  case (received s c q)
  then show ?case
    by (cases c) (auto simp: pipeline_grows_def flush_taken_def pipeline_parts take_command_def flush_answer_def results_ok_def)
next
  case (resumed s c)
  then show ?case
    by (cases c) (auto simp: pipeline_grows_def flush_taken_def pipeline_parts take_command_def flush_answer_def results_ok_def)
next
  case (completed s ok)
  then show ?case by (simp add: pipeline_cut_def pipeline_parts)
next
  case (carried s c q)
  then show ?case by (auto simp: pipeline_grows_def pipeline_parts sys_ok_def writer_ok_def)
next
  case (batched s e q)
  then show ?case by (auto simp: pipeline_grows_def pipeline_parts sys_ok_def writer_ok_def)
qed (auto simp: pipeline_grows_def pipeline_parts reserve_flush_def split: if_splits)

section \<open>One flush\<close>

text \<open>The first batches are exactly these entries, and appending each of them succeeded.\<close>

definition stored_first :: "append_entry list \<Rightarrow> durable_sys \<Rightarrow> bool" where
  "stored_first es s \<longleftrightarrow> (\<exists>k \<le> length (ds_results s). list_all id (take k (ds_results s)) \<and> concat (take k (ds_log s)) = es)"

definition flush_tracked :: "nat \<Rightarrow> append_entry list \<Rightarrow> durable_sys \<Rightarrow> bool" where
  "flush_tracked n es s \<longleftrightarrow> n < ds_flushes s \<and>
     ((\<exists>pre post. pipeline s = pre @ FlushCommand n # post \<and> FlushCommand n \<notin> set (pre @ post) \<and> queued_entries pre = es \<and>
        n \<notin> fst ` set (ds_answers s)) \<or>
      FlushCommand n \<notin> set (pipeline s) \<and> ((n, True) \<in> set (ds_answers s) \<longrightarrow> stored_first es s))"

lemma stored_first_grows: "stored_first es s \<Longrightarrow> results_ok s \<Longrightarrow> history_grows s s' \<Longrightarrow> stored_first es s'"
proof -
  assume st: "stored_first es s" and ok: "results_ok s" and h: "history_grows s s'"
  obtain k where k: "k \<le> length (ds_results s)" "list_all id (take k (ds_results s))" "concat (take k (ds_log s)) = es"
    using st by (auto simp: stored_first_def)
  then have "k \<le> length (ds_results s')" "take k (ds_results s') = take k (ds_results s)" "take k (ds_log s') = take k (ds_log s)"
    using ok h by (auto simp: results_ok_def history_grows_def)
  then show ?thesis using k by (auto simp: stored_first_def)
qed

lemma queued_append [simp]: "queued_entries (p @ q) = queued_entries p @ queued_entries q"
  by (simp add: queued_entries_def)

lemma queued_events [simp]: "queued_entries (map EventCommand es) = es"
  by (induction es) simp_all

lemma not_logged [simp]: "FlushCommand n \<notin> set (logged s)"
  by (auto simp: logged_def)

lemma taken_first:
  assumes eq: "logged s @ FlushCommand m # post = pre @ FlushCommand n # post'" and "m \<noteq> n"
  shows "\<exists>pre'. pre = logged s @ FlushCommand m # pre' \<and> post = pre' @ FlushCommand n # post'"
proof -
  have "us = [] \<or> hd us = FlushCommand n" if "us @ FlushCommand m # post = FlushCommand n # post'" for us
    using that by (cases us) auto
  moreover have "hd us \<noteq> FlushCommand n" if "logged s = pre @ us" "us \<noteq> []" for us
    using that not_logged [of n s] by (metis hd_in_set in_set_conv_decomp append.assoc Un_iff set_append)
  ultimately obtain us where "pre = logged s @ us" "FlushCommand m # post = us @ FlushCommand n # post'"
    using eq assms(2) unfolding append_eq_append_conv2 by (metis append_Nil append_Nil2 list.inject durable_command.inject(2))
  then show ?thesis using assms(2) by (cases us) auto
qed

lemma tracked_step:
  assumes step: "durable_step lib s s'" and ok: "sys_ok lib s" "results_ok s" and tr: "flush_tracked n es s"
  shows "flush_tracked n es s'"
proof -
  have h: "history_grows s s'" using step_history [OF step ok(2)] by simp
  have n: "n < ds_flushes s'" using tr h by (simp add: flush_tracked_def history_grows_def)
  from step_pipeline [OF step ok] consider "pipeline_grows s s'" | "flush_taken s s'" | "pipeline_cut s s'" by blast
  then show ?thesis
  proof cases
    case 1
    then obtain cs where cs: "pipeline s' = pipeline s @ cs" "FlushCommand n \<notin> set cs" "ds_answers s' = ds_answers s"
      using tr unfolding pipeline_grows_def flush_tracked_def by (metis linorder_not_less)
    then show ?thesis using tr n stored_first_grows [OF _ ok(2) h] by (fastforce simp: flush_tracked_def)
  next
    case 2
    then obtain m post where t: "pipeline s = logged s @ FlushCommand m # post" "pipeline s' = logged s @ post"
      "ds_answers s' = ds_answers s @ [(m, \<not> wr_failed (ds_writer s))]" "length (ds_results s) = length (ds_log s)"
      by (auto simp: flush_taken_def)
    show ?thesis
    proof (cases "m = n")
      case True
      then obtain pre post' where p: "pipeline s = pre @ FlushCommand n # post'" "FlushCommand n \<notin> set (pre @ post')" "queued_entries pre = es"
        "n \<notin> fst ` set (ds_answers s)" using tr t(1) by (auto simp: flush_tracked_def)
      have "pre = logged s \<and> post' = post" using p(1,2) t(1) True append_Cons_eq_iff [of "FlushCommand n" pre post' "logged s" post] by simp
      moreover from this have "stored_first es s" if "\<not> wr_failed (ds_writer s)"
        using p(3) ok(2) that t(4) by (auto simp: stored_first_def results_ok_def logged_def intro!: exI [of _ "length (ds_log s)"])
      ultimately show ?thesis using n t p(2,4) True stored_first_grows [OF _ ok(2) h] by (force simp: flush_tracked_def image_iff)
    next
      case False
      have ans: "(n, True) \<in> set (ds_answers s') \<longleftrightarrow> (n, True) \<in> set (ds_answers s)" "n \<in> fst ` set (ds_answers s') \<longleftrightarrow> n \<in> fst ` set (ds_answers s)"
        using False by (auto simp: t(3) image_iff)
      show ?thesis
      proof (cases "FlushCommand n \<in> set (pipeline s)")
        case True
        then obtain pre post' where p: "pipeline s = pre @ FlushCommand n # post'" "FlushCommand n \<notin> set (pre @ post')" "queued_entries pre = es"
          "n \<notin> fst ` set (ds_answers s)" using tr by (auto simp: flush_tracked_def)
        obtain pre' where "pre = logged s @ FlushCommand m # pre'" "post = pre' @ FlushCommand n # post'"
          using taken_first [OF _ False, of s post pre post'] p(1) t(1) by auto
        then have "pipeline s' = (logged s @ pre') @ FlushCommand n # post'" "queued_entries (logged s @ pre') = es" using p(3) t(2) by simp_all
        moreover have "FlushCommand n \<notin> set ((logged s @ pre') @ post')" using p(2) \<open>pre = _\<close> by simp
        ultimately show ?thesis using n p(4) ans unfolding flush_tracked_def by blast
      next
        case out: False
        then have "(n, True) \<in> set (ds_answers s) \<longrightarrow> stored_first es s" using tr by (auto simp: flush_tracked_def)
        moreover have "FlushCommand n \<notin> set (pipeline s')" using out t(1,2) by simp
        ultimately show ?thesis using n ans stored_first_grows [OF _ ok(2) h] by (simp add: flush_tracked_def)
      qed
    qed
  next
    case 3
    then have p: "pipeline s' = logged s" "ds_answers s' = ds_answers s" by (simp_all add: pipeline_cut_def)
    have "FlushCommand n \<notin> set (logged s)" by (auto simp: logged_def)
    moreover have "(n, True) \<in> set (ds_answers s) \<longrightarrow> stored_first es s" using tr by (force simp: flush_tracked_def image_iff)
    ultimately show ?thesis using n p stored_first_grows [OF _ ok(2) h] by (simp add: flush_tracked_def)
  qed
qed

text \<open>Numbers of flushes are never used twice.\<close>

definition flushes_fresh :: "durable_sys \<Rightarrow> bool" where
  "flushes_fresh s \<longleftrightarrow> (\<forall>m. FlushCommand m \<in> set (pipeline s) \<longrightarrow> m < ds_flushes s) \<and> (\<forall>a \<in> set (ds_answers s). fst a < ds_flushes s)"

lemma fresh_step:
  assumes step: "durable_step lib s s'" and ok: "sys_ok lib s" "results_ok s" and fr: "flushes_fresh s"
  shows "flushes_fresh s'"
proof -
  have "ds_flushes s \<le> ds_flushes s'" using step_history [OF step ok(2)] by (simp add: history_grows_def)
  then have old: "(\<forall>m. FlushCommand m \<in> set (pipeline s) \<longrightarrow> m < ds_flushes s') \<and> (\<forall>a \<in> set (ds_answers s). fst a < ds_flushes s')"
    using fr unfolding flushes_fresh_def by (meson less_le_trans)
  from step_pipeline [OF step ok] consider "pipeline_grows s s'" | "flush_taken s s'" | "pipeline_cut s s'" by blast
  then show ?thesis
  proof cases
    case 1
    then show ?thesis using old by (auto simp: pipeline_grows_def flushes_fresh_def)
  next
    case 2
    then show ?thesis using old not_logged [of _ s] by (auto simp: flush_taken_def flushes_fresh_def)
  next
    case 3
    then show ?thesis using old not_logged [of _ s] by (auto simp: pipeline_cut_def flushes_fresh_def)
  qed
qed

lemma run_fresh:
  assumes "(durable_step lib)\<^sup>*\<^sup>* s s'" "sys_ok lib s" "results_ok s" "flushes_fresh s"
  shows "sys_ok lib s' \<and> results_ok s' \<and> flushes_fresh s'"
  using assms by induction (auto intro: durable_step_ok fresh_step dest: step_history)

lemma run_tracked:
  assumes "(durable_step lib)\<^sup>*\<^sup>* s s'" "sys_ok lib s" "results_ok s" "flush_tracked n es s"
  shows "flush_tracked n es s' \<and> sys_ok lib s' \<and> results_ok s'"
  using assms by induction (auto intro: durable_step_ok tracked_step dest: step_history)

lemma start_fresh: "start_producer c flow i = Some p \<Longrightarrow> results_ok (start_sys (new_bus ring env capacity) p) \<and> flushes_fresh (start_sys (new_bus ring env capacity) p)"
  by (auto simp: start_producer_def start_sys_def results_ok_def flushes_fresh_def pipeline_parts split: if_splits)

lemma flush_sent_pipeline:
  assumes "durable_step lib s s'" "ds_flushes s' = ds_flushes s + 1"
  shows "pipeline s' = pipeline s @ [FlushCommand (ds_flushes s)] \<and> ds_answers s' = ds_answers s"
  using assms by (cases rule: durable_step.cases) (auto simp: pipeline_parts)

text \<open>
  C36. A flush that is answered with \<open>Persisted\<close> is a barrier, under every interleaving and with any
  other flushes before, after and in between: all events that had been accepted when its command
  was sent, in their order and nothing else, are the entries of batches whose append succeeded.
\<close>

theorem flush_persists_earlier_events:
  assumes start: "start_producer c flow run_id = Some p" and before: "(durable_step lib)\<^sup>*\<^sup>* (start_sys (new_bus ring env capacity) p) s0"
    and sent: "durable_step lib s0 s1" "ds_flushes s1 = ds_flushes s0 + 1"
    and after: "(durable_step lib)\<^sup>*\<^sup>* s1 s" and answer: "(ds_flushes s0, True) \<in> set (ds_answers s)"
  shows "\<exists>k \<le> length (ds_results s). list_all id (take k (ds_results s)) \<and> concat (take k (ds_log s)) = accepted s0"
proof -
  have s0: "sys_ok lib s0" "results_ok s0" "flushes_fresh s0"
    using run_fresh [OF before] start_ok [OF start] start_fresh [OF start] by blast+
  have s1: "sys_ok lib s1" "results_ok s1" using durable_step_ok [OF sent(1) s0(1)] step_history [OF sent(1) s0(2)] by simp_all
  have "flush_tracked (ds_flushes s0) (accepted s0) s1"
    using flush_sent_pipeline [OF sent] sent(2) s0(3) by (fastforce simp: flush_tracked_def flushes_fresh_def accepted_def)
  then have tr: "flush_tracked (ds_flushes s0) (accepted s0) s" using run_tracked [OF after s1] by blast
  have "ds_flushes s0 \<in> fst ` set (ds_answers s)" using answer by force
  then show ?thesis using tr answer unfolding flush_tracked_def stored_first_def by blast
qed

definition bus_step1 :: "event_bus \<Rightarrow> durable_sys" where
  "bus_step1 b = (start_sys demo_bus bus_producer)\<lparr>ds_bus := b,
     ds_producer := bus_producer\<lparr>pd_next := 2, pd_free := 1048571, pd_queue := [EventCommand bus_entry], pd_flush := True\<rparr>\<rparr>"

definition bus_step2 :: "event_bus \<Rightarrow> durable_sys" where
  "bus_step2 b = (bus_step1 b)\<lparr>ds_producer := (ds_producer (bus_step1 b))\<lparr>pd_queue := [EventCommand bus_entry, FlushCommand 0]\<rparr>,
     ds_flush_sent := True, ds_flushes := 1\<rparr>"

lemma bus_reaches1: "\<exists>b. (durable_step bus_lib)\<^sup>*\<^sup>* (start_sys demo_bus bus_producer) (bus_step1 b)"
proof -
  let ?s0 = "start_sys demo_bus bus_producer"
  obtain b where em: "emit bus_lib (LogEvent ''info'' ''hello'') (ds_bus ?s0, Some (ds_producer ?s0)) =
     Some (b, Some (bus_producer\<lparr>pd_next := 2, pd_free := 1048571, pd_queue := [EventCommand bus_entry]\<rparr>))"
    using bus_emit by (auto simp: start_sys_def)
  let ?s1 = "?s0\<lparr>ds_bus := b, ds_producer := bus_producer\<lparr>pd_next := 2, pd_free := 1048571, pd_queue := [EventCommand bus_entry]\<rparr>\<rparr>"
  have one: "durable_step bus_lib ?s0 ?s1" by (rule durable_step.emitted [OF _ em]) simp
  have two: "durable_step bus_lib ?s1 (?s1\<lparr>ds_producer := (ds_producer ?s1)\<lparr>pd_flush := True\<rparr>\<rparr>)"
    by (rule durable_step.flush_reserved) (simp add: reserve_flush_def bus_producer_def)
  have three: "?s1\<lparr>ds_producer := (ds_producer ?s1)\<lparr>pd_flush := True\<rparr>\<rparr> = bus_step1 b" by (simp add: bus_step1_def bus_producer_def)
  have "(durable_step bus_lib)\<^sup>*\<^sup>* ?s0 (bus_step1 b)"
    by (rule converse_rtranclp_into_rtranclp [of "durable_step bus_lib", OF one], rule r_into_rtranclp [of "durable_step bus_lib"],
        rule two [unfolded three])
  then show ?thesis by (rule exI)
qed

lemma bus_sends_flush: "durable_step bus_lib (bus_step1 b) (bus_step2 b)"
proof -
  have "durable_step bus_lib (bus_step1 b) ((bus_step1 b)\<lparr>ds_producer := (ds_producer (bus_step1 b))\<lparr>pd_queue := pd_queue (ds_producer (bus_step1 b)) @
      [FlushCommand (ds_flushes (bus_step1 b))]\<rparr>, ds_flush_sent := True, ds_flushes := ds_flushes (bus_step1 b) + 1\<rparr>)"
    by (rule durable_step.flush_sent) (simp_all add: bus_step1_def start_sys_def bus_producer_def queue_max_events_def demo_limits)
  then show ?thesis by (simp add: bus_step2_def bus_step1_def start_sys_def)
qed

lemma bus_answers: "\<exists>s. (durable_step bus_lib)\<^sup>*\<^sup>* (bus_step2 b) s \<and> ds_answers s = [(0, True)] \<and> ds_log s = [[bus_entry]] \<and> ds_results s = [True]"
proof -
  let ?s2 = "bus_step2 b"
  let ?s3 = "?s2\<lparr>ds_producer := (ds_producer ?s2)\<lparr>pd_queue := [FlushCommand 0]\<rparr>, ds_writer := take_command (EventCommand bus_entry) (ds_writer ?s2),
    ds_answers := ds_answers ?s2 @ flush_answer (EventCommand bus_entry) (ds_writer ?s2)\<rparr>"
  let ?s4 = "?s3\<lparr>ds_producer := (ds_producer ?s3)\<lparr>pd_queue := []\<rparr>, ds_writer := (ds_writer ?s3)\<lparr>wr_phase := Appending, wr_carried := Some (FlushCommand 0)\<rparr>,
    ds_log := ds_log ?s3 @ [wr_batch (ds_writer ?s3)]\<rparr>"
  let ?s5 = "?s4\<lparr>ds_producer := (ds_producer ?s4)\<lparr>pd_free := pd_free (ds_producer ?s4) + sum_list (map ae_payload_bytes (wr_batch (ds_writer ?s4)))\<rparr>,
    ds_writer := (ds_writer ?s4)\<lparr>wr_phase := WriterIdle, wr_batch := [], wr_failed := wr_failed (ds_writer ?s4) \<or> \<not> True\<rparr>, ds_results := ds_results ?s4 @ [True]\<rparr>"
  let ?s6 = "?s5\<lparr>ds_writer := take_command (FlushCommand 0) ((ds_writer ?s5)\<lparr>wr_carried := None\<rparr>),
    ds_answers := ds_answers ?s5 @ flush_answer (FlushCommand 0) (ds_writer ?s5)\<rparr>"
  note parts = bus_step2_def bus_step1_def start_sys_def bus_producer_def take_command_def flush_answer_def
  have "durable_step bus_lib ?s2 ?s3" by (rule durable_step.received) (simp_all add: parts)
  moreover have "durable_step bus_lib ?s3 ?s4" by (rule durable_step.carried) (simp_all add: parts batch_max_events_def fits_batch_def demo_limits)
  moreover have "durable_step bus_lib ?s4 ?s5" by (rule durable_step.appended) (simp_all add: parts terminal_batch_def bus_entry_def)
  moreover have "durable_step bus_lib ?s5 ?s6" by (rule durable_step.resumed) (simp_all add: parts)
  ultimately have "(durable_step bus_lib)\<^sup>*\<^sup>* ?s2 ?s6" by (meson converse_rtranclp_into_rtranclp rtranclp.rtrancl_refl)
  moreover have "ds_answers ?s6 = [(0, True)] \<and> ds_log ?s6 = [[bus_entry]] \<and> ds_results ?s6 = [True]" by (simp add: parts)
  ultimately show ?thesis by blast
qed

theorem flush_persists_earlier_events_witness:
  "\<exists>b s. (durable_step bus_lib)\<^sup>*\<^sup>* (bus_step2 b) s \<and> (0, True) \<in> set (ds_answers s) \<and>
     (\<exists>k \<le> length (ds_results s). list_all id (take k (ds_results s)) \<and> concat (take k (ds_log s)) = [bus_entry])"
proof -
  obtain b where before: "(durable_step bus_lib)\<^sup>*\<^sup>* (start_sys demo_bus bus_producer) (bus_step1 b)" using bus_reaches1 by blast
  obtain s where after: "(durable_step bus_lib)\<^sup>*\<^sup>* (bus_step2 b) s" "ds_answers s = [(0, True)]" using bus_answers [of b] by blast
  have n: "ds_flushes (bus_step1 b) = 0" "ds_flushes (bus_step2 b) = ds_flushes (bus_step1 b) + 1" and acc: "accepted (bus_step1 b) = [bus_entry]"
    by (simp_all add: bus_step1_def bus_step2_def start_sys_def accepted_def pipeline_parts)
  have "(ds_flushes (bus_step1 b), True) \<in> set (ds_answers s)" by (simp add: n after(2))
  from flush_persists_earlier_events [OF bus_start before bus_sends_flush n(2) after(1) this]
  show ?thesis using after unfolding acc by (metis list.set_intros(1))
qed

end
