(* ===== verification/Journal_Writer.thy ===== *)
theory Journal_Writer
  imports Event_Bus Journal_Read
begin

text \<open>
  The writer task's appends to the journal with their retries (\<open>append_durable_batch_with_retries\<close> in
  \<open>src/src/engine/eventbus.rs\<close>), and what an acknowledged batch means for the journal.
\<close>

section \<open>Retries\<close>

definition str_contains :: "string \<Rightarrow> string \<Rightarrow> bool" where
  "str_contains haystack needle \<longleftrightarrow> list_ex (\<lambda>i. take (length needle) (drop i haystack) = needle) [0..<length haystack + 1]"

definition durable_append_error_is_retryable :: "iron_error \<Rightarrow> bool" where
  "durable_append_error_is_retryable e = (case e of
     Io _ \<Rightarrow> True
   | Http _ \<Rightarrow> True
   | Validation message \<Rightarrow> str_contains message ''not found'' \<or> take 20 message = ''PostgreSQL run-event''
   | _ \<Rightarrow> False)"

text \<open>An attempt is answered or times out (\<open>None\<close>); the pauses between attempts have no effect on the store.\<close>

fun append_attempts :: "(nat \<Rightarrow> 's \<Rightarrow> (iron_error, 'a) result option \<times> 's) \<Rightarrow> nat list \<Rightarrow> 's \<Rightarrow> bool \<times> 's" where
  "append_attempts try_append [] s = (False, s)"
| "append_attempts try_append (k # ks) s = (case try_append k s of
     (Some (Inr _), s') \<Rightarrow> (True, s')
   | (Some (Inl e), s') \<Rightarrow>
       if \<not> durable_append_error_is_retryable e \<or> k = append_max_attempts then (False, s') else append_attempts try_append ks s'
   | (None, s') \<Rightarrow> if k = append_max_attempts then (False, s') else append_attempts try_append ks s')"

definition append_durable_batch_with_retries :: "(nat \<Rightarrow> 's \<Rightarrow> (iron_error, 'a) result option \<times> 's) \<Rightarrow> 's \<Rightarrow> bool \<times> 's" where
  "append_durable_batch_with_retries try_append = append_attempts try_append [1..<append_max_attempts + 1]"

text \<open>
  An attempt on the journal: transactions of others come first; the append may fail anywhere or
  commit without an answer, and the wait may end before it. The state is the list of all
  committed journals, the latest first.
\<close>

record journal_attempt =
  at_before :: "journal_call list"
  at_jx :: jx
  at_timeout :: bool

definition attempt_append :: "(nat \<Rightarrow> journal_attempt) \<Rightarrow> append_batch \<Rightarrow> nat \<Rightarrow> journal list \<Rightarrow>
    (iron_error, append_outcome) result option \<times> journal list" where
  "attempt_append attempts b k js =
    (let j = foldl apply_call (hd js) (at_before (attempts k));
         (r, j') = append_run_event_journal (at_jx (attempts k)) b j
     in (if at_timeout (attempts k) then None else Some r, j' # j # js))"

section \<open>An acknowledged append\<close>

text \<open>
  The journal has a row for the entry, with its number, type and size; its payload is the text that the
  database makes of the serialised payload, or a text that decodes to the payload.
\<close>

definition stores_payload :: "jx \<Rightarrow> string \<Rightarrow> json \<Rightarrow> bool" where
  "stores_payload cx stored v \<longleftrightarrow>
     (case jx_ser cx v of Inr raw \<Rightarrow> jx_jsonb cx raw = Some stored | Inl _ \<Rightarrow> False) \<or> jx_parse_json cx stored = Inr v"

definition holds_entry :: "jx \<Rightarrow> string \<Rightarrow> journal \<Rightarrow> append_entry \<Rightarrow> bool" where
  "holds_entry cx run_id j e \<longleftrightarrow> list_ex (\<lambda>r. er_run r = run_id \<and> er_sequence r = ae_sequence e \<and> er_event_type r = ae_event_type e \<and>
     er_payload_bytes r = ae_payload_bytes e \<and> stores_payload cx (er_payload r) (ae_payload e)) (jn_events j)"

lemma decode_rows_spec: "decode_rows cx rows = Inr ds \<Longrightarrow> (r, v) \<in> set ds \<Longrightarrow> r \<in> set rows \<and> jx_parse_json cx (er_payload r) = Inr v"
  by (induction rows arbitrary: ds) (auto simp: rust_result decode_stored_json_def split: sum.splits)

lemma existing_held:
  assumes "load_existing_run_events cx b j = (Inr existing, j)" "existing n = Some (ty, v, bytes)"
  shows "\<exists>r \<in> set (jn_events j). er_run r = ab_run_id b \<and> er_sequence r = n \<and> er_event_type r = ty \<and> er_payload_bytes r = bytes \<and>
    jx_parse_json cx (er_payload r) = Inr v"
proof -
  obtain ds where ds: "decode_rows cx (filter (\<lambda>r. er_sequence r \<in> ae_sequence ` set (ab_entries b)) (rows_of (ab_run_id b) (jn_events j))) = Inr ds"
    "existing = map_of (map (\<lambda>(r, v). (er_sequence r, (er_event_type r, v, er_payload_bytes r))) ds)"
    using assms(1) by (auto simp: load_existing_run_events_def journal_success)
  obtain r where "(r, v) \<in> set ds" "er_sequence r = n" "er_event_type r = ty" "er_payload_bytes r = bytes"
    using map_of_SomeD [OF assms(2) [unfolded ds(2)]] by auto
  then show ?thesis using decode_rows_spec [OF ds(1)] by auto
qed

lemma partition_known:
  "partition_entries i latest existing d acc es = Inr (d', new) \<Longrightarrow> e \<in> set es \<Longrightarrow> existing (ae_sequence e) = Some (ty, v, bytes) \<Longrightarrow>
   ty = ae_event_type e \<and> v = ae_payload e \<and> bytes = ae_payload_bytes e"
proof (induction es arbitrary: d acc)
  case (Cons x es)
  show ?case
  proof (cases "e = x")
    case True
    then show ?thesis using Cons.prems by (auto split: if_splits)
  next
    case False
    then show ?thesis using Cons.prems Cons.IH by (cases "existing (ae_sequence x)") (auto split: if_splits)
  qed
qed simp

lemma serialize_spec: "serialize_payloads cx es = Inr ps \<Longrightarrow> (e, p) \<in> set (zip es ps) \<Longrightarrow> jx_ser cx (ae_payload e) = Inr p"
  by (induction es arbitrary: ps) (auto simp: rust_result split: sum.splits)

lemma account_payloads:
  assumes "account_run_event_append cx es s = (Inr ac, t)" "(e, p) \<in> set (zip es (ac_payloads ac))"
  shows "jx_ser cx (ae_payload e) = Inr p \<and> jx_jsonb cx p \<noteq> None"
proof -
  obtain ps sizes where ps: "serialize_payloads cx es = Inr ps" "if es = [] then sizes = [] else accounted_sizes cx es ps = Inr sizes" "ac_payloads ac = ps"
    using assms(1) unfolding account_run_event_append_def by (auto simp: journal_success split: if_splits)
  have "p \<in> set ps" "es \<noteq> []" using assms(2) by (auto simp: ps(3) dest: set_zip_rightD)
  then show ?thesis using serialize_spec [OF ps(1)] assms(2) ps(2,3) by (auto simp: accounted_sizes_def list_ex_iff split: if_splits)
qed

lemma persist_rows:
  assumes "persist_run_event_append cx b s ac pruned j = (Inr d, k)" "journal_ok j"
  shows "\<exists>x. set (map (row_for cx (ab_run_id b) (jx_insert_at cx) x) (zip (ac_entries ac) (ac_payloads ac))) \<subseteq> set (jn_events k)"
proof -
  obtain d1 d2 j1 j2 j3 n m s' x where st:
    "evict_run_event_capacity cx (ab_run_id b) (sr_events s + ac_count ac - jc_max_events_per_run (jx_config cx))
       (sr_bytes s + ac_bytes ac - jc_max_bytes_per_run (jx_config cx)) j = (Inr d1, j1)" "jn_usage j1 = Some (n, m)"
    "evict_global_run_event_capacity cx (n + ac_count ac - jc_max_total_events (jx_config cx))
       (m + ac_bytes ac - jc_max_total_bytes (jx_config cx)) j1 = (Inr d2, j2)"
    "insert_rows cx (ab_run_id b) (jx_insert_at cx) x (zip (ac_entries ac) (ac_payloads ac)) j2 = (Inr (), j3)"
    "update_run_event_state_after_append cx b s' ac j3 = (Inr (), k)"
    using persist_steps [OF assms(1)] by metis
  note e1 = evict_run_ok [OF st(1) assms(2)]
  note e2 = evict_global_ok [OF st(3) e1(1)]
  have "usage_ok j2" "jn_usage j2 \<noteq> None" using e2 st(2) by (auto simp: journal_ok_def shrinks_def)
  from insert_rows_Inr [OF st(4) this]
  have "jn_events j3 = jn_events j2 @ map (row_for cx (ab_run_id b) (jx_insert_at cx) x) (zip (ac_entries ac) (ac_payloads ac))"
    by (metis journal.select_convs(2) journal.surjective journal.update_convs(2,4))
  moreover have "jn_events k = jn_events j3" using update_after_append_Inr [OF st(5)] by auto
  ultimately show ?thesis by auto
qed

section \<open>The latest sequence of a run\<close>

lemma shrinks_latest: "shrinks j k \<Longrightarrow> latest_sequence k i = latest_sequence j i"
proof -
  assume "shrinks j k"
  then have "case jn_states j i of None \<Rightarrow> jn_states k i = None | Some s \<Rightarrow> \<exists>t. jn_states k i = Some t \<and> settled s t"
    by (simp add: shrinks_def)
  then show ?thesis by (auto simp: latest_sequence_def settled_def split: option.splits)
qed

lemma init_latest: "initialize_run_event_state cx b j = (Inr s, k) \<Longrightarrow> latest_sequence k i = latest_sequence j i"
  by (cases "jn_states j (ab_run_id b)")
    (auto simp: initialize_run_event_state_def journal_success latest_sequence_def fresh_state_def split: if_splits)

lemma persist_latest:
  assumes "persist_run_event_append cx b s ac pruned j = (Inr d, k)" "journal_ok j" "i \<noteq> ab_run_id b"
  shows "latest_sequence k i = latest_sequence j i"
proof -
  obtain d1 d2 j1 j2 j3 n m s' x where st:
    "evict_run_event_capacity cx (ab_run_id b) (sr_events s + ac_count ac - jc_max_events_per_run (jx_config cx))
       (sr_bytes s + ac_bytes ac - jc_max_bytes_per_run (jx_config cx)) j = (Inr d1, j1)" "jn_usage j1 = Some (n, m)"
    "evict_global_run_event_capacity cx (n + ac_count ac - jc_max_total_events (jx_config cx))
       (m + ac_bytes ac - jc_max_total_bytes (jx_config cx)) j1 = (Inr d2, j2)"
    "insert_rows cx (ab_run_id b) (jx_insert_at cx) x (zip (ac_entries ac) (ac_payloads ac)) j2 = (Inr (), j3)"
    "update_run_event_state_after_append cx b s' ac j3 = (Inr (), k)"
    using persist_steps [OF assms(1)] by metis
  note e1 = evict_run_ok [OF st(1) assms(2)]
  note e2 = evict_global_ok [OF st(3) e1(1)]
  have "usage_ok j2" "jn_usage j2 \<noteq> None" using e2 st(2) by (auto simp: journal_ok_def shrinks_def)
  from insert_rows_Inr [OF st(4) this] have "jn_states j3 = jn_states j2"
    by (metis journal.select_convs(3) journal.surjective journal.update_convs(2,4))
  moreover have "jn_states k i = jn_states j3 i" using update_after_append_Inr [OF st(5)] assms(3) by auto
  ultimately have "latest_sequence k i = latest_sequence j2 i" by (simp add: latest_sequence_def)
  then show ?thesis using shrinks_latest [OF e1(2), of i] shrinks_latest [OF e2(2), of i] by simp
qed

lemma other_run_latest:
  assumes run: "append_tx cx b j = (Inr o1, k)" and ok: "journal_ok j" and i: "i \<noteq> ab_run_id b"
  shows "latest_sequence k i = latest_sequence j i"
proof -
  obtain j1 j2 d s ac d' where prune: "prune_expired_run_events cx j = (Inr d, j1)"
    and init: "initialize_run_event_state cx b j1 = (Inr s, j2)"
    and wr: "(if 0 < ac_count ac then persist_run_event_append cx b s ac d else ret d) j2 = (Inr d', k)"
    using append_tx_steps [OF run] by metis
  note p = prune_ok [OF prune ok]
  have "journal_ok j2" using init_ok [OF init conjunct1 [OF p]] by simp
  then have "latest_sequence k i = latest_sequence j2 i"
    using wr persist_latest [of cx b s ac d j2 d' k i] i by (cases "0 < ac_count ac") (simp_all add: ret_Inr)
  then show ?thesis using init_latest [OF init, of i] shrinks_latest [OF conjunct2 [OF p], of i] by simp
qed

lemma transaction_cases:
  "transaction cx what body j = (r, k) \<Longrightarrow> (k = j \<and> (\<exists>e. r = Inl e)) \<or> (\<exists>a. body j = (Inr a, k))"
  by (auto simp: transaction_def split: prod.splits sum.splits commit_result.splits if_splits)

lemma append_cases:
  assumes "append_run_event_journal cx b j = (r, k)"
  shows "(k = j \<and> (\<exists>e. r = Inl e)) \<or> (sorted_wrt (<) (map ae_sequence (ab_entries b)) \<and> (\<exists>o1. append_tx cx b j = (Inr o1, k)))"
proof (cases "validate_batch (jx_ser cx) (jx_config cx) b")
  case (Inr u)
  then have "sorted_wrt (<) (map ae_sequence (ab_entries b))"
    by (auto simp: validate_batch_def rust_result dest: batch_entries_increasing)
  then show ?thesis
    using assms Inr
    by (auto simp: append_run_event_journal_def bnd_def lift_def failing_def dest: transaction_cases split: if_splits sum.splits)
qed (use assms in \<open>auto simp: append_run_event_journal_def bnd_def lift_def\<close>)

text \<open>Whether a transaction of somebody else appends to the run.\<close>

definition spares_run :: "string \<Rightarrow> journal_call \<Rightarrow> bool" where
  "spares_run i call = (case call of Append _ b \<Rightarrow> ab_run_id b \<noteq> i | _ \<Rightarrow> True)"

lemma call_latest:
  assumes "bounded_journal c j" "uses_config c call" "spares_run i call"
  shows "latest_sequence (apply_call j call) i \<in> {latest_sequence j i, 0}"
proof (cases call)
  case (Append cx b)
  have "latest_sequence k i = latest_sequence j i" if "append_run_event_journal cx b j = (r, k)" for r k
    using append_cases [OF that] other_run_latest [of cx b j _ k i] assms Append by (auto simp: spares_run_def bounded_journal_def)
  then show ?thesis by (cases "append_run_event_journal cx b j") (simp add: Append apply_call_def)
next
  case (Prune cx acquired)
  have "shrinks j (prune_best_effort cx acquired j)"
  proof -
    let ?body = "bnd (query cx ''PostgreSQL run-event maintenance transaction unavailable'') (\<lambda>_.
       bnd (query cx ''PostgreSQL run-event maintenance timeout setup failed'') (\<lambda>_.
       bnd (query cx ''PostgreSQL run-event maintenance lock probe failed'') (\<lambda>_.
       if \<not> acquired then failing (Validation ''lock not acquired'')
       else
         bnd (query cx ''PostgreSQL run-event maintenance lock timeout setup failed'') (\<lambda>_.
         bnd (lock_run_event_usage cx) (\<lambda>_.
         bnd (prune_expired_run_events cx) (\<lambda>_. ret ()))))))"
    have "shrinks j k" if "?body j = (Inr u, k)" for u k
      using that assms(1)
      by (auto simp: journal_success lock_run_event_usage_def bounded_journal_def dest!: prune_ok split: if_splits)
    then show ?thesis
      unfolding prune_best_effort_def
      using transaction_cases [of cx "''PostgreSQL run-event maintenance commit failed''" ?body j] by (metis prod.collapse shrinks_refl)
  qed
  then show ?thesis using Prune shrinks_latest by (simp add: apply_call_def)
next
  case (RemoveRun cx x)
  have "k = delete_run_cascade x j" if "remove_run_row cx x j = (r, k)" "k \<noteq> j" for r k
    using that transaction_cases unfolding remove_run_row_def
    by (fastforce simp: journal_success lock_run_event_usage_def split: if_splits dest!: transaction_cases)
  then have "snd (remove_run_row cx x j) = j \<or> snd (remove_run_row cx x j) = delete_run_cascade x j"
    by (metis prod.collapse)
  then show ?thesis
    by (auto simp: RemoveRun apply_call_def delete_run_cascade_def latest_sequence_def Let_def delete_rows_usage)
qed (simp add: apply_call_def latest_sequence_def)

section \<open>Acknowledged appends\<close>

text \<open>A batch is new to a journal, or all of it was stored before.\<close>

definition batch_placed :: "journal \<Rightarrow> append_batch \<Rightarrow> bool" where
  "batch_placed j b \<longleftrightarrow>
     (\<forall>e \<in> set (ab_entries b). latest_sequence j (ab_run_id b) < ae_sequence e) \<or>
     (\<forall>e \<in> set (ab_entries b). ae_sequence e \<le> latest_sequence j (ab_run_id b))"

lemma held_row_latest: "journal_ok j \<Longrightarrow> holds_entry cx i j e \<Longrightarrow> ae_sequence e \<le> latest_sequence j i"
proof -
  assume ok: "journal_ok j" and "holds_entry cx i j e"
  then obtain r where r: "r \<in> set (rows_of i (jn_events j))" "er_sequence r = ae_sequence e"
    by (auto simp: holds_entry_def list_ex_iff rows_of_def)
  then have "rows_of i (jn_events j) \<noteq> []" by (metis empty_iff empty_set)
  then obtain s where s: "jn_states j i = Some s" using ok by (fastforce simp: journal_ok_def run_rows_ok_def split: option.splits)
  then have "\<forall>r \<in> set (rows_of i (jn_events j)). er_sequence r \<le> sr_latest s"
    using journal_ok_state [OF ok s] by (simp add: run_ok_def)
  then have "er_sequence r \<le> sr_latest s" using r(1) by blast
  then show ?thesis using r(2) s by (simp add: latest_sequence_def)
qed

lemma append_tx_held:
  assumes run: "append_tx cx b j = (Inr o1, k)" and ok: "journal_ok j" and placed: "batch_placed j b" and e: "e \<in> set (ab_entries b)"
  shows "holds_entry cx (ab_run_id b) k e"
proof -
  obtain j1 j2 tg d s existing dups new ac d' where prune: "prune_expired_run_events cx j = (Inr d, j1)"
    and init: "initialize_run_event_state cx b j1 = (Inr s, j2)" and load: "load_existing_run_events cx b j2 = (Inr existing, j2)"
    and part: "partition_new_run_event_entries b s existing = Inr (dups, new)"
    and acct: "account_run_event_append cx new j2 = (Inr ac, j2)"
    and wr: "(if 0 < ac_count ac then persist_run_event_append cx b s ac d else ret d) j2 = (Inr d', k)"
    using append_tx_steps [OF run] by metis
  note p = prune_ok [OF prune ok]
  note i = init_ok [OF init conjunct1 [OF p]]
  have latest: "sr_latest s = latest_sequence j (ab_run_id b)"
    using init_latest [OF init, of "ab_run_id b"] shrinks_latest [OF conjunct2 [OF p], of "ab_run_id b"] i
    by (simp add: latest_sequence_def)
  note pt = partition_entries_spec [OF part [unfolded partition_new_run_event_entries_def]]
  have ac: "ac_entries ac = new" "ac_count ac = length new" "length (ac_payloads ac) = length new" using account_Inr [OF acct] by auto
  show ?thesis
  proof (cases "\<forall>x \<in> set (ab_entries b). latest_sequence j (ab_run_id b) < ae_sequence x")
    case True
    have "existing (ae_sequence e) = None"
    proof (rule ccontr)
      assume "existing (ae_sequence e) \<noteq> None"
      then obtain ty v bytes where "existing (ae_sequence e) = Some (ty, v, bytes)" by (cases "existing (ae_sequence e)") auto
      then obtain r where "r \<in> set (jn_events j2)" "er_run r = ab_run_id b" "er_sequence r = ae_sequence e" using existing_held [OF load] by blast
      moreover have "run_ok (rows_of (ab_run_id b) (jn_events j2)) s" using i journal_ok_state by blast
      ultimately show False using True e latest by (fastforce simp: run_ok_def rows_of_def)
    qed
    then have new: "e \<in> set new" using pt e by auto
    then obtain pl where pl: "(e, pl) \<in> set (zip new (ac_payloads ac))" using ac by (metis in_set_impl_in_set_zip1)
    have "persist_run_event_append cx b s ac d j2 = (Inr d', k)" using wr new by (auto simp: ac(2) split: if_splits)
    then obtain x where "row_for cx (ab_run_id b) (jx_insert_at cx) x (e, pl) \<in> set (jn_events k)"
      using persist_rows [of cx b s ac d j2 d' k] i pl by (auto simp: ac(1))
    then show ?thesis
      using account_payloads [OF acct pl] by (auto simp: holds_entry_def stores_payload_def list_ex_iff row_for_def intro!: bexI)
  next
    case False
    then have old: "\<forall>x \<in> set (ab_entries b). ae_sequence x \<le> sr_latest s" using placed latest by (auto simp: batch_placed_def)
    have known: "existing (ae_sequence x) \<noteq> None" if "x \<in> set (ab_entries b)" for x using pt old that by fastforce
    then have "new = []" using pt by (simp add: filter_empty_conv)
    then have k: "k = j2" using wr by (simp add: ac ret_Inr)
    obtain ty v bytes where ex: "existing (ae_sequence e) = Some (ty, v, bytes)" using known [OF e] by (cases "existing (ae_sequence e)") auto
    have "ty = ae_event_type e \<and> v = ae_payload e \<and> bytes = ae_payload_bytes e"
      using partition_known [OF part [unfolded partition_new_run_event_entries_def] e ex] .
    then show ?thesis using existing_held [OF load ex] by (auto simp: holds_entry_def stores_payload_def list_ex_iff k)
  qed
qed

lemma append_tx_placed:
  assumes "append_tx cx b j = (Inr o1, k)" "journal_ok j" "journal_ok k" "batch_placed j b"
  shows "batch_placed k b"
  using append_tx_held [OF assms(1,2,4)] held_row_latest [OF assms(3)] by (auto simp: batch_placed_def)

text \<open>
  The attempts are made by one store, with one configuration and one way to write and read JSON; the
  transactions between them share the limits and do not append to the run, whose events have one writer.
\<close>

definition attempt_ok :: "jx \<Rightarrow> string \<Rightarrow> journal_attempt \<Rightarrow> bool" where
  "attempt_ok cx i w \<longleftrightarrow> jx_config (at_jx w) = jx_config cx \<and> jx_parse_json (at_jx w) = jx_parse_json cx \<and>
     jx_ser (at_jx w) = jx_ser cx \<and> jx_jsonb (at_jx w) = jx_jsonb cx \<and>
     list_all (\<lambda>call. uses_config (jx_config cx) call \<and> spares_run i call) (at_before w)"

lemma holds_entry_cong:
  "attempt_ok cx i w \<Longrightarrow> holds_entry (at_jx w) r j e = holds_entry cx r j e"
  by (auto simp: attempt_ok_def holds_entry_def stores_payload_def list_ex_iff split: sum.splits)

lemma calls_placed:
  assumes "bounded_journal c j" "list_all (\<lambda>call. uses_config c call \<and> spares_run (ab_run_id b) call) calls"
    "batch_placed j b" "\<forall>e \<in> set (ab_entries b). 0 < ae_sequence e"
  shows "bounded_journal c (foldl apply_call j calls) \<and> batch_placed (foldl apply_call j calls) b"
  using assms(1-3)
proof (induction calls arbitrary: j)
  case (Cons call calls)
  have "bounded_journal c (apply_call j call)" using jr.inv_run [of c j "[call]"] Cons.prems by simp
  moreover have "batch_placed (apply_call j call) b"
    using call_latest [of c j call "ab_run_id b"] Cons.prems assms(4) by (auto simp: batch_placed_def)
  ultimately show ?case using Cons by simp
qed simp

lemma attempt_result:
  assumes "attempt_append ats b k js = (r, js')" "list_all (bounded_journal (jx_config cx)) js" "js \<noteq> []" "batch_placed (hd js) b"
    "\<forall>e \<in> set (ab_entries b). 0 < ae_sequence e" "attempt_ok cx (ab_run_id b) (ats k)"
  shows "list_all (bounded_journal (jx_config cx)) js' \<and> js' \<noteq> [] \<and> batch_placed (hd js') b \<and>
    (\<forall>o1. r = Some (Inr o1) \<longrightarrow> list_all (holds_entry cx (ab_run_id b) (hd js')) (ab_entries b))"
proof -
  define j where "j = foldl apply_call (hd js) (at_before (ats k))"
  obtain res j' where ap: "append_run_event_journal (at_jx (ats k)) b j = (res, j')" by (cases "append_run_event_journal (at_jx (ats k)) b j")
  have r: "r = (if at_timeout (ats k) then None else Some res)" "js' = j' # j # js"
    using assms(1) by (auto simp: attempt_append_def Let_def j_def [symmetric] ap)
  have "bounded_journal (jx_config cx) (hd js)" using assms(2,3) by (cases js) auto
  then have j: "bounded_journal (jx_config cx) j" "batch_placed j b"
    unfolding j_def using assms(4-6) calls_placed by (auto simp: attempt_ok_def)
  then have j': "bounded_journal (jx_config cx) j'"
    using append_call_ok [of "jx_config cx" j "at_jx (ats k)" b] assms(6) by (simp add: ap attempt_ok_def)
  have "batch_placed j' b \<and> (\<forall>o1. res = Inr o1 \<longrightarrow> list_all (holds_entry cx (ab_run_id b) j') (ab_entries b))"
    using append_cases [OF ap]
  proof (elim disjE conjE exE)
    fix o1 assume tx: "append_tx (at_jx (ats k)) b j = (Inr o1, j')"
    then have "batch_placed j' b" using append_tx_placed j j' by (auto simp: bounded_journal_def)
    then show ?thesis
      using append_tx_held [OF tx] j holds_entry_cong [OF assms(6)] by (auto simp: bounded_journal_def list_all_iff)
  qed (use j in auto)
  then show ?thesis using r j(1) j' assms(2) by (auto split: if_splits)
qed

lemma attempts_stored:
  assumes "append_attempts (attempt_append ats b) ks js = (acknowledged, js')" "list_all (bounded_journal (jx_config cx)) js" "js \<noteq> []"
    "batch_placed (hd js) b" and pos: "\<forall>e \<in> set (ab_entries b). 0 < ae_sequence e" and ok: "\<And>k. attempt_ok cx (ab_run_id b) (ats k)"
  shows "list_all (bounded_journal (jx_config cx)) js' \<and>
    (acknowledged \<longrightarrow> list_all (holds_entry cx (ab_run_id b) (hd js')) (ab_entries b))"
  using assms(1-4)
proof (induction ks arbitrary: js)
  case (Cons k ks)
  obtain r js1 where r: "attempt_append ats b k js = (r, js1)" by (cases "attempt_append ats b k js")
  note res = attempt_result [OF r Cons.prems(2,3,4) pos ok]
  show ?case
  proof (cases "\<exists>o1. r = Some (Inr o1)")
    case True
    then show ?thesis using Cons.prems(1) res by (auto simp: r)
  next
    case False
    then show ?thesis using Cons.prems(1) Cons.IH [of js1] res by (auto simp: r split: option.splits sum.splits if_splits)
  qed
qed auto

text \<open>
  C37. When the writer reports a new batch as persisted, after any number of attempts that fail, time
  out or commit without an answer, and whatever transactions of other runs, prunings and
  deletions come between them, then every event of the batch is in the journal that the
  acknowledging transaction leaves: under its number, with its type and size, and with the text that the
  database made of its payload or a text that was read back and equals it. The journal is sound
  throughout, so a repeated attempt never stores an event twice.
\<close>

theorem acknowledged_batch_stored:
  assumes "bounded_journal (jx_config cx) j" "\<And>k. attempt_ok cx (ab_run_id b) (attempts k)"
    and "\<And>e. e \<in> set (ab_entries b) \<Longrightarrow> latest_sequence j (ab_run_id b) < ae_sequence e"
    and "append_durable_batch_with_retries (attempt_append attempts b) [j] = (True, js)"
  shows "list_all (bounded_journal (jx_config cx)) js \<and>
    list_all (holds_entry cx (ab_run_id b) (hd js)) (ab_entries b)"
proof -
  have "batch_placed j b" "\<forall>e \<in> set (ab_entries b). 0 < ae_sequence e"
    using assms(3) by (fastforce simp: batch_placed_def)+
  then show ?thesis
    using attempts_stored [OF assms(4) [unfolded append_durable_batch_with_retries_def], of cx] assms(1,2) by simp
qed

text \<open>An append that commits after the writer stopped waiting for it, and the retry that finds the event stored.\<close>

lemma demo_retry: "append_run_event_journal demo_jx demo_batch demo_journal = (Inr
    \<lparr>ao_appended = 0, ao_duplicates = 1, ao_evicted_events = 0, ao_evicted_bytes = 0, ao_gap = None,
     ao_bounds = \<lparr>bd_earliest = Some 1, bd_latest = 1, bd_dropped = 0, bd_events = 1, bd_bytes = 1024, bd_complete = True\<rparr>\<rparr>, demo_journal)"
proof -
  have x: "jx_config demo_jx = default_journal_config" "jx_fault demo_jx = (\<lambda>_. None)" "jx_commit demo_jx = Committed"
    "jx_instance demo_jx = ''node''" "jx_now demo_jx = 0" by (simp_all add: demo_jx_def)
  have b: "ab_owner demo_batch = ''node''" "ab_run_id demo_batch = ''r''" "ab_flow demo_batch = ''flow''" by (simp_all add: demo_batch_def)
  have tg: "lock_run_event_append_target demo_jx demo_batch demo_journal =
      (Inr \<lparr>tg_status = RunRunning, tg_lease_active = True, tg_duration_ms = 0, tg_usage = demo_usage\<rparr>, demo_journal)"
    by (simp add: lock_run_event_append_target_def demo_ops x b demo_journal_def demo_run_def parse_status_def)
  have pr: "prune_expired_run_events demo_jx demo_journal = (Inr Map.empty, demo_journal)"
    by (simp add: prune_expired_run_events_def demo_ops demo_jx_def demo_journal_def demo_row_def ordered_by_def delete_run_event_candidates_def)
  have it: "initialize_run_event_state demo_jx demo_batch demo_journal = (Inr demo_state, demo_journal)"
    by (simp add: initialize_run_event_state_def demo_ops x b demo_journal_def run_event_state_def demo_state_def fresh_state_def)
  have ld: "load_existing_run_events demo_jx demo_batch demo_journal = (Inr [1 \<mapsto> (''log'', demo_payload, 5)], demo_journal)"
    by (simp add: load_existing_run_events_def demo_ops demo_jx_def demo_batch_def demo_journal_def demo_row_def rows_of_def decode_stored_json_def)
  have p: "partition_new_run_event_entries demo_batch demo_state [1 \<mapsto> (''log'', demo_payload, 5)] = Inr (1, [])"
    by (simp add: partition_new_run_event_entries_def demo_batch_def demo_state_def saturating_add_def u64_max_def)
  have v: "validate_new_run_event_entries demo_jx demo_batch t demo_state [] = Inr ()" for t by (simp add: validate_new_run_event_entries_def)
  have a: "account_run_event_append demo_jx [] j = (Inr \<lparr>ac_entries = [], ac_payloads = [], ac_count = 0, ac_bytes = 0\<rparr>, j)" for j
    by (simp add: account_run_event_append_def demo_ops)
  have t: "try_each (\<lambda>e. and_then (to_bigint ''Run-event sequence exceeds PostgreSQL BIGINT'' (ae_sequence e)) (\<lambda>_. Inr ())) (ab_entries demo_batch) = Inr ()"
    by (simp add: demo_batch_def to_bigint_def bigint_max_def)
  have u: "jn_usage demo_journal = Some (1, 1024)" "jn_states demo_journal ''r'' = Some demo_state" by (simp_all add: demo_journal_def)
  show ?thesis
    using demo_batch_valid tg pr it ld demo_timing demo_bounds p v t
    by (simp add: a append_run_event_journal_def transaction_def append_tx_def demo_ops lock_run_event_usage_def run_event_state_def x b u
        summary_for_run_def default_eviction_def eviction_gap_def validate_outcome_def validate_bounds_def ensure_def validate_sequence_def)
qed

definition demo_attempts :: "nat \<Rightarrow> journal_attempt" where
  "demo_attempts k = \<lparr>at_before = [], at_jx = demo_jx, at_timeout = (k = 1)\<rparr>"

lemma demo_start_bounded: "bounded_journal default_journal_config demo_start"
  using put_run_ok [OF empty_journal_bounded, of default_journal_config "''r''" demo_run] by (simp add: empty_journal_def demo_start_def)

theorem acknowledged_batch_stored_witness:
  "append_durable_batch_with_retries (attempt_append demo_attempts demo_batch) [demo_start] =
     (True, [demo_journal, demo_journal, demo_journal, demo_start, demo_start]) \<and>
   list_all (holds_entry demo_jx ''r'' demo_journal) (ab_entries demo_batch)"
proof -
  have run: "append_durable_batch_with_retries (attempt_append demo_attempts demo_batch) [demo_start] =
      (True, [demo_journal, demo_journal, demo_journal, demo_start, demo_start])"
    by (simp add: append_durable_batch_with_retries_def append_max_attempts_def upt_conv_Cons attempt_append_def demo_attempts_def demo_append demo_retry)
  have c: "jx_config demo_jx = default_journal_config" "ab_run_id demo_batch = ''r''" by (simp_all add: demo_jx_def demo_batch_def)
  have "attempt_ok demo_jx (ab_run_id demo_batch) (demo_attempts k)" for k by (simp add: attempt_ok_def demo_attempts_def)
  moreover have "latest_sequence demo_start (ab_run_id demo_batch) < ae_sequence e" if "e \<in> set (ab_entries demo_batch)" for e
    using that by (simp add: latest_sequence_def demo_start_def demo_batch_def)
  ultimately show ?thesis
    using acknowledged_batch_stored [of demo_jx demo_start demo_batch demo_attempts, OF _ _ _ run] demo_start_bounded run by (simp add: c)
qed

end
