(* ===== verification/Input_Bridge.thy ===== *)
theory Input_Bridge
  imports Store_Base "HOL-Library.List_Lexorder" "HOL-Library.Char_ord"
begin

text \<open>
  Questions from a run to its human operator (\<open>src/src/engine/input_bridge.rs\<close>): registration under limits,
  answers, expiry, the wait for an answer, and the run status while questions are open.

  Every critical section under the lock of the pending questions is one function. Tasks that
  ask, tasks that answer, cancellation and expiry interleave between them: they are the rules of a
  step relation. A oneshot channel is named by the generation of its question. The bytes
  \<open>serde_json\<close> writes for a question and for an answer, the clock and the answers of the durable store
  are parameters. The prompt on a terminal is input and output and left out.
\<close>

section \<open>Limits\<close>

definition positive_env_limit :: "env \<Rightarrow> string \<Rightarrow> nat \<Rightarrow> nat \<Rightarrow> nat" where
  "positive_env_limit env name dflt hard_max = (case Option.bind (env_ok env name) (parse_uint u64_max) of
     Some v \<Rightarrow> if 0 < v \<and> v \<le> hard_max then v else dflt
   | None \<Rightarrow> dflt)"

definition max_timeout_secs :: "env \<Rightarrow> nat" where
  "max_timeout_secs env = positive_env_limit env ''IRONCREW_ASK_HUMAN_MAX_TIMEOUT'' 3600 86400"

definition default_timeout_secs :: "env \<Rightarrow> nat" where
  "default_timeout_secs env = min (positive_env_limit env ''IRONCREW_ASK_HUMAN_TIMEOUT'' 600 86400) (max_timeout_secs env)"

definition max_pending :: "env \<Rightarrow> nat" where
  "max_pending env = positive_env_limit env ''IRONCREW_ASK_HUMAN_MAX_PENDING'' 16 256"

definition max_pending_bytes :: "env \<Rightarrow> nat" where
  "max_pending_bytes env = positive_env_limit env ''IRONCREW_ASK_HUMAN_MAX_PENDING_BYTES'' (1024 * 1024) (16 * 1024 * 1024)"

definition max_answer_bytes :: "env \<Rightarrow> nat" where
  "max_answer_bytes env = positive_env_limit env ''IRONCREW_ASK_HUMAN_MAX_ANSWER_BYTES'' (64 * 1024) (1024 * 1024)"

section \<open>The bridge\<close>

datatype answer_error =
    AnswerInvalid string
  | AnswerUnavailable string
  | AnswerTooLarge nat
  | UnknownOrExpired string

record question_info =
  qi_id :: string
  qi_prompt :: string
  qi_choices :: "string list"
  qi_asked_at :: string
  qi_timeout :: nat
  qi_kind :: string

datatype pending_transport = TransportRegistering | ProcessLocal | SharedStore

record pending_question =
  pq_info :: question_info
  pq_generation :: nat
  pq_bytes :: nat
  pq_transport :: pending_transport

text \<open>The hash map of pending questions is a list of entries with different identifiers, in the order of its iteration.\<close>

record bridge =
  ib_pending :: "pending_question list"
  ib_durable :: bool
  ib_next :: nat
  ib_expired :: bool

definition new_bridge :: "bool \<Rightarrow> bridge" where
  "new_bridge durable = \<lparr>ib_pending = [], ib_durable = durable, ib_next = 1, ib_expired = False\<rparr>"

definition pending_id :: "pending_question \<Rightarrow> string" where
  "pending_id q = qi_id (pq_info q)"

definition pending_get :: "string \<Rightarrow> bridge \<Rightarrow> pending_question option" where
  "pending_get i b = find (\<lambda>q. pending_id q = i) (ib_pending b)"

definition pending_remove :: "string \<Rightarrow> bridge \<Rightarrow> bridge" where
  "pending_remove i b = b\<lparr>ib_pending := filter (\<lambda>q. pending_id q \<noteq> i) (ib_pending b)\<rparr>"

fun checked_sum :: "nat \<Rightarrow> nat list \<Rightarrow> nat option" where
  "checked_sum n [] = Some n"
| "checked_sum n (x # xs) = Option.bind (checked_add n x) (\<lambda>m. checked_sum m xs)"

text \<open>What \<open>ask_when_ready\<close> checks before a question is registered.\<close>

definition validate_ask :: "env \<Rightarrow> string \<Rightarrow> string list \<Rightarrow> nat \<Rightarrow> (iron_error, unit) result" where
  "validate_ask env prompt choices timeout_s =
    (let max_timeout = max_timeout_secs env;
         max_prompt = positive_env_limit env ''IRONCREW_ASK_HUMAN_MAX_PROMPT_BYTES'' (64 * 1024) (1024 * 1024);
         max_choices = positive_env_limit env ''IRONCREW_ASK_HUMAN_MAX_CHOICES'' 100 1000;
         max_choice_bytes = positive_env_limit env ''IRONCREW_ASK_HUMAN_MAX_CHOICES_BYTES'' (64 * 1024) (1024 * 1024)
     in if timeout_s = 0 \<or> max_timeout < timeout_s
        then Inl (Validation (''ask_human timeout must be between 1 and '' @ dec max_timeout @ '' seconds''))
        else if max_prompt < length prompt
        then Inl (Validation (''ask_human prompt exceeds IRONCREW_ASK_HUMAN_MAX_PROMPT_BYTES ('' @ dec max_prompt @ '')''))
        else if max_choices < length choices
        then Inl (Validation (''ask_human choices exceed IRONCREW_ASK_HUMAN_MAX_CHOICES ('' @ dec max_choices @ '')''))
        else (case checked_sum 0 (map length choices) of
            Some n \<Rightarrow> if n \<le> max_choice_bytes then Inr ()
              else Inl (Validation (''ask_human choices exceed IRONCREW_ASK_HUMAN_MAX_CHOICES_BYTES ('' @ dec max_choice_bytes @ '')''))
          | None \<Rightarrow> Inl (Validation (''ask_human choices exceed IRONCREW_ASK_HUMAN_MAX_CHOICES_BYTES ('' @ dec max_choice_bytes @ '')''))))"

definition register :: "env \<Rightarrow> (question_info \<Rightarrow> (string, nat) result) \<Rightarrow> string \<Rightarrow> string \<Rightarrow> string \<Rightarrow> string list \<Rightarrow> nat \<Rightarrow> string \<Rightarrow> bridge \<Rightarrow>
    (iron_error, nat \<times> question_info \<times> bridge) result" where
  "register env question_size now question_id prompt choices timeout_s kind b =
    (let info = \<lparr>qi_id = question_id, qi_prompt = prompt, qi_choices = choices, qi_asked_at = now, qi_timeout = timeout_s, qi_kind = kind\<rparr>
     in if question_id = [] \<or> 128 < length question_id \<or> list_ex is_control (chars_of question_id)
        then Inl (Validation ''Question id must be 1-128 printable characters'')
        else if kind \<noteq> ''question'' \<and> kind \<noteq> ''approval''
        then Inl (Validation (''Question kind must be '' @ quoted ''question'' @ '' or '' @ quoted ''approval''))
        else (case question_size info of
            Inl e \<Rightarrow> Inl (Validation (''Failed to measure pending human-input metadata: '' @ e))
          | Inr metadata_bytes \<Rightarrow>
             if ib_expired b then Inl (Validation ''Question transport has expired'')
             else if pending_get question_id b \<noteq> None
             then Inl (Validation (''Question '' @ quoted question_id @ '' is already pending''))
             else if max_pending env \<le> length (ib_pending b)
             then Inl (Validation (''Too many pending questions ('' @ dec (length (ib_pending b)) @
               ''); raise IRONCREW_ASK_HUMAN_MAX_PENDING if intentional''))
             else (case Option.bind (checked_sum 0 (map pq_bytes (ib_pending b))) (\<lambda>retained. checked_add retained metadata_bytes) of
                 Some total_bytes \<Rightarrow>
                   if max_pending_bytes env < total_bytes
                   then Inl (Validation (''Pending ask_human metadata exceeds IRONCREW_ASK_HUMAN_MAX_PENDING_BYTES ('' @ dec (max_pending_bytes env) @ '')''))
                   else Inr (ib_next b, info, b\<lparr>ib_next := wrapping_add (ib_next b) 1,
                     ib_pending := ib_pending b @ [\<lparr>pq_info = info, pq_generation = ib_next b, pq_bytes = metadata_bytes,
                       pq_transport = (if ib_durable b then TransportRegistering else ProcessLocal)\<rparr>]\<rparr>)
               | None \<Rightarrow> Inl (Validation (''Pending ask_human metadata exceeds IRONCREW_ASK_HUMAN_MAX_PENDING_BYTES ('' @ dec (max_pending_bytes env) @ '')'')))))"

definition list_questions :: "bridge \<Rightarrow> question_info list" where
  "list_questions b = sort_key qi_asked_at (map pq_info (filter (\<lambda>q. pq_transport q \<noteq> TransportRegistering) (ib_pending b)))"

definition expire_all :: "bridge \<Rightarrow> nat \<times> bridge" where
  "expire_all b = (length (ib_pending b), b\<lparr>ib_expired := True, ib_pending := []\<rparr>)"

text \<open>The drop of \<open>PendingRegistration\<close>.\<close>

definition drop_registration :: "string \<Rightarrow> nat \<Rightarrow> bridge \<Rightarrow> bridge" where
  "drop_registration question_id generation b = (case pending_get question_id b of
     Some q \<Rightarrow> if pq_generation q = generation then pending_remove question_id b else b
   | None \<Rightarrow> b)"

definition validate_http_answer_size :: "env \<Rightarrow> (json \<Rightarrow> (string, nat) result) \<Rightarrow> json \<Rightarrow> (answer_error, unit) result" where
  "validate_http_answer_size env answer_size value = (case answer_size value of
     Inl e \<Rightarrow> Inl (AnswerInvalid e)
   | Inr n \<Rightarrow> if max_answer_bytes env < n then Inl (AnswerTooLarge (max_answer_bytes env)) else Inr ())"

text \<open>\<open>answer\<close> up to the end of its critical section: the question is removed, its sender kept.\<close>

definition answer_take :: "env \<Rightarrow> (json \<Rightarrow> (string, nat) result) \<Rightarrow> string \<Rightarrow> json \<Rightarrow> bridge \<Rightarrow> (answer_error, nat \<times> bridge) result" where
  "answer_take env answer_size question_id value b = (case validate_http_answer_size env answer_size value of
     Inl e \<Rightarrow> Inl e
   | Inr _ \<Rightarrow> (case pending_get question_id b of
       None \<Rightarrow> Inl (UnknownOrExpired question_id)
     | Some q \<Rightarrow>
        if pq_transport q = TransportRegistering then Inl (AnswerUnavailable ''question registration is still in progress'')
        else Inr (pq_generation q, pending_remove question_id b)))"

text \<open>The whole of \<open>answer\<close>; \<open>receiving\<close> says which receivers are still there when it sends.\<close>

definition answer :: "env \<Rightarrow> (json \<Rightarrow> (string, nat) result) \<Rightarrow> (nat \<Rightarrow> bool) \<Rightarrow> string \<Rightarrow> json \<Rightarrow> bridge \<Rightarrow> (answer_error, nat) result \<times> bridge" where
  "answer env answer_size receiving question_id value b = (case answer_take env answer_size question_id value b of
     Inl e \<Rightarrow> (Inl e, b)
   | Inr (g, b') \<Rightarrow> (if receiving g then Inr g else Inl (UnknownOrExpired question_id), b'))"

datatype answer_outcome = Queued string | OwnerDrainingOutcome string | AlreadyAnswered | AnswerNotFound | AnswerNotDurable

text \<open>
  \<open>answer_http\<close>: \<open>b\<close> is the bridge when the transport is looked up, \<open>b'\<close> when the answer is delivered
  locally; \<open>stored\<close> is what the durable store says.
\<close>

definition answer_http :: "env \<Rightarrow> (json \<Rightarrow> (string, nat) result) \<Rightarrow> (string, answer_outcome) result \<Rightarrow> (nat \<Rightarrow> bool) \<Rightarrow> string \<Rightarrow> json \<Rightarrow>
    bridge \<Rightarrow> bridge \<Rightarrow> (answer_error, answer_outcome) result \<times> bridge" where
  "answer_http env answer_size stored receiving question_id value b b' =
    (let local_answer = (case answer env answer_size receiving question_id value b' of (r, k) \<Rightarrow> (map_sum id (\<lambda>_. AnswerNotDurable) r, k))
     in case validate_http_answer_size env answer_size value of
       Inl e \<Rightarrow> (Inl e, b')
     | Inr _ \<Rightarrow> (case pending_get question_id b of
         None \<Rightarrow> (Inl (UnknownOrExpired question_id), b')
       | Some q \<Rightarrow> (case pq_transport q of
           TransportRegistering \<Rightarrow> (Inl (AnswerUnavailable ''question registration is still in progress''), b')
         | ProcessLocal \<Rightarrow> local_answer
         | SharedStore \<Rightarrow> (case stored of
             Inl e \<Rightarrow> (Inl (AnswerUnavailable e), b')
           | Inr (Queued owner) \<Rightarrow> (Inr (Queued owner), snd local_answer)
           | Inr (OwnerDrainingOutcome owner) \<Rightarrow> (Inr (OwnerDrainingOutcome owner), b')
           | Inr AlreadyAnswered \<Rightarrow> (Inr AlreadyAnswered, b')
           | Inr AnswerNotFound \<Rightarrow> (Inl (UnknownOrExpired question_id), b')
           | Inr AnswerNotDurable \<Rightarrow> local_answer))))"

datatype registration_outcome = Registered | RegistrationOwnerDraining string | RegistrationNotDurable

text \<open>The end of a durable registration in \<open>ask_http\<close>.\<close>

definition finish_registration :: "(iron_error, registration_outcome) result \<Rightarrow> string \<Rightarrow> nat \<Rightarrow> bridge \<Rightarrow> (iron_error, unit) result \<times> bridge" where
  "finish_registration outcome question_id generation b = (case outcome of
     Inl e \<Rightarrow> (Inl e, b)
   | Inr out \<Rightarrow> (case pending_get question_id b of
       None \<Rightarrow> (Inl (Validation (''Question '' @ quoted question_id @ '' expired during durable registration'')), b)
     | Some q \<Rightarrow>
        if pq_generation q \<noteq> generation
        then (Inl (Conflict (''Question '' @ quoted question_id @ '' was replaced during durable registration'')), b)
        else (let with_transport = (\<lambda>t. b\<lparr>ib_pending := map (\<lambda>x. if pending_id x = question_id then x\<lparr>pq_transport := t\<rparr> else x) (ib_pending b)\<rparr>)
              in case out of
                Registered \<Rightarrow> (Inr (), with_transport SharedStore)
              | RegistrationNotDurable \<Rightarrow> (Inr (), with_transport ProcessLocal)
              | RegistrationOwnerDraining owner \<Rightarrow> (Inl (OwnerDraining owner), b))))"

section \<open>Waiting for the answer\<close>

datatype read_outcome_hi = ReadAnswered json | ReadPending | ReadNotFound | ReadNotDurable

datatype poll_result = PollRead "(iron_error, read_outcome_hi) result" | QueryTimedOut

datatype ask_result = AskAnswered json | AskTimedOut | AskFailed iron_error | AskCancelled

text \<open>
  One round of the biased \<open>select!\<close> looks at the receiver first: it finds a value, or a sender that
  is gone, or nothing. Only then it looks at the poll of the store, and at the deadline if that
  has not finished. \<open>None\<close> is another round. (Tokio's cooperative budget, which can make a look find
  nothing, is left out.)
\<close>

definition await_receiver :: "json option \<Rightarrow> bool \<Rightarrow> ask_result option" where
  "await_receiver slot sender_there = (case slot of
     Some v \<Rightarrow> Some (AskAnswered v)
   | None \<Rightarrow> if sender_there then None else Some AskTimedOut)"

definition await_poll :: "poll_result option \<Rightarrow> bool \<Rightarrow> ask_result option" where
  "await_poll poll deadline = (case poll of
     Some (PollRead (Inr (ReadAnswered v))) \<Rightarrow> Some (AskAnswered v)
   | Some (PollRead (Inr _)) \<Rightarrow> None
   | Some (PollRead (Inl (Io _))) \<Rightarrow> None
   | Some (PollRead (Inl e)) \<Rightarrow> Some (AskFailed e)
   | Some QueryTimedOut \<Rightarrow> None
   | None \<Rightarrow> if deadline then Some AskTimedOut else None)"

section \<open>Interleaved tasks\<close>

text \<open>
  What a task that asks is doing. \<open>AskWaiting\<close>: at the start of a round or suspended in it. \<open>AskPolling\<close>:
  it found nothing at the receiver. \<open>AskDeciding\<close>: the poll or the deadline gave the result, and the
  receiver is still there until the function returns. \<open>AskCleanup\<close>: the receiver is dropped and the
  mailbox in the store is being closed. \<open>AskClosing\<close>: the registration is about to be dropped.
\<close>

datatype ask_phase =
    AskRegistering
  | AskWaiting
  | AskPolling
  | AskDeciding ask_result
  | AskCleanup ask_result
  | AskClosing ask_result
  | AskDone ask_result

record asker =
  ak_id :: string
  ak_phase :: ask_phase
  ak_slot :: "json option"

text \<open>
  The bridge, the tasks that ask (by generation), the answers whose question is removed and whose
  value is not yet sent, the answers reported as delivered, the questions whose answer was
  delivered after the task's latest look at its receiver, and the answers read from the store.
\<close>

record bridge_sys =
  bs_bridge :: bridge
  bs_askers :: "nat \<rightharpoonup> asker"
  bs_sends :: "(nat \<times> json) list"
  bs_accepted :: "(nat \<times> json) list"
  bs_overlooked :: "nat list"
  bs_reads :: "(nat \<times> json) list"

definition looked_already :: "asker \<Rightarrow> bool" where
  "looked_already a = (case ak_phase a of AskPolling \<Rightarrow> True | AskDeciding _ \<Rightarrow> True | _ \<Rightarrow> False)"

definition receiver_open :: "asker \<Rightarrow> bool" where
  "receiver_open a \<longleftrightarrow> ak_phase a = AskRegistering \<or> ak_phase a = AskWaiting \<or> looked_already a"

text \<open>Where a task that asks is suspended, so that it can be dropped.\<close>

definition suspended :: "bool \<Rightarrow> asker \<Rightarrow> bool" where
  "suspended durable a = (case ak_phase a of AskRegistering \<Rightarrow> True | AskWaiting \<Rightarrow> True | AskCleanup _ \<Rightarrow> durable | _ \<Rightarrow> False)"

definition sender_there :: "nat \<Rightarrow> bridge_sys \<Rightarrow> bool" where
  "sender_there g s \<longleftrightarrow> g \<in> pq_generation ` set (ib_pending (bs_bridge s)) \<or> g \<in> fst ` set (bs_sends s)"

definition deliver :: "nat \<Rightarrow> json \<Rightarrow> asker \<Rightarrow> bridge_sys \<Rightarrow> bridge_sys" where
  "deliver g v a s = (if receiver_open a
     then s\<lparr>bs_askers := (bs_askers s)(g \<mapsto> a\<lparr>ak_slot := Some v\<rparr>), bs_accepted := bs_accepted s @ [(g, v)],
       bs_overlooked := bs_overlooked s @ (if looked_already a then [g] else [])\<rparr> else s)"

definition store_read :: "nat \<Rightarrow> poll_result option \<Rightarrow> (nat \<times> json) list" where
  "store_read g poll = (case poll of Some (PollRead (Inr (ReadAnswered v))) \<Rightarrow> [(g, v)] | _ \<Rightarrow> [])"

inductive bridge_step :: "env \<Rightarrow> (question_info \<Rightarrow> (string, nat) result) \<Rightarrow> (json \<Rightarrow> (string, nat) result) \<Rightarrow> bridge_sys \<Rightarrow> bridge_sys \<Rightarrow> bool"
  for env question_size answer_size where
  asked: "validate_ask env prompt choices timeout_s = Inr () \<Longrightarrow>
    register env question_size now i prompt choices timeout_s kind (bs_bridge s) = Inr (g, info, b) \<Longrightarrow>
    bridge_step env question_size answer_size s (s\<lparr>bs_bridge := b, bs_askers := (bs_askers s)(g \<mapsto>
      \<lparr>ak_id = i, ak_phase = (if ib_durable b then AskRegistering else AskWaiting), ak_slot = None\<rparr>)\<rparr>)"
| registered: "bs_askers s g = Some a \<Longrightarrow> ak_phase a = AskRegistering \<Longrightarrow> finish_registration outcome (ak_id a) g (bs_bridge s) = (r, b) \<Longrightarrow>
    bridge_step env question_size answer_size s (s\<lparr>bs_bridge := b,
      bs_askers := (bs_askers s)(g \<mapsto> a\<lparr>ak_phase := (case r of Inl e \<Rightarrow> AskClosing (AskFailed e) | Inr _ \<Rightarrow> AskWaiting)\<rparr>)\<rparr>)"
| taken: "answer_take env answer_size i v (bs_bridge s) = Inr (g, b) \<Longrightarrow>
    bridge_step env question_size answer_size s (s\<lparr>bs_bridge := b, bs_sends := bs_sends s @ [(g, v)]\<rparr>)"
| sent: "bs_sends s = xs @ (g, v) # ys \<Longrightarrow> bs_askers s g = Some a \<Longrightarrow>
    bridge_step env question_size answer_size s (deliver g v a (s\<lparr>bs_sends := xs @ ys\<rparr>))"
| looked: "bs_askers s g = Some a \<Longrightarrow> ak_phase a = AskWaiting \<Longrightarrow>
    bridge_step env question_size answer_size s (s\<lparr>bs_askers := (bs_askers s)(g \<mapsto> a\<lparr>ak_phase :=
      (case await_receiver (ak_slot a) (sender_there g s) of Some r \<Rightarrow> AskCleanup r | None \<Rightarrow> AskPolling)\<rparr>), bs_overlooked := removeAll g (bs_overlooked s)\<rparr>)"
| polled: "bs_askers s g = Some a \<Longrightarrow> ak_phase a = AskPolling \<Longrightarrow>
    bridge_step env question_size answer_size s (s\<lparr>bs_askers := (bs_askers s)(g \<mapsto> a\<lparr>ak_phase :=
      (case await_poll poll deadline of Some r \<Rightarrow> AskDeciding r | None \<Rightarrow> AskWaiting)\<rparr>), bs_reads := bs_reads s @ store_read g poll\<rparr>)"
| receiver_dropped: "bs_askers s g = Some a \<Longrightarrow> ak_phase a = AskDeciding r \<Longrightarrow>
    bridge_step env question_size answer_size s (s\<lparr>bs_askers := (bs_askers s)(g \<mapsto> a\<lparr>ak_phase := AskCleanup r\<rparr>)\<rparr>)"
| cleaned: "bs_askers s g = Some a \<Longrightarrow> ak_phase a = AskCleanup r \<Longrightarrow>
    bridge_step env question_size answer_size s (s\<lparr>bs_askers := (bs_askers s)(g \<mapsto> a\<lparr>ak_phase := AskClosing r\<rparr>)\<rparr>)"
| cancelled: "bs_askers s g = Some a \<Longrightarrow> suspended (ib_durable (bs_bridge s)) a \<Longrightarrow>
    bridge_step env question_size answer_size s (s\<lparr>bs_askers := (bs_askers s)(g \<mapsto> a\<lparr>ak_phase := AskClosing AskCancelled\<rparr>)\<rparr>)"
| closed: "bs_askers s g = Some a \<Longrightarrow> ak_phase a = AskClosing r \<Longrightarrow>
    bridge_step env question_size answer_size s (s\<lparr>bs_bridge := drop_registration (ak_id a) g (bs_bridge s),
      bs_askers := (bs_askers s)(g \<mapsto> a\<lparr>ak_phase := AskDone r\<rparr>)\<rparr>)"
| expired: "bridge_step env question_size answer_size s (s\<lparr>bs_bridge := snd (expire_all (bs_bridge s))\<rparr>)"

definition start_bridge :: "bool \<Rightarrow> bridge_sys" where
  "start_bridge durable = \<lparr>bs_bridge = new_bridge durable, bs_askers = Map.empty, bs_sends = [], bs_accepted = [], bs_overlooked = [], bs_reads = []\<rparr>"

section \<open>The status of the run\<close>

text \<open>
  \<open>with_run_wait_status\<close>: a task counts itself as a waiter and writes the status, waits, uncounts
  itself and writes the status again; each write is under the lock of status updates and
  chooses the status only there. A write that fails is not repeated. A task that is dropped
  uncounts itself and leaves a cleanup task that writes the status, unless the bridge has expired.
  A drop in the middle of a write releases the lock but does not stop the write: the SQLite and JSON stores
  have handed it to a blocking thread, the PostgreSQL store has sent it; it reaches the store at
  any time afterwards, or never. The model is of tasks with a run record to update that are dropped inside the runtime.
\<close>

datatype wait_phase =
    EntryQueued | EntryWriting run_status | WaitActive
  | ExitQueued | ExitWriting run_status
  | CleanupQueued | CleanupWriting run_status | WaitOver

text \<open>
  How a write ended: acknowledged to its task; in effect, but with an error or after its task was
  dropped; or with an error and without effect.
\<close>

datatype write_end = Acknowledged run_status | Unconfirmed run_status | WriteLost

record status_sys =
  ss_tasks :: "wait_phase list"
  ss_waiters :: nat
  ss_expired :: bool
  ss_detached :: "run_status list"
  ss_writes :: "write_end list"

text \<open>The status in the store after the writes so far, the latest one last.\<close>

fun stored_status :: "write_end list \<Rightarrow> run_status option" where
  "stored_status [] = None"
| "stored_status (w # ws) = (case stored_status ws of Some st \<Rightarrow> Some st | None \<Rightarrow>
     (case w of Acknowledged st \<Rightarrow> Some st | Unconfirmed st \<Rightarrow> Some st | WriteLost \<Rightarrow> None))"

definition wanted_status :: "nat \<Rightarrow> run_status" where
  "wanted_status waiters = (if 0 < waiters then WaitingForInput else RunRunning)"

fun writing :: "wait_phase \<Rightarrow> run_status option" where
  "writing (EntryWriting st) = Some st"
| "writing (ExitWriting st) = Some st"
| "writing (CleanupWriting st) = Some st"
| "writing _ = None"

fun take_lock :: "run_status \<Rightarrow> wait_phase \<Rightarrow> wait_phase option" where
  "take_lock st EntryQueued = Some (EntryWriting st)"
| "take_lock st ExitQueued = Some (ExitWriting st)"
| "take_lock st CleanupQueued = Some (CleanupWriting st)"
| "take_lock st _ = None"

fun written :: "wait_phase \<Rightarrow> wait_phase" where
  "written (EntryWriting _) = WaitActive"
| "written _ = WaitOver"

fun counted :: "wait_phase \<Rightarrow> bool" where
  "counted EntryQueued = True"
| "counted (EntryWriting _) = True"
| "counted WaitActive = True"
| "counted _ = False"

text \<open>Phases in which the task can be dropped: cleanup tasks are detached.\<close>

fun droppable :: "wait_phase \<Rightarrow> bool" where
  "droppable CleanupQueued = False"
| "droppable (CleanupWriting _) = False"
| "droppable WaitOver = False"
| "droppable _ = True"

definition cut_off :: "wait_phase \<Rightarrow> run_status list" where
  "cut_off p = (case writing p of None \<Rightarrow> [] | Some st \<Rightarrow> [st])"

text \<open>The counter; \<open>None\<close> is the panic of \<open>checked_add\<close> and \<open>checked_sub\<close>.\<close>

definition begin_run_status_wait :: "nat \<Rightarrow> nat option" where
  "begin_run_status_wait waiters = checked_add waiters 1"

definition finish_run_status_wait :: "nat \<Rightarrow> nat option" where
  "finish_run_status_wait waiters = (if waiters = 0 then None else Some (waiters - 1))"

inductive status_step :: "status_sys \<Rightarrow> status_sys \<Rightarrow> bool" where
  wait_begun: "begin_run_status_wait (ss_waiters s) = Some n \<Longrightarrow>
    status_step s (s\<lparr>ss_waiters := n, ss_tasks := ss_tasks s @ [EntryQueued]\<rparr>)"
| lock_taken: "i < length (ss_tasks s) \<Longrightarrow> list_all (\<lambda>p. writing p = None) (ss_tasks s) \<Longrightarrow>
    take_lock (wanted_status (ss_waiters s)) (ss_tasks s ! i) = Some p \<Longrightarrow> status_step s (s\<lparr>ss_tasks := (ss_tasks s)[i := p]\<rparr>)"
| status_written: "i < length (ss_tasks s) \<Longrightarrow> writing (ss_tasks s ! i) = Some st \<Longrightarrow>
    status_step s (s\<lparr>ss_writes := ss_writes s @ [Acknowledged st], ss_tasks := (ss_tasks s)[i := written (ss_tasks s ! i)]\<rparr>)"
| status_failed: "i < length (ss_tasks s) \<Longrightarrow> writing (ss_tasks s ! i) = Some st \<Longrightarrow>
    status_step s (s\<lparr>ss_writes := ss_writes s @ [if effective then Unconfirmed st else WriteLost],
      ss_tasks := (ss_tasks s)[i := written (ss_tasks s ! i)]\<rparr>)"
| wait_finished: "i < length (ss_tasks s) \<Longrightarrow> ss_tasks s ! i = WaitActive \<Longrightarrow> finish_run_status_wait (ss_waiters s) = Some n \<Longrightarrow>
    status_step s (s\<lparr>ss_waiters := n, ss_tasks := (ss_tasks s)[i := ExitQueued]\<rparr>)"
| dropped_counted: "i < length (ss_tasks s) \<Longrightarrow> counted (ss_tasks s ! i) \<Longrightarrow> finish_run_status_wait (ss_waiters s) = Some n \<Longrightarrow>
    status_step s (s\<lparr>ss_waiters := n, ss_tasks := (ss_tasks s)[i := CleanupQueued],
      ss_detached := ss_detached s @ cut_off (ss_tasks s ! i)\<rparr>)"
| dropped_uncounted: "i < length (ss_tasks s) \<Longrightarrow> droppable (ss_tasks s ! i) \<Longrightarrow> \<not> counted (ss_tasks s ! i) \<Longrightarrow>
    status_step s (s\<lparr>ss_tasks := (ss_tasks s)[i := CleanupQueued], ss_detached := ss_detached s @ cut_off (ss_tasks s ! i)\<rparr>)"
| detached_landed: "ss_detached s = xs @ st # ys \<Longrightarrow>
    status_step s (s\<lparr>ss_detached := xs @ ys, ss_writes := ss_writes s @ [Unconfirmed st]\<rparr>)"
| detached_lost: "ss_detached s = xs @ st # ys \<Longrightarrow> status_step s (s\<lparr>ss_detached := xs @ ys\<rparr>)"
| cleanup_skipped: "i < length (ss_tasks s) \<Longrightarrow> ss_tasks s ! i = CleanupQueued \<Longrightarrow> ss_expired s \<Longrightarrow>
    status_step s (s\<lparr>ss_tasks := (ss_tasks s)[i := WaitOver]\<rparr>)"
| bridge_expired: "status_step s (s\<lparr>ss_expired := True\<rparr>)"

definition start_status :: status_sys where
  "start_status = \<lparr>ss_tasks = [], ss_waiters = 0, ss_expired = False, ss_detached = [], ss_writes = []\<rparr>"

end
