(* ===== verification/Input_Bridge_Correct.thy ===== *)
theory Input_Bridge_Correct
  imports Input_Bridge
begin

text \<open>
  What the bridge promises under every interleaving: a delivered answer is what its question returns
  if it comes before the question's last look at its receiver and the question is not cancelled,
  and goes to no other; the pending questions stay within their limits, expiry is final, and the
  run status follows the number of waiting tasks once an acknowledged write has ended.
\<close>

section \<open>The status of the run\<close>



definition acknowledged :: "write_end \<Rightarrow> bool" where
  "acknowledged w = (case w of Acknowledged _ \<Rightarrow> True | _ \<Rightarrow> False)"

lemma acknowledged_simps [simp]: "acknowledged (Acknowledged st)" "\<not> acknowledged (Unconfirmed st)" "\<not> acknowledged WriteLost"
  by (simp_all add: acknowledged_def)

text \<open>The latest write was chosen when the number of waiters was what it is now, or was not acknowledged.\<close>

definition latest_right :: "run_status \<Rightarrow> write_end list \<Rightarrow> bool" where
  "latest_right st ws \<longleftrightarrow> ws \<noteq> [] \<and> (acknowledged (last ws) \<longrightarrow> last ws = Acknowledged st)"

lemma latest_right_snoc [simp]: "latest_right st (ws @ [w]) \<longleftrightarrow> (acknowledged w \<longrightarrow> w = Acknowledged st)"
  by (simp add: latest_right_def)













text \<open>
  Without the acknowledgement it is not so: the write of a task that was dropped on entry can land
  after the cleanup's write, and then no task waits, nothing is left to be written, and the status
  in the store is \<open>WaitingForInput\<close>.
\<close>

lemma cut_off_write_leaves_stale_status:
  "\<exists>s. status_step\<^sup>*\<^sup>* start_status s \<and> ss_tasks s = [WaitOver] \<and> ss_detached s = [] \<and> \<not> ss_expired s \<and> ss_waiters s = 0 \<and>
     stored_status (ss_writes s) = Some WaitingForInput"
proof -
  let ?st = "\<lambda>ps n ds ws. \<lparr>ss_tasks = ps, ss_waiters = n, ss_expired = False, ss_detached = ds, ss_writes = ws\<rparr>"
  have "status_step start_status (?st [EntryQueued] 1 [] [])"
    using status_step.wait_begun [of start_status 1] by (simp add: start_status_def begin_run_status_wait_def checked_add_def u64_max_def)
  moreover have "status_step (?st [EntryQueued] 1 [] []) (?st [EntryWriting WaitingForInput] 1 [] [])"
    using status_step.lock_taken [of 0 "?st [EntryQueued] 1 [] []"] by (simp add: wanted_status_def)
  moreover have "status_step (?st [EntryWriting WaitingForInput] 1 [] []) (?st [CleanupQueued] 0 [WaitingForInput] [])"
    using status_step.dropped_counted [of 0 "?st [EntryWriting WaitingForInput] 1 [] []" 0] by (simp add: cut_off_def finish_run_status_wait_def)
  moreover have "status_step (?st [CleanupQueued] 0 [WaitingForInput] []) (?st [CleanupWriting RunRunning] 0 [WaitingForInput] [])"
    using status_step.lock_taken [of 0 "?st [CleanupQueued] 0 [WaitingForInput] []"] by (simp add: wanted_status_def)
  moreover have "status_step (?st [CleanupWriting RunRunning] 0 [WaitingForInput] []) (?st [WaitOver] 0 [WaitingForInput] [Acknowledged RunRunning])"
    using status_step.status_written [of 0 "?st [CleanupWriting RunRunning] 0 [WaitingForInput] []"] by simp
  moreover have "status_step (?st [WaitOver] 0 [WaitingForInput] [Acknowledged RunRunning])
      (?st [WaitOver] 0 [] [Acknowledged RunRunning, Unconfirmed WaitingForInput])"
    using status_step.detached_landed [of "?st [WaitOver] 0 [WaitingForInput] [Acknowledged RunRunning]" "[]" WaitingForInput "[]"] by simp
  ultimately have "status_step\<^sup>*\<^sup>* start_status (?st [WaitOver] 0 [] [Acknowledged RunRunning, Unconfirmed WaitingForInput])"
    by (meson converse_rtranclp_into_rtranclp rtranclp.rtrancl_refl)
  then show ?thesis by (intro exI conjI) (assumption, simp_all)
qed

section \<open>Answers\<close>

lemma pending_get_Some: "pending_get i b = Some q \<Longrightarrow> q \<in> set (ib_pending b) \<and> pending_id q = i"
  by (auto simp: pending_get_def find_Some_iff)

lemma pending_get_None: "pending_get i b = None \<Longrightarrow> i \<notin> pending_id ` set (ib_pending b)"
  by (auto simp: pending_get_def find_None_iff)

lemma checked_sum_exact: "checked_sum n xs = Some m \<Longrightarrow> m = n + sum_list xs"
proof (induction xs arbitrary: n)
  case (Cons x xs)
  then have "checked_sum (n + x) xs = Some m" by (auto simp: rust_arith bind_eq_Some_conv)
  from Cons.IH [OF this] show ?case by simp
qed simp

lemma register_Inr:
  assumes "register env qs now i prompt choices t kind b = Inr (g, info, b')"
  shows "g = ib_next b \<and> \<not> ib_expired b \<and> qi_id info = i \<and> i \<notin> pending_id ` set (ib_pending b) \<and> length (ib_pending b) < max_pending env \<and>
    (\<exists>n. b' = b\<lparr>ib_next := wrapping_add (ib_next b) 1, ib_pending := ib_pending b @ [\<lparr>pq_info = info, pq_generation = g, pq_bytes = n,
        pq_transport = (if ib_durable b then TransportRegistering else ProcessLocal)\<rparr>]\<rparr> \<and>
      sum_list (map pq_bytes (ib_pending b)) + n \<le> max_pending_bytes env)"
  using assms unfolding register_def Let_def
  by (auto intro!: exI simp: rust_arith bind_eq_Some_conv split: if_splits sum.splits option.splits dest!: checked_sum_exact pending_get_None)

text \<open>Each generation has its channel in one place: pending, taken by an answer, or used.\<close>

definition channels :: "bridge_sys \<Rightarrow> nat list" where
  "channels s = map pq_generation (ib_pending (bs_bridge s)) @ map fst (bs_sends s) @ map fst (bs_accepted s)"

definition closing :: "ask_phase \<Rightarrow> ask_result option" where
  "closing ph = (case ph of AskDeciding r \<Rightarrow> Some r | AskCleanup r \<Rightarrow> Some r | AskClosing r \<Rightarrow> Some r | AskDone r \<Rightarrow> Some r | _ \<Rightarrow> None)"

text \<open>
  Where a value that was delivered is: waiting to be seen, returned by the task, or lost because the
  task was cancelled or had already looked at its receiver for the last time.
\<close>

definition value_placed :: "bridge_sys \<Rightarrow> nat \<Rightarrow> json \<Rightarrow> ask_phase \<Rightarrow> bool" where
  "value_placed s g v ph \<longleftrightarrow> ph = AskWaiting \<or> ph = AskPolling \<and> g \<in> set (bs_overlooked s) \<or> closing ph = Some (AskAnswered v) \<or>
     closing ph = Some AskCancelled \<or> g \<in> set (bs_overlooked s) \<and> closing ph \<noteq> None"

definition asker_ok :: "bridge_sys \<Rightarrow> nat \<Rightarrow> asker \<Rightarrow> bool" where
  "asker_ok s g a \<longleftrightarrow> g < ib_next (bs_bridge s) \<and>
     (\<forall>v. ak_slot a = Some v \<longleftrightarrow> (g, v) \<in> set (bs_accepted s)) \<and>
     (\<forall>v. closing (ak_phase a) = Some (AskAnswered v) \<longrightarrow> (g, v) \<in> set (bs_accepted s @ bs_reads s)) \<and>
     (\<forall>v. ak_slot a = Some v \<longrightarrow> value_placed s g v (ak_phase a))"

definition pending_ok :: "bridge_sys \<Rightarrow> pending_question \<Rightarrow> bool" where
  "pending_ok s q \<longleftrightarrow> (\<exists>a. bs_askers s (pq_generation q) = Some a \<and> ak_id a = pending_id q \<and> (\<forall>r. ak_phase a \<noteq> AskDone r) \<and>
     (pq_transport q \<noteq> TransportRegistering \<longrightarrow> ak_phase a \<noteq> AskRegistering))"

definition bridge_ok :: "env \<Rightarrow> bridge_sys \<Rightarrow> bool" where
  "bridge_ok env s \<longleftrightarrow> distinct (channels s) \<and> distinct (map pending_id (ib_pending (bs_bridge s))) \<and>
     length (ib_pending (bs_bridge s)) \<le> max_pending env \<and> sum_list (map pq_bytes (ib_pending (bs_bridge s))) \<le> max_pending_bytes env \<and>
     (ib_expired (bs_bridge s) \<longrightarrow> ib_pending (bs_bridge s) = []) \<and>
     (\<forall>q \<in> set (ib_pending (bs_bridge s)). pending_ok s q) \<and>
     (\<forall>(g, v) \<in> set (bs_sends s). \<exists>a. bs_askers s g = Some a \<and> ak_phase a \<noteq> AskRegistering) \<and>
     (\<forall>(g, v) \<in> set (bs_accepted s). bs_askers s g \<noteq> None) \<and>
     (\<forall>g a. bs_askers s g = Some a \<longrightarrow> asker_ok s g a)"

lemma bridge_okI:
  assumes "distinct (channels s)" "distinct (map pending_id (ib_pending (bs_bridge s)))" "length (ib_pending (bs_bridge s)) \<le> max_pending env"
    "sum_list (map pq_bytes (ib_pending (bs_bridge s))) \<le> max_pending_bytes env" "ib_expired (bs_bridge s) \<Longrightarrow> ib_pending (bs_bridge s) = []"
    "\<And>q. q \<in> set (ib_pending (bs_bridge s)) \<Longrightarrow> pending_ok s q"
    "\<And>g v. (g, v) \<in> set (bs_sends s) \<Longrightarrow> \<exists>a. bs_askers s g = Some a \<and> ak_phase a \<noteq> AskRegistering"
    "\<And>g v. (g, v) \<in> set (bs_accepted s) \<Longrightarrow> bs_askers s g \<noteq> None" "\<And>g a. bs_askers s g = Some a \<Longrightarrow> asker_ok s g a"
  shows "bridge_ok env s"
  using assms unfolding bridge_ok_def by blast

lemma bridge_okD:
  assumes "bridge_ok env s"
  shows "distinct (channels s)" "distinct (map pending_id (ib_pending (bs_bridge s)))" "length (ib_pending (bs_bridge s)) \<le> max_pending env"
    "sum_list (map pq_bytes (ib_pending (bs_bridge s))) \<le> max_pending_bytes env" "ib_expired (bs_bridge s) \<Longrightarrow> ib_pending (bs_bridge s) = []"
    "\<And>q. q \<in> set (ib_pending (bs_bridge s)) \<Longrightarrow> pending_ok s q"
    "\<And>g v. (g, v) \<in> set (bs_sends s) \<Longrightarrow> \<exists>a. bs_askers s g = Some a \<and> ak_phase a \<noteq> AskRegistering"
    "\<And>g v. (g, v) \<in> set (bs_accepted s) \<Longrightarrow> bs_askers s g \<noteq> None" "\<And>g a. bs_askers s g = Some a \<Longrightarrow> asker_ok s g a"
  using assms unfolding bridge_ok_def by blast+

lemma removed_pending:
  assumes "distinct (map pending_id P)" "distinct (map pq_generation P)" "q \<in> set P" "P' = filter (\<lambda>x. pending_id x \<noteq> pending_id q) P"
  shows "set P' = set P - {q}" "pq_generation q \<notin> pq_generation ` set P'" "distinct (map pending_id P')" "distinct (map pq_generation P')"
    "length P' \<le> length P" "sum_list (map pq_bytes P') \<le> sum_list (map pq_bytes P)"
proof -
  show s: "set P' = set P - {q}" using assms by (auto simp: distinct_map inj_on_def)
  show "pq_generation q \<notin> pq_generation ` set P'" using assms(2,3) s by (auto simp: distinct_map inj_on_def)
  show "distinct (map pending_id P')" "distinct (map pq_generation P')" using assms by (auto simp: distinct_map inj_on_def)
  show "sum_list (map pq_bytes P') \<le> sum_list (map pq_bytes P)" unfolding assms(4) by (rule sum_list_filter_le_nat)
qed (simp add: assms(4))

lemma channel_known: "bridge_ok env s \<Longrightarrow> g \<in> set (channels s) \<Longrightarrow> \<exists>a. bs_askers s g = Some a \<and> asker_ok s g a"
  unfolding bridge_ok_def channels_def pending_ok_def by (fastforce split: prod.splits)

lemma asker_ok_mono:
  assumes "asker_ok s g a" "ib_next (bs_bridge s) \<le> ib_next (bs_bridge s')" "bs_accepted s' = bs_accepted s" "set (bs_reads s) \<subseteq> set (bs_reads s')"
    "g \<in> set (bs_overlooked s') \<longleftrightarrow> g \<in> set (bs_overlooked s)"
  shows "asker_ok s' g a"
  using assms unfolding asker_ok_def value_placed_def by (auto dest: less_le_trans)

text \<open>A step of one asker that leaves the channels as they are.\<close>

lemma asker_update_ok:
  assumes ok: "bridge_ok env s" and g: "bs_askers s g = Some a"
    and a': "ak_id a' = ak_id a" "ak_slot a' = ak_slot a" "\<And>r. ak_phase a' \<noteq> AskDone r" "ak_phase a' \<noteq> AskRegistering"
    and cl: "\<And>v. closing (ak_phase a') = Some (AskAnswered v) \<Longrightarrow> (g, v) \<in> set (bs_accepted s @ bs_reads s @ rs)"
    and slot: "\<And>v. ak_slot a = Some v \<Longrightarrow> value_placed s' g v (ak_phase a')"
    and other: "\<And>h. h \<noteq> g \<Longrightarrow> h \<in> set ov \<longleftrightarrow> h \<in> set (bs_overlooked s)"
    and s': "s' = s\<lparr>bs_askers := (bs_askers s)(g \<mapsto> a'), bs_overlooked := ov, bs_reads := bs_reads s @ rs\<rparr>"
  shows "bridge_ok env s'"
proof -
  have "asker_ok s g a" using ok g by (simp add: bridge_ok_def)
  then have "asker_ok s' g a'" using a' cl slot unfolding asker_ok_def by (auto simp: s')
  moreover have "asker_ok s' h b" if "bs_askers s h = Some b" "h \<noteq> g" for h b
  proof -
    have "asker_ok s h b" using ok that by (simp add: bridge_ok_def)
    then show ?thesis by (rule asker_ok_mono) (auto simp: s' other that)
  qed
  moreover have "pending_ok s' q" if "pending_ok s q" for q using that g a' by (auto simp: pending_ok_def s')
  moreover have "\<exists>b. bs_askers s' h = Some b \<and> ak_phase b \<noteq> AskRegistering" if "(h, v) \<in> set (bs_sends s)" for h v
    using ok that a'(4) by (auto simp: bridge_ok_def s')
  ultimately show ?thesis using ok unfolding bridge_ok_def by (auto simp: s' channels_def split: if_splits)
qed

text \<open>Steps that only change the phase of one asker.\<close>

lemmas asker_phase_ok = asker_update_ok [where a' = "a\<lparr>ak_phase := ph\<rparr>" and rs = "[]" and ov = "bs_overlooked s" and s = s and a = a for a ph s, simplified]

lemma unique_pending: "distinct (map pending_id P) \<Longrightarrow> q \<in> set P \<Longrightarrow> q' \<in> set P \<Longrightarrow> pending_id q = pending_id q' \<Longrightarrow> q = q'"
  by (auto simp: distinct_map inj_on_def)

lemma drop_exact:
  assumes "distinct (map pending_id (ib_pending b))"
  shows "drop_registration i g b = b\<lparr>ib_pending := filter (\<lambda>q. \<not> (pending_id q = i \<and> pq_generation q = g)) (ib_pending b)\<rparr>"
proof (cases "pending_get i b")
  case None
  then have "filter (\<lambda>q. \<not> (pending_id q = i \<and> pq_generation q = g)) (ib_pending b) = ib_pending b"
    using pending_get_None by (auto simp: filter_id_conv)
  then show ?thesis using None by (simp add: drop_registration_def)
next
  case (Some q)
  note q = pending_get_Some [OF Some]
  have u: "x = q" if "x \<in> set (ib_pending b)" "pending_id x = i" for x using unique_pending [OF assms] q that by blast
  have "filter (\<lambda>x. \<not> (pending_id x = i \<and> pq_generation x = g)) (ib_pending b) =
      (if pq_generation q = g then filter (\<lambda>x. pending_id x \<noteq> i) (ib_pending b) else ib_pending b)"
    using u by (auto simp: filter_id_conv intro!: filter_cong)
  then show ?thesis using Some by (simp add: drop_registration_def pending_remove_def)
qed

lemma finish_registration_cases:
  assumes "finish_registration outcome i g b = (r, b')" "distinct (map pending_id (ib_pending b))"
  shows "(\<exists>e. r = Inl e) \<and> b' = b \<or> r = Inr () \<and> (\<exists>t q. q \<in> set (ib_pending b) \<and> pending_id q = i \<and> pq_generation q = g \<and>
    b' = b\<lparr>ib_pending := map (\<lambda>x. if x = q then x\<lparr>pq_transport := t\<rparr> else x) (ib_pending b)\<rparr>)"
proof (cases outcome)
  case (Inl e)
  then show ?thesis using assms(1) by (auto simp: finish_registration_def)
next
  case (Inr out)
  show ?thesis
  proof (cases "\<exists>q. pending_get i b = Some q \<and> pq_generation q = g")
    case False
    then show ?thesis using assms(1) Inr by (auto simp: finish_registration_def split: option.splits if_splits)
  next
    case True
    then obtain q where q: "pending_get i b = Some q" "pq_generation q = g" by blast
    have m: "map (\<lambda>x. if pending_id x = i then x\<lparr>pq_transport := t\<rparr> else x) (ib_pending b) =
        map (\<lambda>x. if x = q then x\<lparr>pq_transport := t\<rparr> else x) (ib_pending b)" for t
      using pending_get_Some [OF q(1)] unique_pending [OF assms(2)] by (intro map_cong) auto
    show ?thesis using assms(1) Inr q pending_get_Some [OF q(1)]
      by (cases out) (auto simp: finish_registration_def Let_def m)
  qed
qed

lemma bridge_step_ok:
  assumes "bridge_step env qs vs s s'" "bridge_ok env s" "ib_next (bs_bridge s) < u64_max"
  shows "bridge_ok env s' \<and> ib_next (bs_bridge s') \<le> ib_next (bs_bridge s) + 1"
  using assms
proof (induction rule: bridge_step.induct)
  case (asked prompt choices t now i kind s g info b)
  let ?a = "\<lparr>ak_id = i, ak_phase = (if ib_durable b then AskRegistering else AskWaiting), ak_slot = None\<rparr>"
  let ?s = "s\<lparr>bs_bridge := b, bs_askers := (bs_askers s)(g \<mapsto> ?a)\<rparr>"
  obtain n where r: "g = ib_next (bs_bridge s)" "\<not> ib_expired (bs_bridge s)" "qi_id info = i" "i \<notin> pending_id ` set (ib_pending (bs_bridge s))"
    "length (ib_pending (bs_bridge s)) < max_pending env"
    "b = (bs_bridge s)\<lparr>ib_next := wrapping_add (ib_next (bs_bridge s)) 1, ib_pending := ib_pending (bs_bridge s) @
       [\<lparr>pq_info = info, pq_generation = g, pq_bytes = n, pq_transport = (if ib_durable (bs_bridge s) then TransportRegistering else ProcessLocal)\<rparr>]\<rparr>"
    "sum_list (map pq_bytes (ib_pending (bs_bridge s))) + n \<le> max_pending_bytes env"
    using register_Inr [OF asked(2)] by blast
  have next': "ib_next b = g + 1" using asked(4) by (simp add: r wrapping_add_def u64_max_def)
  have fresh: "bs_askers s g = None" using asked(3) by (fastforce simp: bridge_ok_def asker_ok_def r(1))
  then have ch: "g \<notin> set (channels s)" using channel_known [OF asked(3)] by fastforce
  have "asker_ok ?s h x" if "bs_askers s h = Some x" for h x
  proof -
    have "asker_ok s h x" and le: "ib_next (bs_bridge s) \<le> ib_next b" using asked(3) that next' r(1) by (simp_all add: bridge_ok_def)
    then show ?thesis by (intro asker_ok_mono [OF \<open>asker_ok s h x\<close>]) simp_all
  qed
  moreover have "asker_ok ?s g ?a" using ch next' by (force simp: asker_ok_def channels_def closing_def)
  moreover have "pending_ok ?s q" if "pending_ok s q" for q using that fresh by (auto simp: pending_ok_def)
  moreover have "pending_ok ?s \<lparr>pq_info = info, pq_generation = g, pq_bytes = n, pq_transport = (if ib_durable (bs_bridge s) then TransportRegistering else ProcessLocal)\<rparr>"
    using r(3,6) by (simp add: pending_ok_def pending_id_def)
  moreover have "distinct (channels ?s)" using asked(3) ch by (auto simp: bridge_ok_def channels_def r(6))
  moreover have "distinct (map pending_id (ib_pending b))" using asked(3) r(3,4) by (auto simp: bridge_ok_def r(6) pending_id_def)
  moreover have "(g, v) \<notin> set (bs_sends s)" for v using ch by (force simp: channels_def)
  ultimately have "bridge_ok env ?s" using bridge_okD [OF asked(3)] r(2,5,7) fresh
    by (intro bridge_okI) (auto simp: r(6) split: if_splits)
  then show ?case using next' r(1) by simp
next
  case (registered s g a outcome r b)
  note D = bridge_okD [OF registered(4)]
  have slot: "ak_slot a = None" using D(9) [OF registered(1)] registered(2) by (cases "ak_slot a") (auto simp: asker_ok_def value_placed_def closing_def)
  from finish_registration_cases [OF registered(3) D(2)]
  consider e where "r = Inl e" "b = bs_bridge s" | t q where "r = Inr ()" "q \<in> set (ib_pending (bs_bridge s))" "pending_id q = ak_id a" "pq_generation q = g"
    "b = (bs_bridge s)\<lparr>ib_pending := map (\<lambda>x. if x = q then x\<lparr>pq_transport := t\<rparr> else x) (ib_pending (bs_bridge s))\<rparr>" by blast
  then show ?case
  proof cases
    case 1
    have "bridge_ok env (s\<lparr>bs_askers := (bs_askers s)(g \<mapsto> a\<lparr>ak_phase := AskClosing (AskFailed e)\<rparr>)\<rparr>)"
      by (rule asker_phase_ok [OF registered(4,1)]) (simp_all add: closing_def slot)
    then show ?thesis using 1 by simp
  next
    case 2
    let ?a = "a\<lparr>ak_phase := AskWaiting\<rparr>" and ?f = "\<lambda>x. if x = q then x\<lparr>pq_transport := t\<rparr> else x"
    let ?s = "s\<lparr>bs_askers := (bs_askers s)(g \<mapsto> ?a)\<rparr>"
    have ok: "bridge_ok env ?s" by (rule asker_phase_ok [OF registered(4,1)]) (simp_all add: closing_def slot)
    have same: "map pending_id (ib_pending b) = map pending_id (ib_pending (bs_bridge s))" "map pq_generation (ib_pending b) = map pq_generation (ib_pending (bs_bridge s))"
      "map pq_bytes (ib_pending b) = map pq_bytes (ib_pending (bs_bridge s))" "length (ib_pending b) = length (ib_pending (bs_bridge s))"
      "ib_next b = ib_next (bs_bridge s)" "ib_expired b = ib_expired (bs_bridge s)"
      by (simp_all add: 2(5) pending_id_def)
    have po: "pending_ok (?s\<lparr>bs_bridge := b\<rparr>) x" if "x \<in> set (ib_pending b)" for x
    proof -
      obtain y where y: "y \<in> set (ib_pending (bs_bridge s))" "x = ?f y" using \<open>x \<in> _\<close> by (auto simp: 2(5))
      then show ?thesis using D(6) [OF y(1)] registered(1) 2(3,4) by (auto simp: pending_ok_def pending_id_def split: if_splits)
    qed
    have ao: "asker_ok (?s\<lparr>bs_bridge := b\<rparr>) h x" if "bs_askers ?s h = Some x" for h x
      using bridge_okD(9) [OF ok that] by (rule asker_ok_mono) (simp_all add: same)
    have "bridge_ok env (?s\<lparr>bs_bridge := b\<rparr>)"
    proof (rule bridge_okI)
      show "distinct (channels (?s\<lparr>bs_bridge := b\<rparr>))" using bridge_okD(1) [OF ok] by (simp add: channels_def same)
      show "ib_pending (bs_bridge (?s\<lparr>bs_bridge := b\<rparr>)) = []" if "ib_expired (bs_bridge (?s\<lparr>bs_bridge := b\<rparr>))"
        using that D(5) by (simp add: same) (simp add: 2(5))
    qed (use D(2-4) bridge_okD(7,8) [OF ok] po ao in \<open>simp_all add: same\<close>)
    moreover have "?s\<lparr>bs_bridge := b\<rparr> = s\<lparr>bs_bridge := b, bs_askers := (bs_askers s)(g \<mapsto> ?a)\<rparr>" by (cases s) simp
    ultimately have "bridge_ok env (s\<lparr>bs_bridge := b, bs_askers := (bs_askers s)(g \<mapsto> ?a)\<rparr>)" by (simp only:)
    then show ?thesis using 2(1) same(5) by simp
  qed
next
  case (taken i v s g b)
  let ?s = "s\<lparr>bs_bridge := b, bs_sends := bs_sends s @ [(g, v)]\<rparr>"
  obtain q where q: "q \<in> set (ib_pending (bs_bridge s))" "pending_id q = i" "pq_generation q = g" "pq_transport q \<noteq> TransportRegistering"
    and b: "b = pending_remove i (bs_bridge s)"
    using taken(1) by (auto simp: answer_take_def split: sum.splits option.splits if_splits dest!: pending_get_Some)
  have P: "ib_pending b = filter (\<lambda>x. pending_id x \<noteq> pending_id q) (ib_pending (bs_bridge s))" "ib_next b = ib_next (bs_bridge s)"
    "ib_expired b = ib_expired (bs_bridge s)" by (simp_all add: b q(2) pending_remove_def)
  have d: "distinct (channels s)" "distinct (map pending_id (ib_pending (bs_bridge s)))" "distinct (map pq_generation (ib_pending (bs_bridge s)))"
    using taken(2) by (simp_all add: bridge_ok_def channels_def)
  note rem = removed_pending [OF d(2,3) q(1) P(1), unfolded q(3)]
  have "distinct (channels ?s)" using d(1) rem(1,2,4) q(1,3) by (auto simp: channels_def)
  moreover have "asker_ok ?s h x" if "bs_askers s h = Some x" for h x
  proof -
    have "asker_ok s h x" using taken(2) that by (simp add: bridge_ok_def)
    then show ?thesis by (rule asker_ok_mono) (simp_all add: P)
  qed
  moreover have "pending_ok ?s x" if "pending_ok s x" for x using that by (simp add: pending_ok_def)
  moreover have "\<exists>a. bs_askers s g = Some a \<and> ak_phase a \<noteq> AskRegistering" using taken(2) q by (auto simp: bridge_ok_def pending_ok_def)
  ultimately have "bridge_ok env ?s" using bridge_okD [OF taken(2)] rem(1,3,5,6) P(3) by (intro bridge_okI) auto
  then show ?case using P(2) by simp
next
  case (sent s xs g v ys a)
  let ?s = "s\<lparr>bs_sends := xs @ ys\<rparr>"
  have d: "distinct (channels s)" using sent(3) by (simp add: bridge_ok_def)
  have mono: "asker_ok ?s h x" if "bs_askers s h = Some x" for h x
  proof -
    have "asker_ok s h x" using sent(3) that by (simp add: bridge_ok_def)
    then show ?thesis by (rule asker_ok_mono) simp_all
  qed
  have ok: "bridge_ok env ?s" using sent(3) d mono unfolding bridge_ok_def pending_ok_def channels_def sent(1) by auto
  show ?case
  proof (cases "receiver_open a")
    case False
    then show ?thesis using ok by (simp add: deliver_def)
  next
    case True
    let ?a = "a\<lparr>ak_slot := Some v\<rparr>"
    let ?t = "?s\<lparr>bs_askers := (bs_askers s)(g \<mapsto> ?a), bs_accepted := bs_accepted s @ [(g, v)],
      bs_overlooked := bs_overlooked s @ (if looked_already a then [g] else [])\<rparr>"
    have ph: "ak_phase a \<noteq> AskRegistering" using sent by (auto simp: bridge_ok_def)
    have placed: "value_placed ?t g v (ak_phase a)"
      using True ph by (auto simp: receiver_open_def looked_already_def value_placed_def closing_def split: ask_phase.splits)
    have new: "g \<notin> fst ` set (bs_accepted s)" "g \<notin> pq_generation ` set (ib_pending (bs_bridge s))" using d by (auto simp: channels_def sent(1))
    then have "(g, w) \<notin> set (bs_accepted s)" for w by force
    then have "asker_ok ?t g ?a" using mono [OF sent(2)] placed unfolding asker_ok_def by auto
    moreover have "asker_ok ?t h x" if "bs_askers s h = Some x" "h \<noteq> g" for h x
      using mono [OF that(1)] that(2) by (auto simp: asker_ok_def value_placed_def)
    moreover have "pending_ok ?t q" if "pending_ok ?s q" for q using that sent(2) by (auto simp: pending_ok_def)
    moreover have "distinct (channels ?t)" using d by (auto simp: channels_def sent(1))
    ultimately have "bridge_ok env ?t" using bridge_okD [OF ok] ph sent(2) by (intro bridge_okI) (auto split: if_splits)
    then show ?thesis using True by (simp add: deliver_def)
  qed
next
  case (looked s g a)
  let ?ph = "case await_receiver (ak_slot a) (sender_there g s) of Some r \<Rightarrow> AskCleanup r | None \<Rightarrow> AskPolling"
  have ok: "asker_ok s g a" using looked(1,3) by (simp add: bridge_ok_def)
  have cl: "(g, v) \<in> set (bs_accepted s)" if "closing ?ph = Some (AskAnswered v)" for v
    using ok that by (auto simp: asker_ok_def closing_def await_receiver_def split: option.splits if_splits)
  have sl: "closing ?ph = Some (AskAnswered v)" if "ak_slot a = Some v" for v using that by (simp add: await_receiver_def closing_def)
  have "?ph \<noteq> AskDone r" "?ph \<noteq> AskRegistering" for r by (simp_all split: option.splits)
  then have "bridge_ok env (s\<lparr>bs_askers := (bs_askers s)(g \<mapsto> a\<lparr>ak_phase := ?ph\<rparr>), bs_overlooked := removeAll g (bs_overlooked s), bs_reads := bs_reads s @ []\<rparr>)"
    using cl sl by (intro asker_update_ok [OF looked(3,1) _ _ _ _ _ _ _ refl]) (simp_all add: value_placed_def)
  then show ?case by simp
next
  case (polled s g a poll deadline)
  let ?ph = "case await_poll poll deadline of Some r \<Rightarrow> AskDeciding r | None \<Rightarrow> AskWaiting"
  have ok: "asker_ok s g a" using polled(1,3) by (simp add: bridge_ok_def)
  have cl: "(g, v) \<in> set (store_read g poll)" if "closing ?ph = Some (AskAnswered v)" for v
    using that unfolding await_poll_def store_read_def closing_def
    by (auto split: option.splits if_splits poll_result.splits sum.splits read_outcome_hi.splits iron_error.splits)
  have "g \<in> set (bs_overlooked s)" if "ak_slot a = Some v" for v using ok polled(2) that by (auto simp: asker_ok_def value_placed_def closing_def)
  then have "bridge_ok env (s\<lparr>bs_askers := (bs_askers s)(g \<mapsto> a\<lparr>ak_phase := ?ph\<rparr>), bs_overlooked := bs_overlooked s, bs_reads := bs_reads s @ store_read g poll\<rparr>)"
    using cl by (intro asker_update_ok [OF polled(3,1) _ _ _ _ _ _ _ refl]) (auto simp: value_placed_def closing_def split: option.splits)
  then show ?case by simp
next
  case (receiver_dropped s g a r)
  have "asker_ok s g a" using receiver_dropped(1,3) by (simp add: bridge_ok_def)
  then have "bridge_ok env (s\<lparr>bs_askers := (bs_askers s)(g \<mapsto> a\<lparr>ak_phase := AskCleanup r\<rparr>)\<rparr>)" using receiver_dropped(2)
    by (intro asker_phase_ok [OF receiver_dropped(3,1)]) (auto simp: asker_ok_def value_placed_def closing_def)
  then show ?case by simp
next
  case (cleaned s g a r)
  have "asker_ok s g a" using cleaned(1,3) by (simp add: bridge_ok_def)
  then have "bridge_ok env (s\<lparr>bs_askers := (bs_askers s)(g \<mapsto> a\<lparr>ak_phase := AskClosing r\<rparr>)\<rparr>)" using cleaned(2)
    by (intro asker_phase_ok [OF cleaned(3,1)]) (auto simp: asker_ok_def value_placed_def closing_def)
  then show ?case by simp
next
  case (cancelled s g a)
  have "bridge_ok env (s\<lparr>bs_askers := (bs_askers s)(g \<mapsto> a\<lparr>ak_phase := AskClosing AskCancelled\<rparr>)\<rparr>)"
    by (rule asker_phase_ok [OF cancelled(3,1)]) (simp_all add: value_placed_def closing_def)
  then show ?case by simp
next
  case (closed s g a r)
  note D = bridge_okD [OF closed(3)]
  let ?b = "drop_registration (ak_id a) g (bs_bridge s)" and ?a = "a\<lparr>ak_phase := AskDone r\<rparr>"
  let ?s = "s\<lparr>bs_bridge := ?b, bs_askers := (bs_askers s)(g \<mapsto> ?a)\<rparr>"
  have b: "?b = (bs_bridge s)\<lparr>ib_pending := filter (\<lambda>q. \<not> (pending_id q = ak_id a \<and> pq_generation q = g)) (ib_pending (bs_bridge s))\<rparr>"
    by (rule drop_exact [OF D(2)])
  have away: "pq_generation q \<noteq> g" if "q \<in> set (ib_pending ?b)" for q using that D(6) [of q] closed(1) by (auto simp: b pending_ok_def)
  have "asker_ok s g a" using D(9) [OF closed(1)] .
  then have "asker_ok ?s g ?a" using closed(2) by (simp add: asker_ok_def value_placed_def closing_def b)
  moreover have "asker_ok ?s h x" if "bs_askers s h = Some x" for h x using D(9) [OF that] by (rule asker_ok_mono) (simp_all add: b)
  moreover have "pending_ok ?s q" if "q \<in> set (ib_pending ?b)" for q using D(6) [of q] that away [OF that] by (auto simp: b pending_ok_def)
  moreover have "distinct (channels ?s)" "distinct (map pending_id (ib_pending ?b))" using D(1,2) by (auto simp: b channels_def distinct_map_filter)
  moreover have "length (ib_pending ?b) \<le> max_pending env" using le_trans [OF length_filter_le D(3)] by (simp add: b)
  moreover have "sum_list (map pq_bytes (ib_pending ?b)) \<le> max_pending_bytes env"
    using le_trans [OF sum_list_filter_le_nat D(4)] by (simp add: b)
  moreover have "ib_pending ?b = []" if "ib_expired ?b" using D(5) that by (simp add: b)
  ultimately have "bridge_ok env ?s" using D(7,8) closed(1,2) by (intro bridge_okI) (auto split: if_splits)
  then show ?case by (simp add: b)
next
  case (expired s)
  have "asker_ok (s\<lparr>bs_bridge := snd (expire_all (bs_bridge s))\<rparr>) g a" if "bs_askers s g = Some a" for g a
  proof -
    have "asker_ok s g a" using expired(1) that by (simp add: bridge_ok_def)
    then show ?thesis by (rule asker_ok_mono) (simp_all add: expire_all_def)
  qed
  then show ?case using expired(1) by (auto simp: bridge_ok_def channels_def expire_all_def)
qed

lemma bridge_run_ok:
  assumes "(bridge_step env qs vs ^^ n) (start_bridge durable) s" "n < u64_max - 1"
  shows "bridge_ok env s \<and> ib_next (bs_bridge s) \<le> n + 1"
  using assms
proof (induction n arbitrary: s)
  case 0
  then show ?case by (auto simp: start_bridge_def new_bridge_def bridge_ok_def channels_def)
next
  case (Suc n)
  then obtain t where t: "(bridge_step env qs vs ^^ n) (start_bridge durable) t" "bridge_step env qs vs t s" by auto
  have "bridge_ok env t" "ib_next (bs_bridge t) \<le> n + 1" using Suc.IH [OF t(1)] Suc.prems(2) by simp_all
  then show ?case using bridge_step_ok [OF t(2)] Suc.prems(2) by fastforce
qed

text \<open>
  C38. Under every interleaving of tasks that ask, answer, time out, are cancelled or expire, as long
  as question numbers do not wrap around: a question accepts at most one answer; a value that was
  reported as delivered stays with the question that it was taken for and is what that question
  returns, unless the task is cancelled or had looked at its receiver for the last time before
  the delivery, in the round that ended it; and a question returns no value that was not
  delivered to it or read for it from the store. The pending questions stay within their limits
  on number and bytes and each belongs to a task that is not done. After expiry there are none,
  and every task that looks at its receiver ends as soon as no answer to it is on its way.
\<close>

theorem delivered_answers_exact:
  assumes "(bridge_step env question_size answer_size ^^ n) (start_bridge durable) s" "n < u64_max - 1"
  shows "distinct (map fst (bs_accepted s)) \<and>
    (\<forall>g v. (g, v) \<in> set (bs_accepted s) \<longrightarrow> (\<exists>a. bs_askers s g = Some a \<and> ak_slot a = Some v \<and>
       (case closing (ak_phase a) of
          None \<Rightarrow> ak_phase a = AskWaiting \<or> ak_phase a = AskPolling \<and> g \<in> set (bs_overlooked s)
        | Some r \<Rightarrow> r = AskAnswered v \<or> r = AskCancelled \<or> g \<in> set (bs_overlooked s)))) \<and>
    (\<forall>g a v. bs_askers s g = Some a \<and> closing (ak_phase a) = Some (AskAnswered v) \<longrightarrow> (g, v) \<in> set (bs_accepted s @ bs_reads s)) \<and>
    length (ib_pending (bs_bridge s)) \<le> max_pending env \<and> sum_list (map pq_bytes (ib_pending (bs_bridge s))) \<le> max_pending_bytes env \<and>
    (\<forall>q \<in> set (ib_pending (bs_bridge s)). \<exists>a. bs_askers s (pq_generation q) = Some a \<and> ak_id a = pending_id q \<and> (\<forall>r. ak_phase a \<noteq> AskDone r)) \<and>
    (ib_expired (bs_bridge s) \<longrightarrow> ib_pending (bs_bridge s) = [] \<and>
      (\<forall>g a. bs_askers s g = Some a \<and> g \<notin> fst ` set (bs_sends s) \<longrightarrow> await_receiver (ak_slot a) (sender_there g s) \<noteq> None))"
proof -
  have ok: "bridge_ok env s" using bridge_run_ok [OF assms] by simp
  note D = bridge_okD [OF ok]
  have "\<exists>a. bs_askers s g = Some a \<and> ak_slot a = Some v \<and> (case closing (ak_phase a) of
      None \<Rightarrow> ak_phase a = AskWaiting \<or> ak_phase a = AskPolling \<and> g \<in> set (bs_overlooked s)
    | Some r \<Rightarrow> r = AskAnswered v \<or> r = AskCancelled \<or> g \<in> set (bs_overlooked s))" if acc: "(g, v) \<in> set (bs_accepted s)" for g v
  proof -
    obtain a where a: "bs_askers s g = Some a" using D(8) [OF acc] by blast
    then have "ak_slot a = Some v" "value_placed s g v (ak_phase a)" using D(9) [OF a] acc by (auto simp: asker_ok_def)
    then show ?thesis using a by (auto simp: value_placed_def closing_def split: option.splits)
  qed
  moreover have "(g, v) \<in> set (bs_accepted s @ bs_reads s)" if "bs_askers s g = Some a" "closing (ak_phase a) = Some (AskAnswered v)" for g a v
    using D(9) [OF that(1)] that(2) by (simp add: asker_ok_def)
  moreover have "distinct (map fst (bs_accepted s))" using D(1) by (simp add: channels_def)
  moreover have "\<exists>a. bs_askers s (pq_generation q) = Some a \<and> ak_id a = pending_id q \<and> (\<forall>r. ak_phase a \<noteq> AskDone r)"
    if "q \<in> set (ib_pending (bs_bridge s))" for q using D(6) [OF that] by (auto simp: pending_ok_def)
  moreover have "await_receiver (ak_slot a) (sender_there g s) \<noteq> None"
    if "ib_expired (bs_bridge s)" "g \<notin> fst ` set (bs_sends s)" for g a
    using D(5) [OF that(1)] that(2) by (auto simp: sender_there_def await_receiver_def split: option.splits)
  ultimately show ?thesis using D(3-5) by blast
qed

definition ask_info :: question_info where
  "ask_info = \<lparr>qi_id = ''q1'', qi_prompt = ''Deploy?'', qi_choices = [''yes''], qi_asked_at = ''t'', qi_timeout = 60, qi_kind = ''question''\<rparr>"

definition ask_asked :: bridge_sys where
  "ask_asked = (start_bridge False)\<lparr>bs_bridge := (new_bridge False)\<lparr>ib_next := 2, ib_pending :=
      [\<lparr>pq_info = ask_info, pq_generation = 1, pq_bytes = 100, pq_transport = ProcessLocal\<rparr>]\<rparr>,
    bs_askers := [1 \<mapsto> \<lparr>ak_id = ''q1'', ak_phase = AskWaiting, ak_slot = None\<rparr>]\<rparr>"

abbreviation ask_step :: "bridge_sys \<Rightarrow> bridge_sys \<Rightarrow> bool" where
  "ask_step \<equiv> bridge_step (\<lambda>_. NotPresent) (\<lambda>_. Inr 100) (\<lambda>_. Inr 5)"

lemmas ask_limits = positive_env_limit_def env_ok_def max_pending_def max_pending_bytes_def max_answer_bytes_def max_timeout_secs_def

lemma ask_registered: "ask_step (start_bridge False) ask_asked"
proof -
  have "register (\<lambda>_. NotPresent) (\<lambda>_. Inr 100) ''t'' ''q1'' ''Deploy?'' [''yes''] 60 ''question'' (bs_bridge (start_bridge False)) =
      Inr (1, ask_info, bs_bridge ask_asked)"
    by (simp add: register_def Let_def ask_limits start_bridge_def new_bridge_def pending_get_def ask_asked_def ask_info_def
        wrapping_add_def u64_max_def checked_add_def is_control_def byte_def)
  then have "ask_step (start_bridge False) ((start_bridge False)\<lparr>bs_bridge := bs_bridge ask_asked, bs_askers := (bs_askers (start_bridge False))(1 \<mapsto>
      \<lparr>ak_id = ''q1'', ak_phase = (if ib_durable (bs_bridge ask_asked) then AskRegistering else AskWaiting), ak_slot = None\<rparr>)\<rparr>)"
    by (rule bridge_step.asked [rotated]) (simp add: validate_ask_def Let_def ask_limits checked_add_def u64_max_def)
  then show ?thesis by (simp add: ask_asked_def start_bridge_def new_bridge_def)
qed

lemma four_small: "(4 :: nat) < u64_max - 1"
  by (simp add: u64_max_def)

lemma four_steps: "R a b \<Longrightarrow> R b c \<Longrightarrow> R c d \<Longrightarrow> R d e \<Longrightarrow> (R ^^ 4) a e"
  by (auto simp: numeral_eq_Suc relcompp_apply)

definition ask_at :: "ask_phase \<Rightarrow> json option \<Rightarrow> asker" where
  "ask_at ph slot = \<lparr>ak_id = ''q1'', ak_phase = ph, ak_slot = slot\<rparr>"

definition ask_taken :: "json \<Rightarrow> bridge_sys \<Rightarrow> bridge_sys" where
  "ask_taken v s = s\<lparr>bs_bridge := (bs_bridge ask_asked)\<lparr>ib_pending := []\<rparr>, bs_sends := [(1, v)]\<rparr>"

lemma ask_take:
  assumes "bs_bridge s = bs_bridge ask_asked" "bs_sends s = []"
  shows "ask_step s (ask_taken v s)"
proof -
  have "answer_take (\<lambda>_. NotPresent) (\<lambda>_. Inr 5) ''q1'' v (bs_bridge s) = Inr (1, (bs_bridge ask_asked)\<lparr>ib_pending := []\<rparr>)"
    by (simp add: assms answer_take_def validate_http_answer_size_def ask_limits pending_get_def pending_remove_def pending_id_def ask_asked_def ask_info_def)
  from bridge_step.taken [OF this] show ?thesis by (simp add: ask_taken_def assms(2))
qed

lemma ask_asked_parts [simp]:
  "bs_askers ask_asked = [1 \<mapsto> ask_at AskWaiting None]" "bs_sends ask_asked = []" "bs_accepted ask_asked = []" "bs_overlooked ask_asked = []"
  "bs_reads ask_asked = []"
  by (simp_all add: ask_asked_def start_bridge_def ask_at_def)

theorem delivered_answers_exact_witness:
  "\<exists>s. (ask_step ^^ 4) (start_bridge False) s \<and> bs_accepted s = [(1, JString ''yes'')] \<and>
     (\<exists>a. bs_askers s 1 = Some a \<and> ak_phase a = AskCleanup (AskAnswered (JString ''yes''))) \<and> length (ib_pending (bs_bridge s)) \<le> 16"
proof -
  let ?v = "JString ''yes''"
  let ?s2 = "ask_taken ?v ask_asked"
  let ?s3 = "deliver 1 ?v (ask_at AskWaiting None) (?s2\<lparr>bs_sends := [] @ []\<rparr>)"
  let ?s4 = "?s3\<lparr>bs_askers := (bs_askers ?s3)(1 \<mapsto> (ask_at AskWaiting (Some ?v))\<lparr>ak_phase :=
    (case await_receiver (ak_slot (ask_at AskWaiting (Some ?v))) (sender_there 1 ?s3) of Some r \<Rightarrow> AskCleanup r | None \<Rightarrow> AskPolling)\<rparr>),
    bs_overlooked := removeAll 1 (bs_overlooked ?s3)\<rparr>"
  have 2: "ask_step ask_asked ?s2" by (rule ask_take) simp_all
  have 3: "ask_step ?s2 ?s3" by (rule bridge_step.sent) (simp_all add: ask_taken_def)
  have p3: "bs_askers ?s3 1 = Some (ask_at AskWaiting (Some ?v))"
    by (simp add: deliver_def receiver_open_def ask_taken_def) (simp add: ask_at_def)
  have 4: "ask_step ?s3 ?s4" by (rule bridge_step.looked [OF p3]) (simp add: ask_at_def)
  have run: "(ask_step ^^ 4) (start_bridge False) ?s4"
    by (rule four_steps [of ask_step, OF ask_registered 2 3 4])
  have "length (ib_pending (bs_bridge ?s4)) \<le> max_pending (\<lambda>_. NotPresent)"
    using delivered_answers_exact [OF run four_small] by (elim conjE)
  then have "length (ib_pending (bs_bridge ?s4)) \<le> 16" by (simp add: ask_limits)
  moreover have "\<exists>a. bs_askers ?s4 1 = Some a \<and> ak_phase a = AskCleanup (AskAnswered ?v)" by (simp add: ask_at_def await_receiver_def)
  moreover have "bs_accepted ?s4 = [(1, ?v)]" by (simp add: deliver_def receiver_open_def ask_at_def ask_taken_def)
  ultimately show ?thesis using run by blast
qed

text \<open>
  The exception in the statement above is real. A comment in \<open>await_http_answer\<close> says that an answer already
  accepted by \<open>answer\<close> wins over the deadline; but one that arrives between the round's look at the receiver and
  the return of the function is accepted, and the question still times out.
\<close>

lemma accepted_answer_times_out:
  "\<exists>s. ask_step\<^sup>*\<^sup>* (start_bridge False) s \<and> bs_accepted s = [(1, v)] \<and> bs_askers s 1 = Some (ask_at (AskCleanup AskTimedOut) (Some v))"
proof -
  let ?at = "\<lambda>ph. ask_asked\<lparr>bs_askers := [1 \<mapsto> ask_at ph None]\<rparr>"
  let ?s4 = "ask_taken v (?at (AskDeciding AskTimedOut))"
  let ?s5 = "deliver 1 v (ask_at (AskDeciding AskTimedOut) None) (?s4\<lparr>bs_sends := [] @ []\<rparr>)"
  let ?s6 = "?s5\<lparr>bs_askers := (bs_askers ?s5)(1 \<mapsto> (ask_at (AskDeciding AskTimedOut) (Some v))\<lparr>ak_phase := AskCleanup AskTimedOut\<rparr>)\<rparr>"
  have there: "sender_there 1 ask_asked" by (simp add: sender_there_def ask_asked_def)
  have 2: "ask_step ask_asked (?at AskPolling)"
    using bridge_step.looked [of ask_asked 1 "ask_at AskWaiting None"] there
    by (simp add: ask_at_def await_receiver_def) (simp add: ask_asked_def start_bridge_def)
  have 3: "ask_step (?at AskPolling) (?at (AskDeciding AskTimedOut))"
    using bridge_step.polled [of "?at AskPolling" 1 "ask_at AskPolling None" _ _ _ None True] by (simp add: ask_at_def await_poll_def store_read_def ask_asked_def start_bridge_def)
  have 4: "ask_step (?at (AskDeciding AskTimedOut)) ?s4" by (rule ask_take) simp_all
  have 5: "ask_step ?s4 ?s5" by (rule bridge_step.sent) (simp_all add: ask_taken_def)
  have p5: "bs_askers ?s5 1 = Some (ask_at (AskDeciding AskTimedOut) (Some v))"
    by (simp add: deliver_def receiver_open_def looked_already_def ask_taken_def ask_at_def)
  have 6: "ask_step ?s5 ?s6" by (rule bridge_step.receiver_dropped [OF p5]) (simp add: ask_at_def)
  have "ask_step\<^sup>*\<^sup>* (start_bridge False) ?s6"
    using ask_registered 2 3 4 5 6 by (meson converse_rtranclp_into_rtranclp rtranclp.rtrancl_refl)
  moreover have "bs_accepted ?s6 = [(1, v)]" by (simp add: deliver_def receiver_open_def looked_already_def ask_taken_def ask_at_def)
  moreover have "bs_askers ?s6 1 = Some (ask_at (AskCleanup AskTimedOut) (Some v))" by (simp add: ask_at_def)
  ultimately show ?thesis by blast
qed

section \<open>An answer that arrives late\<close>

definition reused_info :: "string \<Rightarrow> question_info" where
  "reused_info prompt = \<lparr>qi_id = ''q1'', qi_prompt = prompt, qi_choices = [], qi_asked_at = ''t'', qi_timeout = 60, qi_kind = ''approval''\<rparr>"

definition reused_pending :: "nat \<Rightarrow> string \<Rightarrow> pending_transport \<Rightarrow> bridge" where
  "reused_pending g prompt t = \<lparr>ib_pending = [\<lparr>pq_info = reused_info prompt, pq_generation = g, pq_bytes = 100, pq_transport = t\<rparr>],
     ib_durable = True, ib_next = g + 1, ib_expired = False\<rparr>"

definition reused_sys :: "bridge \<Rightarrow> (nat \<rightharpoonup> asker) \<Rightarrow> bridge_sys" where
  "reused_sys b askers = \<lparr>bs_bridge = b, bs_askers = askers, bs_sends = [], bs_accepted = [], bs_overlooked = [], bs_reads = []\<rparr>"

definition reused_asker :: "ask_phase \<Rightarrow> asker" where
  "reused_asker ph = \<lparr>ak_id = ''q1'', ak_phase = ph, ak_slot = None\<rparr>"

lemmas reused_defs = reused_info_def reused_pending_def reused_sys_def reused_asker_def

lemma reused_ask:
  assumes "length prompt \<le> 100" "g < 10"
  shows "ask_step (reused_sys \<lparr>ib_pending = [], ib_durable = True, ib_next = g, ib_expired = False\<rparr> askers)
    (reused_sys (reused_pending g prompt TransportRegistering) (askers(g \<mapsto> reused_asker AskRegistering)))"
proof -
  let ?b = "\<lparr>ib_pending = [], ib_durable = True, ib_next = g, ib_expired = False\<rparr>"
  have r: "register (\<lambda>_. NotPresent) (\<lambda>_. Inr 100) ''t'' ''q1'' prompt [] 60 ''approval'' (bs_bridge (reused_sys ?b askers)) =
      Inr (g, reused_info prompt, reused_pending g prompt TransportRegistering)"
    using assms(2) by (simp add: register_def Let_def ask_limits pending_get_def reused_defs wrapping_add_def u64_max_def checked_add_def is_control_def byte_def)
  have v: "validate_ask (\<lambda>_. NotPresent) prompt [] 60 = Inr ()" using assms(1) by (simp add: validate_ask_def Let_def ask_limits)
  show ?thesis using bridge_step.asked [OF v r, where answer_size = "\<lambda>_. Inr 5"] by (simp add: reused_defs)
qed

lemma reused_register:
  assumes "askers g = Some (reused_asker AskRegistering)"
  shows "ask_step (reused_sys (reused_pending g prompt TransportRegistering) askers)
    (reused_sys (reused_pending g prompt SharedStore) (askers(g \<mapsto> reused_asker AskWaiting)))"
proof -
  have f: "finish_registration (Inr Registered) ''q1'' g (reused_pending g prompt TransportRegistering) = (Inr (), reused_pending g prompt SharedStore)"
    by (simp add: finish_registration_def pending_get_def pending_id_def reused_defs)
  show ?thesis using bridge_step.registered [of "reused_sys (reused_pending g prompt TransportRegistering) askers" g "reused_asker AskRegistering"
      "Inr Registered" "Inr ()" "reused_pending g prompt SharedStore"] assms f by (simp add: reused_defs)
qed

lemma reused_timeout:
  assumes "askers g = Some (reused_asker AskWaiting)"
  shows "ask_step\<^sup>*\<^sup>* (reused_sys (reused_pending g prompt SharedStore) askers)
    (reused_sys (reused_pending g prompt SharedStore) (askers(g \<mapsto> reused_asker (AskClosing AskTimedOut))))"
proof -
  let ?s = "reused_sys (reused_pending g prompt SharedStore) askers"
  let ?at = "\<lambda>ph. reused_sys (reused_pending g prompt SharedStore) (askers(g \<mapsto> reused_asker ph))"
  have there: "sender_there g ?s" by (simp add: sender_there_def reused_defs)
  have "ask_step ?s (?at AskPolling)" using bridge_step.looked [of ?s g "reused_asker AskWaiting"] assms there by (simp add: reused_defs await_receiver_def)
  moreover have "ask_step (?at AskPolling) (?at (AskDeciding AskTimedOut))"
    using bridge_step.polled [of "?at AskPolling" g "reused_asker AskPolling" _ _ _ None True] by (simp add: reused_defs await_poll_def store_read_def)
  moreover have "ask_step (?at (AskDeciding AskTimedOut)) (?at (AskCleanup AskTimedOut))"
    using bridge_step.receiver_dropped [of "?at (AskDeciding AskTimedOut)" g "reused_asker (AskDeciding AskTimedOut)"] by (simp add: reused_defs)
  moreover have "ask_step (?at (AskCleanup AskTimedOut)) (?at (AskClosing AskTimedOut))"
    using bridge_step.cleaned [of "?at (AskCleanup AskTimedOut)" g "reused_asker (AskCleanup AskTimedOut)"] by (simp add: reused_defs)
  ultimately show ?thesis by (meson converse_rtranclp_into_rtranclp rtranclp.rtrancl_refl)
qed

lemma reused_close:
  assumes "askers g = Some (reused_asker (AskClosing AskTimedOut))"
  shows "ask_step (reused_sys (reused_pending g prompt SharedStore) askers)
    (reused_sys \<lparr>ib_pending = [], ib_durable = True, ib_next = g + 1, ib_expired = False\<rparr> (askers(g \<mapsto> reused_asker (AskDone AskTimedOut))))"
  using bridge_step.closed [of "reused_sys (reused_pending g prompt SharedStore) askers" g "reused_asker (AskClosing AskTimedOut)" AskTimedOut] assms
  by (simp add: reused_defs drop_registration_def pending_get_def pending_id_def pending_remove_def)

text \<open>
  C40. \<open>answer_http\<close> wakes the waiting task by the question's identifier alone. Between the store's
  acceptance of an answer and this local delivery, the question may time out and its identifier be
  used for another question; the answer is then delivered to that one, although the human gave it to the
  first and the store accepted it for the first.
\<close>

theorem late_answer_reaches_reused_identifier:
  "\<exists>s t. ask_step\<^sup>*\<^sup>* (start_bridge True) s \<and> ask_step\<^sup>*\<^sup>* s t \<and>
    map (qi_prompt \<circ> pq_info) (ib_pending (bs_bridge s)) = [''Deploy to staging?''] \<and>
    map (qi_prompt \<circ> pq_info) (ib_pending (bs_bridge t)) = [''Deploy to production?''] \<and>
    map_option ak_phase (bs_askers t 1) = Some (AskDone AskTimedOut) \<and> map_option ak_phase (bs_askers t 2) = Some AskWaiting \<and>
    (case answer_http (\<lambda>_. NotPresent) (\<lambda>_. Inr 5) (Inr (Queued ''node'')) (\<lambda>g. g = 2) ''q1'' v (bs_bridge s) (bs_bridge t) of
       (r, b) \<Rightarrow> r = Inr (Queued ''node'') \<and> ib_pending b = [] \<and> ask_step t (t\<lparr>bs_bridge := b, bs_sends := [(2, v)]\<rparr>))"
proof -
  let ?A = "''Deploy to staging?''" and ?B = "''Deploy to production?''"
  let ?s = "reused_sys (reused_pending 1 ?A SharedStore) (Map.empty(1 \<mapsto> reused_asker AskRegistering, 1 \<mapsto> reused_asker AskWaiting))"
  let ?m = "Map.empty(1 \<mapsto> reused_asker AskRegistering, 1 \<mapsto> reused_asker AskWaiting, 1 \<mapsto> reused_asker (AskClosing AskTimedOut), 1 \<mapsto> reused_asker (AskDone AskTimedOut))"
  let ?t = "reused_sys (reused_pending 2 ?B SharedStore) (?m(2 \<mapsto> reused_asker AskRegistering, 2 \<mapsto> reused_asker AskWaiting))"
  have start: "start_bridge True = reused_sys \<lparr>ib_pending = [], ib_durable = True, ib_next = 1, ib_expired = False\<rparr> Map.empty"
    by (simp add: start_bridge_def new_bridge_def reused_sys_def)
  have "ask_step\<^sup>*\<^sup>* (start_bridge True) ?s" unfolding start
    using reused_ask [of ?A 1 Map.empty] reused_register [of "Map.empty(1 \<mapsto> reused_asker AskRegistering)" 1 ?A]
    by (simp add: converse_rtranclp_into_rtranclp)
  moreover have "ask_step\<^sup>*\<^sup>* ?s ?t"
  proof -
    have "ask_step\<^sup>*\<^sup>* ?s (reused_sys (reused_pending 1 ?A SharedStore) (Map.empty(1 \<mapsto> reused_asker AskRegistering, 1 \<mapsto> reused_asker AskWaiting, 1 \<mapsto> reused_asker (AskClosing AskTimedOut))))"
      by (rule reused_timeout) simp
    moreover have "ask_step (reused_sys (reused_pending 1 ?A SharedStore) (Map.empty(1 \<mapsto> reused_asker AskRegistering, 1 \<mapsto> reused_asker AskWaiting, 1 \<mapsto> reused_asker (AskClosing AskTimedOut))))
      (reused_sys \<lparr>ib_pending = [], ib_durable = True, ib_next = 1 + 1, ib_expired = False\<rparr> ?m)" by (rule reused_close) simp
    moreover have "ask_step (reused_sys \<lparr>ib_pending = [], ib_durable = True, ib_next = 1 + 1, ib_expired = False\<rparr> ?m)
      (reused_sys (reused_pending 2 ?B TransportRegistering) (?m(2 \<mapsto> reused_asker AskRegistering)))"
      using reused_ask [of ?B 2 ?m] by (simp add: numeral_2_eq_2)
    moreover have "ask_step (reused_sys (reused_pending 2 ?B TransportRegistering) (?m(2 \<mapsto> reused_asker AskRegistering))) ?t"
      by (rule reused_register) simp
    ultimately show ?thesis by (meson rtranclp.rtrancl_into_rtrancl)
  qed
  moreover have "answer_take (\<lambda>_. NotPresent) (\<lambda>_. Inr 5) ''q1'' v (bs_bridge ?t) = Inr (2, pending_remove ''q1'' (bs_bridge ?t))"
    by (simp add: answer_take_def validate_http_answer_size_def ask_limits pending_get_def pending_id_def reused_defs)
  note take = this
  have "answer_http (\<lambda>_. NotPresent) (\<lambda>_. Inr 5) (Inr (Queued ''node'')) (\<lambda>g. g = 2) ''q1'' v (bs_bridge ?s) (bs_bridge ?t) =
      (Inr (Queued ''node''), pending_remove ''q1'' (bs_bridge ?t))"
    using take by (simp add: answer_http_def answer_def Let_def validate_http_answer_size_def ask_limits)
      (simp add: pending_get_def pending_id_def reused_defs)
  moreover have "ib_pending (pending_remove ''q1'' (bs_bridge ?t)) = []" by (simp add: pending_remove_def pending_id_def reused_defs)
  moreover have "ask_step ?t (?t\<lparr>bs_bridge := pending_remove ''q1'' (bs_bridge ?t), bs_sends := [(2, v)]\<rparr>)"
    using bridge_step.taken [OF take] by (simp add: reused_sys_def)
  moreover have "map (qi_prompt \<circ> pq_info) (ib_pending (bs_bridge ?s)) = [?A]" "map (qi_prompt \<circ> pq_info) (ib_pending (bs_bridge ?t)) = [?B]"
    "map_option ak_phase (bs_askers ?t 1) = Some (AskDone AskTimedOut)" "map_option ak_phase (bs_askers ?t 2) = Some AskWaiting"
    by (simp_all add: reused_defs)
  ultimately show ?thesis by (intro exI [of _ ?s] exI [of _ ?t]) (simp only: prod.case simp_thms)
qed

end
