(* ===== verification/Spec2Isabelle.thy ===== *)
theory Spec2Isabelle
  imports Task_Graph Usage_Tracker Interpolate Message_Bus Lifecycle Chat_History Run_Properties Conversation_Store
    Journal_Stream_Correct Event_Bus_Flush Journal_Writer Input_Bridge_Correct
begin

text \<open>
  A verification library for IronCrew, a Rust engine that runs crews of language-model agents
  described in Lua, from the command line or behind an HTTP service.  Paths below are relative to
  \<^verbatim>\<open>src/src/\<close>.

  \<^bold>\<open>The program.\<close>  A crew is a list of tasks with dependencies (\<^verbatim>\<open>engine/task.rs\<close>); the
  orchestrator runs them in phases, expands their prompts (\<^verbatim>\<open>engine/interpolate.rs\<close>), lets agents
  exchange messages (\<^verbatim>\<open>engine/messagebus.rs\<close>) and keeps their chat histories within bounds
  (\<^verbatim>\<open>llm/provider.rs\<close>).  What happens is published on an event bus and, with a shared store, written to
  a journal that clients read as a stream (\<^verbatim>\<open>engine/eventbus.rs\<close>, \<^verbatim>\<open>engine/run_events.rs\<close>).  Every provider call is accounted for (\<^verbatim>\<open>usage.rs\<close>, \<^verbatim>\<open>usage/\<close>).  The HTTP
  service authenticates a request (\<^verbatim>\<open>api/auth.rs\<close>), refuses mutations while it drains
  (\<^verbatim>\<open>api/lifecycle.rs\<close>), limits their rate (\<^verbatim>\<open>api/admission.rs\<close>) and then works on a store of runs,
  conversations and an idempotency ledger (\<^verbatim>\<open>engine/run_history.rs\<close>, with the record types of
  \<^verbatim>\<open>engine/idempotency.rs\<close>, \<^verbatim>\<open>engine/conversation_record.rs\<close>, \<^verbatim>\<open>engine/conversation_identity.rs\<close>).

  \<^bold>\<open>Theories.\<close>
  \<^item> \<^verbatim>\<open>Prelude\<close>: results as sums, checked, saturating and wrapping arithmetic at 64 and 128 bits,
    decimal text, UTF-8 strings as byte lists and their characters, ASCII classes, splitting and
    trimming, environment lookups.
  \<^item> \<^verbatim>\<open>Task_Graph\<close> (\<^verbatim>\<open>engine/task.rs\<close>): the graph of a crew, \<^verbatim>\<open>validate_dependency_graph\<close>,
    \<^verbatim>\<open>topological_phases\<close>, \<^verbatim>\<open>topological_sort\<close>.  Hash-map iteration order is an argument and every
    theorem holds for each order; the loops are total functions.
  \<^item> \<^verbatim>\<open>Usage\<close>, \<^verbatim>\<open>Token_Budget\<close>, \<^verbatim>\<open>Usage_Tracker\<close> (\<^verbatim>\<open>usage.rs\<close>, \<^verbatim>\<open>usage/\<close>): receipts and their
    normalisation, aggregates with exact sums or overflow, the decimal wire form, budgets with
    reservations, and the tree of usage scopes; budgets and scopes are also step relations whose
    reachable states satisfy the accounting invariants.
  \<^item> \<^verbatim>\<open>Interpolate\<close>, \<^verbatim>\<open>Message_Bus\<close>, \<^verbatim>\<open>Chat_History\<close>: the bounded template expansion as a refinement of
    an unbounded one; the message bus with the critical sections of its senders interleaved, whose
    queues are exactly the longest recent runs of unbounded mailboxes; trimming by whole user turns.
  \<^item> \<^verbatim>\<open>Admission\<close>, \<^verbatim>\<open>Auth\<close>, \<^verbatim>\<open>Lifecycle\<close>: the token buckets and the rate they allow over any interval,
    the tokens and the principals they name, the phases of the process under interleaved
    compare-exchange loops, handlers that see and change the state of the service, and the composition of the three middlewares in the router
    (\<^verbatim>\<open>api/mod.rs\<close>).
  \<^item> \<^verbatim>\<open>Idempotency\<close>, \<^verbatim>\<open>Conversation\<close>: the record types of the store and their validation.
    \<^verbatim>\<open>Conversation_Json\<close>: the scanner that checks the text of a conversation before it is decoded
    (\<^verbatim>\<open>engine/conversation_json.rs\<close>).
  \<^item> \<^verbatim>\<open>Store_Base\<close>: the directories of the JSON store as association lists of files, operations in
    an error-and-state monad, with reads, atomic writes, creations and removals that may fail before
    or after the file is published, as chosen by a fault oracle.
  \<^item> \<^verbatim>\<open>Ledger\<close>, \<^verbatim>\<open>Run_Store\<close>: every operation of \<^verbatim>\<open>JsonFileStore\<close> on idempotency records, runs and
    conversations.
  \<^item> \<^verbatim>\<open>Ledger_Spec\<close>: an abstract ledger, a finite map with a step relation for the transitions a
    record may make, and the locale \<^verbatim>\<open>ledger_store\<close> in which the consequences for sequences of
    calls are proved once.  \<^verbatim>\<open>Ledger_Refine\<close> shows that each operation refines the abstract
    steps under every fault; \<^verbatim>\<open>Store_Correct\<close> collects the calls of the service and interprets the
    locale on them.
  \<^item> \<^verbatim>\<open>Store_Properties\<close>, \<^verbatim>\<open>Run_Properties\<close>, \<^verbatim>\<open>Conversation_Store\<close>: what the service relies on: a request
    is granted once, records survive every other call, completed requests are replayed, finished
    runs are final, reconciliation leaves no orphan, conversations are isolated, and a
    saved one is read back with the same content exactly when the record as decoded, with the
    capacities the decoder gives it, is within the limits.

  \<^item> \<^verbatim>\<open>Run_Events\<close> (\<^verbatim>\<open>engine/run_events.rs\<close>, \<^verbatim>\<open>engine/run_event_timing.rs\<close>): the configuration, cursors,
    batches, bounds, gaps and pages of the durable run-event journal.  \<^verbatim>\<open>Journal\<close>
    (\<^verbatim>\<open>engine/postgres_store/run_events/\<close>, \<^verbatim>\<open>engine/postgres_store/schema/events.rs\<close>): its tables and the
    transactions that append, prune, evict, delete and read.  \<^verbatim>\<open>Journal_Correct\<close> and \<^verbatim>\<open>Journal_Append\<close>
    prove the invariant statement by statement, \<^verbatim>\<open>Journal_Demo\<close> evaluates an append for the witnesses,
    \<^verbatim>\<open>Journal_Props\<close> closes the invariant over histories of transactions, \<^verbatim>\<open>Journal_Read\<close> shows that
    every page that is returned is exact, and when one is.  \<^verbatim>\<open>Journal_Stream\<close> is the event stream of a run over the journal
    (\<^verbatim>\<open>flow_events\<close> in \<^verbatim>\<open>api/handlers.rs\<close>); \<^verbatim>\<open>Journal_Stream_Correct\<close> states what the stream asks of
    its source as the locale \<^verbatim>\<open>journal_source\<close>, proves that streams are exact, resumable and end,
    and interprets the locale on the journal.
  \<^item> \<^verbatim>\<open>Event_Bus\<close> (\<^verbatim>\<open>engine/eventbus.rs\<close>): the events of a run and their wire form, bounding, the replay
    buffer, the ring of the live channel and its receivers, the durable producer, and a step relation in which publishers, callers that flush or
    finish, and the writer task interleave.  \<^verbatim>\<open>Event_Bus_Correct\<close>: the replay buffer is the longest
    suffix within its limits, a subscriber is told of every later event once or that it was missed,
    and the writer gives the store only valid batches, in order.
    \<^verbatim>\<open>Event_Bus_Flush\<close>: an answered flush is a barrier.  \<^verbatim>\<open>Journal_Writer\<close>: the retries of an append, and
    that an acknowledged batch is in the journal that the acknowledging transaction leaves.
  \<^item> \<^verbatim>\<open>Input_Bridge\<close> (\<^verbatim>\<open>engine/input_bridge.rs\<close>): questions to the human operator; registration, answers,
    timeouts, cancellation and expiry as interleaved steps, down to the order in which a waiting
    task looks at its receiver, the store and the deadline, and the writes of the run status while
    tasks wait, which may fail or land after their task is gone.  \<^verbatim>\<open>Input_Bridge_Correct\<close>: delivered
    answers are returned unless they come after the last look, limits hold, the status settles after
    acknowledged writes; and races in which an accepted answer times out, a late write leaves a stale
    status, and an answer reaches a later question with the same identifier.

  \<^bold>\<open>Bounds and fuel.\<close>  Loops are structural or total by a measure.  The event stream of a
  run may go on for as long as the run does, so \<^verbatim>\<open>stream_loop\<close> takes the number of reads; that a
  finished run's stream ends is a theorem with an explicit number of reads.
  Machine integers are naturals with the checked, saturating or wrapping operation of the source
  written out at its width.  Strings are their UTF-8 bytes.

  \<^bold>\<open>Parameters.\<close>  RFC 3339 parsing and formatting (chrono), SHA-256 and HMAC (ring, sha2), UUIDs,
  float parsing, \<^verbatim>\<open>serde_json\<close>, the sizes Rust's allocator reports, clock readings, file system
  faults, and of PostgreSQL the failures of statements and commits, its clock, \<^verbatim>\<open>jsonb\<close> and the text
  collation are arguments of the definitions that use them.  A Tokio semaphore is its number of free
  permits, a bounded channel its queue, the number of slots of a broadcast ring an argument.  What a property needs of them is a named
  hypothesis, and its witness instantiates it.

  \<^bold>\<open>Not modelled.\<close>  The SQLite store and, but for the run-event journal, the PostgreSQL store
  (the transactions of the database servers carry their guarantees), provider clients, MCP transports, tools that touch the network, the shell or
  the disk, the Lua virtual machine and its bindings, the command line and the metrics exporters.
\<close>

end
